(* ===== verification/Mmtk_Prelude.thy ===== *)
theory Mmtk_Prelude
  imports Main "HOL-Library.Word" "HOL-Library.Monad_Syntax"
begin

text \<open>
  The vocabulary every component of the development shares: the machine types of the Rust
  source, the partiality of Rust (a panic is the value \<open>None\<close> of the option monad), wrap-around
  of the 32-bit signed integers, and the generic lemmas on words, lists and monadic folds that
  the component proofs use.

  The definitions model the 64-bit release build: \<open>usize\<close> is a 64-bit word, the additive
  operators wrap, \<open>debug_assert!\<close> is compiled out, while \<open>assert!\<close>, \<open>unwrap\<close>, slice
  indexing and division by zero still panic.
\<close>

unbundle bit_operations_syntax

section \<open>Machine types\<close>

type_synonym usize = "64 word"
type_synonym u8 = "8 word"
type_synonym i32_bits = "32 word"

text \<open>
  A value of type \<open>i32\<close> that the code computes with (a unit number, a size, an index) is a
  mathematical integer; \<open>i32\<close> is the wrap-around of the 32-bit type, written at every
  addition, subtraction, multiplication and shift.
\<close>

definition i32 :: "int \<Rightarrow> int" where
  "i32 x = (x + 2 ^ 31) mod 2 ^ 32 - 2 ^ 31"

named_theorems i32_simps \<open>identities of the wrap-around on values in range\<close>

lemma i32_id [simp, i32_simps]: "- (2 ^ 31) \<le> x \<Longrightarrow> x < 2 ^ 31 \<Longrightarrow> i32 x = x"
  by (simp add: i32_def)

lemma i32_range: "- (2 ^ 31) \<le> i32 x \<and> i32 x < 2 ^ 31"
  unfolding i32_def using pos_mod_bound [of "2 ^ 32" "x + 2 ^ 31"] pos_mod_sign [of "2 ^ 32" "x + 2 ^ 31"]
  by auto

text \<open>The truncating remainder of Rust's \<open>%\<close>; it panics on a zero divisor.\<close>

definition rust_rem :: "int \<Rightarrow> int \<Rightarrow> int option" where
  "rust_rem a b = (if b = 0 then None else Some (sgn a * (\<bar>a\<bar> mod \<bar>b\<bar>)))"

definition rust_div :: "int \<Rightarrow> int \<Rightarrow> int option" where
  "rust_div a b = (if b = 0 then None else Some (sgn a * sgn b * (\<bar>a\<bar> div \<bar>b\<bar>)))"

section \<open>Panics\<close>

text \<open>\<open>assert!\<close>: a failed assertion is a panic, that is \<open>None\<close>.\<close>

definition rust_assert :: "bool \<Rightarrow> unit option" where
  "rust_assert b = (if b then Some () else None)"

lemma rust_assert_simps [simp]:
  "rust_assert True = Some ()"
  "rust_assert False = None"
  "rust_assert b = Some x \<longleftrightarrow> b"
  "rust_assert b = None \<longleftrightarrow> \<not> b"
  by (simp_all add: rust_assert_def)

text \<open>A \<open>for\<close> loop over a range whose body may panic.\<close>

fun foldM :: "('a \<Rightarrow> 's \<Rightarrow> 's option) \<Rightarrow> 'a list \<Rightarrow> 's \<Rightarrow> 's option" where
  "foldM f [] s = Some s"
| "foldM f (x # xs) s = do { s' \<leftarrow> f x s; foldM f xs s' }"

lemma foldM_append: "foldM f (xs @ ys) s = do { s' \<leftarrow> foldM f xs s; foldM f ys s' }"
  by (induction xs arbitrary: s) (auto split: Option.bind_split)

lemma foldM_inv:
  assumes "P [] s"
    and "\<And>ys y t. \<exists>zs. xs = ys @ y # zs \<Longrightarrow> P ys t \<Longrightarrow> \<exists>t'. f y t = Some t' \<and> P (ys @ [y]) t'"
  shows "\<exists>t. foldM f xs s = Some t \<and> P xs t"
  using assms
proof (induction xs rule: rev_induct)
  case Nil
  then show ?case by simp
next
  case (snoc x xs)
  have "\<exists>t. foldM f xs s = Some t \<and> P xs t"
    by (rule snoc.IH [OF snoc.prems(1)]) (use snoc.prems(2) in \<open>metis append.assoc append_Cons\<close>)
  then obtain t where t: "foldM f xs s = Some t" "P xs t" by blast
  obtain t' where "f x t = Some t'" "P (xs @ [x]) t'"
    using snoc.prems(2) [of xs x t] t(2) by auto
  then show ?case using t by (simp add: foldM_append)
qed

lemma foldM_preserves:
  assumes "\<And>x s s'. f x s = Some s' \<Longrightarrow> h s' = h s"
  shows "foldM f xs s = Some s' \<Longrightarrow> h s' = h s"
  using assms by (induction xs arbitrary: s) (auto simp: Option.bind_eq_Some_conv)

lemma fst_mem: "(u, n) \<in> set bs \<Longrightarrow> u \<in> fst ` set bs"
  by (simp add: rev_image_eqI)

end
