(* ===== verification/FreeList.thy ===== *)
theory FreeList
  imports Mmtk_Prelude
begin

text \<open>
  The free-list allocator of \<open>src/util/freelist.rs\<close>. The trait \<open>FreeList\<close> leaves four
  operations to its implementors (the list's own head, the number of heads that share the table,
  reading and writing a table entry); they are the record \<open>free_list_trait\<close>, and every default
  method of the trait is a function of such a record and of the implementor's state. A unit
  \<open>u\<close> owns the two consecutive 32-bit entries \<open>2 * (u + heads)\<close> (the low entry: free bit,
  uncoalescable bit, previous link) and \<open>2 * (u + heads) + 1\<close> (the high entry: multi-unit bit,
  next link or size).
\<close>

section \<open>Constants\<close>

definition FAILURE :: int where
  "FAILURE = -1"

definition MAX_HEADS :: int where
  "MAX_HEADS = 128"

definition TOTAL_BITS :: nat where
  "TOTAL_BITS = 32"

definition UNIT_BITS :: nat where
  "UNIT_BITS = TOTAL_BITS - 2"

definition MAX_UNITS :: int where
  "MAX_UNITS = ((2 ^ UNIT_BITS) - 1) - MAX_HEADS - 1"

definition NEXT_MASK :: i32_bits where
  "NEXT_MASK = push_bit UNIT_BITS 1 - 1"

definition PREV_MASK :: i32_bits where
  "PREV_MASK = push_bit UNIT_BITS 1 - 1"

definition FREE_MASK :: i32_bits where
  "FREE_MASK = push_bit (TOTAL_BITS - 1) 1"

definition MULTI_MASK :: i32_bits where
  "MULTI_MASK = push_bit (TOTAL_BITS - 1) 1"

definition COALESC_MASK :: i32_bits where
  "COALESC_MASK = push_bit (TOTAL_BITS - 2) 1"

definition SIZE_MASK :: i32_bits where
  "SIZE_MASK = push_bit UNIT_BITS 1 - 1"

definition I32_MAX :: int where
  "I32_MAX = 2 ^ 31 - 1"

section \<open>The trait\<close>

record 's free_list_trait =
  head :: "'s \<Rightarrow> int"
  heads :: "'s \<Rightarrow> int"
  get_entry :: "'s \<Rightarrow> int \<Rightarrow> i32_bits option"
  set_entry :: "'s \<Rightarrow> int \<Rightarrow> i32_bits \<Rightarrow> 's option"

definition get_lo_entry :: "'s free_list_trait \<Rightarrow> 's \<Rightarrow> int \<Rightarrow> i32_bits option" where
  "get_lo_entry T s unit = get_entry T s (i32 (2 * i32 (unit + heads T s)))"

definition get_hi_entry :: "'s free_list_trait \<Rightarrow> 's \<Rightarrow> int \<Rightarrow> i32_bits option" where
  "get_hi_entry T s unit = get_entry T s (i32 (i32 (2 * i32 (unit + heads T s)) + 1))"

definition set_lo_entry :: "'s free_list_trait \<Rightarrow> 's \<Rightarrow> int \<Rightarrow> i32_bits \<Rightarrow> 's option" where
  "set_lo_entry T s unit value = set_entry T s (i32 (2 * i32 (unit + heads T s))) value"

definition set_hi_entry :: "'s free_list_trait \<Rightarrow> 's \<Rightarrow> int \<Rightarrow> i32_bits \<Rightarrow> 's option" where
  "set_hi_entry T s unit value = set_entry T s (i32 (i32 (2 * i32 (unit + heads T s)) + 1)) value"

definition is_free :: "'s free_list_trait \<Rightarrow> 's \<Rightarrow> int \<Rightarrow> bool option" where
  "is_free T s i = do { lo \<leftarrow> get_lo_entry T s i; Some ((lo AND FREE_MASK) = FREE_MASK) }"

definition is_multi :: "'s free_list_trait \<Rightarrow> 's \<Rightarrow> int \<Rightarrow> bool option" where
  "is_multi T s i = do { hi \<leftarrow> get_hi_entry T s i; Some ((hi AND MULTI_MASK) = MULTI_MASK) }"

definition set_uncoalescable :: "'s free_list_trait \<Rightarrow> 's \<Rightarrow> int \<Rightarrow> 's option" where
  "set_uncoalescable T s unit = do {
     lo \<leftarrow> get_lo_entry T s unit;
     set_lo_entry T s unit (lo OR COALESC_MASK) }"

definition clear_uncoalescable :: "'s free_list_trait \<Rightarrow> 's \<Rightarrow> int \<Rightarrow> 's option" where
  "clear_uncoalescable T s unit = do {
     lo \<leftarrow> get_lo_entry T s unit;
     set_lo_entry T s unit (lo AND NOT COALESC_MASK) }"

definition is_coalescable :: "'s free_list_trait \<Rightarrow> 's \<Rightarrow> int \<Rightarrow> bool option" where
  "is_coalescable T s unit = do { lo \<leftarrow> get_lo_entry T s unit; Some ((lo AND COALESC_MASK) = 0) }"

definition get_left :: "'s free_list_trait \<Rightarrow> 's \<Rightarrow> int \<Rightarrow> int option" where
  "get_left T s unit = do {
     hi \<leftarrow> get_hi_entry T s (i32 (unit - 1));
     if (hi AND MULTI_MASK) = MULTI_MASK
     then do { hi' \<leftarrow> get_hi_entry T s (i32 (unit - 1)); Some (i32 (unit - sint (hi' AND SIZE_MASK))) }
     else Some (i32 (unit - 1)) }"

definition set_prev :: "'s free_list_trait \<Rightarrow> 's \<Rightarrow> int \<Rightarrow> int \<Rightarrow> 's option" where
  "set_prev T s unit prev = do {
     old_value \<leftarrow> get_lo_entry T s unit;
     set_lo_entry T s unit ((old_value AND NOT PREV_MASK) OR (word_of_int prev AND PREV_MASK)) }"

definition get_prev :: "'s free_list_trait \<Rightarrow> 's \<Rightarrow> int \<Rightarrow> int option" where
  "get_prev T s unit = do {
     lo \<leftarrow> get_lo_entry T s unit;
     let prev = sint (lo AND PREV_MASK) in
     Some (if prev \<le> MAX_UNITS then prev else head T s) }"

definition set_next :: "'s free_list_trait \<Rightarrow> 's \<Rightarrow> int \<Rightarrow> int \<Rightarrow> 's option" where
  "set_next T s unit next = do {
     old_value \<leftarrow> get_hi_entry T s unit;
     set_hi_entry T s unit ((old_value AND NOT NEXT_MASK) OR (word_of_int next AND NEXT_MASK)) }"

definition get_next :: "'s free_list_trait \<Rightarrow> 's \<Rightarrow> int \<Rightarrow> int option" where
  "get_next T s unit = do {
     hi \<leftarrow> get_hi_entry T s unit;
     let next = sint (hi AND NEXT_MASK) in
     Some (if next \<le> MAX_UNITS then next else head T s) }"

definition get_size :: "'s free_list_trait \<Rightarrow> 's \<Rightarrow> int \<Rightarrow> int option" where
  "get_size T s unit = do {
     hi \<leftarrow> get_hi_entry T s unit;
     if (hi AND MULTI_MASK) = MULTI_MASK
     then do { hi' \<leftarrow> get_hi_entry T s (i32 (unit + 1)); Some (sint (hi' AND SIZE_MASK)) }
     else Some 1 }"

definition set_free :: "'s free_list_trait \<Rightarrow> 's \<Rightarrow> int \<Rightarrow> bool \<Rightarrow> 's option" where
  "set_free T s unit is_free_arg = do {
     lo \<leftarrow> get_lo_entry T s unit;
     if is_free_arg then do {
       s \<leftarrow> set_lo_entry T s unit (lo OR FREE_MASK);
       size \<leftarrow> get_size T s unit;
       if size > 1 then do {
         lo \<leftarrow> get_lo_entry T s (i32 (i32 (unit + size) - 1));
         set_lo_entry T s (i32 (i32 (unit + size) - 1)) (lo OR FREE_MASK) }
       else Some s }
     else do {
       s \<leftarrow> set_lo_entry T s unit (lo AND NOT FREE_MASK);
       size \<leftarrow> get_size T s unit;
       if size > 1 then do {
         lo \<leftarrow> get_lo_entry T s (i32 (i32 (unit + size) - 1));
         set_lo_entry T s (i32 (i32 (unit + size) - 1)) (lo AND NOT FREE_MASK) }
       else Some s } }"

definition get_free :: "'s free_list_trait \<Rightarrow> 's \<Rightarrow> int \<Rightarrow> bool option" where
  "get_free T s unit = do { lo \<leftarrow> get_lo_entry T s unit; Some ((lo AND FREE_MASK) = FREE_MASK) }"

definition set_size :: "'s free_list_trait \<Rightarrow> 's \<Rightarrow> int \<Rightarrow> int \<Rightarrow> 's option" where
  "set_size T s unit sz = do {
     hi \<leftarrow> get_hi_entry T s unit;
     if sz > 1 then do {
       s \<leftarrow> set_hi_entry T s unit (hi OR MULTI_MASK);
       s \<leftarrow> set_hi_entry T s (i32 (unit + 1)) (MULTI_MASK OR word_of_int sz);
       set_hi_entry T s (i32 (i32 (unit + sz) - 1)) (MULTI_MASK OR word_of_int sz) }
     else set_hi_entry T s unit (hi AND NOT MULTI_MASK) }"

definition set_sentinel :: "'s free_list_trait \<Rightarrow> 's \<Rightarrow> int \<Rightarrow> 's option" where
  "set_sentinel T s unit = do {
     s \<leftarrow> set_lo_entry T s unit (NEXT_MASK AND word_of_int unit);
     set_hi_entry T s unit (PREV_MASK AND word_of_int unit) }"

definition get_right :: "'s free_list_trait \<Rightarrow> 's \<Rightarrow> int \<Rightarrow> int option" where
  "get_right T s unit = do { size \<leftarrow> get_size T s unit; Some (i32 (unit + size)) }"

definition add_to_free :: "'s free_list_trait \<Rightarrow> 's \<Rightarrow> int \<Rightarrow> 's option" where
  "add_to_free T s unit = do {
     s \<leftarrow> set_free T s unit True;
     next \<leftarrow> get_next T s (head T s);
     s \<leftarrow> set_next T s unit next;
     s \<leftarrow> set_next T s (head T s) unit;
     s \<leftarrow> set_prev T s unit (head T s);
     set_prev T s next unit }"

definition remove_from_free :: "'s free_list_trait \<Rightarrow> 's \<Rightarrow> int \<Rightarrow> 's option" where
  "remove_from_free T s unit = do {
     next \<leftarrow> get_next T s unit;
     prev \<leftarrow> get_prev T s unit;
     s \<leftarrow> set_next T s prev next;
     set_prev T s next prev }"

definition coalesce :: "'s free_list_trait \<Rightarrow> 's \<Rightarrow> int \<Rightarrow> int \<Rightarrow> 's option" where
  "coalesce T s start end = do {
     end_free \<leftarrow> get_free T s end;
     s \<leftarrow> (if end_free then remove_from_free T s end else Some s);
     start_free \<leftarrow> get_free T s start;
     s \<leftarrow> (if start_free then remove_from_free T s start else Some s);
     size \<leftarrow> get_size T s end;
     set_size T s start (i32 (i32 (end - start) + size)) }"

definition split :: "'s free_list_trait \<Rightarrow> 's \<Rightarrow> int \<Rightarrow> int \<Rightarrow> 's option" where
  "split T s unit sz = do {
     basesize \<leftarrow> get_size T s unit;
     s \<leftarrow> set_size T s unit sz;
     s \<leftarrow> set_size T s (i32 (unit + sz)) (i32 (basesize - sz));
     add_to_free T s (i32 (unit + sz)) }"

definition alloc_unit :: "'s free_list_trait \<Rightarrow> 's \<Rightarrow> int \<Rightarrow> int \<Rightarrow> int \<Rightarrow> (int \<times> 's) option" where
  "alloc_unit T s sz unit unit_size =
     (if unit_size \<ge> sz then do {
        s \<leftarrow> (if unit_size > sz then split T s unit sz else Some s);
        s \<leftarrow> remove_from_free T s unit;
        s \<leftarrow> set_free T s unit False;
        Some (unit, s) }
      else Some (unit, s))"

section \<open>Allocation and release\<close>

text \<open>
  The search loop of \<open>alloc_first_fit\<close>: the loop variables are \<open>unit\<close> and \<open>s\<close>. A table
  whose links form a cycle that misses the head makes it run forever, which is the value
  \<open>None\<close>.
\<close>

partial_function (option) first_fit_loop ::
  "'s free_list_trait \<Rightarrow> 's \<Rightarrow> int \<Rightarrow> int \<Rightarrow> int \<Rightarrow> (int \<times> int) option" where
  "first_fit_loop T s sz unit cur = do {
     unit \<leftarrow> get_next T s unit;
     if unit \<noteq> head T s then do {
       cur \<leftarrow> get_size T s unit;
       if cur < sz then first_fit_loop T s sz unit cur else Some (unit, cur) }
     else Some (unit, cur) }"

definition alloc_first_fit :: "'s free_list_trait \<Rightarrow> 's \<Rightarrow> int \<Rightarrow> (int \<times> 's) option" where
  "alloc_first_fit T s sz = do {
     (unit, cur) \<leftarrow> first_fit_loop T s sz (head T s) 0;
     if unit = head T s then Some (FAILURE, s) else alloc_unit T s sz unit cur }"

partial_function (option) best_fit_loop ::
  "'s free_list_trait \<Rightarrow> 's \<Rightarrow> int \<Rightarrow> int \<Rightarrow> int \<Rightarrow> int \<Rightarrow> (int \<times> int) option" where
  "best_fit_loop T s sz unit best_s best_unit = do {
     unit \<leftarrow> get_next T s unit;
     if unit \<noteq> head T s then do {
       cur \<leftarrow> get_size T s unit;
       if cur \<ge> sz \<and> cur < best_s
       then if cur = sz then Some (cur, unit) else best_fit_loop T s sz unit cur unit
       else best_fit_loop T s sz unit best_s best_unit }
     else Some (best_s, best_unit) }"

definition alloc_best_fit :: "'s free_list_trait \<Rightarrow> 's \<Rightarrow> int \<Rightarrow> (int \<times> 's) option" where
  "alloc_best_fit T s sz = do {
     (best_s, best_unit) \<leftarrow> best_fit_loop T s sz (head T s) I32_MAX I32_MAX;
     if best_s = I32_MAX then Some (FAILURE, s) else alloc_unit T s sz best_unit best_s }"

text \<open>The cargo feature \<open>freelist_best_fit_alloc\<close> is an argument.\<close>

definition alloc :: "bool \<Rightarrow> 's free_list_trait \<Rightarrow> 's \<Rightarrow> int \<Rightarrow> (int \<times> 's) option" where
  "alloc freelist_best_fit_alloc T s sz =
     (if freelist_best_fit_alloc then alloc_best_fit T s sz else alloc_first_fit T s sz)"

definition alloc_from_unit :: "'s free_list_trait \<Rightarrow> 's \<Rightarrow> int \<Rightarrow> int \<Rightarrow> (int \<times> 's) option" where
  "alloc_from_unit T s sz unit = do {
     f \<leftarrow> get_free T s unit;
     if f then do {
       cur \<leftarrow> get_size T s unit;
       if cur \<ge> sz then alloc_unit T s sz unit cur else Some (FAILURE, s) }
     else Some (FAILURE, s) }"

definition free :: "'s free_list_trait \<Rightarrow> 's \<Rightarrow> int \<Rightarrow> bool \<Rightarrow> (int \<times> 's) option" where
  "free T s unit return_coalesced_size = do {
     freed \<leftarrow> get_size T s unit;
     left \<leftarrow> get_left T s unit;
     c \<leftarrow> is_coalescable T s unit;
     start \<leftarrow> (if c then do { f \<leftarrow> get_free T s left; Some (if f then left else unit) } else Some unit);
     right \<leftarrow> get_right T s unit;
     c \<leftarrow> is_coalescable T s right;
     end \<leftarrow> (if c then do { f \<leftarrow> get_free T s right; Some (if f then right else unit) } else Some unit);
     s \<leftarrow> (if start \<noteq> end then coalesce T s start end else Some s);
     freed \<leftarrow> (if return_coalesced_size then get_size T s start else Some freed);
     s \<leftarrow> add_to_free T s start;
     Some (freed, s) }"

definition size_of_unit :: "'s free_list_trait \<Rightarrow> 's \<Rightarrow> int \<Rightarrow> int option" where
  "size_of_unit T s unit = get_size T s unit"

text \<open>The downward loop of \<open>initialize_heap\<close>; a grain that is not positive never reaches its end.\<close>

partial_function (option) grain_loop ::
  "'s free_list_trait \<Rightarrow> int \<Rightarrow> int \<Rightarrow> int \<Rightarrow> 's \<Rightarrow> 's option" where
  "grain_loop T bottom grain cursor s =
     (if cursor \<ge> bottom then do {
        s \<leftarrow> set_size T s cursor grain;
        s \<leftarrow> add_to_free T s cursor;
        grain_loop T bottom grain (i32 (cursor - grain)) s }
      else Some s)"

definition initialize_heap :: "'s free_list_trait \<Rightarrow> 's \<Rightarrow> int \<Rightarrow> int \<Rightarrow> 's option" where
  "initialize_heap T s units grain = do {
     s \<leftarrow> foldM (\<lambda>i s. set_sentinel T s (i32 (- i))) [1..heads T s] s;
     s \<leftarrow> set_sentinel T s units;
     offset \<leftarrow> rust_rem units grain;
     let cursor = i32 (units - offset);
     s \<leftarrow> (if offset > 0 then do { s \<leftarrow> set_size T s cursor offset; add_to_free T s cursor } else Some s);
     grain_loop T 0 grain (i32 (cursor - grain)) s }"

end
