(* ===== verification/FreeList_Fields.thy ===== *)
theory FreeList_Fields
  imports FreeList
begin

text \<open>
  The bit layout of a free-list entry. Bit 31 is the free or multi-unit flag, bit 30 the
  uncoalescable flag, and the low thirty bits hold a link or a size. The lemmas here say what
  each mask operation of the code does to the three fields; the rest of the proofs never looks
  at bits again.
\<close>

definition link_bits :: "i32_bits \<Rightarrow> int" where
  "link_bits v = uint (take_bit 30 v)"

named_theorems entry_fields \<open>effect of the code's mask operations on the fields of an entry\<close>

text \<open>One flag bit and the thirty low bits, kept folded so that evaluation leaves them alone.\<close>

definition flag :: "nat \<Rightarrow> i32_bits" where
  "flag n = push_bit n 1"

definition low30 :: i32_bits where
  "low30 = mask 30"

lemma bit_flag_iff [simp]: "bit (flag n) m \<longleftrightarrow> m = n \<and> n < 32"
  by (auto simp: flag_def bit_simps)

lemma bit_low30_iff [simp]: "bit low30 m \<longleftrightarrow> m < 30"
  by (auto simp: low30_def bit_simps)

lemma entry_eq_iff: "(a :: i32_bits) = b \<longleftrightarrow> (\<forall>n < 32. bit a n = bit b n)"
  by (auto intro: bit_word_eqI)

lemma masks [simp]:
  "NEXT_MASK = low30" "PREV_MASK = low30" "SIZE_MASK = low30"
  "FREE_MASK = flag 31" "MULTI_MASK = flag 31" "COALESC_MASK = flag 30"
  by (simp_all add: NEXT_MASK_def PREV_MASK_def SIZE_MASK_def FREE_MASK_def MULTI_MASK_def
      COALESC_MASK_def UNIT_BITS_def TOTAL_BITS_def flag_def low30_def mask_eq_exp_minus_1 push_bit_eq_mult)

lemma MAX_UNITS_eq: "MAX_UNITS = 1073741694"
  by (simp add: MAX_UNITS_def MAX_HEADS_def UNIT_BITS_def TOTAL_BITS_def)

lemma link_bits_range: "0 \<le> link_bits v" "link_bits v < 2 ^ 30"
  using take_bit_int_less_exp [of 30 "uint v"] by (simp_all add: link_bits_def unsigned_take_bit_eq)

lemma sint_and_mask [entry_fields]: "sint (v AND low30 :: i32_bits) = link_bits v"
proof -
  have "signed_take_bit 31 (uint (take_bit 30 v)) = uint (take_bit 30 v)"
    by (simp add: unsigned_take_bit_eq signed_take_bit_eq_take_bit_minus bit_take_bit_iff
        take_bit_take_bit)
  then show ?thesis
    by (simp add: link_bits_def sint_uint low30_def flip: take_bit_eq_mask)
qed

lemma flag_test [entry_fields]:
  "((v :: i32_bits) AND flag 31 = flag 31) \<longleftrightarrow> bit v 31"
  "((v :: i32_bits) AND flag 30 = 0) \<longleftrightarrow> \<not> bit v 30"
  by (auto simp: entry_eq_iff bit_simps dest: spec [of _ 31] spec [of _ 30])

lemma link_bits_flag [entry_fields]:
  "link_bits (v OR flag 31) = link_bits v"
  "link_bits (v AND NOT (flag 31)) = link_bits v"
  "link_bits (v OR flag 30) = link_bits v"
  "link_bits (v AND NOT (flag 30)) = link_bits v"
proof -
  have "take_bit 30 (v OR flag 31) = take_bit 30 v"
       "take_bit 30 (v AND NOT (flag 31)) = take_bit 30 v"
       "take_bit 30 (v OR flag 30) = take_bit 30 v"
       "take_bit 30 (v AND NOT (flag 30)) = take_bit 30 v" for v :: i32_bits
    by (auto simp: entry_eq_iff bit_simps)
  then show "link_bits (v OR flag 31) = link_bits v"
    "link_bits (v AND NOT (flag 31)) = link_bits v"
    "link_bits (v OR flag 30) = link_bits v"
    "link_bits (v AND NOT (flag 30)) = link_bits v"
    by (simp_all add: link_bits_def)
qed

lemma bit_flag [entry_fields]:
  "bit (v OR flag 31 :: i32_bits) 31"
  "\<not> bit (v AND NOT (flag 31) :: i32_bits) 31"
  "bit (v OR flag 31 :: i32_bits) 30 = bit v 30"
  "bit (v AND NOT (flag 31) :: i32_bits) 30 = bit v 30"
  "bit (v OR flag 30 :: i32_bits) 31 = bit v 31"
  "bit (v AND NOT (flag 30) :: i32_bits) 31 = bit v 31"
  "bit (v OR flag 30 :: i32_bits) 30"
  "\<not> bit (v AND NOT (flag 30) :: i32_bits) 30"
  by (auto simp: bit_simps)

definition put_link :: "i32_bits \<Rightarrow> int \<Rightarrow> i32_bits" where
  "put_link v x = (v AND NOT (low30)) OR (word_of_int x AND low30)"

lemma bit_put_link [entry_fields]:
  "bit (put_link v x) 31 = bit v 31"
  "bit (put_link v x) 30 = bit v 30"
  by (auto simp: put_link_def bit_simps)

lemma link_put_link: "link_bits (put_link v x) = x mod 2 ^ 30"
proof -
  have "take_bit 30 (put_link v x) = take_bit 30 (word_of_int x)"
    by (auto simp: put_link_def entry_eq_iff bit_simps)
  then have "link_bits (put_link v x) = take_bit 30 (uint (word_of_int x :: i32_bits))"
    by (simp add: link_bits_def unsigned_take_bit_eq)
  also have "\<dots> = x mod 2 ^ 30"
    by (simp add: uint_word_of_int take_bit_eq_mod mod_mod_cancel)
  finally show ?thesis .
qed

definition size_entry :: "int \<Rightarrow> i32_bits" where
  "size_entry n = flag 31 OR word_of_int n"

lemma size_entry_fields:
  assumes "0 \<le> n" "n < 2 ^ 30"
  shows "link_bits (size_entry n) = n" and "bit (size_entry n) 31"
proof -
  have "take_bit 30 (size_entry n) = take_bit 30 (word_of_int n)"
    by (auto simp: size_entry_def entry_eq_iff bit_simps)
  then have "link_bits (size_entry n) = take_bit 30 (uint (word_of_int n :: i32_bits))"
    by (simp add: link_bits_def unsigned_take_bit_eq)
  also have "\<dots> = n"
    using assms by (simp add: uint_word_of_int take_bit_take_bit take_bit_int_eq_self flip: take_bit_eq_mod)
  finally show "link_bits (size_entry n) = n" .
  show "bit (size_entry n) 31" by (auto simp: size_entry_def bit_simps)
qed

text \<open>What a sentinel holds: its own number, with both flags clear.\<close>

lemma sentinel_fields [entry_fields]:
  "\<not> bit (low30 AND word_of_int u :: i32_bits) 31"
  "\<not> bit (low30 AND word_of_int u :: i32_bits) 30"
  "link_bits (low30 AND word_of_int u) = u mod 2 ^ 30"
proof -
  have "link_bits (low30 AND word_of_int u) = link_bits (put_link 0 u)"
    by (simp add: put_link_def and.commute)
  then show "link_bits (low30 AND word_of_int u) = u mod 2 ^ 30"
    by (simp add: link_put_link)
qed (auto simp: bit_simps)

text \<open>
  A stored link above \<^const>\<open>MAX_UNITS\<close> stands for the head of the list that reads it.
\<close>

definition decode_link :: "int \<Rightarrow> int \<Rightarrow> int" where
  "decode_link h x = (if x \<le> MAX_UNITS then x else h)"

lemma decode_link_unit [simp]: "0 \<le> u \<Longrightarrow> u \<le> MAX_UNITS \<Longrightarrow> decode_link h (u mod 1073741824) = u"
  by (simp add: decode_link_def MAX_UNITS_eq)

lemma decode_link_head [simp]: "h < 0 \<Longrightarrow> - MAX_HEADS \<le> h \<Longrightarrow> decode_link h (h mod 1073741824) = h"
proof -
  assume a: "h < 0" "- MAX_HEADS \<le> h"
  then have "h mod 2 ^ 30 = h + 2 ^ 30"
    using mod_add_self2 [of h "2 ^ 30"] by (simp add: MAX_HEADS_def del: mod_add_self2)
  with a show ?thesis by (simp add: decode_link_def MAX_UNITS_eq MAX_HEADS_def)
qed

end
