(* ===== verification/FreeList_Shape.thy ===== *)
theory FreeList_Shape
  imports FreeList_Fields
begin

text \<open>
  What a well-formed free-list table looks like, stated on two functions \<open>lo\<close> and \<open>hi\<close> from
  units to entries: the blocks tile the units, the free ones are threaded on one doubly linked
  circular list through the head sentinel, and the sizes are written at both ends of every block.
  The lemmas say which table updates keep that shape; they do not mention the code.
\<close>

type_synonym entries = "int \<Rightarrow> i32_bits"

section \<open>Tilings\<close>

text \<open>\<open>tiled a bs e\<close>: the blocks \<open>bs\<close>, as pairs of start and size, cover \<open>a..<e\<close> in order.\<close>

fun tiled :: "int \<Rightarrow> (int \<times> int) list \<Rightarrow> int \<Rightarrow> bool" where
  "tiled a [] e \<longleftrightarrow> a = e"
| "tiled a ((u, n) # bs) e \<longleftrightarrow> u = a \<and> 1 \<le> n \<and> tiled (a + n) bs e"

lemma tiled_append: "tiled a (xs @ ys) e \<longleftrightarrow> (\<exists>m. tiled a xs m \<and> tiled m ys e)"
  by (induction a xs e rule: tiled.induct) auto

lemma tiled_le: "tiled a bs e \<Longrightarrow> a \<le> e"
  by (induction a bs e rule: tiled.induct) auto

lemma tiled_mem: "tiled a bs e \<Longrightarrow> (u, n) \<in> set bs \<Longrightarrow> a \<le> u \<and> 1 \<le> n \<and> u + n \<le> e"
  by (induction a bs e rule: tiled.induct) (auto dest: tiled_le)

lemma tiled_sum: "tiled a bs e \<Longrightarrow> (\<Sum>(u, n) \<leftarrow> bs. n) = e - a"
  by (induction a bs e rule: tiled.induct) auto

lemma tiled_unique:
  assumes "tiled b ms e" "tiled p ms q" "ms \<noteq> []" shows "p = b" "q = e"
proof -
  show "p = b" using assms by (cases ms) auto
  with tiled_sum [OF assms(1)] tiled_sum [OF assms(2)] show "q = e" by simp
qed

lemma tiled_disjoint:
  "tiled a bs e \<Longrightarrow> (u, n) \<in> set bs \<Longrightarrow> (v, m) \<in> set bs \<Longrightarrow>
   u = v \<and> n = m \<or> u + n \<le> v \<or> v + m \<le> u"
  by (induction a bs e rule: tiled.induct) (auto dest: tiled_mem)

lemma tiled_start_inside:
  assumes "tiled a bs e" "(u, n) \<in> set bs" "v \<in> fst ` set bs" "u \<le> v" "v < u + n"
  shows "v = u"
  using assms tiled_disjoint [OF assms(1,2)] tiled_mem [OF assms(1)] by fastforce

lemma tiled_distinct: "tiled a bs e \<Longrightarrow> distinct (map fst bs)"
  by (induction a bs e rule: tiled.induct) (auto dest: tiled_mem)

lemma tiled_map_of: "tiled a bs e \<Longrightarrow> (u, n) \<in> set bs \<Longrightarrow> map_of bs u = Some n"
  by (simp add: tiled_distinct)

section \<open>Doubly linked segments\<close>

text \<open>\<open>lseg nx pv a xs b\<close>: the links lead from \<open>a\<close> through \<open>xs\<close> to \<open>b\<close> and back.\<close>

fun lseg :: "(int \<Rightarrow> int) \<Rightarrow> (int \<Rightarrow> int) \<Rightarrow> int \<Rightarrow> int list \<Rightarrow> int \<Rightarrow> bool" where
  "lseg nx pv a [] b \<longleftrightarrow> nx a = b \<and> pv b = a"
| "lseg nx pv a (x # xs) b \<longleftrightarrow> nx a = x \<and> pv x = a \<and> lseg nx pv x xs b"

lemma lseg_append [simp]:
  "lseg nx pv a (xs @ y # ys) b \<longleftrightarrow> lseg nx pv a xs y \<and> lseg nx pv y ys b"
  by (induction xs arbitrary: a) auto

lemma lseg_cong:
  assumes "\<And>x. x \<in> insert a (set xs) \<Longrightarrow> nx' x = nx x"
    and "\<And>x. x \<in> insert b (set xs) \<Longrightarrow> pv' x = pv x"
  shows "lseg nx' pv' a xs b = lseg nx pv a xs b"
  using assms by (induction xs arbitrary: a) auto

lemma lseg_first: "lseg nx pv a xs b \<Longrightarrow> nx a = (case xs of [] \<Rightarrow> b | x # _ \<Rightarrow> x)"
  by (cases xs) auto

lemma lseg_last: "lseg nx pv a xs b \<Longrightarrow> pv b = (if xs = [] then a else last xs)"
  by (induction xs arbitrary: a) auto

lemma lseg_push:
  assumes "lseg nx pv h fs h" "u \<noteq> h" "u \<notin> set fs" "h \<notin> set fs" "distinct fs"
  shows "lseg (nx(u := nx h, h := u)) (pv(u := h, nx h := u)) h (u # fs) h"
proof (cases fs)
  case Nil
  with assms show ?thesis by simp
next
  case (Cons x xs)
  with assms have "lseg nx pv x xs h" "nx h = x" "x \<noteq> u" "x \<noteq> h" by auto
  moreover have "lseg (nx(u := x, h := u)) (pv(u := h, x := u)) x xs h = lseg nx pv x xs h"
    using assms Cons by (intro lseg_cong) auto
  ultimately show ?thesis using Cons assms(2) by simp
qed

lemma lseg_unlink:
  assumes seg: "lseg nx pv h (xs @ u # ys) h"
    and nd: "distinct (xs @ u # ys)" "h \<notin> set (xs @ u # ys)"
  shows "lseg (nx(pv u := nx u)) (pv(nx u := pv u)) h (xs @ ys) h"
proof -
  let ?p = "pv u" and ?n = "nx u"
  from seg have l: "lseg nx pv h xs u" and r: "lseg nx pv u ys h" by simp_all
  from l have p: "?p = (if xs = [] then h else last xs)" by (rule lseg_last)
  from r have n: "?n = (case ys of [] \<Rightarrow> h | y # _ \<Rightarrow> y)" by (rule lseg_first)
  define nx' pv' where "nx' = nx(?p := ?n)" and "pv' = pv(?n := ?p)"
  have left: "lseg nx' pv' h xs ?n"
  proof (cases xs rule: rev_cases)
    case Nil
    with p show ?thesis by (simp add: nx'_def pv'_def)
  next
    case (snoc zs z)
    with l p have z: "?p = z" "lseg nx pv h zs z" by simp_all
    have "lseg nx' pv' h zs z = lseg nx pv h zs z"
      using nd snoc z n by (intro lseg_cong) (auto simp: nx'_def pv'_def split: list.splits)
    with z snoc show ?thesis by (simp add: nx'_def pv'_def)
  qed
  have "lseg nx' pv' h (xs @ ys) h"
  proof (cases ys)
    case Nil
    with left n show ?thesis by simp
  next
    case (Cons y zs)
    with r n have y: "?n = y" "lseg nx pv y zs h" by simp_all
    have notin: "?p \<notin> set ys"
      using p nd by (auto split: if_splits dest!: last_in_set)
    have "lseg nx' pv' y zs h = lseg nx pv y zs h"
      using nd Cons y notin by (intro lseg_cong) (auto simp: nx'_def pv'_def)
    with y left Cons show ?thesis by simp
  qed
  then show ?thesis by (simp add: nx'_def pv'_def)
qed

section \<open>The shape of a table\<close>

definition next_of :: "int \<Rightarrow> entries \<Rightarrow> int \<Rightarrow> int" where
  "next_of h f u = decode_link h (link_bits (f u))"

text \<open>A block writes its size at its second and its last unit.\<close>

definition block_ok :: "entries \<Rightarrow> int \<times> int \<Rightarrow> bool" where
  "block_ok hi = (\<lambda>(u, n). if n = 1 then \<not> bit (hi u) 31
     else bit (hi u) 31 \<and> hi (u + 1) = size_entry n \<and> hi (u + n - 1) = size_entry n)"

definition free_bits :: "entries \<Rightarrow> (int \<times> int) list \<Rightarrow> int set \<Rightarrow> bool" where
  "free_bits lo bs F \<longleftrightarrow> (\<forall>u \<in> fst ` set bs. bit (lo u) 31 \<longleftrightarrow> u \<in> F)"

lemma free_bitsD: "free_bits lo bs F \<Longrightarrow> u \<in> fst ` set bs \<Longrightarrow> bit (lo u) 31 \<longleftrightarrow> u \<in> F"
  unfolding free_bits_def by blast

definition sentinels :: "int \<Rightarrow> int \<Rightarrow> entries \<Rightarrow> entries \<Rightarrow> bool" where
  "sentinels H N lo hi \<longleftrightarrow>
     (\<forall>u. (- H \<le> u \<and> u < 0) \<or> u = N \<longrightarrow> \<not> bit (hi u) 31 \<and> \<not> bit (lo u) 31)"

definition shape ::
  "int \<Rightarrow> int \<Rightarrow> int \<Rightarrow> int \<Rightarrow> entries \<Rightarrow> entries \<Rightarrow> (int \<times> int) list \<Rightarrow> int list \<Rightarrow> bool" where
  "shape h H a N lo hi bs fs \<longleftrightarrow>
     0 \<le> a \<and> N \<le> MAX_UNITS \<and> - H \<le> h \<and> h < 0 \<and> H \<le> MAX_HEADS \<and>
     tiled a bs N \<and> (\<forall>b \<in> set bs. block_ok hi b) \<and> distinct fs \<and> set fs \<subseteq> fst ` set bs \<and>
     lseg (next_of h hi) (next_of h lo) h fs h \<and> sentinels H N lo hi"

lemma shapeD:
  assumes "shape h H a N lo hi bs fs"
  shows "0 \<le> a" "N \<le> MAX_UNITS" "- H \<le> h" "h < 0" "H \<le> MAX_HEADS" "tiled a bs N"
    "\<And>b. b \<in> set bs \<Longrightarrow> block_ok hi b" "distinct fs" "set fs \<subseteq> fst ` set bs"
    "lseg (next_of h hi) (next_of h lo) h fs h" "sentinels H N lo hi"
  using assms by (auto simp: shape_def)

lemma shape_start:
  assumes "shape h H a N lo hi bs fs" "u \<in> fst ` set bs"
  shows "0 \<le> u" "u < N" "u \<le> MAX_UNITS" "u \<noteq> h"
proof -
  from assms(2) obtain n where "(u, n) \<in> set bs" by auto
  with tiled_mem [OF shapeD(6) [OF assms(1)]] shapeD(1,2,4) [OF assms(1)]
  show "0 \<le> u" "u < N" "u \<le> MAX_UNITS" "u \<noteq> h" by force+
qed

lemma shape_block:
  assumes "shape h H a N lo hi bs fs" "(u, n) \<in> set bs"
  shows "0 \<le> u" "1 \<le> n" "u + n \<le> N" "n \<le> MAX_UNITS"
  using tiled_mem [OF shapeD(6) [OF assms(1)] assms(2)] shapeD(1,2) [OF assms(1)] by auto

lemma shape_free:
  assumes "shape h H a N lo hi bs fs" "u \<in> set fs"
  obtains n where "(u, n) \<in> set bs"
  using shapeD(9) [OF assms(1)] assms(2) by auto

text \<open>The size the code reads back from a block.\<close>

lemma block_size:
  assumes "shape h H a N lo hi bs fs" "(u, n) \<in> set bs"
  shows "(if bit (hi u) 31 then link_bits (hi (u + 1)) else 1) = n"
  using shapeD(7) [OF assms] shape_block [OF assms]
  by (auto simp: block_ok_def MAX_UNITS_eq size_entry_fields split: if_splits)

text \<open>The start of the left neighbour, as \<open>get_left\<close> computes it from the last unit of that block.\<close>

lemma left_neighbour:
  assumes "shape h H a N lo hi bs fs" "(v, m) \<in> set bs" "v + m = u"
  shows "(if bit (hi (u - 1)) 31 then u - link_bits (hi (u - 1)) else u - 1) = v"
  unfolding assms(3) [symmetric]
  using shapeD(7) [OF assms(1,2)] shape_block [OF assms(1,2)]
  by (auto simp: block_ok_def MAX_UNITS_eq size_entry_fields split: if_splits)

section \<open>Updates that keep the shape\<close>

lemma shape_lo_cong:
  assumes "shape h H a N lo hi bs fs"
    and "\<And>u. link_bits (lo' u) = link_bits (lo u)"
    and "\<And>u. u \<notin> {a..<N} \<Longrightarrow> lo' u = lo u"
  shows "shape h H a N lo' hi bs fs"
proof -
  have "next_of h lo' = next_of h lo" using assms(2) by (simp add: next_of_def fun_eq_iff)
  with assms show ?thesis by (auto simp: shape_def sentinels_def)
qed

lemma block_ok_cong:
  assumes "block_ok hi (u, n)" "1 \<le> n" "\<And>x. u \<le> x \<Longrightarrow> x < u + n \<Longrightarrow> hi' x = hi x"
  shows "block_ok hi' (u, n)"
  using assms by (auto simp: block_ok_def split: if_splits)

definition put_size :: "entries \<Rightarrow> int \<Rightarrow> int \<Rightarrow> entries" where
  "put_size hi u n = (if n > 1
     then hi(u := hi u OR flag 31, u + 1 := size_entry n, u + n - 1 := size_entry n)
     else hi(u := hi u AND NOT (flag 31)))"

lemma put_size_block: "1 \<le> n \<Longrightarrow> block_ok (put_size hi u n) (u, n)"
  by (auto simp: put_size_def block_ok_def entry_fields)

lemma put_size_outside: "1 \<le> n \<Longrightarrow> x < u \<or> u + n \<le> x \<Longrightarrow> put_size hi u n x = hi x"
  by (auto simp: put_size_def)

lemma put_size_link: "1 \<le> n \<Longrightarrow> link_bits (put_size hi u n u) = link_bits (hi u)"
  by (auto simp: put_size_def entry_fields)

text \<open>Rewriting the size entries of a group of neighbouring blocks regroups them.\<close>

lemma shape_regroup:
  assumes sh: "shape h H a N lo hi (xs @ ms @ ys) fs"
    and ms: "tiled b ms e" "ms \<noteq> []"
    and out: "\<And>x. x < b \<or> e \<le> x \<Longrightarrow> hi' x = hi x"
    and new: "tiled b ms' e" "\<And>c. c \<in> set ms' \<Longrightarrow> block_ok hi' c"
    and fs: "\<And>f. f \<in> set fs \<Longrightarrow> b \<le> f \<Longrightarrow> f < e \<Longrightarrow>
      f \<in> fst ` set ms' \<and> link_bits (hi' f) = link_bits (hi f)"
  shows "shape h H a N lo hi' (xs @ ms' @ ys) fs"
proof -
  from shapeD(6) [OF sh] obtain p q where t: "tiled a xs p" "tiled p ms q" "tiled q ys N"
    by (auto simp: tiled_append)
  note pq = tiled_unique [OF ms(1) t(2) ms(2)]
  have ab: "a \<le> b" "b \<le> e" "e \<le> N" using t pq by (auto dest: tiled_le)
  have keep: "block_ok hi' c" if "c \<in> set xs \<union> set ys" for c
  proof -
    obtain u n where c: "c = (u, n)" by (cases c)
    have ok: "block_ok hi (u, n)" using that c shapeD(7) [OF sh] by auto
    have n: "1 \<le> n" and sep: "u + n \<le> b \<or> e \<le> u"
      using that c tiled_mem [OF t(1), of u n] tiled_mem [OF t(3), of u n] pq by auto
    have "hi' x = hi x" if "u \<le> x" "x < u + n" for x
      using sep that by (intro out) linarith
    then show ?thesis unfolding c by (rule block_ok_cong [OF ok n])
  qed
  have link: "link_bits (hi' f) = link_bits (hi f)" if "f \<in> insert h (set fs)" for f
    using that out [of f] fs [of f] shapeD(1,4) [OF sh] ab by (cases "b \<le> f \<and> f < e") auto
  have "lseg (next_of h hi') (next_of h lo) h fs h = lseg (next_of h hi) (next_of h lo) h fs h"
    by (intro lseg_cong) (simp_all add: next_of_def link)
  moreover have "set fs \<subseteq> fst ` set (xs @ ms' @ ys)"
  proof
    fix f assume f: "f \<in> set fs"
    then obtain n where n: "(f, n) \<in> set (xs @ ms @ ys)" by (rule shape_free [OF sh])
    show "f \<in> fst ` set (xs @ ms' @ ys)"
    proof (cases "(f, n) \<in> set ms")
      case True
      with tiled_mem [OF ms(1)] fs [OF f] show ?thesis by force
    next
      case False
      with n show ?thesis by force
    qed
  qed
  moreover have "tiled a (xs @ ms' @ ys) N"
    using t pq new(1) by (auto simp: tiled_append)
  moreover have "sentinels H N lo hi'"
    using shapeD(11,1) [OF sh] ab out by (auto simp: sentinels_def)
  ultimately show ?thesis
    using sh keep new(2) by (auto simp: shape_def)
qed

text \<open>Changing links of the head and of block starts only.\<close>

definition valid_link :: "int \<Rightarrow> int \<Rightarrow> bool" where
  "valid_link h x \<longleftrightarrow> x = h \<or> 0 \<le> x \<and> x \<le> MAX_UNITS"

lemma next_of_put:
  assumes "shape h H a N lo hi bs fs" "valid_link h x"
  shows "next_of h (f(u := put_link v x)) = (next_of h f)(u := x)"
  using assms(2) shapeD(3-5) [OF assms(1)]
  by (auto simp: fun_eq_iff next_of_def link_put_link valid_link_def)

lemma shape_valid:
  assumes "shape h H a N lo hi bs fs" "x \<in> insert h (fst ` set bs)"
  shows "valid_link h x" "- H \<le> x" "x \<le> N"
  using assms(2) shape_start [OF assms(1), of x] shapeD(1-6) [OF assms(1)] tiled_le
  unfolding valid_link_def by fastforce+

lemma shape_relink:
  assumes sh: "shape h H a N lo hi bs fs"
    and flags: "\<And>x. bit (hi' x) 31 = bit (hi x) 31" "\<And>x. bit (lo' x) 31 = bit (lo x) 31"
    and only: "\<And>x. x \<notin> insert h (fst ` set bs) \<Longrightarrow> hi' x = hi x"
    and fs: "distinct fs'" "set fs' \<subseteq> fst ` set bs"
    and seg: "lseg (next_of h hi') (next_of h lo') h fs' h"
  shows "shape h H a N lo' hi' bs fs'"
proof -
  have "block_ok hi' b" if b: "b \<in> set bs" for b
  proof -
    obtain u n where un: "b = (u, n)" by (cases b)
    note blk = shape_block [OF sh b [unfolded un]]
    have "hi' x = hi x" if "u < x" "x < u + n" for x
    proof (rule only)
      from that blk shapeD(4) [OF sh] show "x \<notin> insert h (fst ` set bs)"
        using tiled_start_inside [OF shapeD(6) [OF sh] b [unfolded un], of x] by auto
    qed
    with shapeD(7) [OF sh b] flags blk show ?thesis
      by (auto simp: un block_ok_def split: if_splits)
  qed
  with sh fs seg flags show ?thesis by (simp add: shape_def sentinels_def)
qed

lemma shape_insert:
  assumes sh: "shape h H a N lo hi bs fs" and u: "u \<in> fst ` set bs" "u \<notin> set fs"
  defines "nxt \<equiv> next_of h hi h"
  defines "hi1 \<equiv> hi(u := put_link (hi u) nxt)"
  defines "lo1 \<equiv> lo(u := put_link (lo u) h)"
  shows "shape h H a N (lo1(nxt := put_link (lo1 nxt) u)) (hi1(h := put_link (hi1 h) u)) bs (u # fs)"
proof -
  note st = shape_start [OF sh u(1)] and vu = shape_valid [OF sh]
  have nfs: "nxt \<in> insert h (set fs)"
    unfolding nxt_def using lseg_first [OF shapeD(10) [OF sh]] by (cases fs) auto
  then have nxt: "nxt \<in> insert h (fst ` set bs)" using shapeD(9) [OF sh] by auto
  have valid: "valid_link h u" "valid_link h h" "valid_link h nxt"
    using vu(1) [of u] vu(1) [of h] vu(1) [OF nxt] u by auto
  have "h \<notin> set fs" using shapeD(9) [OF sh] shape_start(4) [OF sh] by blast
  with lseg_push [OF shapeD(10) [OF sh] st(4) u(2) _ shapeD(8) [OF sh]]
  have "lseg (next_of h (hi1(h := put_link (hi1 h) u))) (next_of h (lo1(nxt := put_link (lo1 nxt) u))) h (u # fs) h"
    unfolding hi1_def lo1_def next_of_put [OF sh valid(1)] next_of_put [OF sh valid(2)]
      next_of_put [OF sh valid(3)] by (simp add: nxt_def)
  then show ?thesis
    using shapeD(8,9) [OF sh] u
    by (intro shape_relink [OF sh]) (auto simp: hi1_def lo1_def entry_fields)
qed

lemma shape_remove:
  assumes sh: "shape h H a N lo hi bs fs" and u: "u \<in> set fs"
  defines "nxt \<equiv> next_of h hi u" and "prv \<equiv> next_of h lo u"
  shows "shape h H a N (lo(nxt := put_link (lo nxt) prv)) (hi(prv := put_link (hi prv) nxt)) bs (remove1 u fs)"
    and "nxt \<in> insert h (fst ` set bs)" and "prv \<in> insert h (fst ` set bs)"
proof -
  obtain xs ys where fs: "fs = xs @ u # ys" using u by (meson split_list)
  note seg = shapeD(10) [OF sh, unfolded fs] and d = shapeD(8) [OF sh, unfolded fs]
  from seg have "lseg (next_of h hi) (next_of h lo) h xs u" "lseg (next_of h hi) (next_of h lo) u ys h"
    by simp_all
  then have "prv = (if xs = [] then h else last xs)" "nxt = (case ys of [] \<Rightarrow> h | y # _ \<Rightarrow> y)"
    unfolding prv_def nxt_def by (auto dest: lseg_last lseg_first)
  then have "prv \<in> insert h (set xs)" "nxt \<in> insert h (set ys)"
    by (auto split: list.splits)
  then show np: "nxt \<in> insert h (fst ` set bs)" "prv \<in> insert h (fst ` set bs)"
    using shapeD(9) [OF sh] fs by auto
  have hn: "h \<notin> set (xs @ u # ys)" using shapeD(9) [OF sh] shape_start(4) [OF sh] fs by blast
  have "lseg (next_of h (hi(prv := put_link (hi prv) nxt))) (next_of h (lo(nxt := put_link (lo nxt) prv))) h (xs @ ys) h"
    unfolding next_of_put [OF sh shape_valid(1) [OF sh np(1)]] next_of_put [OF sh shape_valid(1) [OF sh np(2)]]
    unfolding nxt_def prv_def by (rule lseg_unlink [OF seg d hn])
  moreover have "remove1 u fs = xs @ ys" using fs d by (simp add: remove1_append)
  ultimately show "shape h H a N (lo(nxt := put_link (lo nxt) prv)) (hi(prv := put_link (hi prv) nxt)) bs (remove1 u fs)"
    using shapeD(9) [OF sh] d fs np
    by (intro shape_relink [OF sh]) (auto simp: entry_fields)
qed

text \<open>A new block below the lowest one, as the initialisation loops create them.\<close>

lemma shape_extend:
  assumes sh: "shape h H a N lo hi bs fs" and n: "1 \<le> n" "n \<le> a"
  shows "shape h H (a - n) N lo (put_size hi (a - n) n) ((a - n, n) # bs) fs"
proof -
  have aN: "a \<le> N" using shapeD(6) [OF sh] by (rule tiled_le)
  have keep: "block_ok (put_size hi (a - n) n) b" if b: "b \<in> set bs" for b
  proof -
    obtain u m where un: "b = (u, m)" by (cases b)
    have m: "a \<le> u" "1 \<le> m" using tiled_mem [OF shapeD(6) [OF sh] b [unfolded un]] by auto
    then have "put_size hi (a - n) n x = hi x" if "u \<le> x" for x
      using that n by (intro put_size_outside) auto
    then show ?thesis
      unfolding un by (intro block_ok_cong [OF shapeD(7) [OF sh b, unfolded un] m(2)])
  qed
  have "put_size hi (a - n) n x = hi x" if "x \<in> insert h (set fs)" for x
    using that n shapeD(4) [OF sh] tiled_mem [OF shapeD(6) [OF sh]] shapeD(9) [OF sh]
    by (intro put_size_outside) fastforce+
  then have "lseg (next_of h (put_size hi (a - n) n)) (next_of h lo) h fs h =
      lseg (next_of h hi) (next_of h lo) h fs h"
    by (intro lseg_cong) (simp_all add: next_of_def)
  moreover have "sentinels H N lo (put_size hi (a - n) n)"
    using shapeD(11) [OF sh] n aN by (auto simp: sentinels_def put_size_outside)
  ultimately show ?thesis
    using sh n keep put_size_block [OF n(1)] by (auto simp: shape_def)
qed

end
