(* ===== verification/FreeList_Refine.thy ===== *)
theory FreeList_Refine
  imports FreeList_Shape
begin

text \<open>
  The contract of the free list and the proof that the trait's default methods meet it. The
  abstract state \<open>free_list_spec\<close> is the list of blocks, the order in which the free ones are
  searched, and the set of boundaries that must not be coalesced. The locale \<open>table_store\<close> is
  what the methods rely on: reads and writes of table entries behave like those of an array.
  Inside it every method is shown to compute the corresponding abstract operation and not to
  panic or loop.
\<close>

section \<open>The abstract free list\<close>

record free_list_spec =
  blocks :: "(int \<times> int) list"
  free_units :: "int list"
  uncoalescable :: "int set"

definition spec_size :: "free_list_spec \<Rightarrow> int \<Rightarrow> int" where
  "spec_size a u = (case map_of (blocks a) u of Some n \<Rightarrow> n | None \<Rightarrow> 0)"

fun split_block :: "int \<Rightarrow> int \<Rightarrow> (int \<times> int) list \<Rightarrow> (int \<times> int) list" where
  "split_block u n [] = []"
| "split_block u n ((v, m) # bs) =
     (if v = u then (if n < m then (v, n) # (v + n, m - n) # bs else (v, m) # bs)
      else (v, m) # split_block u n bs)"

fun merge_at :: "int \<Rightarrow> (int \<times> int) list \<Rightarrow> (int \<times> int) list" where
  "merge_at x ((v, m) # (w, n) # bs) =
     (if w = x then (v, m + n) # bs else (v, m) # merge_at x ((w, n) # bs))"
| "merge_at x bs = bs"

fun block_ending_at :: "int \<Rightarrow> (int \<times> int) list \<Rightarrow> int option" where
  "block_ending_at x [] = None"
| "block_ending_at x ((v, m) # bs) = (if v + m = x then Some v else block_ending_at x bs)"

text \<open>Taking \<open>n\<close> units from the front of the free block \<open>u\<close>; the rest goes to the head of the list.\<close>

definition spec_take :: "free_list_spec \<Rightarrow> int \<Rightarrow> int \<Rightarrow> free_list_spec" where
  "spec_take a u n = a\<lparr>blocks := split_block u n (blocks a),
     free_units := (if n < spec_size a u then [u + n] else []) @ remove1 u (free_units a)\<rparr>"

definition spec_first_fit :: "free_list_spec \<Rightarrow> int \<Rightarrow> int option" where
  "spec_first_fit a n = find (\<lambda>u. n \<le> spec_size a u) (free_units a)"

definition spec_alloc :: "free_list_spec \<Rightarrow> int \<Rightarrow> int \<times> free_list_spec" where
  "spec_alloc a n = (case spec_first_fit a n of
     None \<Rightarrow> (FAILURE, a) | Some u \<Rightarrow> (u, spec_take a u n))"

text \<open>Releasing block \<open>u\<close>: it joins its free neighbours across coalescable boundaries.\<close>

definition joins_left :: "free_list_spec \<Rightarrow> int \<Rightarrow> int option" where
  "joins_left a u = (case block_ending_at u (blocks a) of
     None \<Rightarrow> None
   | Some v \<Rightarrow> if u \<notin> uncoalescable a \<and> v \<in> set (free_units a) then Some v else None)"

definition joins_right :: "free_list_spec \<Rightarrow> int \<Rightarrow> bool" where
  "joins_right a u \<longleftrightarrow> u + spec_size a u \<notin> uncoalescable a \<and> u + spec_size a u \<in> set (free_units a)"

definition spec_free :: "free_list_spec \<Rightarrow> int \<Rightarrow> int \<times> free_list_spec" where
  "spec_free a u =
     (let right = u + spec_size a u;
          bs = (if joins_right a u then merge_at right (blocks a) else blocks a);
          fs = (if joins_right a u then remove1 right (free_units a) else free_units a)
      in case joins_left a u of
           None \<Rightarrow> (u, a\<lparr>blocks := bs, free_units := u # fs\<rparr>)
         | Some v \<Rightarrow> (v, a\<lparr>blocks := merge_at u bs, free_units := v # remove1 v fs\<rparr>))"

text \<open>The list functions on a tiling, in terms of the position they change.\<close>

lemma tiled_skip:
  assumes "tiled a (xs @ (u, n) # ys) e" shows "u \<notin> fst ` set xs"
  using tiled_distinct [OF assms] by auto

lemma split_block_at:
  assumes "tiled a (xs @ (u, m) # ys) e"
  shows "split_block u n (xs @ (u, m) # ys) = xs @ (if n < m then [(u, n), (u + n, m - n)] else [(u, m)]) @ ys"
  using assms
proof (induction xs arbitrary: a)
  case (Cons x xs)
  then have "fst x \<noteq> u" using tiled_skip [of a "x # xs" u m ys e] by auto
  with Cons show ?case by (cases x) auto
qed simp

lemma spec_size_at:
  assumes "tiled a (blocks b) e" "(u, n) \<in> set (blocks b)" shows "spec_size b u = n"
  using tiled_map_of [OF assms] by (simp add: spec_size_def)

lemma merge_at_pos:
  assumes "tiled a (xs @ (v, m) # (u, n) # ys) e"
  shows "merge_at u (xs @ (v, m) # (u, n) # ys) = xs @ (v, m + n) # ys"
  using assms
proof (induction xs arbitrary: a)
  case (Cons x xs)
  have "u \<noteq> v" "u \<notin> fst ` set xs" using tiled_distinct [OF Cons.prems] by auto
  with Cons show ?case by (cases x; cases xs) auto
qed simp

lemma block_ending_at_Some:
  assumes "tiled a bs e" shows "block_ending_at x bs = Some v \<longleftrightarrow> (\<exists>m. (v, m) \<in> set bs \<and> v + m = x)"
  using assms
proof (induction a bs e rule: tiled.induct)
  case (2 a u n bs e)
  then have "w \<noteq> u + n \<or> m = 0" if "(z, m) \<in> set bs" "w = z + m" for w z m
    using that tiled_mem [of "a + n" bs e z m] by auto
  with 2 show ?case using tiled_mem [of "a + n" bs e] by (auto split: if_splits) force+
qed simp

section \<open>When a table represents an abstract free list\<close>

definition represents ::
  "int \<Rightarrow> int \<Rightarrow> int \<Rightarrow> entries \<Rightarrow> entries \<Rightarrow> free_list_spec \<Rightarrow> bool" where
  "represents h H N lo hi a \<longleftrightarrow>
     shape h H 0 N lo hi (blocks a) (free_units a) \<and>
     free_bits lo (blocks a) (set (free_units a)) \<and>
     uncoalescable a = {u. 0 \<le> u \<and> u \<le> N \<and> bit (lo u) 30}"

text \<open>The entries of unit \<open>u\<close> in a table with \<open>H\<close> heads; zero outside the units \<open>- H..N\<close>.\<close>

definition lo_of :: "i32_bits list \<Rightarrow> int \<Rightarrow> int \<Rightarrow> entries" where
  "lo_of tab H N u = (if - H \<le> u \<and> u \<le> N then tab ! nat (2 * (u + H)) else 0)"

definition hi_of :: "i32_bits list \<Rightarrow> int \<Rightarrow> int \<Rightarrow> entries" where
  "hi_of tab H N u = (if - H \<le> u \<and> u \<le> N then tab ! nat (2 * (u + H) + 1) else 0)"

lemma index_parity:
  assumes "- H \<le> (u::int)" "- H \<le> x"
  shows "nat (2 * u + 2 * H) \<noteq> nat (2 * x + 2 * H + 1)"
proof
  assume "nat (2 * u + 2 * H) = nat (2 * x + 2 * H + 1)"
  with assms have "2 * u + 2 * H = 2 * x + 2 * H + 1" by (simp add: eq_nat_nat_iff)
  then show False by presburger
qed

lemma entries_update:
  assumes "2 * (N + 1 + H) \<le> int (length tab)" "- H \<le> u" "u \<le> N"
  shows "lo_of (tab[nat (2 * (u + H)) := v]) H N = (lo_of tab H N)(u := v)"
    and "hi_of (tab[nat (2 * (u + H)) := v]) H N = hi_of tab H N"
    and "lo_of (tab[nat (2 * (u + H) + 1) := v]) H N = lo_of tab H N"
    and "hi_of (tab[nat (2 * (u + H) + 1) := v]) H N = (hi_of tab H N)(u := v)"
  using assms by (auto simp: fun_eq_iff lo_of_def hi_of_def nth_list_update index_parity
      index_parity [symmetric])

text \<open>The effect of \<open>set_free\<close> on the low entries: the free bit of the first and last unit.\<close>

definition put_free :: "entries \<Rightarrow> int \<Rightarrow> int \<Rightarrow> bool \<Rightarrow> entries" where
  "put_free f u n b = (let g = (\<lambda>v. if b then v OR flag 31 else v AND NOT (flag 31)); f1 = f(u := g (f u))
     in if n > 1 then f1(u + n - 1 := g (f1 (u + n - 1))) else f1)"

lemma put_free_fields:
  "link_bits (put_free f u n b x) = link_bits (f x)"
  "bit (put_free f u n b x) 30 = bit (f x) 30"
  "bit (put_free f u n b u) 31 = b"
  "x \<noteq> u \<Longrightarrow> x \<noteq> u + n - 1 \<Longrightarrow> put_free f u n b x = f x"
  by (auto simp: put_free_def Let_def entry_fields)

lemma shape_put_free:
  assumes sh: "shape h H a N lo hi bs fs" and b: "(u, n) \<in> set bs"
  shows "shape h H a N (put_free lo u n c) hi bs fs"
    and "x \<in> fst ` set bs \<Longrightarrow> bit (put_free lo u n c x) 31 = (if x = u then c else bit (lo x) 31)"
proof -
  note r = tiled_mem [OF shapeD(6) [OF sh] b]
  have "put_free lo u n c x = lo x" if "x \<notin> {a..<N}" for x
    using r that by (intro put_free_fields(4)) auto
  then show "shape h H a N (put_free lo u n c) hi bs fs"
    by (intro shape_lo_cong [OF sh] put_free_fields(1))
  assume x: "x \<in> fst ` set bs"
  show "bit (put_free lo u n c x) 31 = (if x = u then c else bit (lo x) 31)"
  proof (cases "x = u")
    case False
    then have "x \<noteq> u + n - 1"
      using tiled_start_inside [OF shapeD(6) [OF sh] b x] r by auto
    with False show ?thesis by (simp add: put_free_fields)
  qed (simp add: put_free_fields)
qed

locale table_store =
  fixes T :: "'s free_list_trait"
    and view :: "'s \<Rightarrow> i32_bits list"
    and ok :: "'s \<Rightarrow> bool"
    and upd :: "'s \<Rightarrow> int \<Rightarrow> i32_bits \<Rightarrow> 's"
  assumes entry_read: "ok s \<Longrightarrow> 0 \<le> i \<Longrightarrow> i < int (length (view s)) \<Longrightarrow> get_entry T s i = Some (view s ! nat i)"
    and entry_write: "ok s \<Longrightarrow> 0 \<le> i \<Longrightarrow> i < int (length (view s)) \<Longrightarrow> set_entry T s i v = Some (upd s i v)"
    and ok_upd: "ok s \<Longrightarrow> 0 \<le> i \<Longrightarrow> i < int (length (view s)) \<Longrightarrow> ok (upd s i v)"
    and view_upd: "ok s \<Longrightarrow> 0 \<le> i \<Longrightarrow> i < int (length (view s)) \<Longrightarrow> view (upd s i v) = (view s)[nat i := v]"
    and head_upd: "head T (upd s i v) = head T s"
    and heads_upd: "heads T (upd s i v) = heads T s"
begin

abbreviation lo :: "int \<Rightarrow> 's \<Rightarrow> entries" where
  "lo N s \<equiv> lo_of (view s) (heads T s) N"

abbreviation hi :: "int \<Rightarrow> 's \<Rightarrow> entries" where
  "hi N s \<equiv> hi_of (view s) (heads T s) N"

definition geom :: "int \<Rightarrow> int \<Rightarrow> int \<Rightarrow> 's \<Rightarrow> bool" where
  "geom h H N s \<longleftrightarrow> ok s \<and> head T s = h \<and> heads T s = H \<and> 1 \<le> H \<and> H \<le> MAX_HEADS \<and>
     0 \<le> N \<and> N \<le> MAX_UNITS \<and> 2 * (N + 1 + H) \<le> int (length (view s))"

definition slo :: "'s \<Rightarrow> int \<Rightarrow> i32_bits \<Rightarrow> 's" where
  "slo s u v = upd s (2 * (u + heads T s)) v"

definition shi :: "'s \<Rightarrow> int \<Rightarrow> i32_bits \<Rightarrow> 's" where
  "shi s u v = upd s (2 * (u + heads T s) + 1) v"

lemma index_range:
  assumes "geom h H N s" "- H \<le> u" "u \<le> N"
  shows "i32 (2 * i32 (u + H)) = 2 * (u + H)" "i32 (2 * (u + H) + 1) = 2 * (u + H) + 1"
    "0 \<le> 2 * (u + H)" "2 * (u + H) < int (length (view s))"
    "0 \<le> 2 * (u + H) + 1" "2 * (u + H) + 1 < int (length (view s))"
  using assms by (simp_all add: geom_def MAX_UNITS_eq MAX_HEADS_def)

lemma access:
  assumes g: "geom h H N s" and u: "- H \<le> u" "u \<le> N"
  shows "get_lo_entry T s u = Some (lo N s u)" "get_hi_entry T s u = Some (hi N s u)"
    "set_lo_entry T s u v = Some (slo s u v)" "set_hi_entry T s u v = Some (shi s u v)"
proof -
  note r = index_range [OF g u]
  have ok: "ok s" and H: "heads T s = H" using g by (simp_all add: geom_def)
  show "get_lo_entry T s u = Some (lo N s u)" "get_hi_entry T s u = Some (hi N s u)"
    "set_lo_entry T s u v = Some (slo s u v)" "set_hi_entry T s u v = Some (shi s u v)"
    unfolding get_lo_entry_def get_hi_entry_def set_lo_entry_def set_hi_entry_def H r(1,2)
      entry_read [OF ok r(3,4)] entry_read [OF ok r(5,6)]
      entry_write [OF ok r(3,4)] entry_write [OF ok r(5,6)]
    using u by (simp_all add: lo_of_def hi_of_def slo_def shi_def H)
qed

lemma store_effect:
  assumes g: "geom h H N s" and u: "- H \<le> u" "u \<le> N"
  shows "lo N (slo s u v) = (lo N s)(u := v)" "hi N (slo s u v) = hi N s"
    "lo N (shi s u v) = lo N s" "hi N (shi s u v) = (hi N s)(u := v)"
    "geom h H N (slo s u v)" "geom h H N (shi s u v)"
proof -
  note r = index_range [OF g u]
  have ok: "ok s" and H: "heads T s = H" and len: "2 * (N + 1 + H) \<le> int (length (view s))"
    using g by (simp_all add: geom_def)
  show "lo N (slo s u v) = (lo N s)(u := v)" "hi N (slo s u v) = hi N s"
    "lo N (shi s u v) = lo N s" "hi N (shi s u v) = (hi N s)(u := v)"
    unfolding slo_def shi_def heads_upd H view_upd [OF ok r(3,4)] view_upd [OF ok r(5,6)]
    by (rule entries_update [OF len u])+
  show "geom h H N (slo s u v)" "geom h H N (shi s u v)"
    using g ok_upd [OF ok r(3,4)] ok_upd [OF ok r(5,6)]
    unfolding geom_def slo_def shi_def heads_upd head_upd H view_upd [OF ok r(3,4)]
      view_upd [OF ok r(5,6)] length_list_update by blast+
qed

text \<open>The methods that read and write single fields.\<close>

lemma get_next_eq:
  assumes "geom h H N s" "- H \<le> u" "u \<le> N"
  shows "get_next T s u = Some (next_of h (hi N s) u)"
  using assms(1) by (simp add: get_next_def access [OF assms] next_of_def decode_link_def entry_fields geom_def)

lemma get_prev_eq:
  assumes "geom h H N s" "- H \<le> u" "u \<le> N"
  shows "get_prev T s u = Some (next_of h (lo N s) u)"
  using assms(1) by (simp add: get_prev_def access [OF assms] next_of_def decode_link_def entry_fields geom_def)

lemma set_next_eq:
  assumes "geom h H N s" "- H \<le> u" "u \<le> N"
  shows "set_next T s u x = Some (shi s u (put_link (hi N s u) x))"
  by (simp add: set_next_def access [OF assms] put_link_def)

lemma set_prev_eq:
  assumes "geom h H N s" "- H \<le> u" "u \<le> N"
  shows "set_prev T s u x = Some (slo s u (put_link (lo N s u) x))"
  by (simp add: set_prev_def access [OF assms] put_link_def)

lemma get_free_eq:
  assumes "geom h H N s" "- H \<le> u" "u \<le> N"
  shows "get_free T s u = Some (bit (lo N s u) 31)"
  by (simp add: get_free_def access [OF assms] entry_fields)

lemma is_coalescable_eq:
  assumes "geom h H N s" "- H \<le> u" "u \<le> N"
  shows "is_coalescable T s u = Some (\<not> bit (lo N s u) 30)"
  by (simp add: is_coalescable_def access [OF assms] entry_fields)

lemma geom_range: "geom h H N s \<Longrightarrow> 1 \<le> H \<and> H \<le> 128 \<and> 0 \<le> N \<and> N \<le> 1073741694"
  by (simp add: geom_def MAX_HEADS_def MAX_UNITS_eq)

lemma get_size_eq:
  assumes g: "geom h H N s" and sh: "shape h H a N (lo N s) (hi N s) bs fs" and b: "(u, n) \<in> set bs"
  shows "get_size T s u = Some n"
proof -
  note r = shape_block [OF sh b] and gr = geom_range [OF g]
  have u: "- H \<le> u" "u \<le> N" using r gr by auto
  have u1: "- H \<le> u + 1" "u + 1 \<le> N" using r gr by auto
  have "i32 (u + 1) = u + 1" using u1 gr by simp
  then have "get_size T s u = Some (if bit (hi N s u) 31 then link_bits (hi N s (u + 1)) else 1)"
    by (simp add: get_size_def access [OF g u] access [OF g u1] entry_fields)
  with block_size [OF sh b] show ?thesis by simp
qed

lemma set_size_eq:
  assumes g: "geom h H N s" and u: "0 \<le> u" "1 \<le> n" "u + n \<le> N + 1"
  shows "\<exists>s'. set_size T s u n = Some s' \<and> geom h H N s' \<and> lo N s' = lo N s \<and> hi N s' = put_size (hi N s) u n"
proof -
  note gr = geom_range [OF g]
  have u0: "- H \<le> u" "u \<le> N" using u gr by auto
  show ?thesis
  proof (cases "n > 1")
    case True
    have u1: "- H \<le> u + 1" "u + 1 \<le> N" and u2: "- H \<le> u + n - 1" "u + n - 1 \<le> N"
      using True u gr by auto
    have i: "i32 (u + 1) = u + 1" "i32 (i32 (u + n) - 1) = u + n - 1" using u2 u gr True by auto
    define s1 where "s1 = shi s u (hi N s u OR flag 31)"
    define s2 where "s2 = shi s1 (u + 1) (size_entry n)"
    define s3 where "s3 = shi s2 (u + n - 1) (size_entry n)"
    note e1 = store_effect [OF g u0, of "hi N s u OR flag 31", folded s1_def]
    note e2 = store_effect [OF e1(6) u1, of "size_entry n", folded s2_def]
    note e3 = store_effect [OF e2(6) u2, of "size_entry n", folded s3_def]
    have "set_size T s u n = Some s3"
      using True by (simp add: set_size_def access [OF g u0] access [OF e1(6) u1] access [OF e2(6) u2] i
          flip: size_entry_def s1_def s2_def s3_def)
    moreover have "lo N s3 = lo N s" by (simp only: e1 e2 e3)
    moreover have "hi N s3 = put_size (hi N s) u n" using True by (simp add: e1 e2 e3 put_size_def)
    ultimately show ?thesis using e3(6) by blast
  next
    case False
    then show ?thesis
      using store_effect [OF g u0, of "hi N s u AND NOT (flag 31)"]
      by (simp add: set_size_def access [OF g u0] put_size_def)
  qed
qed

lemma set_free_eq:
  assumes g: "geom h H N s" and sh: "shape h H a N (lo N s) (hi N s) bs fs" and b: "(u, n) \<in> set bs"
  shows "\<exists>s'. set_free T s u c = Some s' \<and> geom h H N s' \<and> lo N s' = put_free (lo N s) u n c \<and> hi N s' = hi N s"
proof -
  note r = shape_block [OF sh b] and gr = geom_range [OF g]
  have u: "- H \<le> u" "u \<le> N" and u2: "- H \<le> u + n - 1" "u + n - 1 \<le> N" using r gr by auto
  define f where "f = (\<lambda>v :: i32_bits. if c then v OR flag 31 else v AND NOT (flag 31))"
  define s1 where "s1 = slo s u (f (lo N s u))"
  note e1 = store_effect [OF g u, of "f (lo N s u)", folded s1_def]
  define s2 where "s2 = slo s1 (u + n - 1) (f (lo N s1 (u + n - 1)))"
  note e2 = store_effect [OF e1(5) u2, of "f (lo N s1 (u + n - 1))", folded s2_def]
  have "shape h H a N (lo N s1) (hi N s1) bs fs"
    unfolding e1 using r shapeD(6) [OF sh] tiled_mem [OF _ b]
    by (intro shape_lo_cong [OF sh]) (force simp: f_def entry_fields)+
  then have sz: "get_size T s1 u = Some n" by (rule get_size_eq [OF e1(5) _ b])
  have i: "i32 (i32 (u + n) - 1) = u + n - 1" using r gr by auto
  show ?thesis
  proof (cases "n > 1")
    case True
    then have "set_free T s u c = Some s2"
      using sz access(1) [OF e1(5) u2] access(3) [OF e1(5) u2]
      by (cases c) (simp_all add: set_free_def access [OF g u] i s1_def s2_def f_def)
    moreover have "lo N s2 = put_free (lo N s) u n c"
      using True by (simp add: e1 e2 put_free_def f_def Let_def)
    moreover have "hi N s2 = hi N s" by (simp only: e1 e2)
    ultimately show ?thesis using e2(5) by blast
  next
    case False
    then have "set_free T s u c = Some s1"
      using sz by (cases c) (simp_all add: set_free_def access [OF g u] s1_def f_def)
    moreover have "lo N s1 = put_free (lo N s) u n c"
      using False by (simp add: e1 put_free_def f_def Let_def)
    ultimately show ?thesis using e1(2,5) by blast
  qed
qed

text \<open>Linking and unlinking a block.\<close>

lemma add_to_free_ok:
  assumes g: "geom h H N s" and sh: "shape h H a N (lo N s) (hi N s) bs fs"
    and b: "(u, n) \<in> set bs" and nu: "u \<notin> set fs"
  shows "\<exists>s'. add_to_free T s u = Some s' \<and> geom h H N s' \<and> shape h H a N (lo N s') (hi N s') bs (u # fs) \<and>
     (\<forall>x \<in> fst ` set bs. bit (lo N s' x) 31 \<longleftrightarrow> x = u \<or> bit (lo N s x) 31) \<and>
     (\<forall>x. bit (lo N s' x) 30 = bit (lo N s x) 30)"
proof -
  obtain s1 where s1: "set_free T s u True = Some s1" "geom h H N s1"
    "lo N s1 = put_free (lo N s) u n True" "hi N s1 = hi N s"
    using set_free_eq [OF g sh b, of True] by blast
  have sh1: "shape h H a N (lo N s1) (hi N s1) bs fs"
    unfolding s1 by (rule shape_put_free(1) [OF sh b])
  have ub: "u \<in> fst ` set bs" using b by force
  define nxt where "nxt = next_of h (hi N s1) h"
  have "nxt \<in> insert h (set fs)"
    unfolding nxt_def using lseg_first [OF shapeD(10) [OF sh1]] by (cases fs) auto
  then have nxt: "nxt \<in> insert h (fst ` set bs)" using shapeD(9) [OF sh] by auto
  note hr = shape_valid(2,3) [OF sh, of h, simplified] and nr = shape_valid(2,3) [OF sh nxt]
  note ur = shape_valid(2,3) [OF sh, of u, OF insertI2 [OF ub]]
  define s2 where "s2 = shi s1 u (put_link (hi N s1 u) nxt)"
  note e2 = store_effect [OF s1(2) ur, of "put_link (hi N s1 u) nxt", folded s2_def]
  define s3 where "s3 = shi s2 h (put_link (hi N s2 h) u)"
  note e3 = store_effect [OF e2(6) hr, of "put_link (hi N s2 h) u", folded s3_def]
  define s4 where "s4 = slo s3 u (put_link (lo N s3 u) h)"
  note e4 = store_effect [OF e3(6) ur, of "put_link (lo N s3 u) h", folded s4_def]
  define s5 where "s5 = slo s4 nxt (put_link (lo N s4 nxt) u)"
  note e5 = store_effect [OF e4(5) nr, of "put_link (lo N s4 nxt) u", folded s5_def]
  have hd: "head T s1 = h" "head T s2 = h" "head T s3 = h"
    using s1(2) e2(6) e3(6) by (simp_all add: geom_def)
  have "add_to_free T s u = Some s5"
    by (simp add: add_to_free_def s1(1) hd get_next_eq [OF s1(2) hr] set_next_eq [OF s1(2) ur]
        set_next_eq [OF e2(6) hr] set_prev_eq [OF e3(6) ur] set_prev_eq [OF e4(5) nr]
        flip: nxt_def s2_def s3_def s4_def s5_def)
  moreover have "shape h H a N (lo N s5) (hi N s5) bs (u # fs)"
    using shape_insert [OF sh1 ub nu, folded nxt_def] unfolding e2 e3 e4 e5 .
  moreover have "bit (lo N s5 x) 31 = bit (lo N s1 x) 31" "bit (lo N s5 x) 30 = bit (lo N s1 x) 30" for x
    by (auto simp: e2 e3 e4 e5 entry_fields)
  ultimately show ?thesis
    using e5(5) shape_put_free(2) [OF sh b, of _ True] by (auto simp: s1 put_free_fields)
qed

lemma remove_from_free_ok:
  assumes g: "geom h H N s" and sh: "shape h H a N (lo N s) (hi N s) bs fs" and u: "u \<in> set fs"
  shows "\<exists>s'. remove_from_free T s u = Some s' \<and> geom h H N s' \<and>
     shape h H a N (lo N s') (hi N s') bs (remove1 u fs) \<and>
     (\<forall>x. bit (lo N s' x) 31 = bit (lo N s x) 31 \<and> bit (lo N s' x) 30 = bit (lo N s x) 30)"
proof -
  have ub: "u \<in> fst ` set bs" using shapeD(9) [OF sh] u by auto
  define nxt prv where "nxt = next_of h (hi N s) u" and "prv = next_of h (lo N s) u"
  note rm = shape_remove [OF sh u, folded nxt_def prv_def]
  note ur = shape_valid(2,3) [OF sh, of u, OF insertI2 [OF ub]]
    and nr = shape_valid(2,3) [OF sh rm(2)] and pr = shape_valid(2,3) [OF sh rm(3)]
  define s1 where "s1 = shi s prv (put_link (hi N s prv) nxt)"
  note e1 = store_effect [OF g pr, of "put_link (hi N s prv) nxt", folded s1_def]
  define s2 where "s2 = slo s1 nxt (put_link (lo N s1 nxt) prv)"
  note e2 = store_effect [OF e1(6) nr, of "put_link (lo N s1 nxt) prv", folded s2_def]
  have "remove_from_free T s u = Some s2"
    by (simp add: remove_from_free_def get_next_eq [OF g ur] get_prev_eq [OF g ur] set_next_eq [OF g pr]
        set_prev_eq [OF e1(6) nr] flip: nxt_def prv_def s1_def s2_def)
  moreover have "shape h H a N (lo N s2) (hi N s2) bs (remove1 u fs)"
    using rm(1) unfolding e1 e2 .
  moreover have "bit (lo N s2 x) 31 = bit (lo N s x) 31 \<and> bit (lo N s2 x) 30 = bit (lo N s x) 30" for x
    by (auto simp: e1 e2 entry_fields)
  ultimately show ?thesis using e2(5) by blast
qed

text \<open>Taking a block from the list.\<close>

definition inv :: "int \<Rightarrow> int \<Rightarrow> int \<Rightarrow> 's \<Rightarrow> free_list_spec \<Rightarrow> bool" where
  "inv h H N s a \<longleftrightarrow> geom h H N s \<and> represents h H N (lo N s) (hi N s) a"

lemma invD:
  assumes "inv h H N s a"
  shows "geom h H N s" "shape h H 0 N (lo N s) (hi N s) (blocks a) (free_units a)"
    "free_bits (lo N s) (blocks a) (set (free_units a))"
    "uncoalescable a = {u. 0 \<le> u \<and> u \<le> N \<and> bit (lo N s u) 30}"
  using assms by (auto simp: inv_def represents_def)

lemma inv_get_size:
  assumes i: "inv h H N s a" and u: "u \<in> fst ` set (blocks a)"
  shows "get_size T s u = Some (spec_size a u)" "(u, spec_size a u) \<in> set (blocks a)"
proof -
  obtain n where n: "(u, n) \<in> set (blocks a)" using u by auto
  note sh = invD(2) [OF i]
  have "spec_size a u = n" by (rule spec_size_at [OF shapeD(6) [OF sh] n])
  with n get_size_eq [OF invD(1) [OF i] sh n]
  show "get_size T s u = Some (spec_size a u)" "(u, spec_size a u) \<in> set (blocks a)" by auto
qed

lemma split_ok:
  assumes g: "geom h H N s" and sh: "shape h H a N (lo N s) (hi N s) (xs @ (u, m) # ys) fs"
    and n: "1 \<le> n" "n < m"
  shows "\<exists>s'. split T s u n = Some s' \<and> geom h H N s' \<and>
     shape h H a N (lo N s') (hi N s') (xs @ [(u, n), (u + n, m - n)] @ ys) ((u + n) # fs) \<and>
     (\<forall>x \<in> fst ` set (xs @ [(u, n), (u + n, m - n)] @ ys).
        bit (lo N s' x) 31 \<longleftrightarrow> x = u + n \<or> bit (lo N s x) 31) \<and>
     (\<forall>x. bit (lo N s' x) 30 = bit (lo N s x) 30)"
proof -
  let ?bs = "xs @ [(u, n), (u + n, m - n)] @ ys"
  have um: "(u, m) \<in> set (xs @ (u, m) # ys)" by simp
  note r = shape_block [OF sh um] and gr = geom_range [OF g]
  obtain s1 where s1: "set_size T s u n = Some s1" "geom h H N s1" "lo N s1 = lo N s"
    "hi N s1 = put_size (hi N s) u n"
    using set_size_eq [OF g r(1) n(1)] r n by force
  obtain s2 where s2: "set_size T s1 (u + n) (m - n) = Some s2" "geom h H N s2" "lo N s2 = lo N s1"
    "hi N s2 = put_size (hi N s1) (u + n) (m - n)"
    using set_size_eq [OF s1(2), of "u + n" "m - n"] r n by force
  have ok: "block_ok (hi N s2) b" if "b \<in> set [(u, n), (u + n, m - n)]" for b
    using that n put_size_block [of "m - n" "hi N s1" "u + n"]
      block_ok_cong [OF put_size_block [of n "hi N s" u] n(1), of "hi N s2"]
    by (auto simp: s2 s1 put_size_outside)
  have inside: "f = u" if "f \<in> set fs" "u \<le> f" "f < u + m" for f
    using that shapeD(9) [OF sh] tiled_start_inside [OF shapeD(6) [OF sh] um, of f] by auto
  have "shape h H a N (lo N s) (hi N s2) (xs @ [(u, n), (u + n, m - n)] @ ys) fs"
  proof (rule shape_regroup [where b = u and e = "u + m" and ms = "[(u, m)]"])
    show "shape h H a N (lo N s) (hi N s) (xs @ [(u, m)] @ ys) fs" using sh by simp
    show "f \<in> fst ` set [(u, n), (u + n, m - n)] \<and> link_bits (hi N s2 f) = link_bits (hi N s f)"
      if "f \<in> set fs" "u \<le> f" "f < u + m" for f
      using inside [OF that] n by (auto simp: s2 s1 put_size_outside put_size_link)
  qed (use r n ok in \<open>auto simp: s2 s1 put_size_outside\<close>)
  then have sh2: "shape h H a N (lo N s2) (hi N s2) ?bs fs" by (simp add: s2(3) s1(3))
  have "u + n \<notin> set fs" using inside [of "u + n"] n by auto
  then obtain s3 where "add_to_free T s2 (u + n) = Some s3" "geom h H N s3"
    "shape h H a N (lo N s3) (hi N s3) ?bs ((u + n) # fs)"
    "\<forall>x \<in> fst ` set ?bs. bit (lo N s3 x) 31 \<longleftrightarrow> x = u + n \<or> bit (lo N s2 x) 31"
    "\<forall>x. bit (lo N s3 x) 30 = bit (lo N s2 x) 30"
    using add_to_free_ok [OF s2(2) sh2, of "u + n" "m - n"] by auto
  moreover have "i32 (u + n) = u + n" "i32 (m - n) = m - n" using r n gr by auto
  moreover have "get_size T s u = Some m" by (rule get_size_eq [OF g sh um])
  ultimately show ?thesis by (simp add: split_def s1 s2)
qed

lemma alloc_unit_ok:
  assumes i: "inv h H N s a" and u: "u \<in> set (free_units a)" and n: "1 \<le> n" "n \<le> spec_size a u"
  shows "\<exists>s'. alloc_unit T s n u (spec_size a u) = Some (u, s') \<and> inv h H N s' (spec_take a u n)"
proof -
  note g = invD(1) [OF i] and sh = invD(2) [OF i] and fb = invD(3) [OF i]
  let ?m = "spec_size a u"
  have um: "(u, ?m) \<in> set (blocks a)" using inv_get_size(2) [OF i] u shapeD(9) [OF sh] by blast
  then obtain xs ys where bs: "blocks a = xs @ (u, ?m) # ys" by (meson split_list)
  let ?new = "if n < ?m then [(u, n), (u + n, ?m - n)] else [(u, ?m)]"
  let ?bs = "xs @ ?new @ ys" and ?rest = "if n < ?m then [u + n] else []"
  have "\<exists>s1. (if ?m > n then split T s u n else Some s) = Some s1 \<and> geom h H N s1 \<and>
      shape h H 0 N (lo N s1) (hi N s1) ?bs (?rest @ free_units a) \<and>
      (\<forall>x \<in> fst ` set ?bs. bit (lo N s1 x) 31 \<longleftrightarrow> x \<in> set ?rest \<or> bit (lo N s x) 31) \<and>
      (\<forall>x. bit (lo N s1 x) 30 = bit (lo N s x) 30)"
    using split_ok [OF g sh [unfolded bs] n(1)] n g sh by (auto simp: bs)
  then obtain s1 where s1: "(if ?m > n then split T s u n else Some s) = Some s1" "geom h H N s1"
      "shape h H 0 N (lo N s1) (hi N s1) ?bs (?rest @ free_units a)"
      "\<forall>x \<in> fst ` set ?bs. bit (lo N s1 x) 31 \<longleftrightarrow> x \<in> set ?rest \<or> bit (lo N s x) 31"
      "\<forall>x. bit (lo N s1 x) 30 = bit (lo N s x) 30" by blast
  obtain s2 where s2: "remove_from_free T s1 u = Some s2" "geom h H N s2"
      "shape h H 0 N (lo N s2) (hi N s2) ?bs (remove1 u (?rest @ free_units a))"
      "\<forall>x. bit (lo N s2 x) 31 = bit (lo N s1 x) 31 \<and> bit (lo N s2 x) 30 = bit (lo N s1 x) 30"
    using remove_from_free_ok [OF s1(2,3), of u] u by auto
  have k: "(u, n) \<in> set ?bs" using n by auto
  obtain s3 where s3: "set_free T s2 u False = Some s3" "geom h H N s3"
      "lo N s3 = put_free (lo N s2) u n False" "hi N s3 = hi N s2"
    using set_free_eq [OF s2(2,3) k, of False] by blast
  have fs: "remove1 u (?rest @ free_units a) = free_units (spec_take a u n)"
    using n by (auto simp: spec_take_def)
  have blk: "?bs = blocks (spec_take a u n)"
    unfolding spec_take_def bs using split_block_at [OF shapeD(6) [OF sh, unfolded bs]] by simp
  have "shape h H 0 N (lo N s3) (hi N s3) ?bs (remove1 u (?rest @ free_units a))"
    unfolding s3 by (rule shape_put_free(1) [OF s2(3) k])
  moreover have "free_bits (lo N s3) ?bs (set (remove1 u (?rest @ free_units a)))"
    unfolding free_bits_def
  proof
    fix x assume x: "x \<in> fst ` set ?bs"
    then have "x \<in> set ?rest \<or> x \<in> fst ` set (blocks a)" by (auto simp: bs split: if_splits)
    with fb bspec [OF s1(4) x] have "bit (lo N s1 x) 31 \<longleftrightarrow> x \<in> set ?rest \<or> x \<in> set (free_units a)"
      unfolding free_bits_def by blast
    then show "bit (lo N s3 x) 31 = (x \<in> set (remove1 u (?rest @ free_units a)))"
      using shape_put_free(2) [OF s2(3) k x, of False] s2(4) n shapeD(8) [OF s1(3)]
      by (auto simp: s3(3))
  qed
  moreover have "uncoalescable (spec_take a u n) = {x. 0 \<le> x \<and> x \<le> N \<and> bit (lo N s3 x) 30}"
    using invD(4) [OF i] s1(5) s2(4) by (simp add: spec_take_def s3 put_free_fields)
  ultimately have "inv h H N s3 (spec_take a u n)"
    using s3(2) unfolding fs blk by (simp add: inv_def represents_def)
  moreover have "alloc_unit T s n u ?m = Some (u, s3)"
    using n s1(1) by (simp add: alloc_unit_def s2 s3)
  ultimately show ?thesis by blast
qed

end

end
