(* ===== verification/FreeList_Alloc.thy ===== *)
theory FreeList_Alloc
  imports FreeList_Refine
begin

text \<open>
  The public operations of the free list against their abstract counterparts: first-fit and
  best-fit allocation, allocation at a given unit, release with coalescing, and the
  initialisation of a heap of equal grains. Everything is proved in the locale
  \<open>table_store\<close>, once for all implementations of the trait.
\<close>

text \<open>The blocks in use.\<close>

definition allocated :: "free_list_spec \<Rightarrow> (int \<times> int) set" where
  "allocated a = {(u, n) \<in> set (blocks a). u \<notin> set (free_units a)}"

text \<open>The blocks of a fresh heap: whole grains and, at the end, what is left over.\<close>

definition grains :: "int \<Rightarrow> int \<Rightarrow> nat \<Rightarrow> (int \<times> int) list" where
  "grains b g k = map (\<lambda>i. (b + int i * g, g)) [0..<k]"

definition heap_blocks :: "int \<Rightarrow> int \<Rightarrow> (int \<times> int) list" where
  "heap_blocks N g = grains 0 g (nat (N div g)) @ (if 0 < N mod g then [(N - N mod g, N mod g)] else [])"

definition full_heap :: "int \<Rightarrow> int \<Rightarrow> free_list_spec" where
  "full_heap N g = \<lparr>blocks = heap_blocks N g, free_units = map fst (heap_blocks N g), uncoalescable = {}\<rparr>"

section \<open>Searching the list\<close>

fun best_scan :: "(int \<Rightarrow> int) \<Rightarrow> int \<Rightarrow> int list \<Rightarrow> int \<times> int \<Rightarrow> int \<times> int" where
  "best_scan sz n [] b = b"
| "best_scan sz n (u # us) (bs, bu) =
     (if n \<le> sz u \<and> sz u < bs
      then if sz u = n then (sz u, u) else best_scan sz n us (sz u, u)
      else best_scan sz n us (bs, bu))"

lemma best_scan_result:
  assumes "best_scan sz n us (bs, bu) = (b, u)"
  shows "(b, u) = (bs, bu) \<and> (\<forall>v \<in> set us. n \<le> sz v \<longrightarrow> bs \<le> sz v) \<or>
    u \<in> set us \<and> b = sz u \<and> n \<le> b \<and> b < bs \<and> (\<forall>v \<in> set us. n \<le> sz v \<longrightarrow> b \<le> sz v)"
  using assms
proof (induction us arbitrary: bs bu)
  case (Cons w us)
  show ?case
  proof (cases "n \<le> sz w \<and> sz w < bs \<and> sz w \<noteq> n")
    case True
    with Cons.prems have "best_scan sz n us (sz w, w) = (b, u)" by auto
    from Cons.IH [OF this] True show ?thesis by auto
  next
    case False
    show ?thesis
    proof (cases "n \<le> sz w \<and> sz w < bs")
      case True
      with False Cons.prems show ?thesis by auto
    next
      case nofit: False
      then have "best_scan sz n us (bs, bu) = (b, u)" using Cons.prems by auto
      from Cons.IH [OF this] nofit show ?thesis by auto
    qed
  qed
qed simp

context table_store
begin

lemma walk_next:
  assumes i: "inv h H N s a" and seg: "lseg (next_of h (hi N s)) (next_of h (lo N s)) c us h"
    and c: "c \<in> insert h (set (free_units a))"
  shows "get_next T s c = Some (case us of [] \<Rightarrow> h | x # _ \<Rightarrow> x)"
proof -
  note sh = invD(2) [OF i]
  have "c \<in> insert h (fst ` set (blocks a))" using c shapeD(9) [OF sh] by auto
  from get_next_eq [OF invD(1) [OF i] shape_valid(2,3) [OF sh this]] lseg_first [OF seg]
  show ?thesis by simp
qed

lemma free_unit_facts:
  assumes i: "inv h H N s a" and u: "u \<in> set (free_units a)"
  shows "u \<noteq> h" "get_size T s u = Some (spec_size a u)" "(u, spec_size a u) \<in> set (blocks a)"
    "1 \<le> spec_size a u" "spec_size a u < I32_MAX"
proof -
  note sh = invD(2) [OF i]
  have ub: "u \<in> fst ` set (blocks a)" using u shapeD(9) [OF sh] by auto
  show "u \<noteq> h" by (rule shape_start(4) [OF sh ub])
  show "get_size T s u = Some (spec_size a u)" "(u, spec_size a u) \<in> set (blocks a)"
    by (rule inv_get_size [OF i ub])+
  from shape_block [OF sh this(2)] show "1 \<le> spec_size a u" "spec_size a u < I32_MAX"
    by (auto simp: MAX_UNITS_eq I32_MAX_def)
qed

lemma head_inv: "inv h H N s a \<Longrightarrow> head T s = h"
  by (simp add: inv_def geom_def)

lemma first_fit_loop_eq:
  assumes i: "inv h H N s a"
    and "lseg (next_of h (hi N s)) (next_of h (lo N s)) c us h"
    and "c \<in> insert h (set (free_units a))" "set us \<subseteq> set (free_units a)"
  shows "\<exists>z'. first_fit_loop T s n c z = Some (case find (\<lambda>u. n \<le> spec_size a u) us of
           None \<Rightarrow> (h, z') | Some u \<Rightarrow> (u, spec_size a u))"
  using assms(2-)
proof (induction us arbitrary: c z)
  case Nil
  then show ?case
    using walk_next [OF i Nil(1,2)] by (subst first_fit_loop.simps) (simp add: head_inv [OF i])
next
  case (Cons u us)
  note f = free_unit_facts [OF i, of u]
  have step: "get_next T s c = Some u" using walk_next [OF i Cons.prems(1,2)] by simp
  show ?case
  proof (cases "n \<le> spec_size a u")
    case True
    then show ?thesis
      using Cons.prems f step by (subst first_fit_loop.simps) (simp add: head_inv [OF i])
  next
    case False
    then have "first_fit_loop T s n c z = first_fit_loop T s n u (spec_size a u)"
      using Cons.prems f step by (subst first_fit_loop.simps) (simp add: head_inv [OF i])
    with False Cons.IH [of u "spec_size a u"] Cons.prems show ?thesis by simp
  qed
qed

lemma best_fit_loop_eq:
  assumes i: "inv h H N s a"
    and "lseg (next_of h (hi N s)) (next_of h (lo N s)) c us h"
    and "c \<in> insert h (set (free_units a))" "set us \<subseteq> set (free_units a)"
  shows "best_fit_loop T s n c bs bu = Some (best_scan (spec_size a) n us (bs, bu))"
  using assms(2-)
proof (induction us arbitrary: c bs bu)
  case Nil
  then show ?case
    using walk_next [OF i Nil(1,2)] by (subst best_fit_loop.simps) (simp add: head_inv [OF i])
next
  case (Cons u us)
  note f = free_unit_facts [OF i, of u]
  have "get_next T s c = Some u" using walk_next [OF i Cons.prems(1,2)] by simp
  then show ?case
    using Cons f by (subst best_fit_loop.simps) (simp add: head_inv [OF i])
qed

section \<open>Allocation\<close>

lemma alloc_first_fit_ok:
  assumes i: "inv h H N s a" and n: "1 \<le> n"
  shows "\<exists>s'. alloc_first_fit T s n = Some (fst (spec_alloc a n), s') \<and> inv h H N s' (snd (spec_alloc a n))"
proof -
  obtain z where loop: "first_fit_loop T s n h 0 = Some (case find (\<lambda>u. n \<le> spec_size a u) (free_units a) of
      None \<Rightarrow> (h, z) | Some u \<Rightarrow> (u, spec_size a u))"
    using first_fit_loop_eq [OF i shapeD(10) [OF invD(2) [OF i]], of n 0] by auto
  show ?thesis
  proof (cases "find (\<lambda>u. n \<le> spec_size a u) (free_units a)")
    case None
    with loop i show ?thesis
      by (simp add: alloc_first_fit_def spec_alloc_def spec_first_fit_def head_inv [OF i])
  next
    case (Some u)
    then have u: "u \<in> set (free_units a)" "n \<le> spec_size a u" by (auto simp: find_Some_iff)
    from alloc_unit_ok [OF i u(1) n u(2)] free_unit_facts(1) [OF i u(1)] loop Some show ?thesis
      by (simp add: alloc_first_fit_def spec_alloc_def spec_first_fit_def head_inv [OF i])
  qed
qed

lemma alloc_best_fit_ok:
  assumes i: "inv h H N s a" and n: "1 \<le> n"
  shows "(\<exists>u \<in> set (free_units a). n \<le> spec_size a u) \<and>
      (\<exists>u s'. alloc_best_fit T s n = Some (u, s') \<and> inv h H N s' (spec_take a u n) \<and>
         u \<in> set (free_units a) \<and> n \<le> spec_size a u \<and>
         (\<forall>v \<in> set (free_units a). n \<le> spec_size a v \<longrightarrow> spec_size a u \<le> spec_size a v)) \<or>
    (\<forall>u \<in> set (free_units a). spec_size a u < n) \<and> alloc_best_fit T s n = Some (FAILURE, s)"
proof -
  let ?r = "best_scan (spec_size a) n (free_units a) (I32_MAX, I32_MAX)"
  obtain b u where r: "?r = (b, u)" by (cases ?r)
  have loop: "best_fit_loop T s n h I32_MAX I32_MAX = Some (b, u)"
    using best_fit_loop_eq [OF i shapeD(10) [OF invD(2) [OF i]], of n I32_MAX I32_MAX] r by simp
  from best_scan_result [OF r] show ?thesis
  proof
    assume "(b, u) = (I32_MAX, I32_MAX) \<and> (\<forall>v \<in> set (free_units a). n \<le> spec_size a v \<longrightarrow> I32_MAX \<le> spec_size a v)"
    with free_unit_facts(5) [OF i] have "\<forall>v \<in> set (free_units a). spec_size a v < n" "b = I32_MAX"
      by force+
    with loop show ?thesis by (simp add: alloc_best_fit_def head_inv [OF i])
  next
    assume u: "u \<in> set (free_units a) \<and> b = spec_size a u \<and> n \<le> b \<and> b < I32_MAX \<and>
      (\<forall>v \<in> set (free_units a). n \<le> spec_size a v \<longrightarrow> b \<le> spec_size a v)"
    then obtain s' where "alloc_unit T s n u (spec_size a u) = Some (u, s')" "inv h H N s' (spec_take a u n)"
      using alloc_unit_ok [OF i _ n, of u] by auto
    with u loop have "alloc_best_fit T s n = Some (u, s')"
      by (auto simp: alloc_best_fit_def head_inv [OF i])
    with u \<open>inv h H N s' (spec_take a u n)\<close> show ?thesis by blast
  qed
qed

lemma alloc_from_unit_ok:
  assumes i: "inv h H N s a" and n: "1 \<le> n" and u: "u \<in> fst ` set (blocks a)"
  shows "if u \<in> set (free_units a) \<and> n \<le> spec_size a u
    then \<exists>s'. alloc_from_unit T s n u = Some (u, s') \<and> inv h H N s' (spec_take a u n)
    else alloc_from_unit T s n u = Some (FAILURE, s)"
proof -
  note sh = invD(2) [OF i]
  have "get_free T s u = Some (u \<in> set (free_units a))"
    using get_free_eq [OF invD(1) [OF i] shape_valid(2,3) [OF sh, of u]] u
      free_bitsD [OF invD(3) [OF i] u] by simp
  with alloc_unit_ok [OF i _ n, of u] inv_get_size(1) [OF i u] show ?thesis
    by (auto simp: alloc_from_unit_def)
qed

section \<open>Release\<close>

lemma coalesce_ok:
  assumes g: "geom h H N s" and sh: "shape h H a N (lo N s) (hi N s) (xs @ ms @ ys) fs"
    and fb: "free_bits (lo N s) (xs @ ms @ ys) (set fs)"
    and ms: "tiled st ms e" "(en, k) \<in> set ms" "en + k = e" "(st, j) \<in> set ms" "st \<noteq> en"
    and inner: "\<And>f. f \<in> set fs \<Longrightarrow> f \<in> fst ` set ms \<Longrightarrow> f = st \<or> f = en"
  shows "\<exists>s'. coalesce T s st en = Some s' \<and> geom h H N s' \<and>
     shape h H a N (lo N s') (hi N s') (xs @ [(st, e - st)] @ ys) (remove1 st (remove1 en fs)) \<and>
     (\<forall>x. bit (lo N s' x) 31 = bit (lo N s x) 31 \<and> bit (lo N s' x) 30 = bit (lo N s x) 30)"
proof -
  let ?bs = "xs @ ms @ ys" and ?fs1 = "remove1 en fs" and ?fs2 = "remove1 st (remove1 en fs)"
  have mem: "(en, k) \<in> set ?bs" "(st, j) \<in> set ?bs" "en \<in> fst ` set ?bs" "st \<in> fst ` set ?bs"
    using ms(2,4) fst_mem [of en k ?bs] fst_mem [of st j ?bs] by auto
  note range = shape_valid(2,3) [OF sh, OF insertI2]
  have "\<exists>s1. (if en \<in> set fs then remove_from_free T s en else Some s) = Some s1 \<and> geom h H N s1 \<and>
      shape h H a N (lo N s1) (hi N s1) ?bs ?fs1 \<and>
      (\<forall>x. bit (lo N s1 x) 31 = bit (lo N s x) 31 \<and> bit (lo N s1 x) 30 = bit (lo N s x) 30)"
    using remove_from_free_ok [OF g sh, of en] g sh by (simp add: remove1_idem)
  then obtain s1 where s1: "(if en \<in> set fs then remove_from_free T s en else Some s) = Some s1" "geom h H N s1"
      "shape h H a N (lo N s1) (hi N s1) ?bs ?fs1"
      "\<forall>x. bit (lo N s1 x) 31 = bit (lo N s x) 31 \<and> bit (lo N s1 x) 30 = bit (lo N s x) 30" by blast
  have "\<exists>s2. (if st \<in> set fs then remove_from_free T s1 st else Some s1) = Some s2 \<and> geom h H N s2 \<and>
      shape h H a N (lo N s2) (hi N s2) ?bs ?fs2 \<and>
      (\<forall>x. bit (lo N s2 x) 31 = bit (lo N s1 x) 31 \<and> bit (lo N s2 x) 30 = bit (lo N s1 x) 30)"
    using remove_from_free_ok [OF s1(2,3), of st] s1(2,3) ms(5) shapeD(8) [OF sh] by (simp add: remove1_idem)
  then obtain s2 where s2: "(if st \<in> set fs then remove_from_free T s1 st else Some s1) = Some s2" "geom h H N s2"
      "shape h H a N (lo N s2) (hi N s2) ?bs ?fs2"
      "\<forall>x. bit (lo N s2 x) 31 = bit (lo N s1 x) 31 \<and> bit (lo N s2 x) 30 = bit (lo N s1 x) 30" by blast
  note r = shape_block [OF sh mem(1)] shape_block [OF sh mem(2)] and gr = geom_range [OF g]
  have le: "st < en" "1 \<le> e - st"
    using tiled_mem [OF ms(1,2)] ms(3,5) by auto
  obtain s3 where s3: "set_size T s2 st (e - st) = Some s3" "geom h H N s3" "lo N s3 = lo N s2"
      "hi N s3 = put_size (hi N s2) st (e - st)"
    using set_size_eq [OF s2(2) r(5) le(2)] r ms(3) by auto
  have "get_free T s en = Some (en \<in> set fs)" "get_free T s1 st = Some (st \<in> set fs)"
    using get_free_eq [OF g range] get_free_eq [OF s1(2) range] free_bitsD [OF fb] mem s1(4) by auto
  moreover have "get_size T s2 en = Some k" by (rule get_size_eq [OF s2(2,3) mem(1)])
  moreover have "i32 (i32 (en - st) + k) = e - st" using r ms(3) le gr by auto
  ultimately have "coalesce T s st en = Some s3"
    using s1(1) s2(1) s3(1) by (simp add: coalesce_def)
  moreover have "shape h H a N (lo N s3) (hi N s3) (xs @ [(st, e - st)] @ ys) ?fs2"
    unfolding s3(3)
  proof (rule shape_regroup [OF s2(3) ms(1)])
    show "ms \<noteq> []" using ms(2) by auto
    show "hi N s3 x = hi N s2 x" if "x < st \<or> e \<le> x" for x
      using that le by (simp add: s3 put_size_outside)
    show "tiled st [(st, e - st)] e" using le by simp
    show "block_ok (hi N s3) c" if "c \<in> set [(st, e - st)]" for c
      using that le put_size_block by (simp add: s3)
    fix f assume f: "f \<in> set ?fs2" "st \<le> f" "f < e"
    have fs: "f \<in> set fs" "f \<noteq> st" "f \<noteq> en"
      using f(1) shapeD(8) [OF sh] by (auto dest: notin_set_remove1 simp: distinct_remove1)
    have "f \<in> fst ` set ms"
    proof -
      obtain n where n: "(f, n) \<in> set ?bs" using shape_free [OF sh fs(1)] by blast
      obtain p q where t: "tiled a xs p" "tiled p ms q" "tiled q ys N"
        using shapeD(6) [OF sh] by (auto simp: tiled_append)
      have "ms \<noteq> []" using ms(2) by auto
      note tiled_unique [OF ms(1) t(2) this]
      with n f t tiled_mem [OF t(1), of f n] tiled_mem [OF t(3), of f n] show ?thesis by force
    qed
    with inner [OF fs(1)] fs show "f \<in> fst ` set [(st, e - st)] \<and> link_bits (hi N s3 f) = link_bits (hi N s2 f)"
      by blast
  qed
  ultimately show ?thesis using s3(2) s1(4) s2(4) by (simp add: s3(3))
qed

text \<open>The neighbours of a block as the code finds them.\<close>

lemma get_left_ok:
  assumes i: "inv h H N s a" and u: "u \<in> fst ` set (blocks a)"
  shows "\<exists>l. get_left T s u = Some l \<and> - H \<le> l \<and> l \<le> N \<and>
    (bit (lo N s l) 31 \<longleftrightarrow> (\<exists>v. block_ending_at u (blocks a) = Some v \<and> v \<in> set (free_units a))) \<and>
    (\<forall>v. block_ending_at u (blocks a) = Some v \<longrightarrow> l = v)"
proof -
  note g = invD(1) [OF i] and sh = invD(2) [OF i]
  note tl = shapeD(6) [OF sh] and gr = geom_range [OF g] and ur = shape_start [OF sh u]
  have r: "- H \<le> u - 1" "u - 1 \<le> N" and w: "i32 (u - 1) = u - 1" using ur gr by auto
  have left: "get_left T s u = Some (i32 (if bit (hi N s (u - 1)) 31 then u - link_bits (hi N s (u - 1)) else u - 1))"
    by (simp add: get_left_def w access [OF g r] entry_fields)
  show ?thesis
  proof (cases "block_ending_at u (blocks a)")
    case None
    have "u = 0"
    proof (rule ccontr)
      assume "u \<noteq> 0"
      obtain n where "(u, n) \<in> set (blocks a)" using u by auto
      then obtain xs ys where bs: "blocks a = xs @ (u, n) # ys" by (meson split_list)
      with tl have xs: "tiled 0 xs u" by (auto simp: tiled_append)
      with \<open>u \<noteq> 0\<close> obtain zs v m where zs: "xs = zs @ [(v, m)]" by (cases xs rule: rev_cases) auto
      with xs have "v + m = u" by (auto simp: tiled_append)
      then have "block_ending_at u (blocks a) = Some v"
        unfolding block_ending_at_Some [OF tl] using bs zs by auto
      with None show False by simp
    qed
    moreover have "\<not> bit (hi N s (-1)) 31" "\<not> bit (lo N s (-1)) 31"
      using shapeD(11) [OF sh] gr by (auto simp: sentinels_def)
    ultimately show ?thesis using left None gr by auto
  next
    case (Some v)
    then obtain m where m: "(v, m) \<in> set (blocks a)" "v + m = u" using block_ending_at_Some [OF tl] by auto
    note vr = shape_block [OF sh m(1)]
    have "get_left T s u = Some v"
      using left left_neighbour [OF sh m] vr gr by auto
    with Some vr gr free_bitsD [OF invD(3) [OF i] fst_mem [OF m(1)]] show ?thesis by auto
  qed
qed

lemma free_right:
  assumes i: "inv h H N s a" and un: "(u, n) \<in> set (blocks a)"
  shows "bit (lo N s (u + n)) 31 \<longleftrightarrow> u + n \<in> set (free_units a)"
    and "blocks a = xs @ (u, n) # ys \<Longrightarrow> u + n \<in> set (free_units a) \<Longrightarrow>
      \<exists>zs. ys = (u + n, spec_size a (u + n)) # zs"
proof -
  note sh = invD(2) [OF i] and tl = shapeD(6) [OF invD(2) [OF i]]
  have free_lt: "x < N" if "x \<in> set (free_units a)" for x
    using that shapeD(9) [OF sh] shape_start(2) [OF sh, of x] by auto
  have next_block: "u + n = N \<and> ys = [] \<or> (\<exists>k zs. ys = (u + n, k) # zs)" if "blocks a = xs @ (u, n) # ys" for xs ys
    using that tl by (cases ys) (auto simp: tiled_append)
  show "bit (lo N s (u + n)) 31 \<longleftrightarrow> u + n \<in> set (free_units a)"
  proof (cases "u + n = N")
    case True
    then have "u + n \<notin> set (free_units a)" using free_lt by fastforce
    with True shapeD(11) [OF sh] show ?thesis by (auto simp: sentinels_def)
  next
    case False
    obtain xs ys where bs: "blocks a = xs @ (u, n) # ys" using un by (meson split_list)
    with next_block [OF bs] False have "u + n \<in> fst ` set (blocks a)" by (auto simp: image_iff)
    then show ?thesis by (rule free_bitsD [OF invD(3) [OF i]])
  qed
  assume bs: "blocks a = xs @ (u, n) # ys" and "u + n \<in> set (free_units a)"
  then have "u + n \<noteq> N" using free_lt by fastforce
  with next_block [OF bs] obtain k zs where ys: "ys = (u + n, k) # zs" by auto
  then have "spec_size a (u + n) = k" using spec_size_at [OF tl] bs by auto
  with ys show "\<exists>zs. ys = (u + n, spec_size a (u + n)) # zs" by auto
qed

text \<open>The group of blocks that a release joins, around the released block \<open>u\<close>.\<close>

lemma joined_group:
  assumes i: "inv h H N s a" and un: "(u, n) \<in> set (blocks a)"
  obtains xs ls rs ys where "blocks a = xs @ (ls @ (u, n) # rs) @ ys"
    and "ls = (case joins_left a u of None \<Rightarrow> [] | Some v \<Rightarrow> [(v, spec_size a v)])"
    and "rs = (if joins_right a u then [(u + n, spec_size a (u + n))] else [])"
proof -
  note tl = shapeD(6) [OF invD(2) [OF i]]
  have sz: "spec_size a u = n" by (rule spec_size_at [OF tl un])
  obtain xs ys where bs: "blocks a = xs @ (u, n) # ys" using un by (meson split_list)
  have right: "\<exists>zs. ys = (if joins_right a u then [(u + n, spec_size a (u + n))] else []) @ zs"
    using free_right(2) [OF i un bs] by (auto simp: joins_right_def sz)
  have left: "\<exists>zs. xs = zs @ (case joins_left a u of None \<Rightarrow> [] | Some v \<Rightarrow> [(v, spec_size a v)])"
  proof (cases "joins_left a u")
    case (Some v)
    then obtain m where m: "(v, m) \<in> set (blocks a)" "v + m = u"
      using block_ending_at_Some [OF tl] by (auto simp: joins_left_def split: option.splits if_splits)
    from tl bs have xs: "tiled 0 xs u" by (auto simp: tiled_append)
    moreover have "xs \<noteq> []" using xs m shape_block [OF invD(2) [OF i] m(1)] by auto
    ultimately obtain zs w k where zs: "xs = zs @ [(w, k)]" "w + k = u"
      by (cases xs rule: rev_cases) (auto simp: tiled_append)
    have "(w, k) = (v, m)"
      using tiled_disjoint [OF tl m(1), of w k] bs zs m shape_block [OF invD(2) [OF i] m(1)]
        shape_block [OF invD(2) [OF i], of w k] by auto
    with Some zs spec_size_at [OF tl m(1)] show ?thesis by auto
  qed simp
  from left right bs that show thesis by force
qed

lemma spec_free_eq:
  assumes tl: "tiled 0 (blocks a) N" and grp: "blocks a = xs @ (ls @ (u, n) # rs) @ ys"
    and ls: "ls = (case joins_left a u of None \<Rightarrow> [] | Some v \<Rightarrow> [(v, spec_size a v)])"
    and rs: "rs = (if joins_right a u then [(u + n, spec_size a (u + n))] else [])"
    and n: "n = spec_size a u" and st: "st = (case joins_left a u of None \<Rightarrow> u | Some v \<Rightarrow> v)"
    and en: "en = (if joins_right a u then u + n else u)" and e: "tiled st (ls @ (u, n) # rs) e"
    and nf: "u \<notin> set (free_units a)"
  shows "spec_free a u = (st, a\<lparr>blocks := xs @ [(st, e - st)] @ ys,
           free_units := st # remove1 st (remove1 en (free_units a))\<rparr>)"
proof -
  note t = tl [unfolded grp]
  let ?bs = "if joins_right a u then merge_at (u + n) (blocks a) else blocks a"
  have bs1: "?bs = xs @ ls @ (u, n + (\<Sum>(x, k) \<leftarrow> rs. k)) # ys"
    unfolding grp using t merge_at_pos [of 0 "xs @ ls" u n "u + n" "spec_size a (u + n)" ys N]
    by (simp add: rs split: if_splits)
  have t1: "tiled 0 (xs @ ls @ (u, n + (\<Sum>(x, k) \<leftarrow> rs. k)) # ys) N"
    using t by (auto simp: tiled_append rs add.assoc split: if_splits)
  show ?thesis
  proof (cases "joins_left a u")
    case None
    with e bs1 nf have "?bs = xs @ [(st, e - st)] @ ys" by (auto simp: ls st rs split: if_splits)
    with None nf show ?thesis
      by (auto simp: spec_free_def Let_def st en n [symmetric] remove1_idem split: if_splits)
  next
    case (Some v)
    have "merge_at u ?bs = xs @ [(st, e - st)] @ ys"
      unfolding bs1 using Some e t1 merge_at_pos [of 0 xs v "spec_size a v" u "n + (\<Sum>(x, k) \<leftarrow> rs. k)" ys N]
      by (auto simp: ls st rs split: if_splits)
    with Some nf show ?thesis
      by (auto simp: spec_free_def Let_def st en n [symmetric] remove1_idem split: if_splits)
  qed
qed

lemma free_ok:
  assumes i: "inv h H N s a" and u: "u \<in> fst ` set (blocks a)" and nf: "u \<notin> set (free_units a)"
  shows "\<exists>s'. free T s u c = Some (if c then spec_size (snd (spec_free a u)) (fst (spec_free a u)) else spec_size a u, s') \<and>
     inv h H N s' (snd (spec_free a u))"
proof -
  note g = invD(1) [OF i] and sh = invD(2) [OF i] and tl = shapeD(6) [OF invD(2) [OF i]]
  note gr = geom_range [OF g]
  define n where "n = spec_size a u"
  have un: "(u, n) \<in> set (blocks a)" unfolding n_def by (rule inv_get_size(2) [OF i u])
  note ur = shape_block [OF sh un]
  obtain xs ls rs ys where grp: "blocks a = xs @ (ls @ (u, n) # rs) @ ys"
    and ls: "ls = (case joins_left a u of None \<Rightarrow> [] | Some v \<Rightarrow> [(v, spec_size a v)])"
    and rs: "rs = (if joins_right a u then [(u + n, spec_size a (u + n))] else [])"
    by (rule joined_group [OF i un])
  let ?ms = "ls @ (u, n) # rs"
  define st where "st = (case joins_left a u of None \<Rightarrow> u | Some v \<Rightarrow> v)"
  define en where "en = (if joins_right a u then u + n else u)"
  obtain e where e: "tiled st ?ms e"
  proof -
    from tl grp obtain p q where t: "tiled 0 xs p" "tiled p ?ms q" by (auto simp: tiled_append)
    then have "p = st" by (auto simp: st_def ls split: option.splits)
    with t that show thesis by blast
  qed
  obtain l where l: "get_left T s u = Some l" "- H \<le> l" "l \<le> N"
    "bit (lo N s l) 31 \<longleftrightarrow> (\<exists>v. block_ending_at u (blocks a) = Some v \<and> v \<in> set (free_units a))"
    "\<forall>v. block_ending_at u (blocks a) = Some v \<longrightarrow> l = v"
    using get_left_ok [OF i u] by blast
  have start: "(if u \<notin> uncoalescable a then Some (if bit (lo N s l) 31 then l else u) else Some u) = Some st"
    using l(4,5) by (auto simp: st_def joins_left_def split: option.splits)
  have cu: "is_coalescable T s u = Some (u \<notin> uncoalescable a)"
    "is_coalescable T s (u + n) = Some (u + n \<notin> uncoalescable a)"
    using is_coalescable_eq [OF g, of u] is_coalescable_eq [OF g, of "u + n"] ur gr invD(4) [OF i] by auto
  have fu: "get_free T s l = Some (bit (lo N s l) 31)" "get_free T s (u + n) = Some (u + n \<in> set (free_units a))"
    using get_free_eq [OF g l(2,3)] get_free_eq [OF g, of "u + n"] ur gr free_right(1) [OF i un] by auto
  have right: "get_right T s u = Some (u + n)"
    using get_size_eq [OF g sh un] ur gr by (simp add: get_right_def)
  have en_eq: "(if u + n \<notin> uncoalescable a then Some (if u + n \<in> set (free_units a) then u + n else u) else Some u) = Some en"
    by (auto simp: en_def joins_right_def n_def)
  let ?nbs = "xs @ [(st, e - st)] @ ys" and ?fs = "remove1 st (remove1 en (free_units a))"
  have ends: "\<exists>j. (st, j) \<in> set ?ms" "\<exists>k. (en, k) \<in> set ?ms \<and> en + k = e" "set (map fst ?ms) = {st, u, en}"
    using e by (auto simp: st_def en_def ls rs split: option.splits if_splits)
  have en_le: "st \<le> en" "en < e" using ends(2) tiled_mem [OF e, of en] by fastforce+
  have trivial: "?ms = [(u, n)]" "e = u + n" if "st = en"
    using that e ur tiled_mem [OF e] by (auto simp: st_def en_def ls rs split: option.splits if_splits)
  have "\<exists>s1. (if st \<noteq> en then coalesce T s st en else Some s) = Some s1 \<and> geom h H N s1 \<and>
      shape h H 0 N (lo N s1) (hi N s1) ?nbs ?fs \<and>
      (\<forall>x. bit (lo N s1 x) 31 = bit (lo N s x) 31 \<and> bit (lo N s1 x) 30 = bit (lo N s x) 30)"
  proof (cases "st = en")
    case True
    with trivial have "?nbs = blocks a" "?fs = free_units a"
      using nf ends(3) by (auto simp: grp remove1_idem)
    with True g sh show ?thesis by simp
  next
    case False
    from ends obtain j k where jk: "(st, j) \<in> set ?ms" "(en, k) \<in> set ?ms" "en + k = e" by blast
    have "f = st \<or> f = en" if "f \<in> set (free_units a)" "f \<in> fst ` set ?ms" for f
      using that ends(3) nf by auto
    from coalesce_ok [OF g sh [unfolded grp] invD(3) [OF i, unfolded grp] e jk(2,3,1) False this] False
    show ?thesis by simp
  qed
  then obtain s1 where s1: "(if st \<noteq> en then coalesce T s st en else Some s) = Some s1" "geom h H N s1"
      "shape h H 0 N (lo N s1) (hi N s1) ?nbs ?fs"
      "\<forall>x. bit (lo N s1 x) 31 = bit (lo N s x) 31 \<and> bit (lo N s1 x) 30 = bit (lo N s x) 30" by blast
  have mem: "(st, e - st) \<in> set ?nbs" by simp
  have "st \<notin> set ?fs" using shapeD(8) [OF sh] by simp
  then obtain s2 where s2: "add_to_free T s1 st = Some s2" "geom h H N s2"
      "shape h H 0 N (lo N s2) (hi N s2) ?nbs (st # ?fs)"
      "\<forall>x \<in> fst ` set ?nbs. bit (lo N s2 x) 31 \<longleftrightarrow> x = st \<or> bit (lo N s1 x) 31"
      "\<forall>x. bit (lo N s2 x) 30 = bit (lo N s1 x) 30"
    using add_to_free_ok [OF s1(2,3) mem] by blast
  have sf: "spec_free a u = (st, a\<lparr>blocks := ?nbs, free_units := st # ?fs\<rparr>)"
    by (rule spec_free_eq [OF tl grp ls rs n_def st_def en_def e nf])
  have "free_bits (lo N s2) ?nbs (set (st # ?fs))"
    unfolding free_bits_def
  proof
    fix x assume x: "x \<in> fst ` set ?nbs"
    have "st \<in> fst ` set ?ms" using ends(1) fst_mem by metis
    then have "x \<in> fst ` set (blocks a)" using x unfolding grp set_append image_Un by auto
    then have "bit (lo N s x) 31 \<longleftrightarrow> x \<in> set (free_units a)" by (rule free_bitsD [OF invD(3) [OF i]])
    moreover have "x = st" if "x = en"
      using tiled_start_inside [OF shapeD(6) [OF s1(3)] mem x] that en_le by auto
    ultimately show "bit (lo N s2 x) 31 = (x \<in> set (st # ?fs))"
      using bspec [OF s2(4) x] s1(4) shapeD(8) [OF sh] by auto
  qed
  then have "inv h H N s2 (snd (spec_free a u))"
    using s2(2,3,5) s1(4) invD(4) [OF i] by (simp add: sf inv_def represents_def)
  moreover have "spec_size (snd (spec_free a u)) (fst (spec_free a u)) = e - st"
    using spec_size_at [of 0 "snd (spec_free a u)" N st "e - st"] shapeD(6) [OF s1(3)] by (simp add: sf)
  moreover have "free T s u c = Some (if c then e - st else spec_size a u, s2)"
  proof -
    have sz: "get_size T s1 st = Some (e - st)" by (rule get_size_eq [OF s1(2,3) mem])
    have m: "(if u \<notin> uncoalescable a then do { f \<leftarrow> get_free T s l; Some (if f then l else u) } else Some u) = Some st"
      "(if u + n \<notin> uncoalescable a then do { f \<leftarrow> get_free T s (u + n); Some (if f then u + n else u) } else Some u) = Some en"
      unfolding fu Option.bind.simps by (rule start, rule en_eq)
    show ?thesis
      unfolding free_def inv_get_size(1) [OF i u] l(1) cu right Option.bind.simps m s1(1) s2(1) sz
      by (cases c) simp_all
  qed
  ultimately show ?thesis by simp
qed

section \<open>Initialisation\<close>

lemma add_block_below:
  assumes g: "geom h H N s" and sh: "shape h H a N (lo N s) (hi N s) bs fs" and n: "1 \<le> n" "n \<le> a"
    and fb: "free_bits (lo N s) bs (set fs)"
  shows "\<exists>s1 s2. set_size T s (a - n) n = Some s1 \<and> add_to_free T s1 (a - n) = Some s2 \<and> geom h H N s2 \<and>
     shape h H (a - n) N (lo N s2) (hi N s2) ((a - n, n) # bs) ((a - n) # fs) \<and>
     free_bits (lo N s2) ((a - n, n) # bs) (set ((a - n) # fs)) \<and>
     (\<forall>x. bit (lo N s2 x) 30 = bit (lo N s x) 30)"
proof -
  have aN: "a \<le> N" by (rule tiled_le [OF shapeD(6) [OF sh]])
  obtain s1 where s1: "set_size T s (a - n) n = Some s1" "geom h H N s1" "lo N s1 = lo N s"
      "hi N s1 = put_size (hi N s) (a - n) n"
    using set_size_eq [OF g, of "a - n" n] n aN by auto
  have sh1: "shape h H (a - n) N (lo N s1) (hi N s1) ((a - n, n) # bs) fs"
    unfolding s1 by (rule shape_extend [OF sh n])
  have "a - n \<notin> set fs"
    using shapeD(9) [OF sh] tiled_mem [OF shapeD(6) [OF sh]] n by fastforce
  from add_to_free_ok [OF s1(2) sh1 _ this, of n] obtain s2 where s2: "add_to_free T s1 (a - n) = Some s2"
      "geom h H N s2" "shape h H (a - n) N (lo N s2) (hi N s2) ((a - n, n) # bs) ((a - n) # fs)"
      "\<forall>x \<in> fst ` set ((a - n, n) # bs). bit (lo N s2 x) 31 \<longleftrightarrow> x = a - n \<or> bit (lo N s1 x) 31"
      "\<forall>x. bit (lo N s2 x) 30 = bit (lo N s1 x) 30" by auto
  moreover have "free_bits (lo N s2) ((a - n, n) # bs) (set ((a - n) # fs))"
    using s2(4) fb by (auto simp: free_bits_def s1(3))
  ultimately show ?thesis using s1 by auto
qed

lemma grain_loop_ok:
  assumes "geom h H N s" "shape h H a N (lo N s) (hi N s) bs fs" "free_bits (lo N s) bs (set fs)"
    and "1 \<le> g" "g < 2 ^ 31" "0 \<le> b" "a = b + int k * g"
  shows "\<exists>s'. grain_loop T b g (a - g) s = Some s' \<and> geom h H N s' \<and>
     shape h H b N (lo N s') (hi N s') (grains b g k @ bs) (map fst (grains b g k) @ fs) \<and>
     free_bits (lo N s') (grains b g k @ bs) (set (map fst (grains b g k) @ fs)) \<and>
     (\<forall>x. bit (lo N s' x) 30 = bit (lo N s x) 30)"
  using assms
proof (induction k arbitrary: s a bs fs)
  case 0
  then show ?case by (subst grain_loop.simps) (auto simp: grains_def)
next
  case (Suc k)
  have ge: "g \<le> a" "b \<le> a - g" and a': "a - g = b + int k * g"
    using Suc.prems by (auto simp: algebra_simps intro: mult_nonneg_nonneg)
  obtain s1 s2 where s: "set_size T s (a - g) g = Some s1" "add_to_free T s1 (a - g) = Some s2" "geom h H N s2"
      "shape h H (a - g) N (lo N s2) (hi N s2) ((a - g, g) # bs) ((a - g) # fs)"
      "free_bits (lo N s2) ((a - g, g) # bs) (set ((a - g) # fs))"
      "\<forall>x. bit (lo N s2 x) 30 = bit (lo N s x) 30"
    using add_block_below [OF Suc.prems(1,2) Suc.prems(4) ge(1) Suc.prems(3)] by blast
  have aN: "a \<le> N" by (rule tiled_le [OF shapeD(6) [OF Suc.prems(2)]])
  have "i32 (a - g - g) = a - g - g"
    using Suc.prems(4-6) ge aN geom_range [OF Suc.prems(1)] by auto
  then have "grain_loop T b g (a - g) s = grain_loop T b g (a - g - g) s2"
    using s(1,2) ge(2) by (subst grain_loop.simps) simp
  with Suc.IH [OF s(3-5) Suc.prems(4-6) a'] s(6) show ?case
    by (simp add: grains_def a' [symmetric])
qed

lemma set_sentinel_eq:
  assumes g: "geom h H N s" and u: "- H \<le> u" "u \<le> N"
  shows "\<exists>s'. set_sentinel T s u = Some s' \<and> geom h H N s' \<and>
     lo N s' = (lo N s)(u := low30 AND word_of_int u) \<and> hi N s' = (hi N s)(u := low30 AND word_of_int u)"
proof -
  define s1 where "s1 = slo s u (low30 AND word_of_int u)"
  note e1 = store_effect [OF g u, of "low30 AND word_of_int u", folded s1_def]
  note e2 = store_effect [OF e1(5) u, of "low30 AND word_of_int u"]
  have "set_sentinel T s u = Some (shi s1 u (low30 AND word_of_int u))"
    by (simp add: set_sentinel_def access [OF g u] access [OF e1(5) u] flip: s1_def)
  with e2(6) show ?thesis by (simp add: e1 e2)
qed

lemma top_sentinels_ok:
  assumes g: "geom h H N s"
  shows "\<exists>s'. foldM (\<lambda>i s. set_sentinel T s (i32 (- i))) [1..H] s = Some s' \<and> geom h H N s' \<and>
     (\<forall>u. - H \<le> u \<and> u < 0 \<longrightarrow> lo N s' u = low30 AND word_of_int u \<and> hi N s' u = low30 AND word_of_int u) \<and>
     (\<forall>u \<ge> 0. lo N s' u = lo N s u \<and> hi N s' u = hi N s u)"
proof -
  let ?P = "\<lambda>is t. geom h H N t \<and>
     (\<forall>i \<in> set is. lo N t (- i) = low30 AND word_of_int (- i) \<and> hi N t (- i) = low30 AND word_of_int (- i)) \<and>
     (\<forall>u \<ge> 0. lo N t u = lo N s u \<and> hi N t u = hi N s u)"
  have "\<exists>t. foldM (\<lambda>i s. set_sentinel T s (i32 (- i))) [1..H] s = Some t \<and> ?P [1..H] t"
  proof (rule foldM_inv)
    show "?P [] s" using g by simp
    fix ys y t assume "\<exists>zs. [1..H] = ys @ y # zs" and t: "?P ys t"
    then have "y \<in> set [1..H]" by (metis in_set_conv_decomp)
    then have y: "1 \<le> y" "y \<le> H" by auto
    then have "i32 (- y) = - y" using geom_range [OF g] by auto
    with set_sentinel_eq [of h H N t "- y"] t y geom_range [OF g]
    show "\<exists>t'. set_sentinel T t (i32 (- y)) = Some t' \<and> ?P (ys @ [y]) t'" by auto
  qed
  then obtain t where t: "foldM (\<lambda>i s. set_sentinel T s (i32 (- i))) [1..H] s = Some t" "?P [1..H] t"
    by blast
  have "lo N t u = low30 AND word_of_int u \<and> hi N t u = low30 AND word_of_int u" if "- H \<le> u" "u < 0" for u
    using bspec [OF conjunct1 [OF conjunct2 [OF t(2)]], of "- u"] that by simp
  with t show ?thesis by blast
qed

lemma empty_shape:
  assumes g: "geom h H N s" "- H \<le> h" "h < 0"
    and top: "\<And>u. - H \<le> u \<Longrightarrow> u < 0 \<Longrightarrow> lo N s u = low30 AND word_of_int u \<and> hi N s u = low30 AND word_of_int u"
    and bot: "lo N s N = low30 AND word_of_int N" "hi N s N = low30 AND word_of_int N"
  shows "shape h H N N (lo N s) (hi N s) [] []"
proof -
  have "next_of h (hi N s) h = h" "next_of h (lo N s) h = h"
    using top [OF g(2,3)] g geom_range [OF g(1)] by (simp_all add: next_of_def entry_fields MAX_HEADS_def)
  then show ?thesis
    using top bot g geom_range [OF g(1)]
    by (auto simp: shape_def sentinels_def entry_fields MAX_HEADS_def MAX_UNITS_eq)
qed

lemma initialize_heap_ok:
  assumes g: "geom h H N s" "- H \<le> h" "h < 0" and gr: "1 \<le> g" "g < 2 ^ 31"
    and clean: "\<And>u. 0 \<le> u \<Longrightarrow> u < N \<Longrightarrow> \<not> bit (lo N s u) 30"
  shows "\<exists>s'. initialize_heap T s N g = Some s' \<and> inv h H N s'
     \<lparr>blocks = heap_blocks N g, free_units = map fst (heap_blocks N g), uncoalescable = {}\<rparr>"
proof -
  note range = geom_range [OF g(1)]
  obtain s1 where s1: "foldM (\<lambda>i s. set_sentinel T s (i32 (- i))) [1..H] s = Some s1" "geom h H N s1"
      "\<forall>u. - H \<le> u \<and> u < 0 \<longrightarrow> lo N s1 u = low30 AND word_of_int u \<and> hi N s1 u = low30 AND word_of_int u"
      "\<forall>u \<ge> 0. lo N s1 u = lo N s u \<and> hi N s1 u = hi N s u"
    using top_sentinels_ok [OF g(1)] by blast
  obtain s2 where s2: "set_sentinel T s1 N = Some s2" "geom h H N s2"
      "lo N s2 = (lo N s1)(N := low30 AND word_of_int N)" "hi N s2 = (hi N s1)(N := low30 AND word_of_int N)"
    using set_sentinel_eq [OF s1(2), of N] range by auto
  have sh2: "shape h H N N (lo N s2) (hi N s2) [] []"
    by (rule empty_shape [OF s2(2) g(2,3)]) (use s1(3) range in \<open>auto simp: s2\<close>)
  define off where "off = N mod g"
  have off: "0 \<le> off" "off < g" "off \<le> N" using gr range by (auto simp: off_def zmod_le_nonneg_dividend)
  define tl where "tl = (if 0 < off then [(N - off, off)] else [])"
  have fb0: "free_bits (lo N s2) [] (set [])" by (simp add: free_bits_def)
  have "\<exists>s3. (if off > 0 then do { s \<leftarrow> set_size T s2 (N - off) off; add_to_free T s (N - off) } else Some s2) = Some s3 \<and>
      geom h H N s3 \<and> shape h H (N - off) N (lo N s3) (hi N s3) tl (map fst tl) \<and>
      free_bits (lo N s3) tl (set (map fst tl)) \<and> (\<forall>x. bit (lo N s3 x) 30 = bit (lo N s2 x) 30)"
  proof (cases "off > 0")
    case True
    with add_block_below [OF s2(2) sh2, of off] off fb0 show ?thesis by (auto simp: tl_def)
  next
    case False
    with s2(2) sh2 off fb0 show ?thesis by (simp add: tl_def)
  qed
  then obtain s3 where s3: "(if off > 0 then do { s \<leftarrow> set_size T s2 (N - off) off; add_to_free T s (N - off) } else Some s2) = Some s3"
      "geom h H N s3" "shape h H (N - off) N (lo N s3) (hi N s3) tl (map fst tl)"
      "free_bits (lo N s3) tl (set (map fst tl))" "\<forall>x. bit (lo N s3 x) 30 = bit (lo N s2 x) 30" by blast
  have k: "N - off = 0 + int (nat (N div g)) * g"
    using gr range by (simp add: off_def pos_imp_zdiv_nonneg_iff minus_mod_eq_div_mult)
  obtain s4 where s4: "grain_loop T 0 g (N - off - g) s3 = Some s4" "geom h H N s4"
      "shape h H 0 N (lo N s4) (hi N s4) (heap_blocks N g) (map fst (heap_blocks N g))"
      "free_bits (lo N s4) (heap_blocks N g) (set (map fst (heap_blocks N g)))"
      "\<forall>x. bit (lo N s4 x) 30 = bit (lo N s3 x) 30"
    using grain_loop_ok [OF s3(2-4) gr _ k] unfolding heap_blocks_def off_def [symmetric] tl_def [symmetric] by auto
  have "\<not> bit (lo N s4 u) 30" if "0 \<le> u" "u \<le> N" for u
    using that clean [of u] s1(4) by (cases "u = N") (simp_all add: s4 s3 s2 entry_fields)
  then have "inv h H N s4 \<lparr>blocks = heap_blocks N g, free_units = map fst (heap_blocks N g), uncoalescable = {}\<rparr>"
    using s4 by (auto simp: inv_def represents_def)
  moreover have "rust_rem N g = Some off" using gr range by (auto simp: rust_rem_def off_def sgn_if)
  moreover have "i32 (N - off) = N - off" "i32 (N - off - g) = N - off - g" using off gr range by auto
  moreover have "heads T s = H" using g(1) by (simp add: geom_def)
  ultimately show ?thesis
    using s1(1) s2(1) s3(1) s4(1) by (simp add: initialize_heap_def)
qed

text \<open>The sentinels and one run of grains, for a table whose number of units the grain divides.\<close>

lemma fresh_grains:
  assumes g: "geom h H N s" "- H \<le> h" "h < 0" and gr: "1 \<le> g" "g < 2 ^ 31" and N: "g dvd N"
    and clean: "\<And>u. 0 \<le> u \<Longrightarrow> u < N \<Longrightarrow> \<not> bit (lo N s u) 30"
  shows "\<exists>s1 s2 s3. foldM (\<lambda>i s. set_sentinel T s (i32 (- i))) [1..H] s = Some s1 \<and>
    set_sentinel T s1 N = Some s2 \<and> grain_loop T 0 g (N - g) s2 = Some s3 \<and> inv h H N s3 (full_heap N g)"
proof -
  note range = geom_range [OF g(1)]
  obtain s1 where s1: "foldM (\<lambda>i s. set_sentinel T s (i32 (- i))) [1..H] s = Some s1" "geom h H N s1"
      "\<forall>u. - H \<le> u \<and> u < 0 \<longrightarrow> lo N s1 u = low30 AND word_of_int u \<and> hi N s1 u = low30 AND word_of_int u"
      "\<forall>u \<ge> 0. lo N s1 u = lo N s u \<and> hi N s1 u = hi N s u"
    using top_sentinels_ok [OF g(1)] by blast
  obtain s2 where s2: "set_sentinel T s1 N = Some s2" "geom h H N s2"
      "lo N s2 = (lo N s1)(N := low30 AND word_of_int N)" "hi N s2 = (hi N s1)(N := low30 AND word_of_int N)"
    using set_sentinel_eq [OF s1(2), of N] range by auto
  have sh2: "shape h H N N (lo N s2) (hi N s2) [] []"
    by (rule empty_shape [OF s2(2) g(2,3)]) (use s1(3) range in \<open>auto simp: s2\<close>)
  have k: "N = 0 + int (nat (N div g)) * g" using N gr range by (auto simp: pos_imp_zdiv_nonneg_iff elim!: dvdE)
  have fb: "free_bits (lo N s2) [] (set [])" by (simp add: free_bits_def)
  have hb: "heap_blocks N g = grains 0 g (nat (N div g))" using N by (simp add: heap_blocks_def)
  obtain s3 where s3: "grain_loop T 0 g (N - g) s2 = Some s3" "geom h H N s3"
      "shape h H 0 N (lo N s3) (hi N s3) (heap_blocks N g) (map fst (heap_blocks N g))"
      "free_bits (lo N s3) (heap_blocks N g) (set (map fst (heap_blocks N g)))"
      "\<forall>x. bit (lo N s3 x) 30 = bit (lo N s2 x) 30"
    using grain_loop_ok [OF s2(2) sh2 fb gr _ k] unfolding hb by auto
  have "\<not> bit (lo N s3 u) 30" if "0 \<le> u" "u \<le> N" for u
    using that clean [of u] s1(4) by (cases "u = N") (simp_all add: s3 s2 entry_fields)
  then have "inv h H N s3 (full_heap N g)" using s3 by (auto simp: inv_def represents_def full_heap_def)
  with s1(1) s2(1) s3(1) show ?thesis by blast
qed

section \<open>The allocated blocks\<close>

lemma allocated_take:
  assumes i: "inv h H N s a" and u: "u \<in> set (free_units a)" and n: "1 \<le> n" "n \<le> spec_size a u"
  shows "allocated (spec_take a u n) = insert (u, n) (allocated a)"
proof -
  note sh = invD(2) [OF i] and tl = shapeD(6) [OF invD(2) [OF i]]
  note um = free_unit_facts(3) [OF i u]
  then obtain xs ys where bs: "blocks a = xs @ (u, spec_size a u) # ys" by (meson split_list)
  have blk: "blocks (spec_take a u n) = xs @ (if n < spec_size a u then [(u, n), (u + n, spec_size a u - n)]
      else [(u, spec_size a u)]) @ ys"
    unfolding spec_take_def bs using split_block_at [OF tl [unfolded bs]] by simp
  have other: "v \<noteq> u" "n < spec_size a u \<Longrightarrow> v \<noteq> u + n" if "(v, k) \<in> set xs \<union> set ys" for v k
  proof -
    have v: "v \<in> fst ` set (blocks a)" using that fst_mem [of v k "blocks a"] bs by auto
    show "v \<noteq> u" using tiled_distinct [OF tl] that bs by (auto dest: fst_mem)
    with tiled_start_inside [OF tl um v] n show "n < spec_size a u \<Longrightarrow> v \<noteq> u + n" by auto
  qed
  let ?F = "set (free_units a)" and ?F' = "set (free_units (spec_take a u n))"
  have fr: "?F' = (if n < spec_size a u then {u + n} else {}) \<union> (?F - {u})"
    using shapeD(8) [OF sh] by (auto simp: spec_take_def)
  have same: "v \<in> ?F' \<longleftrightarrow> v \<in> ?F" if "(v, k) \<in> set xs \<union> set ys" for v k
    using other [OF that] unfolding fr by auto
  have "allocated a = {(v, k) \<in> set xs \<union> set ys. v \<notin> ?F}"
    using u unfolding allocated_def bs by auto
  moreover have "allocated (spec_take a u n) = insert (u, n) {(v, k) \<in> set xs \<union> set ys. v \<notin> ?F'}"
    using u n unfolding allocated_def blk by (auto simp: fr)
  ultimately show ?thesis using same by auto
qed

lemma allocated_free:
  assumes i: "inv h H N s a" and un: "(u, n) \<in> allocated a"
  shows "allocated (snd (spec_free a u)) = allocated a - {(u, n)}"
proof -
  note sh = invD(2) [OF i] and tl = shapeD(6) [OF invD(2) [OF i]]
  have ub: "(u, n) \<in> set (blocks a)" and nf: "u \<notin> set (free_units a)" using un by (auto simp: allocated_def)
  have n: "n = spec_size a u" using spec_size_at [OF tl ub] by simp
  obtain xs ls rs ys where grp: "blocks a = xs @ (ls @ (u, n) # rs) @ ys"
    and ls: "ls = (case joins_left a u of None \<Rightarrow> [] | Some v \<Rightarrow> [(v, spec_size a v)])"
    and rs: "rs = (if joins_right a u then [(u + n, spec_size a (u + n))] else [])"
    by (rule joined_group [OF i ub])
  define st where "st = (case joins_left a u of None \<Rightarrow> u | Some v \<Rightarrow> v)"
  define en where "en = (if joins_right a u then u + n else u)"
  from tl grp obtain p e where t: "tiled 0 xs p" "tiled p (ls @ (u, n) # rs) e" "tiled e ys N"
    by (auto simp: tiled_append)
  then have "p = st" by (auto simp: st_def ls split: option.splits)
  note e = t(2) [unfolded this]
  have sf: "snd (spec_free a u) = a\<lparr>blocks := xs @ [(st, e - st)] @ ys, free_units := st # remove1 st (remove1 en (free_units a))\<rparr>"
    by (simp add: spec_free_eq [OF tl grp ls rs n st_def en_def e nf])
  have inside: "st \<le> en" "en < e"
    using e tiled_mem [OF e, of u n] by (auto simp: en_def ls rs st_def split: option.splits if_splits)
  have joined: "set (map fst ls) \<subseteq> set (free_units a)" "set (map fst rs) \<subseteq> set (free_units a)"
    by (auto simp: ls rs joins_left_def joins_right_def n split: option.splits if_splits)
  have outside: "v \<noteq> st" "v \<noteq> en" "v \<noteq> u" if "(v, k) \<in> set xs \<union> set ys" for v k
    using that tiled_mem [OF t(1), of v k] tiled_mem [OF t(3), of v k] inside \<open>p = st\<close> tiled_mem [OF e, of u n]
    by auto
  let ?F = "set (free_units a)"
  have "allocated a = insert (u, n) {(v, k) \<in> set xs \<union> set ys. v \<notin> ?F}"
    using nf joined unfolding allocated_def grp by (auto dest: fst_mem)
  moreover have "allocated (snd (spec_free a u)) = {(v, k) \<in> set xs \<union> set ys. v \<notin> ?F}"
    using outside shapeD(8) [OF sh] unfolding allocated_def sf by auto
  moreover have "(u, n) \<notin> set xs \<union> set ys" using outside(3) by blast
  ultimately show ?thesis by auto
qed

end

end
