(* ===== verification/IntArrayFreeList.thy ===== *)
theory IntArrayFreeList
  imports FreeList_Alloc
begin

text \<open>
  The free list over a Rust vector, \<open>src/util/int_array_freelist.rs\<close>. A list either owns its
  table or points to a parent whose table it shares; the parents live in a store from addresses
  to lists, so a write through a child is seen by the parent and by every other child. The
  theory interprets the locale \<open>table_store\<close> on this implementation and states the properties
  of the free list for it.
\<close>

section \<open>The implementation\<close>

record int_array_free_list =
  iafl_head :: int
  iafl_heads :: int
  iafl_vec :: "i32_bits list option"
  iafl_parent :: "nat option"

type_synonym iafl_store = "nat \<Rightarrow> int_array_free_list option"
type_synonym iafl_state = "int_array_free_list \<times> iafl_store"

partial_function (option) iafl_table :: "iafl_store \<Rightarrow> int_array_free_list \<Rightarrow> i32_bits list option" where
  "iafl_table st l = (case iafl_parent l of
     Some p \<Rightarrow> do { q \<leftarrow> st p; iafl_table st q }
   | None \<Rightarrow> iafl_vec l)"

text \<open>\<open>table_mut\<close> followed by an operation on the vector it returns a reference to.\<close>

partial_function (option) iafl_table_mut ::
  "(i32_bits list \<Rightarrow> i32_bits list option) \<Rightarrow> int_array_free_list \<Rightarrow> iafl_store \<Rightarrow> iafl_state option" where
  "iafl_table_mut f l st = (case iafl_parent l of
     Some p \<Rightarrow> do { q \<leftarrow> st p; (q', st') \<leftarrow> iafl_table_mut f q st; Some (l, st'(p \<mapsto> q')) }
   | None \<Rightarrow> do { t \<leftarrow> iafl_vec l; t' \<leftarrow> f t; Some (l\<lparr>iafl_vec := Some t'\<rparr>, st) })"

definition iafl_get_entry :: "iafl_state \<Rightarrow> int \<Rightarrow> i32_bits option" where
  "iafl_get_entry s index = do {
     t \<leftarrow> iafl_table (snd s) (fst s);
     if 0 \<le> index \<and> index < int (length t) then Some (t ! nat index) else None }"

definition iafl_set_entry :: "iafl_state \<Rightarrow> int \<Rightarrow> i32_bits \<Rightarrow> iafl_state option" where
  "iafl_set_entry s index value =
     iafl_table_mut (\<lambda>t. if 0 \<le> index \<and> index < int (length t) then Some (t[nat index := value]) else None)
       (fst s) (snd s)"

definition IntArrayFreeList_impl :: "iafl_state free_list_trait" where
  "IntArrayFreeList_impl = \<lparr>head = \<lambda>s. iafl_head (fst s), heads = \<lambda>s. iafl_heads (fst s),
     get_entry = iafl_get_entry, set_entry = iafl_set_entry\<rparr>"

lemma iafl_impl_simps [simp]:
  "head IntArrayFreeList_impl s = iafl_head (fst s)" "heads IntArrayFreeList_impl s = iafl_heads (fst s)"
  "get_entry IntArrayFreeList_impl = iafl_get_entry" "set_entry IntArrayFreeList_impl = iafl_set_entry"
  by (simp_all add: IntArrayFreeList_impl_def)

definition iafl_new :: "iafl_store \<Rightarrow> usize \<Rightarrow> int \<Rightarrow> usize \<Rightarrow> iafl_state option" where
  "iafl_new st units grain hds =
     (let len = push_bit 1 (units + 1 + hds);
          iafl = \<lparr>iafl_head = -1, iafl_heads = i32 (uint hds), iafl_vec = Some (replicate (unat len) 0),
                  iafl_parent = None\<rparr>
      in initialize_heap IntArrayFreeList_impl (iafl, st) (i32 (uint units)) grain)"

definition iafl_from_parent :: "iafl_store \<Rightarrow> nat \<Rightarrow> int \<Rightarrow> iafl_state option" where
  "iafl_from_parent st parent_ptr ordinal = do {
     parent \<leftarrow> st parent_ptr;
     Some (\<lparr>iafl_head = i32 (- i32 (1 + ordinal)), iafl_heads = iafl_heads parent, iafl_vec = None,
            iafl_parent = Some parent_ptr\<rparr>, st) }"

definition iafl_get_ordinal :: "int_array_free_list \<Rightarrow> int" where
  "iafl_get_ordinal l = i32 (i32 (- iafl_head l) - 1)"

definition iafl_resize_freelist :: "iafl_state \<Rightarrow> usize \<Rightarrow> int \<Rightarrow> iafl_state option" where
  "iafl_resize_freelist s units grain = do {
     s \<leftarrow> iafl_table_mut (\<lambda>t. Some (replicate (unat (push_bit 1 (units + 1 + word_of_int (iafl_heads (fst s))))) 0))
            (fst s) (snd s);
     initialize_heap IntArrayFreeList_impl s (i32 (uint units)) grain }"

section \<open>It is an array\<close>

definition iafl_ok :: "iafl_state \<Rightarrow> bool" where
  "iafl_ok s \<longleftrightarrow> (case iafl_parent (fst s) of
     None \<Rightarrow> iafl_vec (fst s) \<noteq> None
   | Some p \<Rightarrow> (case snd s p of None \<Rightarrow> False | Some q \<Rightarrow> iafl_parent q = None \<and> iafl_vec q \<noteq> None))"

definition iafl_view :: "iafl_state \<Rightarrow> i32_bits list" where
  "iafl_view s = (case iafl_table (snd s) (fst s) of None \<Rightarrow> [] | Some t \<Rightarrow> t)"

definition iafl_upd :: "iafl_state \<Rightarrow> int \<Rightarrow> i32_bits \<Rightarrow> iafl_state" where
  "iafl_upd s i v = (case iafl_set_entry s i v of None \<Rightarrow> s | Some s' \<Rightarrow> s')"

lemma iafl_table_root: "iafl_parent l = None \<Longrightarrow> iafl_table st l = iafl_vec l"
  by (simp add: iafl_table.simps)

lemma iafl_table_child: "iafl_parent l = Some p \<Longrightarrow> st p = Some q \<Longrightarrow> iafl_table st l = iafl_table st q"
  by (subst iafl_table.simps) simp

lemma iafl_mut_root:
  "iafl_parent l = None \<Longrightarrow>
   iafl_table_mut f l st = do { t \<leftarrow> iafl_vec l; t' \<leftarrow> f t; Some (l\<lparr>iafl_vec := Some t'\<rparr>, st) }"
  by (simp add: iafl_table_mut.simps)

lemma iafl_mut_child:
  "iafl_parent l = Some p \<Longrightarrow> st p = Some q \<Longrightarrow>
   iafl_table_mut f l st = do { (q', st') \<leftarrow> iafl_table_mut f q st; Some (l, st'(p \<mapsto> q')) }"
  by (subst iafl_table_mut.simps) simp

text \<open>Reading back after a successful modification of the shared vector.\<close>

lemma iafl_mut_effect:
  assumes "iafl_ok s" "f (iafl_view s) = Some t"
  obtains s' where "iafl_table_mut f (fst s) (snd s) = Some s'" "iafl_ok s'" "iafl_view s' = t"
    "iafl_head (fst s') = iafl_head (fst s)" "iafl_heads (fst s') = iafl_heads (fst s)"
proof (cases "iafl_parent (fst s)")
  case None
  with assms obtain v where v: "iafl_vec (fst s) = Some v" by (auto simp: iafl_ok_def)
  with None assms(2) have "f v = Some t" by (simp add: iafl_view_def iafl_table_root)
  with None v that show thesis
    by (auto simp: iafl_mut_root iafl_ok_def iafl_view_def iafl_table_root)
next
  case (Some p)
  with assms obtain q v where q: "snd s p = Some q" "iafl_parent q = None" "iafl_vec q = Some v"
    by (auto simp: iafl_ok_def split: option.splits)
  then have "iafl_view s = v" by (simp add: iafl_view_def iafl_table_child [OF Some] iafl_table_root)
  with assms(2) have "f v = Some t" by simp
  with Some q have "iafl_table_mut f (fst s) (snd s) = Some (fst s, (snd s)(p \<mapsto> q\<lparr>iafl_vec := Some t\<rparr>))"
    by (simp add: iafl_mut_child iafl_mut_root)
  moreover have "iafl_table ((snd s)(p \<mapsto> q\<lparr>iafl_vec := Some t\<rparr>)) (fst s) = Some t"
    using Some q by (simp add: iafl_table_child iafl_table_root)
  ultimately show thesis using that Some q by (auto simp: iafl_ok_def iafl_view_def)
qed

lemma iafl_view_table: "iafl_ok s \<Longrightarrow> iafl_table (snd s) (fst s) = Some (iafl_view s)"
  by (auto simp: iafl_ok_def iafl_view_def iafl_table_child iafl_table_root split: option.splits)

lemma iafl_set_effect:
  assumes "iafl_ok s" "0 \<le> i" "i < int (length (iafl_view s))"
  shows "iafl_set_entry s i v = Some (iafl_upd s i v)" "iafl_ok (iafl_upd s i v)"
    "iafl_view (iafl_upd s i v) = (iafl_view s)[nat i := v]"
proof -
  let ?f = "\<lambda>t. if 0 \<le> i \<and> i < int (length t) then Some (t[nat i := v]) else None"
  have "?f (iafl_view s) = Some ((iafl_view s)[nat i := v])" using assms by simp
  then obtain s' where "iafl_table_mut ?f (fst s) (snd s) = Some s'" "iafl_ok s'"
      "iafl_view s' = (iafl_view s)[nat i := v]"
    using iafl_mut_effect [OF assms(1), of ?f] by blast
  then show "iafl_set_entry s i v = Some (iafl_upd s i v)" "iafl_ok (iafl_upd s i v)"
    "iafl_view (iafl_upd s i v) = (iafl_view s)[nat i := v]"
    by (simp_all add: iafl_upd_def iafl_set_entry_def)
qed

lemma iafl_set_heads:
  "iafl_head (fst (iafl_upd s i v)) = iafl_head (fst s)" "iafl_heads (fst (iafl_upd s i v)) = iafl_heads (fst s)"
  unfolding iafl_upd_def iafl_set_entry_def
  by (subst iafl_table_mut.simps; auto split: option.splits Option.bind_splits if_splits)+

interpretation iafl: table_store IntArrayFreeList_impl iafl_view iafl_ok iafl_upd
proof unfold_locales
  fix s i assume "iafl_ok s" "0 \<le> i" "i < int (length (iafl_view s))"
  then show "get_entry IntArrayFreeList_impl s i = Some (iafl_view s ! nat i)"
    by (simp add: iafl_get_entry_def iafl_view_table)
qed (simp_all add: iafl_set_effect iafl_set_heads)

section \<open>Properties\<close>

definition iafl_represents :: "int \<Rightarrow> iafl_state \<Rightarrow> free_list_spec \<Rightarrow> bool" where
  "iafl_represents N s a \<longleftrightarrow>
     (let h = iafl_head (fst s); H = iafl_heads (fst s); tab = iafl_view s in
      iafl_ok s \<and> 1 \<le> H \<and> H \<le> MAX_HEADS \<and> 0 \<le> N \<and> N \<le> MAX_UNITS \<and>
      2 * (N + 1 + H) \<le> int (length tab) \<and> represents h H N (lo_of tab H N) (hi_of tab H N) a)"

lemma iafl_represents_inv:
  "iafl_represents N s a \<longleftrightarrow> (\<exists>h H. iafl.inv h H N s a)"
  by (auto simp: iafl_represents_def iafl.inv_def iafl.geom_def Let_def)

lemma iafl_new_ok:
  assumes "uint units \<le> MAX_UNITS" "1 \<le> uint hds" "uint hds \<le> MAX_HEADS" "1 \<le> grain" "grain < 2 ^ 31"
  shows "\<exists>s. iafl_new st units grain hds = Some s \<and> iafl_represents (uint units) s (full_heap (uint units) grain)"
proof -
  define l where "l = \<lparr>iafl_head = -1, iafl_heads = i32 (uint hds),
    iafl_vec = Some (replicate (unat (push_bit 1 (units + 1 + hds))) 0), iafl_parent = None\<rparr>"
  have b: "uint units \<le> 1073741694" "uint hds \<le> 128" "0 \<le> uint units"
    using assms by (simp_all add: MAX_UNITS_eq MAX_HEADS_def)
  have i: "i32 (uint hds) = uint hds" "i32 (uint units) = uint units"
    using b assms(2) by (auto intro!: i32_id order_trans [OF _ uint_ge_0])
  have "uint (push_bit 1 (units + 1 + hds)) = 2 * (uint units + 1 + uint hds)"
    using b by (simp add: push_bit_eq_mult uint_word_ariths)
  then have len: "int (unat (push_bit 1 (units + 1 + hds))) = 2 * (uint units + 1 + uint hds)" by simp
  have view: "iafl_view (l, st) = replicate (unat (push_bit 1 (units + 1 + hds))) 0"
    by (simp add: iafl_view_def l_def iafl_table_root)
  have g: "iafl.geom (-1) (uint hds) (uint units) (l, st)"
    using assms len by (simp add: iafl.geom_def view iafl_ok_def) (simp add: l_def i)
  have "\<not> bit (iafl.lo (uint units) (l, st) u) 30" if "0 \<le> u" "u < uint units" for u
    unfolding lo_of_def view using that len assms(2)
    by (simp add: l_def i nat_less_iff del: replicate_0)
  from iafl.initialize_heap_ok [OF g _ _ assms(4,5) this] assms(2)
  obtain s where "initialize_heap IntArrayFreeList_impl (l, st) (uint units) grain = Some s"
      "iafl.inv (-1) (uint hds) (uint units) s (full_heap (uint units) grain)"
    by (auto simp: full_heap_def)
  then show ?thesis
    unfolding iafl_new_def Let_def l_def [symmetric] i(2) iafl_represents_inv by blast
qed

text \<open>
  Creating a free list of \<open>units\<close> units with grain \<open>grain\<close> succeeds, and the table it
  builds represents a heap cut into free blocks of \<open>grain\<close> units (the last one shorter when the
  grain does not divide the number of units), listed in increasing order.
\<close>

theorem iafl_new_correct:
  assumes "uint units \<le> MAX_UNITS" "1 \<le> uint hds" "uint hds \<le> MAX_HEADS" "1 \<le> grain" "grain < 2 ^ 31"
  shows "\<exists>s. iafl_new st units grain hds = Some s \<and> iafl_represents (uint units) s (full_heap (uint units) grain)"
  using assms by (rule iafl_new_ok)

theorem iafl_new_correct_witness:
  "\<exists>s. iafl_new Map.empty 5 2 1 = Some s \<and>
     iafl_represents 5 s \<lparr>blocks = [(0, 2), (2, 2), (4, 1)], free_units = [0, 2, 4], uncoalescable = {}\<rparr>"
  using iafl_new_correct [of 5 1 2 Map.empty]
  by (simp add: MAX_UNITS_eq MAX_HEADS_def full_heap_def heap_blocks_def grains_def upt_rec)

text \<open>
  C21. First-fit allocation implements its specification on every well-formed table: it takes the
  first block of the list that is large enough, splits off the rest and puts it at the head of
  the list, or fails leaving the table unchanged; it neither panics nor loops.
\<close>

theorem iafl_alloc_first_fit_refines:
  assumes "iafl_represents N s a" "1 \<le> n"
  shows "\<exists>s'. alloc_first_fit IntArrayFreeList_impl s n = Some (fst (spec_alloc a n), s') \<and>
    iafl_represents N s' (snd (spec_alloc a n))"
  using iafl.alloc_first_fit_ok [OF _ assms(2)] assms(1) unfolding iafl_represents_inv by blast

theorem iafl_alloc_first_fit_refines_witness:
  "\<exists>s s'. iafl_represents 5 s (full_heap 5 2) \<and> alloc_first_fit IntArrayFreeList_impl s 1 = Some (0, s') \<and>
     iafl_represents 5 s' \<lparr>blocks = [(0, 1), (1, 1), (2, 2), (4, 1)], free_units = [1, 2, 4], uncoalescable = {}\<rparr>"
proof -
  obtain s where s: "iafl_represents 5 s (full_heap 5 2)"
    using iafl_new_ok [of 5 1 2 Map.empty] by (auto simp: MAX_UNITS_eq MAX_HEADS_def)
  have "fst (spec_alloc (full_heap 5 2) 1) = 0"
    "snd (spec_alloc (full_heap 5 2) 1) =
       \<lparr>blocks = [(0, 1), (1, 1), (2, 2), (4, 1)], free_units = [1, 2, 4], uncoalescable = {}\<rparr>"
    by (simp_all add: spec_alloc_def spec_first_fit_def spec_take_def spec_size_def full_heap_def
        heap_blocks_def grains_def upt_rec)
  with iafl_alloc_first_fit_refines [OF s, of 1] s show ?thesis by (auto simp del: split_paired_Ex)
qed

text \<open>
  Best-fit allocation returns a free block of least sufficient size and takes the request from
  it, and fails exactly when no free block is large enough.
\<close>

theorem iafl_alloc_best_fit_minimal:
  assumes "iafl_represents N s a" "1 \<le> n"
  shows "if \<exists>u \<in> set (free_units a). n \<le> spec_size a u
    then \<exists>u s'. alloc_best_fit IntArrayFreeList_impl s n = Some (u, s') \<and> iafl_represents N s' (spec_take a u n) \<and>
      u \<in> set (free_units a) \<and> n \<le> spec_size a u \<and>
      (\<forall>v \<in> set (free_units a). n \<le> spec_size a v \<longrightarrow> spec_size a u \<le> spec_size a v)
    else alloc_best_fit IntArrayFreeList_impl s n = Some (FAILURE, s)"
proof -
  from assms(1) obtain h H where i: "iafl.inv h H N s a" by (auto simp: iafl_represents_inv)
  from iafl.alloc_best_fit_ok [OF i assms(2)] show ?thesis
    by (auto simp: iafl_represents_inv) force+
qed

theorem iafl_alloc_best_fit_minimal_witness:
  "\<exists>s s'. iafl_represents 5 s (full_heap 5 2) \<and> alloc_best_fit IntArrayFreeList_impl s 1 = Some (4, s') \<and>
     iafl_represents 5 s' (spec_take (full_heap 5 2) 4 1)"
proof -
  obtain s where s: "iafl_represents 5 s (full_heap 5 2)"
    using iafl_new_ok [of 5 1 2 Map.empty] by (auto simp: MAX_UNITS_eq MAX_HEADS_def)
  have sz: "spec_size (full_heap 5 2) 0 = 2" "spec_size (full_heap 5 2) 2 = 2" "spec_size (full_heap 5 2) 4 = 1"
    and fr: "set (free_units (full_heap 5 2)) = {0, 2, 4}"
    by (auto simp: spec_size_def full_heap_def heap_blocks_def grains_def upt_rec)
  from iafl_alloc_best_fit_minimal [OF s, of 1] s show ?thesis
    unfolding fr using sz by (auto simp del: split_paired_Ex)
qed

text \<open>
  C20. Releasing an allocated block implements its specification: the block joins its free
  neighbours across coalescable boundaries, the joined block goes to the head of the list, and the
  result is the size of the block or, on request, of the joined block.
\<close>

theorem iafl_free_refines:
  assumes "iafl_represents N s a" "(u, n) \<in> allocated a"
  shows "\<exists>s'. free IntArrayFreeList_impl s u c =
      Some (if c then spec_size (snd (spec_free a u)) (fst (spec_free a u)) else n, s') \<and>
    iafl_represents N s' (snd (spec_free a u))"
proof -
  from assms(1) obtain h H where i: "iafl.inv h H N s a" by (auto simp: iafl_represents_inv)
  from assms(2) have u: "(u, n) \<in> set (blocks a)" "u \<notin> set (free_units a)" by (auto simp: allocated_def)
  have "spec_size a u = n" by (rule spec_size_at [OF shapeD(6) [OF iafl.invD(2) [OF i]] u(1)])
  with iafl.free_ok [OF i fst_mem [OF u(1)] u(2), of c] show ?thesis
    unfolding iafl_represents_inv by blast
qed

theorem iafl_free_refines_witness:
  "\<exists>s s'. free IntArrayFreeList_impl s 0 True = Some (4, s') \<and>
     iafl_represents 5 s' \<lparr>blocks = [(0, 4), (4, 1)], free_units = [0, 4], uncoalescable = {}\<rparr>"
proof -
  obtain s0 where s0: "iafl_represents 5 s0 (full_heap 5 2)"
    using iafl_new_ok [of 5 1 2 Map.empty] by (auto simp: MAX_UNITS_eq MAX_HEADS_def)
  let ?a = "\<lparr>blocks = [(0, 2), (2, 2), (4, 1)], free_units = [2, 4], uncoalescable = {}\<rparr>"
  have "spec_alloc (full_heap 5 2) 2 = (0, ?a)"
    by (simp add: spec_alloc_def spec_first_fit_def spec_take_def spec_size_def full_heap_def
        heap_blocks_def grains_def upt_rec)
  with iafl.alloc_first_fit_ok [of _ _ 5 s0 "full_heap 5 2" 2] s0
  obtain s where s: "iafl_represents 5 s ?a" by (fastforce simp: iafl_represents_inv)
  have a: "(0, 2) \<in> allocated ?a" by (simp add: allocated_def)
  have f: "spec_free ?a 0 = (0, \<lparr>blocks = [(0, 4), (4, 1)], free_units = [0, 4], uncoalescable = {}\<rparr>)"
    by (simp add: spec_free_def joins_left_def joins_right_def spec_size_def)
  show ?thesis using iafl_free_refines [OF s a, of True] unfolding f
    by (auto simp: spec_size_def simp del: split_paired_Ex)
qed

section \<open>Runs\<close>

text \<open>
  A client of a list that has no parent: it creates the list, allocates with either strategy or at a given block,
  and releases blocks it holds. The last component is the set of blocks the client holds. A block at which the client allocates
  is any unit that starts a block, free or not: it is found from the first unit by going from block to block.
\<close>

inductive block_start :: "int \<Rightarrow> iafl_state \<Rightarrow> int \<Rightarrow> bool" for N s where
  start_first: "0 < N \<Longrightarrow> block_start N s 0"
| start_right: "block_start N s u \<Longrightarrow> get_right IntArrayFreeList_impl s u = Some v \<Longrightarrow> v < N \<Longrightarrow> block_start N s v"

inductive iafl_run :: "int \<Rightarrow> iafl_state \<Rightarrow> (int \<times> int) set \<Rightarrow> bool" where
  run_new: "iafl_new st units grain hds = Some s \<Longrightarrow> uint units \<le> MAX_UNITS \<Longrightarrow> 1 \<le> uint hds \<Longrightarrow>
    uint hds \<le> MAX_HEADS \<Longrightarrow> 1 \<le> grain \<Longrightarrow> grain < 2 ^ 31 \<Longrightarrow> iafl_run (uint units) s {}"
| run_alloc: "iafl_run N s L \<Longrightarrow> 1 \<le> n \<Longrightarrow> alloc best IntArrayFreeList_impl s n = Some (u, s') \<Longrightarrow>
    iafl_run N s' (if u = FAILURE then L else insert (u, n) L)"
| run_alloc_from_unit: "iafl_run N s L \<Longrightarrow> 1 \<le> n \<Longrightarrow> block_start N s v \<Longrightarrow>
    alloc_from_unit IntArrayFreeList_impl s n v = Some (u, s') \<Longrightarrow> iafl_run N s' (if u = FAILURE then L else insert (u, n) L)"
| run_free: "iafl_run N s L \<Longrightarrow> (u, n) \<in> L \<Longrightarrow> free IntArrayFreeList_impl s u c = Some (r, s') \<Longrightarrow>
    iafl_run N s' (L - {(u, n)})"

text \<open>What either allocation strategy does to the blocks in use.\<close>

lemma iafl_alloc_step:
  assumes i: "iafl.inv h H N s a" and n: "1 \<le> n"
  obtains u s' a' where "alloc best IntArrayFreeList_impl s n = Some (u, s')" "iafl.inv h H N s' a'"
    "u = FAILURE \<and> a' = a \<or> u \<noteq> FAILURE \<and> u \<in> set (free_units a) \<and> n \<le> spec_size a u \<and> a' = spec_take a u n"
proof -
  have fail: "u \<noteq> FAILURE" if "u \<in> set (free_units a)" for u
    using tiled_mem [OF shapeD(6) [OF iafl.invD(2) [OF i]] iafl.free_unit_facts(3) [OF i that]]
    by (simp add: FAILURE_def)
  show thesis
  proof (cases best)
    case True
    with iafl.alloc_best_fit_ok [OF i n] fail that i show thesis unfolding alloc_def by metis
  next
    case False
    show thesis
    proof (cases "spec_first_fit a n")
      case None
      with False iafl.alloc_first_fit_ok [OF i n] that i show thesis
        unfolding alloc_def by (auto simp: spec_alloc_def)
    next
      case (Some u)
      then have "u \<in> set (free_units a)" "n \<le> spec_size a u"
        unfolding spec_first_fit_def by (auto simp: find_Some_iff)
      with Some False iafl.alloc_first_fit_ok [OF i n] fail that show thesis
        unfolding alloc_def by (auto simp: spec_alloc_def)
    qed
  qed
qed

lemma block_start_block:
  assumes i: "iafl.inv h H N s a"
  shows "block_start N s u \<Longrightarrow> u \<in> fst ` set (blocks a)"
proof (induction rule: block_start.induct)
  case start_first
  note tl = shapeD(6) [OF iafl.invD(2) [OF i]]
  show ?case using tl start_first by (cases "blocks a") auto
next
  case (start_right u v)
  note tl = shapeD(6) [OF iafl.invD(2) [OF i]]
  note sz = iafl.inv_get_size [OF i start_right.IH]
  have b: "0 \<le> u" "1 \<le> spec_size a u" "u + spec_size a u \<le> N" using tiled_mem [OF tl sz(2)] by auto
  have "N \<le> 1073741694" using iafl.geom_range [OF iafl.invD(1) [OF i]] by simp
  then have v: "v = u + spec_size a u" using start_right.hyps(2) sz(1) b by (simp add: get_right_def)
  obtain xs ys where bs: "blocks a = xs @ (u, spec_size a u) # ys" using sz(2) by (meson split_list)
  then have "tiled (u + spec_size a u) ys N" using tl by (auto simp: tiled_append)
  then show ?case using start_right.hyps(3) v bs by (cases ys) auto
qed

lemma iafl_run_inv: "iafl_run N s L \<Longrightarrow> \<exists>h H a. iafl.inv h H N s a \<and> allocated a = L"
proof (induction rule: iafl_run.induct)
  case (run_new st units grain hds s)
  then have "iafl_represents (uint units) s (full_heap (uint units) grain)"
    using iafl_new_ok [of units hds grain st] by auto
  moreover have "allocated (full_heap (uint units) grain) = {}"
    by (auto simp: allocated_def full_heap_def dest: fst_mem)
  ultimately show ?case unfolding iafl_represents_inv by blast
next
  case (run_alloc N s L n best u s')
  then obtain h H a where a: "iafl.inv h H N s a" "allocated a = L" by blast
  from iafl_alloc_step [OF a(1) run_alloc(2), of best] obtain u1 s1 a1
    where 1: "alloc best IntArrayFreeList_impl s n = Some (u1, s1)" "iafl.inv h H N s1 a1"
      "u1 = FAILURE \<and> a1 = a \<or> u1 \<noteq> FAILURE \<and> u1 \<in> set (free_units a) \<and> n \<le> spec_size a u1 \<and> a1 = spec_take a u1 n"
    by blast
  with run_alloc(3) have "u1 = u" "s1 = s'" by auto
  with 1(2,3) a iafl.allocated_take [OF a(1) _ run_alloc(2), of u] show ?case by auto
next
  case (run_alloc_from_unit N s L n v u s')
  then obtain h H a where a: "iafl.inv h H N s a" "allocated a = L" by blast
  have v: "v \<in> fst ` set (blocks a)" by (rule block_start_block [OF a(1) run_alloc_from_unit(3)])
  then have "v \<noteq> FAILURE"
    using tiled_mem [OF shapeD(6) [OF iafl.invD(2) [OF a(1)]] iafl.inv_get_size(2) [OF a(1) v]] by (simp add: FAILURE_def)
  with iafl.alloc_from_unit_ok [OF a(1) run_alloc_from_unit(2) v] run_alloc_from_unit(4) a
    iafl.allocated_take [OF a(1) _ run_alloc_from_unit(2), of v]
  show ?case by (auto split: if_splits)
next
  case (run_free N s L u n c r s')
  then obtain h H a where a: "iafl.inv h H N s a" "allocated a = L" by blast
  with run_free(2) have u: "u \<in> fst ` set (blocks a)" "u \<notin> set (free_units a)" "(u, n) \<in> allocated a"
    by (auto simp: allocated_def dest: fst_mem)
  from iafl.free_ok [OF a(1) u(1,2), of c] iafl.allocated_free [OF a(1) u(3)] a run_free(3) show ?case
    by auto
qed

lemma iafl_run_first_fit:
  assumes "iafl_run N s L" "iafl_represents N s a" "spec_alloc a n = (u, a')" "1 \<le> n" "u \<noteq> FAILURE"
  obtains s' where "iafl_run N s' (insert (u, n) L)" "iafl_represents N s' a'"
proof -
  from assms(2) obtain h H where "iafl.inv h H N s a" unfolding iafl_represents_inv by blast
  from iafl.alloc_first_fit_ok [OF this assms(4)] obtain s'
    where s': "alloc False IntArrayFreeList_impl s n = Some (u, s')" "iafl.inv h H N s' a'"
    unfolding assms(3) by (auto simp: alloc_def)
  show thesis
  proof (rule that)
    show "iafl_run N s' (insert (u, n) L)" using run_alloc [OF assms(1,4) s'(1)] assms(5) by simp
    show "iafl_represents N s' a'" unfolding iafl_represents_inv using s'(2) by blast
  qed
qed

lemma iafl_run_example: "\<exists>s. iafl_run 5 s {(0, 1), (2, 2)}"
proof -
  obtain s where s: "iafl_new Map.empty 5 2 1 = Some s" "iafl_represents 5 s (full_heap 5 2)"
    using iafl_new_ok [of 5 1 2 Map.empty] by (auto simp: MAX_UNITS_eq MAX_HEADS_def)
  have 0: "iafl_run 5 s {}" using run_new [OF s(1)] by (simp add: MAX_UNITS_eq MAX_HEADS_def)
  have "spec_alloc (full_heap 5 2) 1 =
      (0, \<lparr>blocks = [(0, 1), (1, 1), (2, 2), (4, 1)], free_units = [1, 2, 4], uncoalescable = {}\<rparr>)"
    by (simp add: spec_alloc_def spec_first_fit_def spec_take_def spec_size_def full_heap_def
        heap_blocks_def grains_def upt_rec)
  from iafl_run_first_fit [OF 0 s(2) this] obtain s1 where s1: "iafl_run 5 s1 {(0, 1)}"
    "iafl_represents 5 s1 \<lparr>blocks = [(0, 1), (1, 1), (2, 2), (4, 1)], free_units = [1, 2, 4], uncoalescable = {}\<rparr>"
    by (auto simp: FAILURE_def simp del: split_paired_All)
  have "spec_alloc \<lparr>blocks = [(0, 1), (1, 1), (2, 2), (4, 1)], free_units = [1, 2, 4], uncoalescable = {}\<rparr> 2 =
      (2, \<lparr>blocks = [(0, 1), (1, 1), (2, 2), (4, 1)], free_units = [1, 4], uncoalescable = {}\<rparr>)"
    by (simp add: spec_alloc_def spec_first_fit_def spec_take_def spec_size_def)
  then obtain s2 where "iafl_run 5 s2 {(2, 2), (0, 1)}"
    by (rule iafl_run_first_fit [OF s1]) (simp_all add: FAILURE_def)
  then show ?thesis unfolding insert_commute [of "(2, 2)"] by blast
qed

text \<open>
  C2. Whatever sequence of allocations, with either strategy or at a given block, and of releases a client makes on a list without
  a parent, the blocks it holds lie inside the heap and no two of them overlap.
\<close>

theorem iafl_run_disjoint:
  assumes "iafl_run N s L" "(u, n) \<in> L" "(v, m) \<in> L"
  shows "0 \<le> u \<and> 1 \<le> n \<and> u + n \<le> N \<and> ((u, n) = (v, m) \<or> u + n \<le> v \<or> v + m \<le> u)"
proof -
  from iafl_run_inv [OF assms(1)] obtain h H a where i: "iafl.inv h H N s a" and "allocated a = L" by blast
  with assms(2,3) have m: "(u, n) \<in> set (blocks a)" "(v, m) \<in> set (blocks a)" by (auto simp: allocated_def)
  note tl = shapeD(6) [OF iafl.invD(2) [OF i]]
  from tiled_mem [OF tl m(1)] tiled_disjoint [OF tl m] show ?thesis by auto
qed

theorem iafl_run_disjoint_witness: "\<exists>s. iafl_run 5 s {(0, 1), (2, 2)} \<and> (0::int) + 1 \<le> 2"
proof -
  from iafl_run_example obtain s where s: "iafl_run 5 s {(0, 1), (2, 2)}" by blast
  from iafl_run_disjoint [OF s, of 0 1 2 2] have "(0::int) + 1 \<le> 2" by auto
  with s show ?thesis by blast
qed

text \<open>
  C11. Allocation and release are total on every run: no index is out of range and no traversal of
  the list loops.
\<close>

theorem iafl_run_progress:
  assumes "iafl_run N s L" "1 \<le> n"
  shows "alloc best IntArrayFreeList_impl s n \<noteq> None \<and>
    (\<forall>(u, m) \<in> L. free IntArrayFreeList_impl s u c \<noteq> None)"
proof -
  from iafl_run_inv [OF assms(1)] obtain h H a where i: "iafl.inv h H N s a" and a: "allocated a = L" by blast
  have "free IntArrayFreeList_impl s u c \<noteq> None" if "(u, m) \<in> L" for u m
  proof -
    from that a have "u \<in> fst ` set (blocks a)" "u \<notin> set (free_units a)" by (auto simp: allocated_def dest: fst_mem)
    from iafl.free_ok [OF i this, of c] show ?thesis by auto
  qed
  moreover have "alloc best IntArrayFreeList_impl s n \<noteq> None"
    by (rule iafl_alloc_step [OF i assms(2), of best]) simp
  ultimately show ?thesis by blast
qed

theorem iafl_run_progress_witness:
  "\<exists>s. iafl_run 5 s {(0, 1), (2, 2)} \<and> alloc True IntArrayFreeList_impl s 3 \<noteq> None \<and>
     free IntArrayFreeList_impl s 2 False \<noteq> None"
proof -
  from iafl_run_example obtain s where s: "iafl_run 5 s {(0, 1), (2, 2)}" by blast
  from iafl_run_progress [OF s, of 3 True False] have "alloc True IntArrayFreeList_impl s 3 \<noteq> None"
    "free IntArrayFreeList_impl s 2 False \<noteq> None" by simp_all
  with s show ?thesis by blast
qed

text \<open>A child of a parent shares its vector and is told apart by its ordinal.\<close>

lemma iafl_child_shares:
  assumes "st p = Some q" "iafl_parent q = None" "iafl_vec q = Some t" "0 \<le> k" "k < 2 ^ 31 - 1"
  shows "\<exists>c. iafl_from_parent st p k = Some (c, st) \<and> iafl_get_ordinal c = k \<and> iafl_view (c, st) = t \<and>
    (\<forall>i v. 0 \<le> i \<and> i < int (length t) \<longrightarrow>
       (\<exists>st'. iafl_set_entry (c, st) i v = Some (c, st') \<and> (\<exists>q'. st' p = Some q' \<and> iafl_view (q', st') = t[nat i := v])))"
  using assms
  by (auto simp: iafl_from_parent_def iafl_get_ordinal_def iafl_view_def iafl_table_child iafl_table_root
      iafl_set_entry_def iafl_mut_child iafl_mut_root)

end
