(* ===== verification/Conversions.thy ===== *)
theory Conversions
  imports Mmtk_Prelude
begin

text \<open>
  Addresses, their arithmetic and alignment, and the conversions between bytes, pages and chunks:
  \<open>util/address.rs\<close>, \<open>util/conversions.rs\<close>, the constants of \<open>util/constants.rs\<close> and the
  virtual memory layout of \<open>util/heap/layout/vm_layout.rs\<close>. An \<open>Address\<close> is a transparent wrapper
  of \<open>usize\<close>, so its operations are operations on 64-bit words and wrap in a release build.
\<close>

section \<open>Constants\<close>

definition LOG_BITS_IN_BYTE :: nat where "LOG_BITS_IN_BYTE = 3"
definition BITS_IN_BYTE :: usize where "BITS_IN_BYTE = push_bit LOG_BITS_IN_BYTE 1"
definition LOG_BITS_IN_INT :: nat where "LOG_BITS_IN_INT = LOG_BITS_IN_BYTE + 2"
definition LOG_BYTES_IN_ADDRESS :: nat where "LOG_BYTES_IN_ADDRESS = 3"
definition BYTES_IN_ADDRESS :: usize where "BYTES_IN_ADDRESS = push_bit LOG_BYTES_IN_ADDRESS 1"
definition LOG_BITS_IN_ADDRESS :: nat where "LOG_BITS_IN_ADDRESS = LOG_BITS_IN_BYTE + LOG_BYTES_IN_ADDRESS"
definition LOG_BYTES_IN_WORD :: nat where "LOG_BYTES_IN_WORD = LOG_BYTES_IN_ADDRESS"
definition BYTES_IN_WORD :: usize where "BYTES_IN_WORD = push_bit LOG_BYTES_IN_WORD 1"
definition LOG_BITS_IN_WORD :: nat where "LOG_BITS_IN_WORD = LOG_BITS_IN_BYTE + LOG_BYTES_IN_WORD"
definition BITS_IN_WORD :: usize where "BITS_IN_WORD = push_bit LOG_BITS_IN_WORD 1"
definition LOG_BYTES_IN_PAGE :: nat where "LOG_BYTES_IN_PAGE = 12"
definition BYTES_IN_PAGE :: usize where "BYTES_IN_PAGE = push_bit LOG_BYTES_IN_PAGE 1"
definition LOG_MIN_OBJECT_SIZE :: nat where "LOG_MIN_OBJECT_SIZE = LOG_BYTES_IN_WORD"
definition MIN_OBJECT_SIZE :: usize where "MIN_OBJECT_SIZE = push_bit LOG_MIN_OBJECT_SIZE 1"
definition LOG_BYTES_IN_CHUNK :: nat where "LOG_BYTES_IN_CHUNK = 22"
definition BYTES_IN_CHUNK :: usize where "BYTES_IN_CHUNK = push_bit LOG_BYTES_IN_CHUNK 1"
definition CHUNK_MASK :: usize where "CHUNK_MASK = push_bit LOG_BYTES_IN_CHUNK 1 - 1"
definition PAGES_IN_CHUNK :: usize where "PAGES_IN_CHUNK = push_bit (LOG_BYTES_IN_CHUNK - LOG_BYTES_IN_PAGE) 1"
definition LOG_MMAP_CHUNK_BYTES :: nat where "LOG_MMAP_CHUNK_BYTES = LOG_BYTES_IN_CHUNK"
definition MMAP_CHUNK_BYTES :: usize where "MMAP_CHUNK_BYTES = push_bit LOG_MMAP_CHUNK_BYTES 1"
definition LOG_MAX_SPACES :: nat where "LOG_MAX_SPACES = 4"

lemmas log_constants [simp] = LOG_BITS_IN_BYTE_def LOG_BITS_IN_INT_def LOG_BYTES_IN_ADDRESS_def LOG_BYTES_IN_WORD_def
  LOG_BITS_IN_WORD_def LOG_BYTES_IN_PAGE_def LOG_MIN_OBJECT_SIZE_def LOG_BYTES_IN_CHUNK_def
  LOG_MMAP_CHUNK_BYTES_def LOG_MAX_SPACES_def

lemma size_constants:
  "BITS_IN_BYTE = 2 ^ 3" "BYTES_IN_ADDRESS = 2 ^ 3" "BYTES_IN_WORD = 2 ^ 3" "BITS_IN_WORD = 2 ^ 6"
  "BYTES_IN_PAGE = 2 ^ 12" "MIN_OBJECT_SIZE = 2 ^ 3" "BYTES_IN_CHUNK = 2 ^ 22" "MMAP_CHUNK_BYTES = 2 ^ 22"
  "PAGES_IN_CHUNK = 2 ^ 10"
  by (simp_all add: BITS_IN_BYTE_def BYTES_IN_ADDRESS_def BYTES_IN_WORD_def BITS_IN_WORD_def BYTES_IN_PAGE_def
      MIN_OBJECT_SIZE_def BYTES_IN_CHUNK_def MMAP_CHUNK_BYTES_def PAGES_IN_CHUNK_def)

section \<open>Alignment\<close>

definition raw_align_up :: "usize \<Rightarrow> usize \<Rightarrow> usize" where
  "raw_align_up val align = (val + align - 1) AND NOT (align - 1)"

definition raw_align_down :: "usize \<Rightarrow> usize \<Rightarrow> usize" where
  "raw_align_down val align = val AND NOT (align - 1)"

definition raw_is_aligned :: "usize \<Rightarrow> usize \<Rightarrow> bool" where
  "raw_is_aligned val align \<longleftrightarrow> val AND (align - 1) = 0"

section \<open>Addresses\<close>

type_synonym address = usize
type_synonym byte_size = usize
type_synonym byte_offset = "64 word"

definition addr_add :: "address \<Rightarrow> byte_size \<Rightarrow> address" where
  "addr_add self offset = self + offset"

definition addr_add_offset :: "address \<Rightarrow> byte_offset \<Rightarrow> address" where
  "addr_add_offset self offset = word_of_int (sint self + sint offset)"

definition addr_sub :: "address \<Rightarrow> byte_size \<Rightarrow> address" where
  "addr_sub self offset = self - offset"

definition addr_diff :: "address \<Rightarrow> address \<Rightarrow> byte_size" where
  "addr_diff self other = self - other"

definition addr_and_u8 :: "address \<Rightarrow> u8 \<Rightarrow> u8" where
  "addr_and_u8 self other = ucast self AND other"

definition addr_or_u8 :: "address \<Rightarrow> u8 \<Rightarrow> usize" where
  "addr_or_u8 self other = self OR ucast other"

definition addr_shift :: "nat \<Rightarrow> address \<Rightarrow> byte_offset \<Rightarrow> address" where
  "addr_shift size_of_T self offset = addr_add_offset self (of_nat size_of_T * offset)"

definition get_extent :: "address \<Rightarrow> address \<Rightarrow> byte_size" where
  "get_extent self other = self - other"

definition get_offset :: "address \<Rightarrow> address \<Rightarrow> byte_offset" where
  "get_offset self other = word_of_int (sint self - sint other)"

definition addr_offset :: "address \<Rightarrow> byte_offset \<Rightarrow> address" where
  "addr_offset self offset = self + offset"

definition saturating_sub :: "address \<Rightarrow> usize \<Rightarrow> address" where
  "saturating_sub self n = (if n \<le> self then self - n else 0)"

definition is_zero :: "address \<Rightarrow> bool" where
  "is_zero self \<longleftrightarrow> self = 0"

definition align_up :: "address \<Rightarrow> byte_size \<Rightarrow> address" where
  "align_up self align = raw_align_up self align"

definition align_down :: "address \<Rightarrow> byte_size \<Rightarrow> address" where
  "align_down self align = raw_align_down self align"

definition is_aligned_to :: "address \<Rightarrow> usize \<Rightarrow> bool" where
  "is_aligned_to self align = raw_is_aligned self align"

definition range_intersection :: "address \<times> address \<Rightarrow> address \<times> address \<Rightarrow> address \<times> address" where
  "range_intersection r1 r2 = (max (fst r1) (fst r2), min (snd r1) (snd r2))"

section \<open>The virtual memory layout\<close>

record vm_layout =
  log_address_space :: nat
  heap_start :: address
  heap_end :: address
  log_space_extent :: nat
  force_use_contiguous_spaces :: bool
  small_chunk_space_size :: "usize option"

definition LOG_ARCH_ADDRESS_SPACE :: nat where "LOG_ARCH_ADDRESS_SPACE = 47"

definition max_space_extent :: "vm_layout \<Rightarrow> usize" where
  "max_space_extent l = push_bit (log_space_extent l) 1"

definition available_start :: "vm_layout \<Rightarrow> address" where
  "available_start l = heap_start l"

definition available_end :: "vm_layout \<Rightarrow> address" where
  "available_end l = heap_end l"

definition available_bytes :: "vm_layout \<Rightarrow> usize" where
  "available_bytes l = get_extent (available_end l) (available_start l)"

definition log_max_chunks :: "vm_layout \<Rightarrow> nat" where
  "log_max_chunks l = LOG_ARCH_ADDRESS_SPACE - LOG_BYTES_IN_CHUNK"

definition max_chunks :: "vm_layout \<Rightarrow> usize" where
  "max_chunks l = push_bit (log_max_chunks l) 1"

definition space_shift_64 :: "vm_layout \<Rightarrow> nat" where
  "space_shift_64 l = log_space_extent l"

definition space_mask_64 :: "vm_layout \<Rightarrow> usize" where
  "space_mask_64 l = push_bit (space_shift_64 l) (push_bit LOG_MAX_SPACES 1 - 1)"

definition space_size_64 :: "vm_layout \<Rightarrow> usize" where
  "space_size_64 l = max_space_extent l"

definition log_pages_in_space64 :: "vm_layout \<Rightarrow> nat" where
  "log_pages_in_space64 l = log_space_extent l - LOG_BYTES_IN_PAGE"

definition pages_in_space64 :: "vm_layout \<Rightarrow> usize" where
  "pages_in_space64 l = push_bit (log_pages_in_space64 l) 1"

definition address_mask :: "vm_layout \<Rightarrow> usize" where
  "address_mask l = push_bit (log_space_extent l) 0x1f"

definition vm_layout_validate :: "vm_layout \<Rightarrow> bool" where
  "vm_layout_validate l \<longleftrightarrow>
     is_aligned_to (heap_start l) BYTES_IN_CHUNK \<and> is_aligned_to (heap_end l) BYTES_IN_CHUNK \<and>
     heap_start l < heap_end l \<and> log_address_space l \<le> LOG_ARCH_ADDRESS_SPACE \<and>
     log_space_extent l \<le> log_address_space l \<and>
     (force_use_contiguous_spaces l \<longrightarrow>
        log_space_extent l \<le> log_address_space l - LOG_MAX_SPACES \<and>
        is_aligned_to (heap_start l) (max_space_extent l))"

definition is_in_mmtk_heap :: "vm_layout \<Rightarrow> address \<Rightarrow> bool" where
  "is_in_mmtk_heap layout self \<longleftrightarrow> heap_start layout \<le> self \<and> self < heap_end layout"

section \<open>Conversions\<close>

definition is_address_aligned :: "address \<Rightarrow> bool" where
  "is_address_aligned addr = is_aligned_to addr BYTES_IN_ADDRESS"

definition page_align_down :: "address \<Rightarrow> address" where
  "page_align_down addr = align_down addr BYTES_IN_PAGE"

definition is_page_aligned :: "address \<Rightarrow> bool" where
  "is_page_aligned addr = is_aligned_to addr BYTES_IN_PAGE"

definition chunk_align_up :: "address \<Rightarrow> address" where
  "chunk_align_up addr = align_up addr BYTES_IN_CHUNK"

definition chunk_align_down :: "address \<Rightarrow> address" where
  "chunk_align_down addr = align_down addr BYTES_IN_CHUNK"

definition mmap_chunk_align_up :: "address \<Rightarrow> address" where
  "mmap_chunk_align_up addr = align_up addr MMAP_CHUNK_BYTES"

definition mmap_chunk_align_down :: "address \<Rightarrow> address" where
  "mmap_chunk_align_down addr = align_down addr MMAP_CHUNK_BYTES"

definition bytes_to_chunks_up :: "usize \<Rightarrow> usize" where
  "bytes_to_chunks_up bytes = drop_bit LOG_BYTES_IN_CHUNK (bytes + BYTES_IN_CHUNK - 1)"

definition address_to_chunk_index :: "vm_layout \<Rightarrow> address \<Rightarrow> usize" where
  "address_to_chunk_index layout addr = drop_bit LOG_BYTES_IN_CHUNK (addr - heap_start layout)"

definition chunk_index_to_address :: "vm_layout \<Rightarrow> usize \<Rightarrow> address" where
  "chunk_index_to_address layout chunk = heap_start layout + push_bit LOG_BYTES_IN_CHUNK chunk"

definition pages_to_bytes :: "usize \<Rightarrow> usize" where
  "pages_to_bytes pages = push_bit LOG_BYTES_IN_PAGE pages"

definition bytes_to_pages_up :: "usize \<Rightarrow> usize" where
  "bytes_to_pages_up bytes = drop_bit LOG_BYTES_IN_PAGE (raw_align_up bytes BYTES_IN_PAGE)"

definition rshift_align_up :: "usize \<Rightarrow> nat \<Rightarrow> usize" where
  "rshift_align_up num bits = drop_bit bits (num + (push_bit bits 1 - 1))"

text \<open>\<open>new_64bit\<close> and \<open>new_32bit\<close>; their \<open>validate\<close> runs at compile time.\<close>

definition new_64bit :: vm_layout where
  "new_64bit = \<lparr>log_address_space = 47, heap_start = chunk_align_down 0x0000020000000000,
     heap_end = chunk_align_up 0x0000220000000000, log_space_extent = 41, force_use_contiguous_spaces = True,
     small_chunk_space_size = None\<rparr>"

definition new_32bit :: vm_layout where
  "new_32bit = \<lparr>log_address_space = 32, heap_start = chunk_align_down 0x80000000,
     heap_end = chunk_align_up 0xd0000000, log_space_extent = 31, force_use_contiguous_spaces = False,
     small_chunk_space_size = None\<rparr>"

text \<open>Decimal printing of an unsigned integer, as \<open>format!\<close> does it.\<close>

fun show_nat :: "nat \<Rightarrow> string" where
  "show_nat n = (if n < 10 then [char_of (48 + n)] else show_nat (n div 10) @ [char_of (48 + n mod 10)])"

declare show_nat.simps [simp del]

definition UNITS :: "string list" where
  "UNITS = [''B'', ''KiB'', ''MiB'', ''GiB'', ''TiB'', ''PiB'']"

function format_loop :: "usize \<Rightarrow> nat \<Rightarrow> string" where
  "format_loop num i =
     (if i < length UNITS - 1 then
        (let new_num = drop_bit 10 num
         in if new_num = 0 then show_nat (unat num) @ UNITS ! i else format_loop new_num (i + 1))
      else show_nat (unat num) @ last UNITS)"
  by pat_completeness auto
termination by (relation "measure (\<lambda>(_, i). length UNITS - i)") auto

declare format_loop.simps [simp del]

definition bytes_to_formatted_string :: "usize \<Rightarrow> string" where
  "bytes_to_formatted_string bytes = format_loop bytes 0"

section \<open>Alignment to a power of two\<close>

text \<open>The bit operations of the code read as arithmetic on the unsigned value.\<close>

lemma uint_take: "uint (take_bit k (w :: usize)) = uint w mod 2 ^ k"
  by (simp only: unsigned_take_bit_eq) (simp add: take_bit_eq_mod)

lemma uint_drop: "uint (drop_bit k (w :: usize)) = uint w div 2 ^ k"
  by (simp only: unsigned_drop_bit_eq) (simp add: drop_bit_eq_div bintr_uint)

lemma unat_less_64: "unat (w :: usize) < 2 ^ 64"
  using unsigned_less [of w, where 'a = nat] by simp

lemma unat_of_nat_64: "n < 2 ^ 64 \<Longrightarrow> unat (of_nat n :: usize) = n"
  by (simp add: unsigned_of_nat take_bit_nat_eq_self)

lemma unat_add_64: "unat (a :: usize) + unat b < 2 ^ 64 \<Longrightarrow> unat (a + b) = unat a + unat b"
  by (simp add: unat_word_ariths)

lemma unat_drop: "unat (drop_bit k (w :: usize)) = unat w div 2 ^ k"
proof -
  have "int (unat (drop_bit k w)) = int (unat w div 2 ^ k)" by (simp only: uint_nat [symmetric] uint_drop zdiv_int) simp
  then show ?thesis by (simp only: of_nat_eq_iff)
qed

lemma uint_push: "uint w * 2 ^ k < 2 ^ 64 \<Longrightarrow> uint (push_bit k (w :: usize)) = uint w * 2 ^ k"
  by (simp only: unsigned_push_bit_eq) (simp add: push_bit_eq_mult take_bit_int_eq_self_iff)

lemma uint_of_int: "0 \<le> x \<Longrightarrow> x < 2 ^ 64 \<Longrightarrow> uint (word_of_int x :: usize) = x"
  by (simp add: uint_word_of_int_eq take_bit_int_eq_self)

lemma uint_mask_less: "k < 64 \<Longrightarrow> uint (mask k :: usize) = 2 ^ k - 1"
  by (simp only: uint_mask_eq) (simp add: min_def mask_eq_exp_minus_1)

lemma exp_minus_1: "(2 ^ k - 1 :: usize) = mask k"
  by (simp add: mask_eq_exp_minus_1)

lemma raw_align_down_pow2: "raw_align_down v (2 ^ k) = v - take_bit k v"
proof -
  have "v - take_bit k v = v AND NOT (take_bit k v)"
    by (rule disjunctive_diff) (simp add: bit_take_bit_iff)
  also have "\<dots> = v AND NOT (mask k)"
    by (rule bit_word_eqI) (auto simp: bit_simps)
  finally show ?thesis by (simp add: raw_align_down_def exp_minus_1)
qed

lemma uint_align_down: "uint (raw_align_down v (2 ^ k)) = uint v - uint v mod 2 ^ k"
proof -
  have "uint (take_bit k v) = uint v mod 2 ^ k" by (rule uint_take)
  moreover have "uint v mod 2 ^ k \<le> uint v" by (simp add: zmod_le_nonneg_dividend)
  ultimately show ?thesis unfolding raw_align_down_pow2
    using uint_sub_lem [of "take_bit k v" v] by simp
qed

lemma raw_align_up_down: "raw_align_up v (2 ^ k) = raw_align_down (v + (2 ^ k - 1)) (2 ^ k)"
  by (simp add: raw_align_up_def raw_align_down_def algebra_simps)

lemma uint_align_up:
  assumes "k < 64" "uint v + 2 ^ k - 1 < 2 ^ 64"
  shows "uint (raw_align_up v (2 ^ k)) = (uint v + 2 ^ k - 1) div 2 ^ k * 2 ^ k"
proof -
  have "uint (v + (2 ^ k - 1)) = uint v + 2 ^ k - 1"
  proof -
    have "uint (2 ^ k - 1 :: usize) = 2 ^ k - 1"
      by (simp only: exp_minus_1 uint_mask_less [OF assms(1)])
    with assms(2) show ?thesis by (subst uint_add_lem [THEN iffD1]) auto
  qed
  then show ?thesis by (simp add: raw_align_up_down uint_align_down minus_mod_eq_div_mult)
qed

lemma raw_is_aligned_iff: "raw_is_aligned v (2 ^ k) \<longleftrightarrow> 2 ^ k dvd uint v"
proof -
  have "raw_is_aligned v (2 ^ k) \<longleftrightarrow> take_bit k v = 0"
    by (simp add: raw_is_aligned_def exp_minus_1 take_bit_eq_mask)
  also have "\<dots> \<longleftrightarrow> uint (take_bit k v) = 0" by (simp add: uint_0_iff)
  also have "\<dots> \<longleftrightarrow> uint v mod 2 ^ k = 0" by (simp add: uint_take)
  finally show ?thesis by (simp add: dvd_eq_mod_eq_0)
qed

lemma round_up_bounds: "0 < d \<Longrightarrow> (x :: int) \<le> (x + d - 1) div d * d \<and> (x + d - 1) div d * d < x + d"
  using minus_mod_eq_div_mult [of "x + d - 1" d] pos_mod_bound [of d "x + d - 1"] pos_mod_sign [of d "x + d - 1"]
  by linarith

lemma multiple_le:
  fixes x y d :: int
  assumes "0 < d" "d dvd y"
  shows "y \<le> x \<Longrightarrow> y \<le> x - x mod d" "x \<le> y \<Longrightarrow> (x + d - 1) div d * d \<le> y"
proof -
  from assms(2) obtain q where y: "y = d * q" by (rule dvdE)
  { assume "y \<le> x"
    then have "q \<le> x div d" using zdiv_mono1 [of y x d] assms(1) unfolding y by simp
    then show "y \<le> x - x mod d" using y assms(1) by (simp add: minus_mod_eq_mult_div) }
  { assume "x \<le> y"
    with round_up_bounds [OF assms(1), of x] have "(x + d - 1) div d * d < (q + 1) * d"
      unfolding y by (simp add: algebra_simps)
    with assms(1) have "(x + d - 1) div d < q + 1" by (simp only: mult_less_cancel_right_pos)
    then have "(x + d - 1) div d * d \<le> q * d" using assms(1) by (intro mult_right_mono) auto
    then show "(x + d - 1) div d * d \<le> y" unfolding y by (simp only: mult.commute) }
qed

section \<open>Properties\<close>

text \<open>
  Aligning up gives the least aligned address not below the argument, provided it does not pass
  the end of the address space, and aligning down the greatest aligned address not above it.
\<close>

theorem align_nearest:
  assumes "k < 64" "uint a + 2 ^ k - 1 < 2 ^ 64"
  shows "is_aligned_to (align_up a (2 ^ k)) (2 ^ k) \<and> a \<le> align_up a (2 ^ k) \<and>
    (\<forall>b. is_aligned_to b (2 ^ k) \<and> a \<le> b \<longrightarrow> align_up a (2 ^ k) \<le> b) \<and>
    is_aligned_to (align_down a (2 ^ k)) (2 ^ k) \<and> align_down a (2 ^ k) \<le> a \<and>
    (\<forall>b. is_aligned_to b (2 ^ k) \<and> b \<le> a \<longrightarrow> b \<le> align_down a (2 ^ k))"
  using round_up_bounds [of "2 ^ k" "uint a"] multiple_le [of "2 ^ k"] pos_mod_sign [of "2 ^ k" "uint a"]
  by (simp add: is_aligned_to_def align_up_def align_down_def raw_is_aligned_iff word_le_def
      uint_align_up [OF assms] uint_align_down dvd_minus_mod)

theorem align_nearest_witness: "align_up 4097 (2 ^ 12) \<le> 8192 \<and> 4096 \<le> align_down 4097 (2 ^ 12)"
  using align_nearest [of 12 4097] by (simp add: is_aligned_to_def raw_is_aligned_def)

text \<open>
  \<open>bytes_to_pages_up\<close> is the least number of pages that hold the bytes.
\<close>

theorem bytes_to_pages_up_least:
  assumes "uint b + 4095 < 2 ^ 64"
  shows "b \<le> pages_to_bytes (bytes_to_pages_up b) \<and>
    (\<forall>n. uint n < 2 ^ 52 \<and> b \<le> pages_to_bytes n \<longrightarrow> bytes_to_pages_up b \<le> n)"
proof -
  have up: "uint (bytes_to_pages_up b) = (uint b + 4095) div 4096"
    using assms uint_align_up [of 12 b] by (simp only: bytes_to_pages_up_def size_constants uint_drop) simp
  have le: "uint (pages_to_bytes n) = uint n * 4096" if "uint n < 2 ^ 52" for n
    using that uint_push [of n 12] by (simp add: pages_to_bytes_def del: push_bit_numeral)
  have "uint (bytes_to_pages_up b) < 2 ^ 52" unfolding up using assms by simp
  from le [OF this] have "b \<le> pages_to_bytes (bytes_to_pages_up b)"
    unfolding word_le_def up using round_up_bounds [of 4096 "uint b"] by simp
  moreover have "bytes_to_pages_up b \<le> n" if "uint n < 2 ^ 52" "b \<le> pages_to_bytes n" for n
    using that unfolding word_le_def up le [OF that(1)] by simp
  ultimately show ?thesis by blast
qed

theorem bytes_to_pages_up_least_witness: "bytes_to_pages_up 5000 \<le> 2 \<and> 5000 \<le> pages_to_bytes (bytes_to_pages_up 5000)"
  using bytes_to_pages_up_least [of 5000] by (simp add: pages_to_bytes_def)

lemma format_loop_major:
  "i \<le> 5 \<Longrightarrow> \<exists>j. i \<le> j \<and> j \<le> 5 \<and>
     format_loop num i = show_nat (unat num div 1024 ^ (j - i)) @ UNITS ! j \<and>
     (i < j \<longrightarrow> 0 < unat num div 1024 ^ (j - i)) \<and> (j < 5 \<longrightarrow> unat num div 1024 ^ (j - i) < 1024)"
proof (induction num i rule: format_loop.induct)
  case (1 num i)
  have d: "unat (drop_bit 10 num) = unat num div 1024" using unat_drop [of 10 num] by simp
  consider (last) "i = 5" | (here) "i < 5" "drop_bit 10 num = 0" | (up) "i < 5" "drop_bit 10 num \<noteq> 0"
    using 1(2) by (meson le_neq_implies_less)
  then show ?case
  proof cases
    case last
    then show ?thesis by (subst format_loop.simps) (auto simp: UNITS_def)
  next
    case here
    then have "unat num < 1024" using d by (simp add: div_eq_0_iff)
    moreover from here have "format_loop num i = show_nat (unat num) @ UNITS ! i"
      by (subst format_loop.simps) (simp add: UNITS_def)
    ultimately show ?thesis using here by (intro exI [of _ i]) simp
  next
    case up
    then have pos: "0 < unat num div 1024" unfolding d [symmetric] by (simp add: unat_gt_0)
    have "i < length UNITS - 1" "i + 1 \<le> 5" using up(1) by (simp_all add: UNITS_def)
    from 1(1) [OF this(1) refl up(2) this(2)] obtain j where j: "i + 1 \<le> j" "j \<le> 5"
        "format_loop (drop_bit 10 num) (i + 1) = show_nat (unat (drop_bit 10 num) div 1024 ^ (j - (i + 1))) @ UNITS ! j"
        "i + 1 < j \<longrightarrow> 0 < unat (drop_bit 10 num) div 1024 ^ (j - (i + 1))"
        "j < 5 \<longrightarrow> unat (drop_bit 10 num) div 1024 ^ (j - (i + 1)) < 1024"
      by blast
    have "unat (drop_bit 10 num) div 1024 ^ (j - (i + 1)) = unat num div 1024 ^ (j - i)"
    proof -
      have "1024 ^ (j - i) = (1024 :: nat) * 1024 ^ (j - (i + 1))"
        using j(1) by (simp flip: power_Suc add: Suc_diff_Suc)
      then show ?thesis unfolding d by (simp only: div_mult2_eq)
    qed
    moreover have "format_loop num i = format_loop (drop_bit 10 num) (i + 1)"
      using up by (subst format_loop.simps) (simp add: UNITS_def)
    ultimately show ?thesis using j pos by (intro exI [of _ j]) (cases "j = i + 1"; auto)
  qed
qed

text \<open>
  The formatted size is the number of whole units of the largest unit that is not zero (the
  largest unit of the table at most), followed by the unit.
\<close>

theorem bytes_to_formatted_string_major_unit:
  "\<exists>i \<le> 5. bytes_to_formatted_string b = show_nat (unat b div 1024 ^ i) @ UNITS ! i \<and>
     (0 < i \<longrightarrow> 0 < unat b div 1024 ^ i) \<and> (i < 5 \<longrightarrow> unat b div 1024 ^ i < 1024)"
  using format_loop_major [of 0 b] by (auto simp: bytes_to_formatted_string_def)

theorem bytes_to_formatted_string_major_unit_witness: "bytes_to_formatted_string 5000 = ''4KiB''"
proof -
  from bytes_to_formatted_string_major_unit [of 5000] obtain i where i: "i \<le> 5"
      "bytes_to_formatted_string 5000 = show_nat (5000 div 1024 ^ i) @ UNITS ! i"
      "0 < i \<longrightarrow> 0 < (5000 :: nat) div 1024 ^ i" "i < 5 \<longrightarrow> (5000 :: nat) div 1024 ^ i < 1024" by auto
  from i(1) consider "i = 0" | "i = 1" | "i = 2" | "i = 3" | "i = 4" | "i = 5" by linarith
  then show ?thesis using i by cases (simp_all add: show_nat.simps char_of_def UNITS_def bit_Suc_0_iff)
qed

lemma sub_multiple_div:
  fixes x h d :: int
  assumes "d dvd h"
  shows "(x - h) div d * d = x - x mod d - h"
proof -
  from assms obtain q where "h = d * q" by (rule dvdE)
  then have "(x - h) mod d = x mod d" by (metis mod_diff_right_eq mod_mult_self1_is_0 diff_0_right)
  then show ?thesis unfolding minus_mod_eq_div_mult [symmetric] by simp
qed

lemma chunk_index_inverse:
  assumes "uint (heap_start l) + uint c * 2 ^ 22 < 2 ^ 64"
  shows "address_to_chunk_index l (chunk_index_to_address l c) = c"
proof -
  have "uint (push_bit 22 c) = uint c * 2 ^ 22"
    by (rule uint_push) (use assms uint_ge_0 [of "heap_start l"] in linarith)
  then have "uint (address_to_chunk_index l (chunk_index_to_address l c)) = uint c"
    unfolding address_to_chunk_index_def chunk_index_to_address_def uint_drop log_constants add_diff_cancel_left' by simp
  then show ?thesis by (simp only: word_uint_eq_iff)
qed

lemma chunk_address_inverse:
  assumes "2 ^ 22 dvd uint (heap_start l)" "heap_start l \<le> a"
  shows "chunk_index_to_address l (address_to_chunk_index l a) = chunk_align_down a"
proof -
  let ?h = "heap_start l"
  have le: "uint ?h \<le> uint a" using assms(2) by (simp only: word_le_def)
  then have d: "uint (a - ?h) = uint a - uint ?h" by (rule uint_sub_lem [THEN iffD1])
  have p: "uint (push_bit 22 (drop_bit 22 (a - ?h))) = uint a - uint a mod 2 ^ 22 - uint ?h"
    unfolding sub_multiple_div [OF assms(1), symmetric] d [symmetric] uint_drop [symmetric]
    by (rule uint_push) (use uint_drop [of 22 "a - ?h"] uint_lt2p [of "a - ?h"] in \<open>simp add: d\<close>)
  have "0 \<le> uint a mod 2 ^ 22" by simp
  then have "uint ?h + uint (push_bit 22 (drop_bit 22 (a - ?h))) < 2 ^ LENGTH(64)"
    unfolding p using uint_lt2p [of a] by simp
  from uint_add_lem [THEN iffD1, OF this]
  have "uint (?h + push_bit 22 (drop_bit 22 (a - ?h))) = uint a - uint a mod 2 ^ 22" unfolding p by simp
  then show ?thesis
    unfolding chunk_index_to_address_def address_to_chunk_index_def chunk_align_down_def align_down_def
      size_constants log_constants word_uint_eq_iff uint_align_down by simp
qed

text \<open>
  Chunk indices and chunk addresses are inverse: an index is recovered from its address, and an
  address of the heap goes to the start of its chunk.
\<close>

theorem chunk_index_roundtrip:
  assumes "vm_layout_validate l"
  shows "(uint (heap_start l) + uint c * 2 ^ 22 < 2 ^ 64 \<longrightarrow> address_to_chunk_index l (chunk_index_to_address l c) = c) \<and>
    (is_in_mmtk_heap l a \<longrightarrow> chunk_index_to_address l (address_to_chunk_index l a) = chunk_align_down a)"
proof -
  from assms have "2 ^ 22 dvd uint (heap_start l)"
    unfolding vm_layout_validate_def is_aligned_to_def size_constants raw_is_aligned_iff by blast
  with chunk_index_inverse [of l c] chunk_address_inverse [of l a] show ?thesis
    unfolding is_in_mmtk_heap_def by blast
qed

lemma layout_64bit_valid: "vm_layout_validate new_64bit"
  by (simp add: new_64bit_def vm_layout_validate_def chunk_align_down_def chunk_align_up_def align_up_def align_down_def
      raw_align_up_def raw_align_down_def is_aligned_to_def raw_is_aligned_def BYTES_IN_CHUNK_def
      LOG_ARCH_ADDRESS_SPACE_def max_space_extent_def)

lemma layout_32bit_valid: "vm_layout_validate new_32bit"
  by (simp add: new_32bit_def vm_layout_validate_def chunk_align_down_def chunk_align_up_def align_up_def align_down_def
      raw_align_up_def raw_align_down_def is_aligned_to_def raw_is_aligned_def BYTES_IN_CHUNK_def
      LOG_ARCH_ADDRESS_SPACE_def max_space_extent_def)

theorem chunk_index_roundtrip_witness:
  "address_to_chunk_index new_64bit (chunk_index_to_address new_64bit 7) = 7 \<and>
   chunk_index_to_address new_64bit (address_to_chunk_index new_64bit 0x20000400001) = chunk_align_down 0x20000400001"
proof -
  have h: "heap_start new_64bit = 0x20000000000" "heap_end new_64bit = 0x220000000000"
    by (simp_all add: new_64bit_def chunk_align_down_def chunk_align_up_def align_up_def align_down_def
      raw_align_up_def raw_align_down_def BYTES_IN_CHUNK_def)
  show ?thesis
    using chunk_index_roundtrip [OF layout_64bit_valid, of 7 "0x20000400001"] by (simp add: h is_in_mmtk_heap_def)
qed

end
