(* ===== verification/RawMemoryFreeList.thy ===== *)
theory RawMemoryFreeList
  imports FreeList_Alloc Conversions
begin

text \<open>
  The free list kept in raw memory (\<open>util/raw_memory_freelist.rs\<close>): the table lives at a base
  address and grows block by block as memory is mapped. The memory is a partial map from cell
  addresses to 32-bit entries; an access to a cell that is not mapped faults. The operating
  system's \<open>mmap\<close> is a parameter that returns the memory after the call, or \<open>None\<close> for an error.
\<close>

record raw_memory_free_list =
  rmfl_head :: int
  rmfl_heads :: int
  rmfl_base :: address
  rmfl_limit :: address
  rmfl_high_water :: address
  rmfl_max_units :: int
  rmfl_grain :: int
  rmfl_current_units :: int
  rmfl_pages_per_block :: int

type_synonym raw_mem = "address \<Rightarrow> i32_bits option"
type_synonym rmfl_state = "raw_memory_free_list \<times> raw_mem"
type_synonym os_mmap = "address \<Rightarrow> usize \<Rightarrow> raw_mem \<Rightarrow> raw_mem option"

definition LOG_ENTRY_BITS :: nat where "LOG_ENTRY_BITS = LOG_BITS_IN_INT"
definition LOG_BYTES_IN_ENTRY :: nat where "LOG_BYTES_IN_ENTRY = LOG_ENTRY_BITS - LOG_BITS_IN_BYTE"
definition LOG_BYTES_IN_UNIT :: nat where "LOG_BYTES_IN_UNIT = LOG_BYTES_IN_ENTRY + 1"

lemma log_entry [simp]: "LOG_BYTES_IN_ENTRY = 2" "LOG_BYTES_IN_UNIT = 3"
  by (simp_all add: LOG_ENTRY_BITS_def LOG_BYTES_IN_ENTRY_def LOG_BYTES_IN_UNIT_def)

text \<open>The offset of an entry: the shift is one of \<open>i32\<close>, the cast to \<open>usize\<close> extends the sign.\<close>

definition rmfl_offset :: "int \<Rightarrow> usize" where
  "rmfl_offset index = word_of_int (i32 (index * 2 ^ LOG_BYTES_IN_ENTRY))"

definition rmfl_get_entry :: "rmfl_state \<Rightarrow> int \<Rightarrow> i32_bits option" where
  "rmfl_get_entry s index = (let offset = rmfl_offset index in snd s (rmfl_base (fst s) + offset))"

definition rmfl_set_entry :: "rmfl_state \<Rightarrow> int \<Rightarrow> i32_bits \<Rightarrow> rmfl_state option" where
  "rmfl_set_entry s index value =
     (let offset = rmfl_offset index; a = rmfl_base (fst s) + offset
      in if snd s a = None then None else Some (fst s, (snd s)(a \<mapsto> value)))"

definition RawMemoryFreeList_impl :: "rmfl_state free_list_trait" where
  "RawMemoryFreeList_impl = \<lparr>head = \<lambda>s. rmfl_head (fst s), heads = \<lambda>s. rmfl_heads (fst s),
     get_entry = rmfl_get_entry, set_entry = rmfl_set_entry\<rparr>"

lemma rmfl_impl_simps [simp]:
  "head RawMemoryFreeList_impl s = rmfl_head (fst s)" "heads RawMemoryFreeList_impl s = rmfl_heads (fst s)"
  "get_entry RawMemoryFreeList_impl = rmfl_get_entry" "set_entry RawMemoryFreeList_impl = rmfl_set_entry"
  by (simp_all add: RawMemoryFreeList_impl_def)

text \<open>The method \<open>alloc\<close> is overridden: an empty list fails, and the search is the first-fit loop.\<close>

definition rmfl_alloc :: "rmfl_state \<Rightarrow> int \<Rightarrow> (int \<times> rmfl_state) option" where
  "rmfl_alloc s sz =
     (if rmfl_current_units (fst s) = 0 then Some (FAILURE, s)
      else do {
        let unit = rmfl_head (fst s);
        (unit, cur) \<leftarrow> first_fit_loop RawMemoryFreeList_impl s sz unit 0;
        if unit = rmfl_head (fst s) then Some (FAILURE, s)
        else alloc_unit RawMemoryFreeList_impl s sz unit cur })"

definition units_per_block :: "raw_memory_free_list \<Rightarrow> int" where
  "units_per_block l = i32 (uint (drop_bit LOG_BYTES_IN_UNIT (pages_to_bytes (word_of_int (rmfl_pages_per_block l)))))"

definition units_in_first_block :: "raw_memory_free_list \<Rightarrow> int" where
  "units_in_first_block l = i32 (i32 (units_per_block l - rmfl_heads l) - 1)"



definition rmfl_new :: "address \<Rightarrow> address \<Rightarrow> int \<Rightarrow> int \<Rightarrow> int \<Rightarrow> int \<Rightarrow> raw_memory_free_list" where
  "rmfl_new base limit pages_per_block units grain hds =
     \<lparr>rmfl_head = -1, rmfl_heads = hds, rmfl_base = base, rmfl_limit = limit, rmfl_high_water = base,
      rmfl_max_units = units, rmfl_grain = grain, rmfl_current_units = 0, rmfl_pages_per_block = pages_per_block\<rparr>"

definition current_capacity :: "raw_memory_free_list \<Rightarrow> int option" where
  "current_capacity l = do {
     list_blocks \<leftarrow> rust_div (i32 (uint (bytes_to_pages_up (rmfl_high_water l - rmfl_base l)))) (rmfl_pages_per_block l);
     Some (i32 (units_in_first_block l + i32 (i32 (list_blocks - 1) * units_per_block l))) }"

definition rmfl_mmap :: "os_mmap \<Rightarrow> address \<Rightarrow> usize \<Rightarrow> rmfl_state \<Rightarrow> rmfl_state option" where
  "rmfl_mmap mmap start bytes s = do { m \<leftarrow> mmap start bytes (snd s); Some (fst s, m) }"

definition raise_high_water :: "os_mmap \<Rightarrow> rmfl_state \<Rightarrow> int \<Rightarrow> rmfl_state option" where
  "raise_high_water mmap s nblocks = do {
     let l = fst s;
     let grow_extent = pages_to_bytes (word_of_int (i32 (rmfl_pages_per_block l * nblocks)));
     rust_assert (rmfl_high_water l \<noteq> rmfl_limit l);
     let grow_extent = (if rmfl_high_water l + grow_extent > rmfl_limit l
                        then rmfl_high_water l - rmfl_limit l else grow_extent);
     s \<leftarrow> rmfl_mmap mmap (rmfl_high_water l) grow_extent s;
     Some ((fst s)\<lparr>rmfl_high_water := rmfl_high_water (fst s) + grow_extent\<rparr>, snd s) }"

definition grow_list_by_blocks :: "os_mmap \<Rightarrow> rmfl_state \<Rightarrow> int \<Rightarrow> int \<Rightarrow> rmfl_state option" where
  "grow_list_by_blocks mmap s nblocks new_max = do {
     s \<leftarrow> (if nblocks > 0 then raise_high_water mmap s nblocks else Some s);
     let old_max = rmfl_current_units (fst s);
     cap \<leftarrow> current_capacity (fst s);
     rust_assert (new_max \<le> cap);
     rust_assert (new_max \<le> rmfl_max_units (fst s));
     let s = ((fst s)\<lparr>rmfl_current_units := new_max\<rparr>, snd s);
     s \<leftarrow> (if old_max = 0
           then foldM (\<lambda>i s. set_sentinel RawMemoryFreeList_impl s (i32 (- i))) [1..rmfl_heads (fst s)] s
           else set_size RawMemoryFreeList_impl s old_max 1);
     if new_max = 0 then Some s
     else do {
       s \<leftarrow> set_sentinel RawMemoryFreeList_impl s new_max;
       let cursor = new_max;
       let grain = min (rmfl_grain (fst s)) (i32 (new_max - old_max));
       grain_loop RawMemoryFreeList_impl old_max grain (i32 (cursor - grain)) s } }"

definition grow_freelist :: "os_mmap \<Rightarrow> rmfl_state \<Rightarrow> int \<Rightarrow> (bool \<times> rmfl_state) option" where
  "grow_freelist mmap s units = do {
     let required_units = i32 (units + rmfl_current_units (fst s));
     if required_units > rmfl_max_units (fst s) then Some (False, s)
     else do {
       cap \<leftarrow> current_capacity (fst s);
       nblocks \<leftarrow> (if required_units > cap
                  then (let units_requested = i32 (required_units - cap)
                        in rust_div (i32 (i32 (units_requested + units_per_block (fst s)) - 1)) (units_per_block (fst s)))
                  else Some 0);
       s \<leftarrow> grow_list_by_blocks mmap s nblocks required_units;
       Some (True, s) } }"

definition get_limit :: "raw_memory_free_list \<Rightarrow> address" where
  "get_limit l = rmfl_limit l"

section \<open>It is an array\<close>

definition rmfl_cells :: "raw_memory_free_list \<Rightarrow> nat" where
  "rmfl_cells l = unat (rmfl_high_water l - rmfl_base l) div 4"

definition rmfl_ok :: "rmfl_state \<Rightarrow> bool" where
  "rmfl_ok s \<longleftrightarrow> rmfl_high_water (fst s) - rmfl_base (fst s) \<le> 2 ^ 31 \<and>
     (\<forall>i < rmfl_cells (fst s). snd s (rmfl_base (fst s) + of_nat (4 * i)) \<noteq> None)"

definition rmfl_view :: "rmfl_state \<Rightarrow> i32_bits list" where
  "rmfl_view s = map (\<lambda>i. the (snd s (rmfl_base (fst s) + of_nat (4 * i)))) [0..<rmfl_cells (fst s)]"

definition rmfl_upd :: "rmfl_state \<Rightarrow> int \<Rightarrow> i32_bits \<Rightarrow> rmfl_state" where
  "rmfl_upd s i v = (fst s, (snd s)(rmfl_base (fst s) + rmfl_offset i \<mapsto> v))"

lemma lt_div_4: "(n :: nat) < x div 4 \<Longrightarrow> 4 * n < x"
  by linarith

lemma rmfl_offset_cell:
  assumes "rmfl_ok s" "0 \<le> i" "i < int (rmfl_cells (fst s))"
  shows "rmfl_offset i = of_nat (4 * nat i)" "4 * i < 2 ^ 31"
proof -
  have "unat (rmfl_high_water (fst s) - rmfl_base (fst s)) \<le> 2 ^ 31"
    using assms(1) by (simp add: rmfl_ok_def word_le_nat_alt)
  moreover have "nat i < unat (rmfl_high_water (fst s) - rmfl_base (fst s)) div 4"
    using assms(2,3) unfolding rmfl_cells_def by linarith
  ultimately show *: "4 * i < 2 ^ 31" using lt_div_4 [of "nat i"] assms(2) by fastforce
  then show "rmfl_offset i = of_nat (4 * nat i)"
    using assms(2) by (simp add: rmfl_offset_def mult.commute)
qed

lemma rmfl_cell_inj:
  assumes "4 * i < 2 ^ 31" "4 * j < 2 ^ 31"
  shows "b + of_nat (4 * i) = (b + of_nat (4 * j) :: address) \<longleftrightarrow> i = j"
proof -
  have "unat (of_nat (4 * i) :: address) = 4 * i" "unat (of_nat (4 * j) :: address) = 4 * j"
    using assms by (simp_all only: unat_of_nat) (simp_all add: take_bit_nat_eq_self)
  then have "(of_nat (4 * i) :: address) = of_nat (4 * j) \<longleftrightarrow> i = j" by (metis mult_cancel1 zero_neq_numeral)
  then show ?thesis by (simp only: add_left_cancel)
qed


lemma rmfl_upd_effect:
  assumes "rmfl_ok s" "0 \<le> i" "i < int (rmfl_cells (fst s))"
  shows "rmfl_set_entry s i v = Some (rmfl_upd s i v)" "rmfl_ok (rmfl_upd s i v)"
    "rmfl_view (rmfl_upd s i v) = (rmfl_view s)[nat i := v]"
proof -
  note off = rmfl_offset_cell [OF assms]
  have i: "nat i < rmfl_cells (fst s)" using assms by linarith
  have mapped: "snd s (rmfl_base (fst s) + rmfl_offset i) \<noteq> None"
    unfolding off(1) using assms(1) i unfolding rmfl_ok_def by blast
  then show "rmfl_set_entry s i v = Some (rmfl_upd s i v)" by (simp add: rmfl_set_entry_def rmfl_upd_def Let_def)
  show "rmfl_ok (rmfl_upd s i v)" using assms(1) unfolding rmfl_ok_def rmfl_upd_def by simp
  have "4 * j < 2 ^ 31" if "j < rmfl_cells (fst s)" for j
    using rmfl_offset_cell(2) [OF assms(1), of "int j"] that by simp
  then have inj: "rmfl_base (fst s) + of_nat (4 * j) = rmfl_base (fst s) + of_nat (4 * nat i) \<longleftrightarrow> j = nat i"
    if "j < rmfl_cells (fst s)" for j
    using that i by (intro rmfl_cell_inj) auto
  show "rmfl_view (rmfl_upd s i v) = (rmfl_view s)[nat i := v]"
    unfolding rmfl_view_def rmfl_upd_def off(1) fst_conv snd_conv
    by (rule nth_equalityI) (use i inj in \<open>simp_all add: nth_list_update del: of_nat_mult\<close>)
qed

lemma rmfl_view_length [simp]: "length (rmfl_view s) = rmfl_cells (fst s)"
  by (simp add: rmfl_view_def)

lemma rmfl_upd_fst [simp]: "fst (rmfl_upd s i v) = fst s"
  by (simp add: rmfl_upd_def)

interpretation rmfl: table_store RawMemoryFreeList_impl rmfl_view rmfl_ok rmfl_upd
proof unfold_locales
  fix s i assume a: "rmfl_ok s" "0 \<le> i" "i < int (length (rmfl_view s))"
  then have i: "i < int (rmfl_cells (fst s))" by (simp add: rmfl_view_def)
  then have "nat i < rmfl_cells (fst s)" using a(2) by linarith
  then show "get_entry RawMemoryFreeList_impl s i = Some (rmfl_view s ! nat i)"
    using a(1) rmfl_offset_cell(1) [OF a(1,2) i] by (auto simp: rmfl_get_entry_def rmfl_view_def rmfl_ok_def)
qed (simp_all add: rmfl_upd_effect)

section \<open>Growth\<close>

definition rmfl_represents :: "int \<Rightarrow> rmfl_state \<Rightarrow> free_list_spec \<Rightarrow> bool" where
  "rmfl_represents N s a \<longleftrightarrow>
     (let h = rmfl_head (fst s); H = rmfl_heads (fst s); tab = rmfl_view s in
      rmfl_ok s \<and> 1 \<le> H \<and> H \<le> MAX_HEADS \<and> 0 \<le> N \<and> N \<le> MAX_UNITS \<and>
      2 * (N + 1 + H) \<le> int (length tab) \<and> represents h H N (lo_of tab H N) (hi_of tab H N) a)"

lemma rmfl_represents_inv: "rmfl_represents N s a \<longleftrightarrow> (\<exists>h H. rmfl.inv h H N s a)"
  by (auto simp: rmfl_represents_def rmfl.inv_def rmfl.geom_def Let_def)

text \<open>What the list relies on of \<open>mmap\<close>: memory it maps reads zero, other memory keeps its contents.\<close>

definition mmap_zeroed :: "os_mmap \<Rightarrow> bool" where
  "mmap_zeroed mmap \<longleftrightarrow> (\<forall>start bytes m m' a. mmap start bytes m = Some m' \<longrightarrow>
     m' a = (if a - start < bytes then Some 0 else m a))"

text \<open>The arithmetic of the table, for a block size in pages that fits the 31-bit offsets.\<close>

lemma rmfl_block_arith:
  assumes "1 \<le> p" "p \<le> 2 ^ 19" "rmfl_pages_per_block l = p"
  shows "units_per_block l = 512 * p"
proof -
  have "uint (word_of_int p :: usize) = p" using assms by (intro uint_of_int) auto
  then have "uint (pages_to_bytes (word_of_int p)) = p * 4096"
    using uint_push [of "word_of_int p" 12] assms unfolding pages_to_bytes_def log_constants by simp
  then show ?thesis using assms(1,2) by (simp add: units_per_block_def assms(3) uint_drop)
qed

lemma rmfl_capacity:
  assumes p: "1 \<le> p" "p \<le> 2 ^ 19" "rmfl_pages_per_block l = p" and k: "0 \<le> k" "k * p \<le> 2 ^ 19"
    and hw: "rmfl_high_water l = rmfl_base l + word_of_int (k * p * 4096)" and h: "1 \<le> rmfl_heads l" "rmfl_heads l \<le> 128"
  shows "current_capacity l = Some (k * (512 * p) - rmfl_heads l - 1)"
proof -
  have upb: "units_per_block l = 512 * p" by (rule rmfl_block_arith [OF p])
  have kp: "0 \<le> k * p" using p k by simp
  have "uint (word_of_int (k * p * 4096) :: usize) = k * p * 4096"
    by (rule uint_of_int) (use kp k in auto)
  then have "uint (bytes_to_pages_up (rmfl_high_water l - rmfl_base l)) = k * p"
    using k uint_align_up [of 12 "word_of_int (k * p * 4096)"]
    unfolding hw bytes_to_pages_up_def size_constants uint_drop log_constants add_diff_cancel_left' by simp
  moreover have "rust_div (k * p) p = Some k" using p kp by (simp add: rust_div_def sgn_if zero_le_mult_iff)
  moreover obtain x where x: "k * (512 * p) = x" by blast
  moreover have "0 \<le> x" "x \<le> 2 ^ 28" using k kp by (auto simp flip: x)
  moreover have "(k - 1) * (512 * p) = x - 512 * p" unfolding x [symmetric] by (simp add: algebra_simps)
  moreover have "k \<le> 2 ^ 19" using mult_left_mono [of 1 p k] p k by simp
  moreover have "i32 (k * p) = k * p" using kp k by simp
  ultimately show ?thesis
    using p h k unfolding current_capacity_def upb units_in_first_block_def p(3) by simp
qed

lemma rmfl_raise:
  assumes p: "1 \<le> rmfl_pages_per_block l" and k: "1 \<le> k" "k * rmfl_pages_per_block l \<le> 2 ^ 19"
    and room: "uint (rmfl_high_water l) + k * rmfl_pages_per_block l * 4096 \<le> uint (rmfl_limit l)"
    and m: "mmap (rmfl_high_water l) (word_of_int (k * rmfl_pages_per_block l * 4096)) m = Some m'"
  shows "raise_high_water mmap (l, m) k =
    Some (l\<lparr>rmfl_high_water := rmfl_high_water l + word_of_int (k * rmfl_pages_per_block l * 4096)\<rparr>, m')"
proof -
  define q where "q = k * rmfl_pages_per_block l"
  have q: "1 \<le> q" "q \<le> 2 ^ 19" using p k mult_mono [of 1 k 1 "rmfl_pages_per_block l"] by (auto simp: q_def)
  have "i32 (rmfl_pages_per_block l * k) = q" using q by (simp add: q_def mult.commute)
  moreover have "pages_to_bytes (word_of_int q) = word_of_int (q * 4096)"
    by (simp add: pages_to_bytes_def push_bit_eq_mult)
  moreover have e: "uint (word_of_int (q * 4096) :: usize) = q * 4096" by (rule uint_of_int) (use q in auto)
  moreover have "uint (rmfl_high_water l + word_of_int (q * 4096)) = uint (rmfl_high_water l) + q * 4096"
    using uint_add_lem [THEN iffD1, of "rmfl_high_water l" "word_of_int (q * 4096)"] room uint_lt2p [of "rmfl_limit l"]
    unfolding e by (simp add: q_def del: of_int_mult)
  then have "\<not> rmfl_limit l < rmfl_high_water l + word_of_int (q * 4096)" using room
    unfolding word_less_def q_def by simp
  moreover have "rmfl_high_water l \<noteq> rmfl_limit l" using room q unfolding q_def by auto
  ultimately show ?thesis using m unfolding raise_high_water_def rmfl_mmap_def q_def [symmetric]
    by (simp del: of_int_mult)
qed

text \<open>Memory that has just been mapped is an array of zeroes.\<close>

lemma rmfl_mapped:
  assumes "mmap_zeroed mmap" "mmap b (word_of_int e) m = Some m'" "0 \<le> e" "e \<le> 2 ^ 31"
    and l: "rmfl_base l = b" "rmfl_high_water l = b + word_of_int e"
  shows "rmfl_ok (l, m')" "rmfl_view (l, m') = replicate (nat (e div 4)) 0"
proof -
  have e: "uint (word_of_int e :: usize) = e" by (rule uint_of_int) (use assms in auto)
  then have ue: "unat (word_of_int e :: usize) = nat e" by (simp flip: nat_uint_eq)
  have cells: "rmfl_cells l = nat (e div 4)" unfolding rmfl_cells_def l using assms(3) by (simp add: ue nat_div_distrib)
  have z: "m' (b + of_nat (4 * i)) = Some 0" if "i < rmfl_cells l" for i
  proof -
    have "4 * i < nat e" using that lt_div_4 [of i "nat e"] assms(3) unfolding cells by (simp add: nat_div_distrib)
    moreover have "unat (of_nat (4 * i) :: usize) = 4 * i"
      using calculation assms(4) by (simp only: unat_of_nat) (simp add: take_bit_nat_eq_self)
    ultimately have "of_nat (4 * i) < (word_of_int e :: usize)" by (simp only: word_less_nat_alt ue)
    moreover have "m' (b + of_nat (4 * i)) =
        (if (b + of_nat (4 * i)) - b < word_of_int e then Some 0 else m (b + of_nat (4 * i)))"
      using assms(1,2) unfolding mmap_zeroed_def by blast
    ultimately show ?thesis by (simp only: add_diff_cancel_left' if_True)
  qed
  have "word_of_int e \<le> (2 ^ 31 :: usize)" using e assms(4) by (simp add: word_le_def)
  with z show "rmfl_ok (l, m')" unfolding rmfl_ok_def fst_conv snd_conv l by simp
  show "rmfl_view (l, m') = replicate (nat (e div 4)) 0"
    unfolding rmfl_view_def fst_conv snd_conv l by (rule nth_equalityI) (use z cells in \<open>simp_all del: of_nat_mult\<close>)
qed

text \<open>The methods of the trait write the table only: the fields of the list stay.\<close>

named_theorems rmfl_frame

lemma rmfl_entry_fst [rmfl_frame]:
  "set_lo_entry RawMemoryFreeList_impl s u v = Some s' \<Longrightarrow> fst s' = fst s"
  "set_hi_entry RawMemoryFreeList_impl s u v = Some s' \<Longrightarrow> fst s' = fst s"
  by (auto simp: set_lo_entry_def set_hi_entry_def rmfl_set_entry_def Let_def split: if_splits)

lemma rmfl_sentinel_fst [rmfl_frame]: "set_sentinel RawMemoryFreeList_impl s u = Some s' \<Longrightarrow> fst s' = fst s"
  by (auto simp: set_sentinel_def Option.bind_eq_Some_conv dest!: rmfl_frame)

lemma rmfl_link_fst [rmfl_frame]:
  "set_next RawMemoryFreeList_impl s u v = Some s' \<Longrightarrow> fst s' = fst s"
  "set_prev RawMemoryFreeList_impl s u v = Some s' \<Longrightarrow> fst s' = fst s"
  "set_size RawMemoryFreeList_impl s u n = Some s' \<Longrightarrow> fst s' = fst s"
  "set_free RawMemoryFreeList_impl s u c = Some s' \<Longrightarrow> fst s' = fst s"
  by (auto simp: set_next_def set_prev_def set_size_def set_free_def Let_def Option.bind_eq_Some_conv
      split: if_splits dest!: rmfl_frame)

lemma rmfl_add_to_free_fst [rmfl_frame]: "add_to_free RawMemoryFreeList_impl s u = Some s' \<Longrightarrow> fst s' = fst s"
  by (auto simp: add_to_free_def Option.bind_eq_Some_conv dest!: rmfl_frame)

lemma rmfl_grain_loop_fst [rmfl_frame]:
  assumes "grain_loop RawMemoryFreeList_impl b g c s = Some s'"
  shows "fst s' = fst s"
proof -
  have "T = RawMemoryFreeList_impl \<longrightarrow> fst s' = fst s" if "grain_loop T b g c s = Some s'" for T
  proof (rule grain_loop.raw_induct [where P = "\<lambda>T b g c s s'. T = RawMemoryFreeList_impl \<longrightarrow> fst s' = fst s", OF _ that])
  qed (auto simp: Option.bind_eq_Some_conv split: if_splits dest!: rmfl_frame)
  with assms show ?thesis by blast
qed

lemma rmfl_first_growth_ok:
  assumes mm: "mmap_zeroed mmap" "mmap base (word_of_int (k * ppb * 4096)) m = Some m'"
    and ppb: "1 \<le> ppb" and k: "k = (n + hds + ppb * 512) div (ppb * 512)" "k * ppb \<le> 2 ^ 19"
    and room: "uint base + k * ppb * 4096 \<le> uint limit"
    and hds: "1 \<le> hds" "hds \<le> MAX_HEADS" and n: "1 \<le> n" "n \<le> units" "units \<le> MAX_UNITS"
    and grain: "1 \<le> grain" "grain < 2 ^ 31" "n \<le> grain \<or> grain dvd n"
  shows "\<exists>s. grow_freelist mmap (rmfl_new base limit ppb units grain hds, m) n = Some (True, s) \<and>
    rmfl.inv (-1) hds n s (full_heap n (min grain n)) \<and> rmfl_current_units (fst s) = n \<and>
    rmfl_high_water (fst s) = base + word_of_int (k * ppb * 4096)"
proof -
  define l where "l = rmfl_new base limit ppb units grain hds"
  have lf: "rmfl_head l = -1" "rmfl_heads l = hds" "rmfl_base l = base" "rmfl_limit l = limit" "rmfl_high_water l = base"
    "rmfl_max_units l = units" "rmfl_grain l = grain" "rmfl_current_units l = 0" "rmfl_pages_per_block l = ppb"
    by (simp_all add: l_def rmfl_new_def)
  have b: "n \<le> 1073741694" "hds \<le> 128" using n hds by (simp_all add: MAX_UNITS_eq MAX_HEADS_def)
  have k1: "1 \<le> k" unfolding k(1) using ppb n hds by (simp add: pos_imp_zdiv_pos_iff int_one_le_iff_zero_less)
  have ppb2: "ppb \<le> 2 ^ 19" 
  proof -
    have "1 * ppb \<le> k * ppb" by (rule mult_right_mono) (use k1 ppb in auto)
    with k(2) show ?thesis by linarith
  qed
  have cap0: "current_capacity l = Some (- hds - 1)"
    using rmfl_capacity [of ppb l 0] ppb ppb2 hds b by (simp add: lf)
  have upb: "units_per_block l = 512 * ppb" by (rule rmfl_block_arith [OF ppb ppb2 lf(9)])
  have full: "n + hds + 1 \<le> k * (512 * ppb)"
    using round_up_bounds [of "ppb * 512" "n + hds + 1"] ppb unfolding k(1) by (simp add: mult.commute add.assoc)
  have div: "rust_div (i32 (i32 (n - (- hds - 1) + 512 * ppb) - 1)) (512 * ppb) = Some k"
    using ppb ppb2 n hds b unfolding k(1) by (simp add: rust_div_def sgn_if algebra_simps)
  have raise: "raise_high_water mmap (l, m) k = Some (l\<lparr>rmfl_high_water := base + word_of_int (k * ppb * 4096)\<rparr>, m')"
    using rmfl_raise [of l k mmap m m'] ppb k1 k(2) room mm(2) unfolding lf by blast
  define l1 where "l1 = l\<lparr>rmfl_high_water := base + word_of_int (k * ppb * 4096), rmfl_current_units := n\<rparr>"
  have kp: "0 \<le> k * ppb * 4096" "k * ppb * 4096 \<le> 2 ^ 31" using k1 ppb k(2) by auto
  have ok: "rmfl_ok (l1, m')" "rmfl_view (l1, m') = replicate (nat (k * ppb * 4096 div 4)) 0"
    by (rule rmfl_mapped [OF mm kp]; simp add: l1_def lf)+
  have cap1: "current_capacity (l\<lparr>rmfl_high_water := base + word_of_int (k * ppb * 4096)\<rparr>) = Some (k * (512 * ppb) - hds - 1)"
    using rmfl_capacity [of ppb "l\<lparr>rmfl_high_water := base + word_of_int (k * ppb * 4096)\<rparr>" k] ppb ppb2 k1 k(2) hds b
    by (simp add: lf)
  have geom: "rmfl.geom (-1) hds n (l1, m')"
    using ok hds n full kp unfolding rmfl.geom_def ok(2) by (simp add: l1_def lf)
  have clean: "\<not> bit (rmfl.lo n (l1, m') u) 30" if "0 \<le> u" "u < n" for u
    using that full hds unfolding lo_of_def ok(2) by (simp add: l1_def lf nat_less_iff)
  define g where "g = min grain n"
  have g: "1 \<le> g" "g < 2 ^ 31" "g dvd n" "min grain (i32 n) = g" "i32 (n - g) = n - g"
    using grain n b by (auto simp: g_def min_def)
  obtain s1 s2 s3 where s: "foldM (\<lambda>i s. set_sentinel RawMemoryFreeList_impl s (i32 (- i))) [1..hds] (l1, m') = Some s1"
    "set_sentinel RawMemoryFreeList_impl s1 n = Some s2"
    "grain_loop RawMemoryFreeList_impl 0 g (n - g) s2 = Some s3" "rmfl.inv (-1) hds n s3 (full_heap n g)"
    using rmfl.fresh_grains [OF geom _ _ g(1-3) clean] hds by auto
  have "fst s1 = l1" using foldM_preserves [where h = fst, OF rmfl_sentinel_fst s(1)] by simp
  with rmfl_sentinel_fst [OF s(2)] rmfl_grain_loop_fst [OF s(3)] have s2: "rmfl_grain (fst s2) = grain" and "fst s3 = l1"
    by (simp_all add: l1_def lf)
  then have s3: "rmfl_current_units (fst s3) = n" "rmfl_high_water (fst s3) = base + word_of_int (k * ppb * 4096)"
    by (simp_all add: l1_def)
  have l1: "l\<lparr>rmfl_high_water := base + word_of_int (k * ppb * 4096)\<rparr>\<lparr>rmfl_current_units := n\<rparr> = l1"
    "rmfl_heads l1 = hds" by (simp_all add: l1_def lf)
  have "grow_list_by_blocks mmap (l, m) k n = Some s3"
    unfolding grow_list_by_blocks_def Let_def raise fst_conv snd_conv
    using k1 cap1 full n g(4,5) s(1-3) by (simp add: lf l1 s2 raise del: of_int_mult)
  moreover have "i32 n = n" using n b by simp
  ultimately have "grow_freelist mmap (l, m) n = Some (True, s3)"
    unfolding grow_freelist_def Let_def fst_conv using n div cap0 upb hds b by (simp add: lf)
  with s(4) s3 show ?thesis unfolding l_def g_def by blast
qed

section \<open>Properties\<close>

text \<open>
  C22. The first growth of a list in raw memory maps the least number of whole blocks that hold the
  sentinels and the requested units, and leaves a table in which every unit is free, cut into blocks of
  the grain.
\<close>

theorem rmfl_first_growth:
  assumes "mmap_zeroed mmap" "mmap base (word_of_int (k * ppb * 4096)) m = Some m'"
    and "1 \<le> ppb" "k = (n + hds + ppb * 512) div (ppb * 512)" "k * ppb \<le> 2 ^ 19"
    and "uint base + k * ppb * 4096 \<le> uint limit"
    and "1 \<le> hds" "hds \<le> MAX_HEADS" "1 \<le> n" "n \<le> units" "units \<le> MAX_UNITS"
    and "1 \<le> grain" "grain < 2 ^ 31" "n \<le> grain \<or> grain dvd n"
  shows "\<exists>s. grow_freelist mmap (rmfl_new base limit ppb units grain hds, m) n = Some (True, s) \<and>
    rmfl_represents n s (full_heap n (min grain n)) \<and> rmfl_current_units (fst s) = n \<and>
    rmfl_high_water (fst s) = base + word_of_int (k * ppb * 4096)"
  using rmfl_first_growth_ok [OF assms] unfolding rmfl_represents_inv by blast

definition zero_mmap :: os_mmap where
  "zero_mmap start bytes m = Some (\<lambda>a. if a - start < bytes then Some 0 else m a)"

lemma zero_mmap_zeroed: "mmap_zeroed zero_mmap"
  by (simp add: mmap_zeroed_def zero_mmap_def)

theorem rmfl_first_growth_witness:
  "\<exists>s. grow_freelist zero_mmap (rmfl_new 0x10000 0x20000 1 100 5 1, Map.empty) 10 = Some (True, s) \<and>
     rmfl_represents 10 s \<lparr>blocks = [(0, 5), (5, 5)], free_units = [0, 5], uncoalescable = {}\<rparr>"
  using rmfl_first_growth [OF zero_mmap_zeroed, of 65536 1 1 Map.empty _ 10 1 131072 100 5]
  by (simp add: zero_mmap_def MAX_HEADS_def MAX_UNITS_eq full_heap_def heap_blocks_def grains_def upt_rec
      del: split_paired_Ex) blast

text \<open>
  Allocation from a grown list is first fit and neither faults nor loops.
\<close>

theorem rmfl_alloc_refines:
  assumes "rmfl_represents N s a" "rmfl_current_units (fst s) \<noteq> 0" "1 \<le> n"
  shows "\<exists>s'. rmfl_alloc s n = Some (fst (spec_alloc a n), s') \<and> rmfl_represents N s' (snd (spec_alloc a n))"
proof -
  have "rmfl_alloc s n = alloc_first_fit RawMemoryFreeList_impl s n"
    using assms(2) by (simp add: rmfl_alloc_def alloc_first_fit_def)
  with rmfl.alloc_first_fit_ok [OF _ assms(3)] assms(1) show ?thesis
    unfolding rmfl_represents_inv by metis
qed

theorem rmfl_alloc_refines_witness:
  "\<exists>s s'. rmfl_represents 10 s (full_heap 10 5) \<and> rmfl_alloc s 2 = Some (0, s')"
proof -
  obtain s where s: "rmfl_represents 10 s (full_heap 10 5)" "rmfl_current_units (fst s) \<noteq> 0"
    using rmfl_first_growth_ok [OF zero_mmap_zeroed, of 65536 1 1 Map.empty _ 10 1 131072 100 5]
    unfolding rmfl_represents_inv
    by (simp add: zero_mmap_def MAX_HEADS_def MAX_UNITS_eq del: split_paired_Ex) fastforce
  have "fst (spec_alloc (full_heap 10 5) 2) = 0"
    by (simp add: spec_alloc_def spec_first_fit_def spec_size_def full_heap_def heap_blocks_def grains_def upt_rec)
  with rmfl_alloc_refines [OF s, of 2] s(1) show ?thesis by (auto simp del: split_paired_Ex)
qed






text \<open>
  The offset of an entry is computed in 32 bits: from entry \<open>2 ^ 29\<close> on, that is unit \<open>2 ^ 28\<close> less
  the number of heads, the access goes to an address below the base of the table.
\<close>

theorem rmfl_offset_wraps:
  assumes "2 ^ 29 \<le> i" "i < 2 ^ 30"
  shows "rmfl_get_entry s i = snd s (rmfl_base (fst s) - word_of_int (2 ^ 32 - 4 * i))"
proof -
  have "i32 (i * 4) = - (2 ^ 32 - 4 * i)" 
  proof -
    have "(i * 4 + 2 ^ 31) mod 2 ^ 32 = ((i * 4 - 2 ^ 31) + 2 ^ 32) mod 2 ^ 32"
      by (rule arg_cong [where f = "\<lambda>x. x mod 2 ^ 32"]) simp
    also have "\<dots> = i * 4 - 2 ^ 31" unfolding mod_add_self2 by (rule mod_pos_pos_trivial) (use assms in auto)
    finally show ?thesis by (simp add: i32_def)
  qed
  then have "rmfl_offset i = - word_of_int (2 ^ 32 - 4 * i)" by (simp add: rmfl_offset_def)
  then show ?thesis unfolding rmfl_get_entry_def Let_def by (simp only: add_uminus_conv_diff)
qed

theorem rmfl_offset_wraps_witness:
  "rmfl_get_entry (rmfl_new 0x100000000 0x200000000 1 (2 ^ 29) 1 1, Map.empty(0x80000000 \<mapsto> 5)) (2 ^ 29) = Some 5"
  using rmfl_offset_wraps [of "2 ^ 29" "(rmfl_new 0x100000000 0x200000000 1 (2 ^ 29) 1 1, Map.empty(0x80000000 \<mapsto> 5))"]
  by (simp add: rmfl_new_def)

end
