(* ===== verification/SpaceDescriptor.thy ===== *)
theory SpaceDescriptor
  imports Conversions
begin

text \<open>
  Space descriptors (\<open>util/heap/space_descriptor.rs\<close>): a word that encodes where a space lies. A
  discontiguous space has a serial number. A contiguous space has its index in the 64-bit layout and,
  in the layouts that share the address range, its start as a floating-point number and its extent in
  chunks.
\<close>

type_synonym space_descriptor = usize

definition TYPE_BITS :: nat where "TYPE_BITS = 2"
definition TYPE_SHARED :: usize where "TYPE_SHARED = 0"
definition TYPE_CONTIGUOUS :: usize where "TYPE_CONTIGUOUS = 1"
definition TYPE_CONTIGUOUS_HI :: usize where "TYPE_CONTIGUOUS_HI = 3"
definition TYPE_MASK :: usize where "TYPE_MASK = push_bit TYPE_BITS 1 - 1"
definition SIZE_SHIFT :: nat where "SIZE_SHIFT = TYPE_BITS"
definition SIZE_BITS :: nat where "SIZE_BITS = 10"
definition SD_SIZE_MASK :: usize where "SD_SIZE_MASK = push_bit SIZE_SHIFT (push_bit SIZE_BITS 1 - 1)"
definition EXPONENT_SHIFT :: nat where "EXPONENT_SHIFT = SIZE_SHIFT + SIZE_BITS"
definition EXPONENT_BITS :: nat where "EXPONENT_BITS = 5"
definition EXPONENT_MASK :: usize where "EXPONENT_MASK = push_bit EXPONENT_SHIFT (push_bit EXPONENT_BITS 1 - 1)"
definition MANTISSA_SHIFT :: nat where "MANTISSA_SHIFT = EXPONENT_SHIFT + EXPONENT_BITS"
definition MANTISSA_BITS :: nat where "MANTISSA_BITS = 14"
definition BASE_EXPONENT :: nat where "BASE_EXPONENT = 2 ^ LOG_BITS_IN_INT - MANTISSA_BITS"
definition INDEX_MASK :: usize where "INDEX_MASK = NOT TYPE_MASK"
definition INDEX_SHIFT :: nat where "INDEX_SHIFT = TYPE_BITS"
definition DISCONTIG_INDEX_INCREMENT :: usize where "DISCONTIG_INDEX_INCREMENT = push_bit TYPE_BITS 1"
definition UNINITIALIZED :: space_descriptor where "UNINITIALIZED = 0"

lemmas sd_shifts [simp] = TYPE_BITS_def SIZE_SHIFT_def SIZE_BITS_def EXPONENT_SHIFT_def EXPONENT_BITS_def
  MANTISSA_SHIFT_def MANTISSA_BITS_def INDEX_SHIFT_def

lemma base_exponent [simp]: "BASE_EXPONENT = 18"
  by (simp add: BASE_EXPONENT_def)

text \<open>The loop that strips the trailing zeroes of the mantissa and counts them in the exponent.\<close>

function exponent_loop :: "usize \<Rightarrow> usize \<Rightarrow> usize \<times> usize" where
  "exponent_loop tmp exponent =
     (if tmp \<noteq> 0 \<and> tmp AND 1 = 0 then exponent_loop (drop_bit 1 tmp) (exponent + 1) else (tmp, exponent))"
  by pat_completeness auto
termination
proof (relation "measure (\<lambda>(tmp, _). unat tmp)")
  fix tmp e :: usize
  assume "tmp \<noteq> 0 \<and> tmp AND 1 = 0"
  then have "0 < unat tmp" by (simp add: unat_gt_0)
  then show "((drop_bit 1 tmp, e + 1), tmp, e) \<in> measure (\<lambda>(tmp, _). unat tmp)"
    using unat_drop [of 1 tmp] by simp
qed simp

declare exponent_loop.simps [simp del]

definition create_descriptor_from_heap_range :: "vm_layout \<Rightarrow> address \<Rightarrow> address \<Rightarrow> space_descriptor" where
  "create_descriptor_from_heap_range layout start end =
     (let top = (end = heap_end layout) in
      if force_use_contiguous_spaces layout then
        (let space_index = (if start > heap_end layout then -1 else drop_bit (space_shift_64 layout) start);
             flags = (if top then TYPE_CONTIGUOUS_HI else TYPE_CONTIGUOUS)
         in push_bit INDEX_SHIFT space_index OR flags)
      else
        (let chunks = drop_bit LOG_BYTES_IN_CHUNK (end - start);
             (mantissa, exponent) = exponent_loop (drop_bit BASE_EXPONENT start) 0
         in push_bit MANTISSA_SHIFT mantissa OR push_bit EXPONENT_SHIFT exponent OR push_bit SIZE_SHIFT chunks OR
            (if top then TYPE_CONTIGUOUS_HI else TYPE_CONTIGUOUS)))"

text \<open>The counter of discontiguous spaces is the argument and is returned incremented.\<close>

definition create_descriptor :: "usize \<Rightarrow> space_descriptor \<times> usize" where
  "create_descriptor discontiguous_space_index =
     (discontiguous_space_index, discontiguous_space_index + DISCONTIG_INDEX_INCREMENT)"

definition sd_is_empty :: "space_descriptor \<Rightarrow> bool" where
  "sd_is_empty d \<longleftrightarrow> d = UNINITIALIZED"

definition is_contiguous :: "space_descriptor \<Rightarrow> bool" where
  "is_contiguous d \<longleftrightarrow> d AND TYPE_CONTIGUOUS = TYPE_CONTIGUOUS"

definition is_contiguous_hi :: "space_descriptor \<Rightarrow> bool" where
  "is_contiguous_hi d \<longleftrightarrow> d AND TYPE_MASK = TYPE_CONTIGUOUS_HI"

definition get_start_32 :: "space_descriptor \<Rightarrow> address" where
  "get_start_32 d =
     (let mantissa = drop_bit MANTISSA_SHIFT d;
          exponent = drop_bit EXPONENT_SHIFT (d AND EXPONENT_MASK)
      in push_bit (BASE_EXPONENT + unat exponent) mantissa)"

definition get_index :: "space_descriptor \<Rightarrow> usize" where
  "get_index d = drop_bit INDEX_SHIFT (d AND INDEX_MASK)"

definition get_start :: "vm_layout \<Rightarrow> space_descriptor \<Rightarrow> address" where
  "get_start layout d =
     (if \<not> force_use_contiguous_spaces layout then get_start_32 d
      else push_bit (log_space_extent layout) (get_index d))"

definition get_extent_32 :: "space_descriptor \<Rightarrow> usize" where
  "get_extent_32 d = (let chunks = drop_bit SIZE_SHIFT (d AND SD_SIZE_MASK) in push_bit LOG_BYTES_IN_CHUNK chunks)"

definition sd_get_extent :: "vm_layout \<Rightarrow> space_descriptor \<Rightarrow> usize" where
  "sd_get_extent layout d =
     (if \<not> force_use_contiguous_spaces layout then get_extent_32 d else space_size_64 layout)"

section \<open>Fields\<close>

lemma exponent_loop_result:
  "exponent_loop t e = (m, x) \<Longrightarrow> t \<noteq> 0 \<Longrightarrow>
     \<exists>k. uint t = uint m * 2 ^ k \<and> x = e + of_nat k \<and> m \<noteq> 0"
proof (induction t e rule: exponent_loop.induct)
  case (1 t e)
  show ?case
  proof (cases "t AND 1 = 0")
    case True
    then have even: "even (uint t)" using raw_is_aligned_iff [of t 1] by (simp add: raw_is_aligned_def)
    from 1(3) True have l: "exponent_loop (drop_bit 1 t) (e + 1) = (m, x)"
      using 1(2) by (subst (asm) exponent_loop.simps) simp
    have d: "uint (drop_bit 1 t) * 2 = uint t" using even by (simp add: uint_drop)
    moreover have "drop_bit 1 t \<noteq> 0" using d 1(3) by (metis mult_zero_left uint_0_iff)
    ultimately obtain k where "uint (drop_bit 1 t) = uint m * 2 ^ k" "x = e + 1 + of_nat k" "m \<noteq> 0"
      using 1(1) [OF _ l] 1(3) True by blast
    then show ?thesis using d by (intro exI [of _ "Suc k"]) simp
  next
    case False
    with 1(2,3) show ?thesis by (subst (asm) exponent_loop.simps) (auto intro: exI [of _ 0])
  qed
qed

lemma less_exp_bit: "uint (w :: usize) < 2 ^ k \<Longrightarrow> k \<le> n \<Longrightarrow> \<not> bit w n"
proof -
  assume "uint w < 2 ^ k" "k \<le> n"
  then have "take_bit k w = w" by (simp add: word_uint_eq_iff uint_take)
  with \<open>k \<le> n\<close> show ?thesis by (metis bit_take_bit_iff linorder_not_less)
qed

lemma low_mask: "(push_bit k 1 - 1 :: usize) = mask k"
  by (simp add: push_bit_eq_mult mask_eq_exp_minus_1)

lemma sd_masks: "EXPONENT_MASK = push_bit 12 (mask 5)" "SD_SIZE_MASK = push_bit 2 (mask 10)" "TYPE_MASK = mask 2"
  unfolding EXPONENT_MASK_def SD_SIZE_MASK_def TYPE_MASK_def low_mask by simp_all

text \<open>The fields of a packed word are recovered when each one fits its width.\<close>

lemma packed_fields:
  fixes m e c f :: usize
  assumes "uint m < 2 ^ 47" "uint e < 2 ^ 5" "uint c < 2 ^ 10" "uint f < 2 ^ 2"
  defines "d \<equiv> push_bit 17 m OR push_bit 12 e OR push_bit 2 c OR f"
  shows "drop_bit 17 d = m" "drop_bit 12 (d AND EXPONENT_MASK) = e" "drop_bit 2 (d AND SD_SIZE_MASK) = c"
    "d AND mask 2 = f"
proof -
  note b = less_exp_bit [OF assms(1)] less_exp_bit [OF assms(2)] less_exp_bit [OF assms(3)] less_exp_bit [OF assms(4)]
  show "drop_bit 17 d = m"
  proof (rule bit_word_eqI)
    fix n assume "n < LENGTH(64)"
    then show "bit (drop_bit 17 d) n = bit m n"
      using b(1) [of n] b(2) [of "5 + n"] b(3) [of "15 + n"] b(4) [of "17 + n"]
      by (cases "47 \<le> n") (auto simp: d_def bit_simps)
  qed
  show "drop_bit 12 (d AND EXPONENT_MASK) = e"
  proof (rule bit_word_eqI)
    fix n assume "n < LENGTH(64)"
    then show "bit (drop_bit 12 (d AND EXPONENT_MASK)) n = bit e n"
      using b(2) [of n] b(3) [of "10 + n"] b(4) [of "12 + n"]
      by (cases "5 \<le> n") (auto simp: d_def sd_masks bit_simps)
  qed
  show "drop_bit 2 (d AND SD_SIZE_MASK) = c"
  proof (rule bit_word_eqI)
    fix n assume "n < LENGTH(64)"
    then show "bit (drop_bit 2 (d AND SD_SIZE_MASK)) n = bit c n"
      using b(3) [of n] b(4) [of "2 + n"] by (cases "10 \<le> n") (auto simp: d_def sd_masks bit_simps)
  qed
  show "d AND mask 2 = f"
  proof (rule bit_word_eqI)
    fix n assume "n < LENGTH(64)"
    then show "bit (d AND mask 2) n = bit f n"
      using b(4) [of n] by (cases "n < 2") (auto simp: d_def bit_simps)
  qed
qed

section \<open>Properties\<close>

lemma create_32_fields:
  assumes l: "\<not> force_use_contiguous_spaces l" and start: "2 ^ 18 dvd uint start" "start \<noteq> 0" "uint start < 2 ^ 49"
    and chunks: "uint (drop_bit 22 (end - start)) < 2 ^ 10"
  obtains m e f where "create_descriptor_from_heap_range l start end =
      push_bit 17 m OR push_bit 12 e OR push_bit 2 (drop_bit 22 (end - start)) OR f"
    "f = (if end = heap_end l then 3 else 1)" "uint m < 2 ^ 47" "uint e < 2 ^ 5" "uint f < 2 ^ 2"
    "uint start = uint m * 2 ^ (18 + unat e)"
proof -
  obtain m x where mx: "exponent_loop (drop_bit 18 start) 0 = (m, x)" by fastforce
  have q: "uint start = uint (drop_bit 18 start) * 2 ^ 18" unfolding uint_drop using start(1) by simp
  then have nz: "drop_bit 18 start \<noteq> 0" using start(2) by (metis mult_zero_left uint_0_iff)
  from exponent_loop_result [OF mx nz] obtain k where k: "uint (drop_bit 18 start) = uint m * 2 ^ k" "x = of_nat k" "m \<noteq> 0"
    by auto
  have m1: "1 \<le> uint m" using k(3) by (simp add: word_neq_0_conv word_less_def int_one_le_iff_zero_less)
  have up: "uint m * 2 ^ k < 2 ^ 31" using q start(3) unfolding k(1) by simp
  moreover have "1 * 2 ^ k \<le> uint m * 2 ^ k" using m1 by (intro mult_right_mono) auto
  ultimately have "(2 :: int) ^ k < 2 ^ 31" by linarith
  then have k31: "k < 31" using power_less_imp_less_exp [of "2 :: int" k 31] by simp
  have ux: "uint x = int k" "unat x = k" using k31 unfolding k(2) by (simp_all add: take_bit_int_eq_self take_bit_nat_eq_self unsigned_of_nat)
  have "uint m * 1 \<le> uint m * 2 ^ k" by (intro mult_left_mono) auto
  with up have m31: "uint m < 2 ^ 31" by linarith
  show thesis
  proof (rule that [of m x "if end = heap_end l then 3 else 1"])
    show "create_descriptor_from_heap_range l start end = push_bit 17 m OR push_bit 12 x OR
      push_bit 2 (drop_bit 22 (end - start)) OR (if end = heap_end l then 3 else 1)"
      using l mx by (simp add: create_descriptor_from_heap_range_def TYPE_CONTIGUOUS_HI_def TYPE_CONTIGUOUS_def)
    show "uint start = uint m * 2 ^ (18 + unat x)" using q unfolding k(1) ux by (simp add: power_add)
  qed (use m31 k31 ux in auto)
qed

text \<open>
  C24. A descriptor built from a range of at most 1023 chunks in a layout with shared address ranges gives
  back the start and the extent of the range, is contiguous, and is marked high exactly when the range
  ends at the end of the heap.
\<close>

theorem descriptor_32_roundtrip:
  assumes "\<not> force_use_contiguous_spaces l" "is_aligned_to start BYTES_IN_CHUNK" "is_aligned_to end BYTES_IN_CHUNK"
    and "start \<noteq> 0" "uint start < 2 ^ 49" "start \<le> end" "uint end - uint start < 2 ^ 32"
  shows "let d = create_descriptor_from_heap_range l start end in get_start l d = start \<and> sd_get_extent l d = end - start \<and> is_contiguous d \<and> (is_contiguous_hi d \<longleftrightarrow> end = heap_end l)"
proof -
  define d where "d = create_descriptor_from_heap_range l start end"
  have al: "2 ^ 22 dvd uint start" "2 ^ 22 dvd uint end"
    using assms(2,3) unfolding is_aligned_to_def size_constants raw_is_aligned_iff by blast+
  have df: "uint (end - start) = uint end - uint start"
    by (rule uint_sub_lem [THEN iffD1]) (use assms(6) in \<open>simp add: word_le_def\<close>)
  have c: "uint (drop_bit 22 (end - start)) < 2 ^ 10" unfolding uint_drop df using assms(7) by simp
  have "2 ^ 18 dvd uint start" using al(1) by (rule dvd_trans [rotated]) simp
  from create_32_fields [OF assms(1) this assms(4,5) c] obtain m e f where
    d: "d = push_bit 17 m OR push_bit 12 e OR push_bit 2 (drop_bit 22 (end - start)) OR f"
    and f: "f = (if end = heap_end l then 3 else 1)" and r: "uint m < 2 ^ 47" "uint e < 2 ^ 5" "uint f < 2 ^ 2"
    and s: "uint start = uint m * 2 ^ (18 + unat e)" unfolding d_def by metis
  note p = packed_fields [OF r(1,2) c r(3), folded d]
  have "uint (get_start_32 d) = uint start"
    unfolding get_start_32_def Let_def sd_shifts base_exponent s using p(1,2) uint_push [of m "18 + unat e"] s assms(5) by simp
  moreover have "uint (get_extent_32 d) = uint (end - start)"
  proof -
    have "2 ^ 22 dvd uint (end - start)" unfolding df using al by (rule dvd_diff [rotated])
    then have "uint (drop_bit 22 (end - start)) * 2 ^ 22 = uint (end - start)" unfolding uint_drop by simp
    then show ?thesis unfolding get_extent_32_def Let_def sd_shifts log_constants
      using p(3) uint_push [of "drop_bit 22 (end - start)" 22] uint_lt2p [of "end - start"] by simp
  qed
  moreover have "d AND 1 = 1"
  proof -
    have "d AND 1 = (d AND mask 2) AND 1" unfolding and.assoc by (simp add: mask_eq_exp_minus_1)
    then show ?thesis unfolding p(4) f by simp
  qed
  moreover note sd_masks(3)
  ultimately show ?thesis using assms(1) p(4) f
    unfolding d_def [symmetric] Let_def get_start_def sd_get_extent_def is_contiguous_def is_contiguous_hi_def TYPE_CONTIGUOUS_def
      TYPE_CONTIGUOUS_HI_def word_uint_eq_iff [of _ start] word_uint_eq_iff [of _ "end - start"] by simp
qed

theorem descriptor_32_roundtrip_witness:
  "get_start new_32bit (create_descriptor_from_heap_range new_32bit 0x80000000 0x80800000) = 0x80000000 \<and>
   sd_get_extent new_32bit (create_descriptor_from_heap_range new_32bit 0x80000000 0x80800000) = 0x800000"
proof -
  have "\<not> force_use_contiguous_spaces new_32bit" by (simp add: new_32bit_def)
  from descriptor_32_roundtrip [OF this, of "0x80000000" "0x80800000"] show ?thesis
    by (simp add: is_aligned_to_def raw_is_aligned_def BYTES_IN_CHUNK_def Let_def)
qed

text \<open>
  In the layout that gives every space its own extent, a descriptor gives back the start of a space
  that begins at a multiple of the extent, and the index of the space in its address.
\<close>

theorem descriptor_64_roundtrip:
  assumes "force_use_contiguous_spaces l" "2 \<le> log_space_extent l" "2 ^ log_space_extent l dvd uint start" "start \<le> heap_end l"
  shows "let d = create_descriptor_from_heap_range l start end in get_start l d = start \<and> get_index d = drop_bit (log_space_extent l) start \<and> is_contiguous d \<and>
    (is_contiguous_hi d \<longleftrightarrow> end = heap_end l)"
proof -
  define d where "d = create_descriptor_from_heap_range l start end"
  define i where "i = drop_bit (log_space_extent l) start"
  define f where "f = (if end = heap_end l then 3 else 1 :: usize)"
  have d: "d = push_bit 2 i OR f"
    using assms(1,4) unfolding d_def create_descriptor_from_heap_range_def i_def f_def
    by (simp add: space_shift_64_def TYPE_CONTIGUOUS_HI_def TYPE_CONTIGUOUS_def not_less [symmetric])
  have fb: "\<not> bit f n" if "2 \<le> n" for n using that by (intro less_exp_bit [of f 2]) (auto simp: f_def)
  have sb: "\<not> bit start n" if "n < log_space_extent l" for n
  proof -
    have "take_bit (log_space_extent l) start = 0"
      using assms(3) by (simp only: word_uint_eq_iff uint_take) simp
    with that show ?thesis by (metis bit_0_eq bit_take_bit_iff bot_apply bot_bool_def)
  qed
  have ib: "\<not> bit i n" if "62 \<le> n" for n
    using that assms(2) unfolding i_def by (auto simp: bit_simps dest: bit_imp_le_length)
  have idx: "get_index d = i"
    unfolding get_index_def INDEX_MASK_def sd_masks d
    by (rule bit_word_eqI) (use fb ib in \<open>auto simp: bit_simps not_le [symmetric]\<close>)
  have "push_bit (log_space_extent l) i = start"
  proof (rule bit_word_eqI)
    fix n assume "n < LENGTH(64)"
    then show "bit (push_bit (log_space_extent l) i) n = bit start n"
      using sb [of n] by (cases "n < log_space_extent l") (auto simp: i_def bit_simps)
  qed
  moreover have lowd: "d AND mask 2 = f"
    unfolding d by (rule bit_word_eqI) (use fb in \<open>auto simp: bit_simps not_le [symmetric]\<close>)
  moreover have "d AND 1 = 1"
  proof -
    have "d AND 1 = (d AND mask 2) AND 1" unfolding and.assoc by (simp add: mask_eq_exp_minus_1)
    then show ?thesis unfolding lowd by (simp add: f_def)
  qed
  ultimately show ?thesis using assms(1) idx
    unfolding d_def [symmetric] Let_def get_start_def is_contiguous_def is_contiguous_hi_def sd_masks TYPE_CONTIGUOUS_def
      TYPE_CONTIGUOUS_HI_def i_def f_def by simp
qed

theorem descriptor_64_roundtrip_witness:
  "get_start new_64bit (create_descriptor_from_heap_range new_64bit 0x40000000000 0x60000000000) = 0x40000000000"
proof -
  have "force_use_contiguous_spaces new_64bit" "log_space_extent new_64bit = 41" "heap_end new_64bit = 0x220000000000"
    by (simp_all add: new_64bit_def chunk_align_up_def align_up_def raw_align_up_def BYTES_IN_CHUNK_def)
  with descriptor_64_roundtrip [of new_64bit "0x40000000000" "0x60000000000"] show ?thesis by (simp add: Let_def)
qed

end
