(* ===== verification/MetadataValue.thy ===== *)
theory MetadataValue
  imports Conversions
begin

text \<open>
  Raw memory and the number types that metadata is accessed with
  (\<open>util/metadata/metadata_val_traits.rs\<close>, the loads and stores of \<open>util/address.rs\<close>). Memory is a
  function from addresses to bytes; a value of type \<open>T\<close> occupies \<open>T::BITS / 8\<close> bytes, the lowest first.
  A value is held in a 64-bit word whatever its type. An atomic operation is one step on the memory; its
  ordering argument has no counterpart. A result \<open>Ok x\<close> is \<open>Inr x\<close>, a result \<open>Err x\<close> is \<open>Inl x\<close>.
\<close>

type_synonym byte_mem = "address \<Rightarrow> u8"

section \<open>Loads and stores\<close>

fun load_le :: "nat \<Rightarrow> address \<Rightarrow> byte_mem \<Rightarrow> usize" where
  "load_le 0 a m = 0"
| "load_le (Suc n) a m = ucast (m a) OR push_bit 8 (load_le n (a + 1) m)"

fun store_le :: "nat \<Rightarrow> address \<Rightarrow> usize \<Rightarrow> byte_mem \<Rightarrow> byte_mem" where
  "store_le 0 a v m = m"
| "store_le (Suc n) a v m = store_le n (a + 1) (drop_bit 8 v) (m(a := ucast v))"

datatype value_type = U8 | U16 | U32 | U64 | Usize

fun BITS :: "value_type \<Rightarrow> nat" where
  "BITS U8 = 8" | "BITS U16 = 16" | "BITS U32 = 32" | "BITS U64 = 64" | "BITS Usize = 64"

fun LOG2 :: "value_type \<Rightarrow> nat" where
  "LOG2 U8 = 3" | "LOG2 U16 = 4" | "LOG2 U32 = 5" | "LOG2 U64 = 6" | "LOG2 Usize = 6"

definition addr_load :: "value_type \<Rightarrow> address \<Rightarrow> byte_mem \<Rightarrow> usize" where
  "addr_load T self m = load_le (BITS T div 8) self m"

definition addr_store :: "value_type \<Rightarrow> address \<Rightarrow> usize \<Rightarrow> byte_mem \<Rightarrow> byte_mem" where
  "addr_store T self value m = store_le (BITS T div 8) self value m"

definition addr_compare_exchange ::
  "value_type \<Rightarrow> address \<Rightarrow> usize \<Rightarrow> usize \<Rightarrow> byte_mem \<Rightarrow> (usize + usize) \<times> byte_mem" where
  "addr_compare_exchange T self old new m =
     (let cur = addr_load T self m
      in if cur = old then (Inr cur, addr_store T self new m) else (Inl cur, m))"

section \<open>The trait\<close>

definition mv_bitand :: "usize \<Rightarrow> usize \<Rightarrow> usize" where "mv_bitand x y = x AND y"
definition mv_bitor :: "usize \<Rightarrow> usize \<Rightarrow> usize" where "mv_bitor x y = x OR y"
definition mv_bitxor :: "usize \<Rightarrow> usize \<Rightarrow> usize" where "mv_bitxor x y = x XOR y"
definition mv_inv :: "value_type \<Rightarrow> usize \<Rightarrow> usize" where "mv_inv T x = take_bit (BITS T) (NOT x)"

text \<open>\<open>to_u8().unwrap()\<close> panics on a value that does not fit a byte.\<close>

definition to_u8 :: "usize \<Rightarrow> u8 option" where
  "to_u8 v = (if v < 256 then Some (ucast v) else None)"

definition from_u8 :: "u8 \<Rightarrow> usize" where
  "from_u8 b = ucast b"

definition mv_load :: "value_type \<Rightarrow> address \<Rightarrow> byte_mem \<Rightarrow> usize" where
  "mv_load T addr m = addr_load T addr m"

definition mv_load_atomic :: "value_type \<Rightarrow> address \<Rightarrow> byte_mem \<Rightarrow> usize" where
  "mv_load_atomic T addr m = addr_load T addr m"

definition mv_store :: "value_type \<Rightarrow> address \<Rightarrow> usize \<Rightarrow> byte_mem \<Rightarrow> byte_mem" where
  "mv_store T addr value m = addr_store T addr value m"

definition mv_store_atomic :: "value_type \<Rightarrow> address \<Rightarrow> usize \<Rightarrow> byte_mem \<Rightarrow> byte_mem" where
  "mv_store_atomic T addr value m = addr_store T addr value m"

definition mv_compare_exchange ::
  "value_type \<Rightarrow> address \<Rightarrow> usize \<Rightarrow> usize \<Rightarrow> byte_mem \<Rightarrow> (usize + usize) \<times> byte_mem" where
  "mv_compare_exchange T addr current new m = addr_compare_exchange T addr current new m"

definition mv_fetch_add :: "value_type \<Rightarrow> address \<Rightarrow> usize \<Rightarrow> byte_mem \<Rightarrow> usize \<times> byte_mem" where
  "mv_fetch_add T addr value m =
     (let old = addr_load T addr m in (old, addr_store T addr (take_bit (BITS T) (old + value)) m))"

definition mv_fetch_sub :: "value_type \<Rightarrow> address \<Rightarrow> usize \<Rightarrow> byte_mem \<Rightarrow> usize \<times> byte_mem" where
  "mv_fetch_sub T addr value m =
     (let old = addr_load T addr m in (old, addr_store T addr (take_bit (BITS T) (old - value)) m))"

definition mv_fetch_and :: "value_type \<Rightarrow> address \<Rightarrow> usize \<Rightarrow> byte_mem \<Rightarrow> usize \<times> byte_mem" where
  "mv_fetch_and T addr value m = (let old = addr_load T addr m in (old, addr_store T addr (old AND value) m))"

definition mv_fetch_or :: "value_type \<Rightarrow> address \<Rightarrow> usize \<Rightarrow> byte_mem \<Rightarrow> usize \<times> byte_mem" where
  "mv_fetch_or T addr value m = (let old = addr_load T addr m in (old, addr_store T addr (old OR value) m))"

definition mv_fetch_update ::
  "value_type \<Rightarrow> address \<Rightarrow> (usize \<Rightarrow> usize option option) \<Rightarrow> byte_mem \<Rightarrow> ((usize + usize) \<times> byte_mem) option" where
  "mv_fetch_update T addr f m =
     (let old = addr_load T addr m
      in do { r \<leftarrow> f old; Some (case r of None \<Rightarrow> (Inl old, m) | Some new \<Rightarrow> (Inr old, addr_store T addr new m)) })"

text \<open>The same operations at type \<open>u8\<close>, with bytes as bytes.\<close>

definition u8_load :: "address \<Rightarrow> byte_mem \<Rightarrow> u8" where
  "u8_load addr m = m addr"

definition u8_store :: "address \<Rightarrow> u8 \<Rightarrow> byte_mem \<Rightarrow> byte_mem" where
  "u8_store addr value m = m(addr := value)"

definition u8_compare_exchange :: "address \<Rightarrow> u8 \<Rightarrow> u8 \<Rightarrow> byte_mem \<Rightarrow> (u8 + u8) \<times> byte_mem" where
  "u8_compare_exchange addr current new m =
     (if m addr = current then (Inr (m addr), m(addr := new)) else (Inl (m addr), m))"

definition u8_fetch_and :: "address \<Rightarrow> u8 \<Rightarrow> byte_mem \<Rightarrow> u8 \<times> byte_mem" where
  "u8_fetch_and addr value m = (m addr, m(addr := m addr AND value))"

definition u8_fetch_or :: "address \<Rightarrow> u8 \<Rightarrow> byte_mem \<Rightarrow> u8 \<times> byte_mem" where
  "u8_fetch_or addr value m = (m addr, m(addr := m addr OR value))"

definition u8_fetch_update ::
  "address \<Rightarrow> (u8 \<Rightarrow> u8 option option) \<Rightarrow> byte_mem \<Rightarrow> ((u8 + u8) \<times> byte_mem) option" where
  "u8_fetch_update addr f m =
     do { r \<leftarrow> f (m addr); Some (case r of None \<Rightarrow> (Inl (m addr), m) | Some new \<Rightarrow> (Inr (m addr), m(addr := new))) }"

lemma ucast_u8 [simp]: "(ucast (ucast (b :: u8) :: usize) :: u8) = b"
  by (rule bit_word_eqI) (auto simp: bit_simps dest: bit_imp_le_length)

lemma u8_instance:
  "addr_load U8 a m = ucast (u8_load a m)" "addr_store U8 a (ucast b) m = u8_store a b m"
  by (simp_all add: addr_load_def addr_store_def u8_load_def u8_store_def)

section \<open>Memory laws\<close>

lemma bit_load_le:
  "n \<le> 8 \<Longrightarrow> bit (load_le n a m) i \<longleftrightarrow> i < 8 * n \<and> bit (m (a + of_nat (i div 8))) (i mod 8)"
proof (induction n arbitrary: a i)
  case (Suc n)
  show ?case
  proof (cases "i < 8")
    case False
    then obtain j where j: "i = j + 8" by (metis add.commute le_add_diff_inverse not_less)
    have "bit (load_le (Suc n) a m) i \<longleftrightarrow> j + 8 < 64 \<and> bit (load_le n (a + 1) m) j"
      unfolding j by (auto simp: bit_simps dest: bit_imp_le_length)
    also have "\<dots> \<longleftrightarrow> j < 8 * n \<and> bit (m (a + 1 + of_nat (j div 8))) (j mod 8)"
      using Suc by auto
    finally show ?thesis unfolding j by (simp add: add.assoc div_add_self2)
  qed (auto simp: bit_simps dest: bit_imp_le_length)
qed simp

lemma store_le_at:
  "n \<le> 8 \<Longrightarrow> store_le n a v m x = (if unat (x - a) < n then ucast (drop_bit (8 * unat (x - a)) v) else m x)"
proof (induction n arbitrary: a v m)
  case (Suc n)
  show ?case
  proof (cases "x = a")
    case True
    have "unat (a - (a + 1)) = 2 ^ 64 - 1" by (simp add: unsigned_minus_1_eq_mask mask_eq_exp_minus_1)
    with True Suc show ?thesis by simp
  next
    case False
    then have "unat (x - (a + 1)) = unat (x - a) - 1" "0 < unat (x - a)"
      using unat_minus_one [of "x - a"] by (simp_all add: diff_diff_eq unat_gt_0)
    with Suc False show ?thesis by (auto simp: drop_bit_drop_bit algebra_simps)
  qed
qed simp

section \<open>Metadata fields\<close>

text \<open>
  The storage of one metadata value: a few bits of a byte, or a whole number of a type. It is the abstract
  state of metadata: every access of the header and of the side tables is a read or an update of one field.
\<close>

datatype metadata_field = BitsIn address nat nat | Whole address value_type

fun field_width :: "metadata_field \<Rightarrow> nat" where
  "field_width (BitsIn a l k) = k"
| "field_width (Whole a T) = BITS T"

fun field_ok :: "metadata_field \<Rightarrow> bool" where
  "field_ok (BitsIn a l k) \<longleftrightarrow> l + k \<le> 8"
| "field_ok (Whole a T) \<longleftrightarrow> True"

fun field_pos :: "metadata_field \<Rightarrow> nat \<Rightarrow> address \<times> nat" where
  "field_pos (BitsIn a l k) i = (a, l + i)"
| "field_pos (Whole a T) i = (a + of_nat (i div 8), i mod 8)"

definition footprint :: "metadata_field \<Rightarrow> (address \<times> nat) set" where
  "footprint f = field_pos f ` {..<field_width f}"

text \<open>Reading and replacing \<open>k\<close> bits of a byte from bit \<open>l\<close> on.\<close>

definition byte_get :: "nat \<Rightarrow> nat \<Rightarrow> u8 \<Rightarrow> u8" where
  "byte_get l k b = drop_bit l (b AND push_bit l (mask k))"

definition byte_put :: "nat \<Rightarrow> nat \<Rightarrow> u8 \<Rightarrow> u8 \<Rightarrow> u8" where
  "byte_put l k b v = (b AND NOT (push_bit l (mask k))) OR (push_bit l v AND push_bit l (mask k))"

fun field_get :: "metadata_field \<Rightarrow> byte_mem \<Rightarrow> usize" where
  "field_get (BitsIn a l k) m = ucast (byte_get l k (m a))"
| "field_get (Whole a T) m = addr_load T a m"

fun field_put :: "metadata_field \<Rightarrow> usize \<Rightarrow> byte_mem \<Rightarrow> byte_mem" where
  "field_put (BitsIn a l k) v m =
     m(a := byte_put l k (m a) (ucast v))"
| "field_put (Whole a T) v m = addr_store T a v m"

lemma BITS_bytes: "BITS T div 8 \<le> 8" "8 * (BITS T div 8) = BITS T" "BITS T \<le> 64"
  by (cases T; simp)+

lemma field_width_le: "field_ok f \<Longrightarrow> field_width f \<le> 64"
  by (cases f) (simp_all add: BITS_bytes)

lemma bit_field_get:
  "field_ok f \<Longrightarrow> bit (field_get f m) i \<longleftrightarrow> i < field_width f \<and> bit (m (fst (field_pos f i))) (snd (field_pos f i))"
  by (cases f) (auto simp: byte_get_def bit_simps addr_load_def bit_load_le BITS_bytes dest: bit_imp_le_length)

lemma bit_field_put_at:
  assumes "field_ok f" "i < field_width f"
  shows "bit (field_put f v m (fst (field_pos f i))) (snd (field_pos f i)) \<longleftrightarrow> bit v i"
proof (cases f)
  case (BitsIn a l k)
  with assms show ?thesis by (auto simp: byte_put_def bit_simps)
next
  case (Whole a T)
  have i: "i < 64" "i div 8 < BITS T div 8" using assms BITS_bytes [of T] unfolding Whole by simp_all
  then have u: "unat (a + of_nat (i div 8) - a) = i div 8" by (simp add: unsigned_of_nat take_bit_nat_eq_self)
  have "8 * (i div 8) + i mod 8 = i" by simp
  then show ?thesis using i u unfolding Whole
    by (simp add: addr_store_def store_le_at BITS_bytes bit_simps)
qed

lemma bit_field_put_other:
  assumes "field_ok f" "(x, j) \<notin> footprint f" "j < 8"
  shows "bit (field_put f v m x) j = bit (m x) j"
proof (cases f)
  case (BitsIn a l k)
  show ?thesis
  proof (cases "x = a")
    case True
    have "\<not> (l \<le> j \<and> j < l + k)"
    proof
      assume "l \<le> j \<and> j < l + k"
      then have "(x, j) = field_pos f (j - l)" "j - l < field_width f" using True BitsIn by auto
      with assms(2) show False unfolding footprint_def by blast
    qed
    then show ?thesis using assms(3) True unfolding BitsIn by (auto simp: byte_put_def bit_simps)
  qed (simp add: BitsIn)
next
  case (Whole a T)
  have "\<not> unat (x - a) < BITS T div 8"
  proof
    assume u: "unat (x - a) < BITS T div 8"
    have "(8 * unat (x - a) + j) div 8 = unat (x - a)" "(8 * unat (x - a) + j) mod 8 = j" using assms(3) by auto
    then have "(x, j) = field_pos f (8 * unat (x - a) + j)" unfolding Whole by simp
    moreover have "8 * unat (x - a) + j < field_width f" using u assms(3) BITS_bytes [of T] unfolding Whole by simp
    ultimately show False using assms(2) unfolding footprint_def by blast
  qed
  then show ?thesis unfolding Whole by (simp add: addr_store_def store_le_at BITS_bytes)
qed

lemma field_pos_bit: "field_ok f \<Longrightarrow> i < field_width f \<Longrightarrow> snd (field_pos f i) < 8"
  by (cases f) auto

lemma field_get_put: "field_ok f \<Longrightarrow> field_get f (field_put f v m) = take_bit (field_width f) v"
  by (rule bit_word_eqI) (auto simp: bit_field_get bit_field_put_at bit_take_bit_iff)

lemma field_get_put_other:
  assumes "field_ok f" "field_ok g" "footprint f \<inter> footprint g = {}"
  shows "field_get g (field_put f v m) = field_get g m"
proof (rule bit_word_eqI)
  fix i
  show "bit (field_get g (field_put f v m)) i = bit (field_get g m) i"
  proof (cases "i < field_width g")
    case True
    then have "field_pos g i \<notin> footprint f" using assms(3) unfolding footprint_def by blast
    then have "bit (field_put f v m (fst (field_pos g i))) (snd (field_pos g i)) = bit (m (fst (field_pos g i))) (snd (field_pos g i))"
      using bit_field_put_other [OF assms(1)] field_pos_bit [OF assms(2) True] by simp
    then show ?thesis by (simp add: bit_field_get assms(2))
  qed (simp add: bit_field_get assms(2))
qed

lemma mem_bit_eqI: "(\<And>x j. j < 8 \<Longrightarrow> bit (m x) j = bit (m' x) j) \<Longrightarrow> m = (m' :: byte_mem)"
  by (intro ext bit_word_eqI) auto

lemma footprint_cases:
  assumes "(x, j) \<in> footprint f"
  obtains i where "i < field_width f" "field_pos f i = (x, j)"
  using assms unfolding footprint_def by auto

lemma field_put_cong:
  assumes "field_ok f" "take_bit (field_width f) v = take_bit (field_width f) w"
    "\<And>x j. j < 8 \<Longrightarrow> (x, j) \<notin> footprint f \<Longrightarrow> bit (m x) j = bit (m' x) j"
  shows "field_put f v m = field_put f w m'"
proof (rule mem_bit_eqI)
  fix x j assume j: "j < (8 :: nat)"
  show "bit (field_put f v m x) j = bit (field_put f w m' x) j"
  proof (cases "(x, j) \<in> footprint f")
    case True
    then obtain i where i: "i < field_width f" "field_pos f i = (x, j)" by (rule footprint_cases)
    have "bit v i = bit w i" using assms(2) i(1) by (metis bit_take_bit_iff)
    with bit_field_put_at [OF assms(1) i(1), of v m] bit_field_put_at [OF assms(1) i(1), of w m'] i(2) show ?thesis by simp
  next
    case False
    with bit_field_put_other [OF assms(1) False j] assms(3) [OF j False] show ?thesis by simp
  qed
qed

lemma field_put_put: "field_ok f \<Longrightarrow> field_put f w (field_put f v m) = field_put f w m"
  by (rule field_put_cong) (simp_all add: bit_field_put_other)

lemma field_put_get: "field_ok f \<Longrightarrow> field_put f (field_get f m) m = m"
proof (rule mem_bit_eqI)
  fix x j assume f: "field_ok f" and j: "j < (8 :: nat)"
  show "bit (field_put f (field_get f m) m x) j = bit (m x) j"
  proof (cases "(x, j) \<in> footprint f")
    case True
    then obtain i where i: "i < field_width f" "field_pos f i = (x, j)" by (rule footprint_cases)
    with bit_field_put_at [OF f i(1), of "field_get f m" m] bit_field_get [OF f, of m i] show ?thesis by simp
  next
    case False
    with bit_field_put_other [OF f False j] show ?thesis by simp
  qed
qed

lemma field_get_take: "field_ok f \<Longrightarrow> take_bit (field_width f) (field_get f m) = field_get f m"
  by (rule bit_word_eqI) (auto simp: bit_field_get bit_take_bit_iff)

lemma addr_store_take: "addr_store T a (take_bit (BITS T) y) m = addr_store T a y m"
  using field_put_cong [of "Whole a T" "take_bit (BITS T) y" y m m] by simp

section \<open>Bits of a byte\<close>

lemma u8_low_mask: "(push_bit k 1 - 1 :: u8) = mask k" "(2 ^ k - 1 :: u8) = mask k"
  by (simp_all add: push_bit_eq_mult mask_eq_exp_minus_1)

lemma to_u8_small: "take_bit k v = v \<Longrightarrow> k \<le> 8 \<Longrightarrow> to_u8 v = Some (ucast v)"
proof -
  assume v: "take_bit k v = v" and k: "k \<le> 8"
  have "uint v = uint v mod 2 ^ k" using uint_take [of k v] v by simp
  then have "uint v < 2 ^ k" by (metis pos_mod_bound zero_less_numeral zero_less_power)
  also have "(2 :: int) ^ k \<le> 2 ^ 8" using k by (intro power_increasing) auto
  finally show ?thesis by (simp add: to_u8_def word_less_def)
qed

lemma ucast_take_u8: "take_bit k v = v \<Longrightarrow> take_bit k (ucast v :: u8) = ucast v"
  for v :: usize
proof (rule bit_word_eqI)
  fix n assume "take_bit k v = v"
  then have "bit v n \<Longrightarrow> n < k" by (metis bit_take_bit_iff)
  then show "bit (take_bit k (ucast v :: u8)) n = bit (ucast v :: u8) n" by (auto simp: bit_simps)
qed

lemma ucast_back:
  assumes "take_bit k v = v" "k \<le> 8"
  shows "ucast (ucast v :: u8) = (v :: usize)"
proof (rule bit_word_eqI)
  fix n
  have "bit v n \<Longrightarrow> n < 8" using assms by (metis bit_take_bit_iff less_le_trans)
  then show "bit (ucast (ucast v :: u8) :: usize) n = bit v n" by (auto simp: bit_simps dest: bit_imp_le_length)
qed

lemma byte_put_exact:
  assumes "take_bit k v = v" "l + k \<le> 8"
  shows "(b AND NOT (push_bit l (mask k))) OR push_bit l v = byte_put l k b v"
proof (rule bit_word_eqI)
  fix n
  have "bit v (n - l) \<Longrightarrow> n - l < k" using assms(1) by (metis bit_take_bit_iff)
  then show "bit ((b AND NOT (push_bit l (mask k))) OR push_bit l v) n = bit (byte_put l k b v) n"
    by (auto simp: byte_put_def bit_simps)
qed

lemma byte_put_trunc: "(b AND NOT (push_bit l (mask k))) OR push_bit l (v AND mask k) = byte_put l k b v"
  "(b AND NOT (push_bit l (mask k))) OR (push_bit l v AND push_bit l (mask k)) = byte_put l k b v"
  by (rule bit_word_eqI; auto simp: byte_put_def bit_simps)+

lemma byte_and_put:
  assumes "l + k \<le> 8"
  shows "b AND (push_bit l v OR NOT (push_bit l (mask k))) = byte_put l k b (byte_get l k b AND v)"
  by (rule bit_word_eqI) (use assms in \<open>auto simp: byte_get_def byte_put_def bit_simps\<close>)

lemma byte_or_put:
  assumes "l + k \<le> 8"
  shows "b OR (push_bit l v AND push_bit l (mask k)) = byte_put l k b (byte_get l k b OR v)"
  by (rule bit_word_eqI) (use assms in \<open>auto simp: byte_get_def byte_put_def bit_simps\<close>)

lemma byte_put_put: "byte_put l k (byte_put l k b v) w = byte_put l k b w"
  by (rule bit_word_eqI) (auto simp: byte_put_def bit_simps)

lemma byte_put_get: "l + k \<le> 8 \<Longrightarrow> byte_put l k b (byte_get l k b) = b"
  by (rule bit_word_eqI) (auto simp: byte_get_def byte_put_def bit_simps)

lemma byte_get_put: "l + k \<le> 8 \<Longrightarrow> byte_get l k (byte_put l k b v) = take_bit k v"
  by (rule bit_word_eqI) (auto simp: byte_get_def byte_put_def bit_simps)

text \<open>
  The exchange of bits by an exchange of the byte around them: the byte read first supplies the other bits.
\<close>

lemma byte_cas:
  assumes "l + k \<le> 8" "take_bit k old = old"
  shows "b = byte_put l k b0 old \<Longrightarrow> byte_get l k b = old" "b = byte_put l k b0 old \<Longrightarrow> byte_put l k (byte_put l k b0 old) new = byte_put l k b new"
    "byte_get l k b = old \<Longrightarrow> b = byte_put l k b old"
  using assms byte_put_get [OF assms(1), of b] by (auto simp: byte_get_put)

lemma u8_ops:
  fixes x v :: u8
  shows "(ucast (ucast x + ucast v :: usize) :: u8) = x + v" "(ucast (ucast x - ucast v :: usize) :: u8) = x - v"
    "(ucast (ucast x AND ucast v :: usize) :: u8) = x AND v" "(ucast (ucast x OR ucast v :: usize) :: u8) = x OR v"
proof -
  show "(ucast (ucast x + ucast v :: usize) :: u8) = x + v"
    by transfer (simp add: take_bit_eq_mod mod_simps mod_mod_cancel)
  show "(ucast (ucast x - ucast v :: usize) :: u8) = x - v"
    by transfer (simp add: take_bit_eq_mod mod_simps mod_mod_cancel)
qed (rule bit_word_eqI; auto simp: bit_simps dest: bit_imp_le_length)+

section \<open>The contract of metadata accesses\<close>

text \<open>
  What the clients of metadata rely on, and what header metadata and side metadata both provide. A
  compare-and-exchange reads the memory twice: \<open>m0\<close> is the memory when the surrounding bits are read and
  \<open>m\<close> the memory when the exchange takes place, and other threads may have changed it in between.
\<close>

datatype fetch_op = FetchAdd | FetchSub | FetchAnd | FetchOr

fun apply_op :: "fetch_op \<Rightarrow> usize \<Rightarrow> usize \<Rightarrow> usize" where
  "apply_op FetchAdd x y = x + y"
| "apply_op FetchSub x y = x - y"
| "apply_op FetchAnd x y = x AND y"
| "apply_op FetchOr x y = x OR y"

locale metadata_access =
  fixes valid :: "'o \<Rightarrow> bool"
    and cell :: "'o \<Rightarrow> metadata_field"
    and load :: "'o \<Rightarrow> byte_mem \<Rightarrow> usize"
    and store :: "'o \<Rightarrow> usize \<Rightarrow> byte_mem \<Rightarrow> byte_mem option"
    and cas :: "'o \<Rightarrow> usize \<Rightarrow> usize \<Rightarrow> byte_mem \<Rightarrow> byte_mem \<Rightarrow> ((usize + usize) \<times> byte_mem) option"
    and fetch :: "fetch_op \<Rightarrow> 'o \<Rightarrow> usize \<Rightarrow> byte_mem \<Rightarrow> (usize \<times> byte_mem) option"
  assumes cell_ok: "valid x \<Longrightarrow> field_ok (cell x)"
    and load_cell: "valid x \<Longrightarrow> load x m = field_get (cell x) m"
    and store_cell: "valid x \<Longrightarrow> take_bit (field_width (cell x)) v = v \<Longrightarrow> store x v m = Some (field_put (cell x) v m)"
    and cas_ok: "valid x \<Longrightarrow> take_bit (field_width (cell x)) old = old \<Longrightarrow> take_bit (field_width (cell x)) new = new \<Longrightarrow>
      \<exists>r. cas x old new m0 m = Some r \<and>
        (\<exists>y. r = (Inr y, field_put (cell x) new m) \<and> field_get (cell x) m = old \<or> r = (Inl y, m))"
    and cas_quiet: "valid x \<Longrightarrow> take_bit (field_width (cell x)) old = old \<Longrightarrow> take_bit (field_width (cell x)) new = new \<Longrightarrow>
      field_get (cell x) m = old \<Longrightarrow> \<exists>y. cas x old new m m = Some (Inr y, field_put (cell x) new m)"
    and fetch_cell: "valid x \<Longrightarrow> take_bit (field_width (cell x)) v = v \<Longrightarrow>
      fetch op x v m = Some (field_get (cell x) m, field_put (cell x) (apply_op op (field_get (cell x) m) v) m)"
begin

lemma load_store:
  assumes "valid x" "take_bit (field_width (cell x)) v = v"
  obtains m' where "store x v m = Some m'" "load x m' = v"
    "\<And>y. valid y \<Longrightarrow> footprint (cell x) \<inter> footprint (cell y) = {} \<Longrightarrow> load y m' = load y m"
  using assms by (simp add: store_cell load_cell cell_ok field_get_put field_get_put_other)

lemma cas_success:
  assumes "valid x" "take_bit (field_width (cell x)) old = old" "take_bit (field_width (cell x)) new = new"
    and "cas x old new m0 m = Some (Inr y, m')"
  shows "load x m = old" "load x m' = new"
    "\<And>z. valid z \<Longrightarrow> footprint (cell x) \<inter> footprint (cell z) = {} \<Longrightarrow> load z m' = load z m"
  using cas_ok [OF assms(1-3), of m0 m] assms
  by (auto simp: load_cell cell_ok field_get_put field_get_put_other)

lemma cas_failure:
  assumes "valid x" "take_bit (field_width (cell x)) old = old" "take_bit (field_width (cell x)) new = new"
    and "cas x old new m0 m = Some (Inl y, m')"
  shows "m' = m"
  using cas_ok [OF assms(1-3), of m0 m] assms by auto

lemma fetch_result:
  assumes "valid x" "take_bit (field_width (cell x)) v = v"
  obtains m' where "fetch op x v m = Some (load x m, m')"
    "load x m' = take_bit (field_width (cell x)) (apply_op op (load x m) v)"
    "\<And>z. valid z \<Longrightarrow> footprint (cell x) \<inter> footprint (cell z) = {} \<Longrightarrow> load z m' = load z m"
  using assms by (simp add: fetch_cell load_cell cell_ok field_get_put field_get_put_other)

end

end
