(* ===== verification/HeaderMetadata.thy ===== *)
theory HeaderMetadata
  imports MetadataValue
begin

text \<open>
  Metadata in object headers (\<open>util/metadata/header_metadata.rs\<close>): a field of one to seven bits inside a
  byte, or a whole number at an offset from the header, with loads, stores and atomic updates. Every
  operation is a read or an update of one \<open>metadata_field\<close>, which is the interpretation of
  \<open>metadata_access\<close> below.
\<close>

record header_metadata_spec =
  bit_offset :: int
  num_of_bits :: nat

definition hdr_byte_offset :: "header_metadata_spec \<Rightarrow> int" where
  "hdr_byte_offset s = drop_bit LOG_BITS_IN_BYTE (bit_offset s)"

definition hdr_meta_addr :: "header_metadata_spec \<Rightarrow> address \<Rightarrow> address" where
  "hdr_meta_addr s header = addr_add_offset header (word_of_int (hdr_byte_offset s))"

definition get_shift_and_mask_for_bits :: "header_metadata_spec \<Rightarrow> nat \<times> u8" where
  "get_shift_and_mask_for_bits s =
     (let byte_offset = hdr_byte_offset s;
          bit_shift = nat (bit_offset s - push_bit LOG_BITS_IN_BYTE byte_offset);
          msk = push_bit bit_shift (push_bit (num_of_bits s) 1 - 1)
      in (bit_shift, msk))"

definition get_bits_from_u8 :: "header_metadata_spec \<Rightarrow> u8 \<Rightarrow> u8" where
  "get_bits_from_u8 s raw_byte =
     (let (bit_shift, msk) = get_shift_and_mask_for_bits s in drop_bit bit_shift (raw_byte AND msk))"

definition set_bits_to_u8 :: "header_metadata_spec \<Rightarrow> u8 \<Rightarrow> u8 \<Rightarrow> u8" where
  "set_bits_to_u8 s raw_byte set_val =
     (let (bit_shift, msk) = get_shift_and_mask_for_bits s in (raw_byte AND NOT msk) OR push_bit bit_shift set_val)"

definition truncate_bits_in_u8 :: "header_metadata_spec \<Rightarrow> u8 \<Rightarrow> u8" where
  "truncate_bits_in_u8 s val = val AND (push_bit (num_of_bits s) 1 - 1)"

text \<open>The check that debug builds make of a spec for values of type \<open>T\<close>.\<close>

definition assert_spec :: "value_type \<Rightarrow> header_metadata_spec \<Rightarrow> bool" where
  "assert_spec T s \<longleftrightarrow>
     (if num_of_bits s = 0 then False
      else if num_of_bits s < 8 then
        drop_bit LOG_BITS_IN_BYTE (bit_offset s) = drop_bit LOG_BITS_IN_BYTE (bit_offset s + int (num_of_bits s) - 1)
      else if num_of_bits s \<le> 64 then take_bit (LOG2 T) (bit_offset s) = 0
      else False)"

definition hdr_load_inner ::
  "value_type \<Rightarrow> header_metadata_spec \<Rightarrow> address \<Rightarrow> usize option \<Rightarrow> bool \<Rightarrow> byte_mem \<Rightarrow> usize" where
  "hdr_load_inner T s header optional_mask atomic m =
     (let res = (if num_of_bits s < 8 then
                   (let byte_val = u8_load (hdr_meta_addr s header) m in from_u8 (get_bits_from_u8 s byte_val))
                 else if atomic then mv_load_atomic T (hdr_meta_addr s header) m
                 else addr_load T (hdr_meta_addr s header) m)
      in case optional_mask of Some msk \<Rightarrow> mv_bitand res msk | None \<Rightarrow> res)"

definition hdr_load :: "value_type \<Rightarrow> header_metadata_spec \<Rightarrow> address \<Rightarrow> usize option \<Rightarrow> byte_mem \<Rightarrow> usize" where
  "hdr_load T s header optional_mask m = hdr_load_inner T s header optional_mask False m"

definition hdr_load_atomic :: "value_type \<Rightarrow> header_metadata_spec \<Rightarrow> address \<Rightarrow> usize option \<Rightarrow> byte_mem \<Rightarrow> usize" where
  "hdr_load_atomic T s header optional_mask m = hdr_load_inner T s header optional_mask True m"

definition hdr_store_inner ::
  "value_type \<Rightarrow> header_metadata_spec \<Rightarrow> address \<Rightarrow> usize \<Rightarrow> usize option \<Rightarrow> bool \<Rightarrow> byte_mem \<Rightarrow> byte_mem option" where
  "hdr_store_inner T s header val optional_mask atomic m =
     (if num_of_bits s < 8 then do {
        val_u8 \<leftarrow> to_u8 val;
        let byte_addr = hdr_meta_addr s header;
        if atomic then do {
          (_, m) \<leftarrow> u8_fetch_update byte_addr (\<lambda>old_val. Some (Some (set_bits_to_u8 s old_val val_u8))) m;
          Some m }
        else
          (let old_byte_val = u8_load byte_addr m; new_byte_val = set_bits_to_u8 s old_byte_val val_u8
           in Some (u8_store byte_addr new_byte_val m)) }
      else
        (let addr = hdr_meta_addr s header in
         if atomic then
           (case optional_mask of
              Some msk \<Rightarrow> do {
                (_, m) \<leftarrow> mv_fetch_update T addr
                  (\<lambda>old_val. Some (Some (mv_bitor (mv_bitand old_val (mv_inv T msk)) (mv_bitand val msk)))) m;
                Some m }
            | None \<Rightarrow> Some (mv_store_atomic T addr val m))
         else
           (let val = (case optional_mask of
                         Some msk \<Rightarrow> (let old_val = mv_load T addr m
                           in mv_bitor (mv_bitand old_val (mv_inv T msk)) (mv_bitand val msk))
                       | None \<Rightarrow> val)
            in Some (mv_store T addr val m))))"

definition hdr_store ::
  "value_type \<Rightarrow> header_metadata_spec \<Rightarrow> address \<Rightarrow> usize \<Rightarrow> usize option \<Rightarrow> byte_mem \<Rightarrow> byte_mem option" where
  "hdr_store T s header val optional_mask m = hdr_store_inner T s header val optional_mask False m"

definition hdr_store_atomic ::
  "value_type \<Rightarrow> header_metadata_spec \<Rightarrow> address \<Rightarrow> usize \<Rightarrow> usize option \<Rightarrow> byte_mem \<Rightarrow> byte_mem option" where
  "hdr_store_atomic T s header val optional_mask m = hdr_store_inner T s header val optional_mask True m"

text \<open>\<open>m0\<close> is the memory at the first load, \<open>m\<close> the memory at the exchange.\<close>

definition hdr_compare_exchange ::
  "value_type \<Rightarrow> header_metadata_spec \<Rightarrow> address \<Rightarrow> usize \<Rightarrow> usize \<Rightarrow> usize option \<Rightarrow> byte_mem \<Rightarrow> byte_mem \<Rightarrow>
   ((usize + usize) \<times> byte_mem) option" where
  "hdr_compare_exchange T s header old_metadata new_metadata optional_mask m0 m =
     (if num_of_bits s < 8 then do {
        let byte_addr = hdr_meta_addr s header;
        let real_old_byte = u8_load byte_addr m0;
        old \<leftarrow> to_u8 old_metadata;
        let expected_old_byte = set_bits_to_u8 s real_old_byte old;
        new \<leftarrow> to_u8 new_metadata;
        let expected_new_byte = set_bits_to_u8 s expected_old_byte new;
        let (r, m) = u8_compare_exchange byte_addr expected_old_byte expected_new_byte m;
        Some (map_sum from_u8 from_u8 r, m) }
      else
        (let addr = hdr_meta_addr s header;
             (old_metadata, new_metadata) =
               (case optional_mask of
                  Some msk \<Rightarrow>
                    (let old_byte = mv_load_atomic T addr m0;
                         expected_new_byte = mv_bitor (mv_bitand old_byte (mv_inv T msk)) new_metadata;
                         expected_old_byte = mv_bitor (mv_bitand old_byte (mv_inv T msk)) old_metadata
                     in (expected_old_byte, expected_new_byte))
                | None \<Rightarrow> (old_metadata, new_metadata))
         in Some (mv_compare_exchange T addr old_metadata new_metadata m)))"

definition hdr_fetch_ops_on_bits ::
  "header_metadata_spec \<Rightarrow> address \<Rightarrow> (u8 \<Rightarrow> u8) \<Rightarrow> byte_mem \<Rightarrow> (u8 \<times> byte_mem) option" where
  "hdr_fetch_ops_on_bits s header update m = do {
     let byte_addr = hdr_meta_addr s header;
     (r, m) \<leftarrow> u8_fetch_update byte_addr
       (\<lambda>raw_byte. let old_metadata = get_bits_from_u8 s raw_byte;
                       new_metadata = truncate_bits_in_u8 s (update old_metadata);
                       new_byte = set_bits_to_u8 s raw_byte new_metadata
                   in Some (Some new_byte)) m;
     case r of Inl _ \<Rightarrow> None | Inr old_raw_byte \<Rightarrow> Some (get_bits_from_u8 s old_raw_byte, m) }"

definition hdr_fetch_add ::
  "value_type \<Rightarrow> header_metadata_spec \<Rightarrow> address \<Rightarrow> usize \<Rightarrow> byte_mem \<Rightarrow> (usize \<times> byte_mem) option" where
  "hdr_fetch_add T s header val m =
     (if num_of_bits s < 8 then do {
        v \<leftarrow> to_u8 val;
        (old, m) \<leftarrow> hdr_fetch_ops_on_bits s header (\<lambda>x. x + v) m;
        Some (from_u8 old, m) }
      else Some (mv_fetch_add T (hdr_meta_addr s header) val m))"

definition hdr_fetch_sub ::
  "value_type \<Rightarrow> header_metadata_spec \<Rightarrow> address \<Rightarrow> usize \<Rightarrow> byte_mem \<Rightarrow> (usize \<times> byte_mem) option" where
  "hdr_fetch_sub T s header val m =
     (if num_of_bits s < 8 then do {
        v \<leftarrow> to_u8 val;
        (old, m) \<leftarrow> hdr_fetch_ops_on_bits s header (\<lambda>x. x - v) m;
        Some (from_u8 old, m) }
      else Some (mv_fetch_sub T (hdr_meta_addr s header) val m))"

definition hdr_fetch_and ::
  "value_type \<Rightarrow> header_metadata_spec \<Rightarrow> address \<Rightarrow> usize \<Rightarrow> byte_mem \<Rightarrow> (usize \<times> byte_mem) option" where
  "hdr_fetch_and T s header val m =
     (if num_of_bits s < 8 then do {
        let (lshift, msk) = get_shift_and_mask_for_bits s;
        v \<leftarrow> to_u8 val;
        let new_val = push_bit lshift v OR NOT msk;
        let (old_raw_byte, m) = u8_fetch_and (hdr_meta_addr s header) new_val m;
        let old_val = get_bits_from_u8 s old_raw_byte;
        Some (from_u8 old_val, m) }
      else Some (mv_fetch_and T (hdr_meta_addr s header) val m))"

definition hdr_fetch_or ::
  "value_type \<Rightarrow> header_metadata_spec \<Rightarrow> address \<Rightarrow> usize \<Rightarrow> byte_mem \<Rightarrow> (usize \<times> byte_mem) option" where
  "hdr_fetch_or T s header val m =
     (if num_of_bits s < 8 then do {
        let (lshift, msk) = get_shift_and_mask_for_bits s;
        v \<leftarrow> to_u8 val;
        let new_val = push_bit lshift v AND msk;
        let (old_raw_byte, m) = u8_fetch_or (hdr_meta_addr s header) new_val m;
        let old_val = get_bits_from_u8 s old_raw_byte;
        Some (from_u8 old_val, m) }
      else Some (mv_fetch_or T (hdr_meta_addr s header) val m))"

definition hdr_fetch_update ::
  "value_type \<Rightarrow> header_metadata_spec \<Rightarrow> address \<Rightarrow> (usize \<Rightarrow> usize option) \<Rightarrow> byte_mem \<Rightarrow>
   ((usize + usize) \<times> byte_mem) option" where
  "hdr_fetch_update T s header f m =
     (if num_of_bits s < 8 then do {
        let byte_addr = hdr_meta_addr s header;
        (r, m) \<leftarrow> u8_fetch_update byte_addr
          (\<lambda>raw_byte. let old_metadata = get_bits_from_u8 s raw_byte
             in case f (from_u8 old_metadata) of
                  None \<Rightarrow> Some None
                | Some new_val \<Rightarrow> do {
                    v \<leftarrow> to_u8 new_val;
                    let new_metadata = truncate_bits_in_u8 s v;
                    Some (Some (set_bits_to_u8 s raw_byte new_metadata)) }) m;
        Some (map_sum (\<lambda>b. from_u8 (get_bits_from_u8 s b)) (\<lambda>b. from_u8 (get_bits_from_u8 s b)) r, m) }
      else mv_fetch_update T (hdr_meta_addr s header) (\<lambda>x. Some (f x)) m)"

section \<open>It is a field\<close>

type_synonym hdr_object = "value_type \<times> header_metadata_spec \<times> address"

definition hdr_shift :: "header_metadata_spec \<Rightarrow> nat" where
  "hdr_shift s = nat (bit_offset s mod 8)"

definition hdr_cell :: "hdr_object \<Rightarrow> metadata_field" where
  "hdr_cell = (\<lambda>(T, s, header). if num_of_bits s < 8 then BitsIn (hdr_meta_addr s header) (hdr_shift s) (num_of_bits s)
     else Whole (hdr_meta_addr s header) T)"

definition hdr_valid :: "hdr_object \<Rightarrow> bool" where
  "hdr_valid = (\<lambda>(T, s, header). assert_spec T s)"

fun hdr_fetch :: "fetch_op \<Rightarrow> hdr_object \<Rightarrow> usize \<Rightarrow> byte_mem \<Rightarrow> (usize \<times> byte_mem) option" where
  "hdr_fetch FetchAdd (T, s, header) v m = hdr_fetch_add T s header v m"
| "hdr_fetch FetchSub (T, s, header) v m = hdr_fetch_sub T s header v m"
| "hdr_fetch FetchAnd (T, s, header) v m = hdr_fetch_and T s header v m"
| "hdr_fetch FetchOr (T, s, header) v m = hdr_fetch_or T s header v m"

lemma hdr_shift_mask: "get_shift_and_mask_for_bits s = (hdr_shift s, push_bit (hdr_shift s) (mask (num_of_bits s)))"
proof -
  have "bit_offset s - push_bit 3 (drop_bit 3 (bit_offset s)) = bit_offset s mod 8"
    by (simp add: push_bit_eq_mult drop_bit_eq_div minus_div_mult_eq_mod)
  then show ?thesis
    by (simp add: get_shift_and_mask_for_bits_def hdr_byte_offset_def u8_low_mask hdr_shift_def Let_def)
qed

lemma hdr_shift_fits:
  assumes "assert_spec T s" "num_of_bits s < 8"
  shows "hdr_shift s + num_of_bits s \<le> 8" "0 < num_of_bits s"
proof -
  have n: "0 < num_of_bits s" and "bit_offset s div 8 = (bit_offset s + int (num_of_bits s) - 1) div 8"
    using assms by (simp_all add: assert_spec_def drop_bit_eq_div split: if_splits)
  then have "bit_offset s mod 8 + int (num_of_bits s) \<le> 8" by presburger
  moreover have "int (hdr_shift s) = bit_offset s mod 8" by (simp add: hdr_shift_def)
  ultimately show "hdr_shift s + num_of_bits s \<le> 8" by linarith
  show "0 < num_of_bits s" by (rule n)
qed

lemma hdr_get_bits: "get_bits_from_u8 s b = byte_get (hdr_shift s) (num_of_bits s) b"
  unfolding get_bits_from_u8_def hdr_shift_mask byte_get_def by simp

lemma hdr_set_bits:
  fixes v :: usize
  assumes "assert_spec T s" "num_of_bits s < 8" "take_bit (num_of_bits s) v = v"
  shows "set_bits_to_u8 s b (ucast v) = byte_put (hdr_shift s) (num_of_bits s) b (ucast v)"
  unfolding set_bits_to_u8_def hdr_shift_mask Let_def prod.case
  by (rule byte_put_exact [OF ucast_take_u8 [OF assms(3)] hdr_shift_fits(1) [OF assms(1,2)]])

lemma hdr_set_truncated: "set_bits_to_u8 s b (truncate_bits_in_u8 s v) = byte_put (hdr_shift s) (num_of_bits s) b v"
  unfolding set_bits_to_u8_def truncate_bits_in_u8_def hdr_shift_mask Let_def prod.case u8_low_mask by (rule byte_put_trunc)

lemma hdr_load_field: "hdr_load_inner T s header None atomic m = field_get (hdr_cell (T, s, header)) m"
  by (simp add: hdr_load_inner_def hdr_cell_def hdr_get_bits mv_load_atomic_def u8_load_def from_u8_def)

lemma hdr_store_field:
  assumes "assert_spec T s" "take_bit (field_width (hdr_cell (T, s, header))) v = v"
  shows "hdr_store_inner T s header v None atomic m = Some (field_put (hdr_cell (T, s, header)) v m)"
proof (cases "num_of_bits s < 8")
  case True
  with assms(2) have v: "take_bit (num_of_bits s) v = v" by (simp add: hdr_cell_def)
  show ?thesis using True to_u8_small [OF v]
    by (simp add: hdr_store_inner_def hdr_cell_def hdr_set_bits [OF assms(1) True v] u8_fetch_update_def u8_load_def
        u8_store_def Let_def)
qed (simp add: hdr_store_inner_def hdr_cell_def mv_store_atomic_def mv_store_def Let_def)

lemma hdr_fetch_field:
  assumes "hdr_valid x" "take_bit (field_width (hdr_cell x)) v = v"
  shows "hdr_fetch op x v m = Some (field_get (hdr_cell x) m, field_put (hdr_cell x) (apply_op op (field_get (hdr_cell x) m) v) m)"
proof -
  obtain T s header where x: "x = (T, s, header)" by (cases x)
  show ?thesis
  proof (cases "num_of_bits s < 8")
    case True
    with assms(2) have v: "take_bit (num_of_bits s) v = v" by (simp add: hdr_cell_def x)
    have fit: "hdr_shift s + num_of_bits s \<le> 8" using hdr_shift_fits(1) [OF _ True] assms(1) by (simp add: hdr_valid_def x)
    obtain b where vb: "v = ucast (b :: u8)" using ucast_back [OF v] True by (metis less_imp_le)
    show ?thesis unfolding x using True to_u8_small [OF v]
      by (cases op) (simp_all add: hdr_fetch_add_def hdr_fetch_sub_def hdr_fetch_and_def hdr_fetch_or_def
          hdr_fetch_ops_on_bits_def hdr_cell_def hdr_get_bits hdr_set_truncated hdr_shift_mask u8_fetch_update_def
          u8_fetch_and_def u8_fetch_or_def vb u8_ops byte_and_put [OF fit] byte_or_put [OF fit] from_u8_def Let_def)
  next
    case False
    then show ?thesis unfolding x
      by (cases op) (simp_all add: hdr_fetch_add_def hdr_fetch_sub_def hdr_fetch_and_def hdr_fetch_or_def hdr_cell_def
          mv_fetch_add_def mv_fetch_sub_def mv_fetch_and_def mv_fetch_or_def addr_store_take Let_def)
  qed
qed

lemma hdr_cas_bits:
  assumes "assert_spec T s" "num_of_bits s < 8" "take_bit (num_of_bits s) old = old" "take_bit (num_of_bits s) new = new"
  shows "hdr_compare_exchange T s header old new msk m0 m =
    (let a = hdr_meta_addr s header; put = byte_put (hdr_shift s) (num_of_bits s) in
     Some (if m a = put (m0 a) (ucast old) then (Inr (ucast (m a)), m(a := put (m a) (ucast new))) else (Inl (ucast (m a)), m)))"
  using assms(2) to_u8_small [OF assms(3)] to_u8_small [OF assms(4)]
  by (simp add: hdr_compare_exchange_def u8_compare_exchange_def u8_load_def Let_def from_u8_def byte_put_put
      hdr_set_bits [OF assms(1,2,3)] hdr_set_bits [OF assms(1,2,4)])

lemma hdr_cas_field:
  assumes "assert_spec T s"
    and "take_bit (field_width (hdr_cell (T, s, header))) old = old" "take_bit (field_width (hdr_cell (T, s, header))) new = new"
  shows "\<exists>r. hdr_compare_exchange T s header old new None m0 m = Some r \<and>
      (\<exists>y. r = (Inr y, field_put (hdr_cell (T, s, header)) new m) \<and> field_get (hdr_cell (T, s, header)) m = old \<or> r = (Inl y, m))"
    and "field_get (hdr_cell (T, s, header)) m = old \<Longrightarrow>
      \<exists>y. hdr_compare_exchange T s header old new None m m = Some (Inr y, field_put (hdr_cell (T, s, header)) new m)"
proof -
  let ?f = "hdr_cell (T, s, header)" and ?a = "hdr_meta_addr s header"
  have "(\<exists>r. hdr_compare_exchange T s header old new None m0 m = Some r \<and>
      (\<exists>y. r = (Inr y, field_put ?f new m) \<and> field_get ?f m = old \<or> r = (Inl y, m))) \<and>
    (field_get ?f m = old \<longrightarrow> (\<exists>y. hdr_compare_exchange T s header old new None m m = Some (Inr y, field_put ?f new m)))"
  proof (cases "num_of_bits s < 8")
    case True
    then have f: "?f = BitsIn ?a (hdr_shift s) (num_of_bits s)" by (simp add: hdr_cell_def)
    have v: "take_bit (num_of_bits s) old = old" "take_bit (num_of_bits s) new = new" using assms(2,3) f by simp_all
    note c = byte_cas [OF hdr_shift_fits(1) [OF assms(1) True] ucast_take_u8 [OF v(1)]]
    have "ucast (ucast old :: u8) = old" using ucast_back [OF v(1)] True by simp
    then have g: "field_get ?f m = old \<longleftrightarrow> byte_get (hdr_shift s) (num_of_bits s) (m ?a) = ucast old"
      unfolding f by (metis field_get.simps(1) ucast_u8)
    show ?thesis unfolding g hdr_cas_bits [OF assms(1) True v] Let_def unfolding f field_put.simps using c by auto
  next
    case False
    then show ?thesis
      by (auto simp: hdr_compare_exchange_def hdr_cell_def mv_compare_exchange_def addr_compare_exchange_def Let_def)
  qed
  then show "\<exists>r. hdr_compare_exchange T s header old new None m0 m = Some r \<and>
      (\<exists>y. r = (Inr y, field_put ?f new m) \<and> field_get ?f m = old \<or> r = (Inl y, m))"
    "field_get ?f m = old \<Longrightarrow> \<exists>y. hdr_compare_exchange T s header old new None m m = Some (Inr y, field_put ?f new m)"
    by blast+
qed

interpretation hdr: metadata_access hdr_valid hdr_cell "\<lambda>(T, s, header). hdr_load_atomic T s header None"
  "\<lambda>(T, s, header) v. hdr_store_atomic T s header v None"
  "\<lambda>(T, s, header) old new. hdr_compare_exchange T s header old new None" hdr_fetch
proof
  fix x assume "hdr_valid x"
  then show "field_ok (hdr_cell x)" using hdr_shift_fits(1) by (auto simp: hdr_cell_def hdr_valid_def split: prod.splits)
next
  fix x :: hdr_object and old new :: usize and m0 m :: byte_mem
  assume a: "hdr_valid x" "take_bit (field_width (hdr_cell x)) old = old"
    "take_bit (field_width (hdr_cell x)) new = new"
  obtain T s header where x: "x = (T, s, header)" by (cases x)
  show "\<exists>r. (case x of (T, s, header) \<Rightarrow> \<lambda>old new. hdr_compare_exchange T s header old new None) old new m0 m = Some r \<and>
      (\<exists>y. r = (Inr y, field_put (hdr_cell x) new m) \<and> field_get (hdr_cell x) m = old \<or> r = (Inl y, m))"
    using hdr_cas_field(1) [of T s header old new m0 m] a unfolding x hdr_valid_def by simp
  assume "field_get (hdr_cell x) m = old"
  with hdr_cas_field(2) [of T s header old new m] a
  show "\<exists>y. (case x of (T, s, header) \<Rightarrow> \<lambda>old new. hdr_compare_exchange T s header old new None) old new m m =
      Some (Inr y, field_put (hdr_cell x) new m)"
    unfolding x hdr_valid_def by simp
qed (auto simp: hdr_valid_def hdr_load_atomic_def hdr_store_atomic_def hdr_load_field hdr_store_field hdr_fetch_field)

section \<open>Properties\<close>

text \<open>The width of a value in a spec.\<close>

definition hdr_width :: "value_type \<Rightarrow> header_metadata_spec \<Rightarrow> nat" where
  "hdr_width T s = (if num_of_bits s < 8 then num_of_bits s else BITS T)"

lemma hdr_cell_width: "field_width (hdr_cell (T, s, header)) = hdr_width T s"
  by (simp add: hdr_cell_def hdr_width_def)

text \<open>
  A value stored in header metadata is read back, and the store changes no metadata whose bits are
  disjoint from it.
\<close>

theorem hdr_store_load:
  assumes "assert_spec T s" "take_bit (hdr_width T s) v = v"
  shows "\<exists>m'. hdr_store_atomic T s header v None m = Some m' \<and> hdr_load_atomic T s header None m' = v \<and>
    (\<forall>T' s' header'. assert_spec T' s' \<and> footprint (hdr_cell (T, s, header)) \<inter> footprint (hdr_cell (T', s', header')) = {} \<longrightarrow>
       hdr_load_atomic T' s' header' None m' = hdr_load_atomic T' s' header' None m)"
proof -
  have "hdr_valid (T, s, header)" using assms(1) by (simp add: hdr_valid_def)
  from hdr.load_store [OF this, of v m] assms(2) show ?thesis
    by (fastforce simp: hdr_cell_width hdr_valid_def)
qed

theorem hdr_store_load_witness:
  "\<exists>m'. hdr_store_atomic U8 \<lparr>bit_offset = 2, num_of_bits = 2\<rparr> 0x1000 3 None (\<lambda>_. 0) = Some m' \<and>
     hdr_load_atomic U8 \<lparr>bit_offset = 2, num_of_bits = 2\<rparr> 0x1000 None m' = 3"
  using hdr_store_load [of U8 "\<lparr>bit_offset = 2, num_of_bits = 2\<rparr>" 3 "0x1000" "\<lambda>_. 0"]
  by (auto simp: assert_spec_def hdr_width_def)

text \<open>The first load matters only at the byte of the metadata.\<close>

lemma hdr_cas_local:
  assumes "m0 (hdr_meta_addr s header) = m (hdr_meta_addr s header)"
  shows "hdr_compare_exchange T s header old new None m0 m = hdr_compare_exchange T s header old new None m m"
  using assms by (simp add: hdr_compare_exchange_def u8_load_def)

text \<open>
  C19. Compare-and-exchange is correct under interference: whatever other threads did between the load of
  the surrounding bits and the exchange, a success means that the metadata held the old value at the exchange
  and that only this metadata was changed, to the new value; a failure changes nothing, and if the byte of the
  metadata is at the exchange what it was at the load, it means that the metadata did not hold the old value.
\<close>

theorem hdr_compare_exchange_linearizable:
  assumes "assert_spec T s" "take_bit (hdr_width T s) old = old" "take_bit (hdr_width T s) new = new"
  shows "\<exists>r m'. hdr_compare_exchange T s header old new None m0 m = Some (r, m') \<and>
    (case r of
       Inr _ \<Rightarrow> hdr_load_atomic T s header None m = old \<and> hdr_load_atomic T s header None m' = new \<and>
         (\<forall>T' s' header'. assert_spec T' s' \<and> footprint (hdr_cell (T, s, header)) \<inter> footprint (hdr_cell (T', s', header')) = {} \<longrightarrow>
            hdr_load_atomic T' s' header' None m' = hdr_load_atomic T' s' header' None m)
     | Inl _ \<Rightarrow> m' = m \<and>
         (m0 (hdr_meta_addr s header) = m (hdr_meta_addr s header) \<longrightarrow> hdr_load_atomic T s header None m \<noteq> old))"
proof -
  have v: "hdr_valid (T, s, header)" using assms(1) by (simp add: hdr_valid_def)
  note w = hdr_cell_width [of T s header]
  obtain r m' where r: "hdr_compare_exchange T s header old new None m0 m = Some (r, m')"
    using hdr_cas_field(1) [OF assms(1), of header old new m0 m] assms(2,3) unfolding w by auto
  show ?thesis
  proof (cases r)
    case (Inl y)
    have "hdr_load_atomic T s header None m \<noteq> old" if "m0 (hdr_meta_addr s header) = m (hdr_meta_addr s header)"
      using r Inl hdr_cas_local [of m0 s header m T old new, OF that] hdr_cas_field(2) [OF assms(1), of header old new m] assms(2,3)
        hdr.load_cell [OF v, of m] unfolding w by auto
    with hdr.cas_failure [OF v, of old new m0 m y m'] r Inl assms(2,3) w show ?thesis by auto
  next
    case (Inr y)
    with hdr.cas_success [OF v, of old new m0 m y m'] r assms(2,3) w show ?thesis
      by (fastforce simp: hdr_valid_def)
  qed
qed

text \<open>A run that succeeds although another byte of memory changed between the load and the exchange.\<close>

theorem hdr_compare_exchange_linearizable_witness:
  "\<exists>y m'. hdr_compare_exchange U8 \<lparr>bit_offset = 2, num_of_bits = 2\<rparr> 0x1000 0 2 None (\<lambda>_. 0) ((\<lambda>_. 0)(0x1001 := 1)) = Some (Inr y, m') \<and>
     hdr_load_atomic U8 \<lparr>bit_offset = 2, num_of_bits = 2\<rparr> 0x1000 None m' = 2"
proof -
  let ?s = "\<lparr>bit_offset = 2, num_of_bits = 2\<rparr>" and ?m = "(\<lambda>_. 0 :: u8)(0x1001 := 1)"
  have a: "hdr_meta_addr ?s 0x1000 = 0x1000" by code_simp
  have s: "assert_spec U8 ?s" "take_bit (hdr_width U8 ?s) 0 = 0" "take_bit (hdr_width U8 ?s) 2 = 2"
    by (simp_all add: assert_spec_def hdr_width_def)
  have z: "hdr_load_atomic U8 ?s 0x1000 None ?m = 0" by code_simp
  obtain r m' where r: "hdr_compare_exchange U8 ?s 0x1000 0 2 None (\<lambda>_. 0) ?m = Some (r, m')"
    "case r of Inr _ \<Rightarrow> hdr_load_atomic U8 ?s 0x1000 None m' = 2 | Inl _ \<Rightarrow> False"
    using hdr_compare_exchange_linearizable [OF s, of "0x1000" "\<lambda>_. 0" ?m] z a by (fastforce split: sum.splits)
  then show ?thesis by (cases r) simp_all
qed

text \<open>
  C25. The result of a compare-and-exchange on fewer than eight bits is the whole byte around the metadata,
  not the value of the metadata.
\<close>

theorem hdr_compare_exchange_returns_byte:
  assumes "assert_spec T s" "num_of_bits s < 8" "take_bit (num_of_bits s) old = old" "take_bit (num_of_bits s) new = new"
  shows "\<exists>m'. hdr_compare_exchange T s header old new None m0 m =
    Some (if m (hdr_meta_addr s header) = set_bits_to_u8 s (m0 (hdr_meta_addr s header)) (ucast old)
          then Inr (ucast (m (hdr_meta_addr s header))) else Inl (ucast (m (hdr_meta_addr s header))), m')"
  unfolding hdr_cas_bits [OF assms] hdr_set_bits [OF assms(1-3)] Let_def by auto

theorem hdr_compare_exchange_returns_byte_witness:
  "\<exists>m'. hdr_compare_exchange U8 \<lparr>bit_offset = 2, num_of_bits = 2\<rparr> 0x1000 0 2 None (\<lambda>_. 1) (\<lambda>_. 1) = Some (Inr 1, m')"
  using hdr_compare_exchange_returns_byte [of U8 "\<lparr>bit_offset = 2, num_of_bits = 2\<rparr>" 0 2 "0x1000" "\<lambda>_. 1" "\<lambda>_. 1"]
  by (simp add: assert_spec_def set_bits_to_u8_def get_shift_and_mask_for_bits_def hdr_byte_offset_def)

text \<open>
  The atomic updates return the previous value of the metadata and replace it by the sum, difference,
  conjunction or disjunction with the argument, truncated to the width of the metadata; other metadata keeps
  its value.
\<close>

theorem hdr_fetch_updates:
  assumes "assert_spec T s" "take_bit (hdr_width T s) v = v"
  shows "\<exists>m'. hdr_fetch op (T, s, header) v m = Some (hdr_load_atomic T s header None m, m') \<and>
    hdr_load_atomic T s header None m' = take_bit (hdr_width T s) (apply_op op (hdr_load_atomic T s header None m) v) \<and>
    (\<forall>T' s' header'. assert_spec T' s' \<and> footprint (hdr_cell (T, s, header)) \<inter> footprint (hdr_cell (T', s', header')) = {} \<longrightarrow>
       hdr_load_atomic T' s' header' None m' = hdr_load_atomic T' s' header' None m)"
proof -
  have "hdr_valid (T, s, header)" using assms(1) by (simp add: hdr_valid_def)
  from hdr.fetch_result [OF this, of v op m] assms(2) show ?thesis
    by (fastforce simp: hdr_cell_width hdr_valid_def)
qed

theorem hdr_fetch_updates_witness:
  "\<exists>m'. hdr_fetch FetchAdd (U8, \<lparr>bit_offset = 2, num_of_bits = 2\<rparr>, 0x1000) 3 (\<lambda>_. 0x0c) = Some (3, m') \<and>
     hdr_load_atomic U8 \<lparr>bit_offset = 2, num_of_bits = 2\<rparr> 0x1000 None m' = 2"
proof -
  have "hdr_load_atomic U8 \<lparr>bit_offset = 2, num_of_bits = 2\<rparr> 0x1000 None (\<lambda>_. 0x0c) = 3"
    by (simp add: hdr_load_atomic_def hdr_load_inner_def get_bits_from_u8_def get_shift_and_mask_for_bits_def
        hdr_byte_offset_def u8_load_def from_u8_def)
  with hdr_fetch_updates [of U8 "\<lparr>bit_offset = 2, num_of_bits = 2\<rparr>" 3 FetchAdd "0x1000" "\<lambda>_. 0x0c"] show ?thesis
    by (auto simp: assert_spec_def hdr_width_def)
qed

end
