(* ===== verification/SideMetadata_Ranges.thy ===== *)
theory SideMetadata_Ranges
  imports MetadataValue
begin

text \<open>
  Visiting a range of metadata bits (\<open>util/metadata/side_metadata/ranges.rs\<close>): the range is broken into
  bits of the first byte, whole bytes, and bits of the last byte. The visitor is a state transformer that
  returns whether to stop. A bit offset, a \<open>u8\<close> between 0 and 8, is a natural number.
\<close>

datatype bit_byte_range = Bytes address address | BitsInByte address nat nat

definition or_else :: "('s \<Rightarrow> bool \<times> 's) \<Rightarrow> ('s \<Rightarrow> bool \<times> 's) \<Rightarrow> 's \<Rightarrow> bool \<times> 's" where
  "or_else f g st = (let (stop, st') = f st in if stop then (True, st') else g st')"

definition break_bit_range ::
  "address \<Rightarrow> nat \<Rightarrow> address \<Rightarrow> nat \<Rightarrow> bool \<Rightarrow> (bit_byte_range \<Rightarrow> 's \<Rightarrow> bool \<times> 's) \<Rightarrow> 's \<Rightarrow> bool \<times> 's" where
  "break_bit_range start_addr start_bit end_addr end_bit forwards visitor st =
     (if start_addr = end_addr \<and> start_bit = end_bit then (False, st)
      else if start_bit = 0 \<and> end_bit = 0 then visitor (Bytes start_addr end_addr) st
      else if start_addr = end_addr then visitor (BitsInByte start_addr start_bit end_bit) st
      else if start_addr + 1 = end_addr \<and> end_bit = 0 then visitor (BitsInByte start_addr start_bit 8) st
      else
        (let start_aligned = (start_bit = 0);
             end_aligned = (end_bit = 0);
             visit_start = (\<lambda>st. if \<not> start_aligned then visitor (BitsInByte start_addr start_bit 8) st else (False, st));
             visit_middle = (\<lambda>st. let start = (if start_aligned then start_addr else start_addr + 1); end = end_addr
                in if start < end then visitor (Bytes start end) st else (False, st));
             visit_end = (\<lambda>st. if \<not> end_aligned then visitor (BitsInByte end_addr 0 end_bit) st else (False, st))
         in if forwards then or_else visit_start (or_else visit_middle visit_end) st
            else or_else visit_end (or_else visit_middle visit_start) st))"

section \<open>Specification\<close>

text \<open>The position of a bit in memory, and the interval of positions of a range.\<close>

definition bit_pos :: "address \<Rightarrow> nat \<Rightarrow> nat" where
  "bit_pos a j = 8 * unat a + j"

fun range_lo :: "bit_byte_range \<Rightarrow> nat" where
  "range_lo (Bytes s e) = bit_pos s 0"
| "range_lo (BitsInByte a s e) = bit_pos a s"

fun range_hi :: "bit_byte_range \<Rightarrow> nat" where
  "range_hi (Bytes s e) = bit_pos e 0"
| "range_hi (BitsInByte a s e) = bit_pos a e"

fun range_ok :: "bit_byte_range \<Rightarrow> bool" where
  "range_ok (Bytes s e) \<longleftrightarrow> s < e"
| "range_ok (BitsInByte a s e) \<longleftrightarrow> s < e \<and> e \<le> 8"

text \<open>Consecutive non-empty ranges from one position to another.\<close>

fun covers :: "nat \<Rightarrow> bit_byte_range list \<Rightarrow> nat \<Rightarrow> bool" where
  "covers p [] q \<longleftrightarrow> p = q"
| "covers p (r # rs) q \<longleftrightarrow> range_lo r = p \<and> range_ok r \<and> covers (range_hi r) rs q"

text \<open>Visiting a list of ranges in order until the visitor asks to stop; the result tells whether it did.\<close>

fun visit_until :: "(bit_byte_range \<Rightarrow> 's \<Rightarrow> bool \<times> 's) \<Rightarrow> bit_byte_range list \<Rightarrow> 's \<Rightarrow> bool \<times> 's" where
  "visit_until v [] s = (False, s)"
| "visit_until v (r # rs) s = (let (stop, s') = v r s in if stop then (True, s') else visit_until v rs s')"

definition break_ranges :: "address \<Rightarrow> nat \<Rightarrow> address \<Rightarrow> nat \<Rightarrow> bit_byte_range list" where
  "break_ranges sa sb ea eb =
     (if sa = ea \<and> sb = eb then []
      else if sb = 0 \<and> eb = 0 then [Bytes sa ea]
      else if sa = ea then [BitsInByte sa sb eb]
      else if sa + 1 = ea \<and> eb = 0 then [BitsInByte sa sb 8]
      else (if sb = 0 then [] else [BitsInByte sa sb 8]) @
           (let s = (if sb = 0 then sa else sa + 1) in if s < ea then [Bytes s ea] else []) @
           (if eb = 0 then [] else [BitsInByte ea 0 eb]))"

lemma visit_until_single: "visit_until v [r] s = v r s"
  by (simp split: prod.splits)



lemma visit_until_append: "visit_until v (xs @ ys) = or_else (visit_until v xs) (visit_until v ys)"
  by (rule ext, induction xs) (auto simp: or_else_def split: prod.splits)

lemma visit_until_if:
  "(\<lambda>st. if b then v r st else (False, st)) = visit_until v (if b then [r] else [])"
  by (auto simp: visit_until_single simp del: visit_until.simps(2))

lemma or_else_assoc: "or_else (or_else f g) h = or_else f (or_else g h)"
  by (rule ext) (simp add: or_else_def split: prod.splits)

lemma break_bit_range_visits:
  "break_bit_range sa sb ea eb fwd v s =
     visit_until v (if fwd then break_ranges sa sb ea eb else rev (break_ranges sa sb ea eb)) s"
proof (cases "sa = ea \<or> sb = 0 \<and> eb = 0 \<or> sa + 1 = ea \<and> eb = 0")
  case True
  then consider "(sa = ea \<and> sb = eb) = True"
    | "(sa = ea \<and> sb = eb) = False" "(sb = 0 \<and> eb = 0) = True"
    | "(sa = ea \<and> sb = eb) = False" "(sb = 0 \<and> eb = 0) = False" "(sa = ea) = True"
    | "(sa = ea \<and> sb = eb) = False" "(sb = 0 \<and> eb = 0) = False" "(sa = ea) = False" "(sa + 1 = ea \<and> eb = 0) = True"
    by blast
  then show ?thesis
    unfolding break_bit_range_def break_ranges_def
    by cases (simp_all only: if_True if_False if_cancel rev_singleton_conv rev.simps append_Nil visit_until_single visit_until.simps(1))
next
  case False
  let ?xs = "if sb \<noteq> 0 then [BitsInByte sa sb 8] else []"
  let ?s = "if sb = 0 then sa else sa + 1"
  let ?ys = "if ?s < ea then [Bytes ?s ea] else []"
  let ?zs = "if eb \<noteq> 0 then [BitsInByte ea 0 eb] else []"
  have "break_bit_range sa sb ea eb fwd v s =
    visit_until v (if fwd then ?xs @ ?ys @ ?zs else ?zs @ ?ys @ ?xs) s"
  proof -
    have no: "(sa = ea \<and> sb = eb) = False" "(sb = 0 \<and> eb = 0) = False" "(sa = ea) = False" "(sa + 1 = ea \<and> eb = 0) = False"
      using False by blast+
    show ?thesis
      unfolding break_bit_range_def Let_def visit_until_if no if_False
      by (cases fwd) (simp_all only: if_True if_False visit_until_append simp_thms)
  qed
  moreover have "break_ranges sa sb ea eb = ?xs @ ?ys @ ?zs"
    using False by (auto simp: break_ranges_def Let_def)
  moreover have "rev (?xs @ ?ys @ ?zs) = ?zs @ ?ys @ ?xs" by simp
  ultimately show ?thesis by presburger
qed

lemma break_ranges_cover:
  assumes "sb < 8" "eb < 8" "bit_pos sa sb \<le> bit_pos ea eb"
  shows "covers (bit_pos sa sb) (break_ranges sa sb ea eb) (bit_pos ea eb)"
proof (cases "sa = ea")
  case True
  with assms show ?thesis by (auto simp: break_ranges_def bit_pos_def)
next
  case False
  have "unat sa < unat ea"
  proof -
    have "unat sa \<noteq> unat ea" using False by (metis unsigned_word_eqI)
    with assms show ?thesis unfolding bit_pos_def by linarith
  qed
  then have lt: "sa < ea" by (simp add: word_less_nat_alt)
  have suc: "unat (sa + 1) = unat sa + 1"
    using \<open>unat sa < unat ea\<close> unsigned_less [of ea, where 'a = nat] by (simp add: unat_word_ariths)
  consider "sa + 1 = ea" "unat ea = unat sa + 1" | "sa + 1 < ea" "sa + 1 \<noteq> ea"
    using \<open>unat sa < unat ea\<close> suc
    by (cases "unat ea = Suc (unat sa)") (auto simp: word_less_nat_alt word_unat_eq_iff)
  then show ?thesis
  proof cases
    case 1
    then have "\<not> sa + 1 < ea" by simp
    with 1 lt False assms(1,2) show ?thesis
      by (cases "sb = 0"; cases "eb = 0") (simp_all add: break_ranges_def bit_pos_def Let_def)
  next
    case 2
    with suc lt False assms(1,2) show ?thesis
      by (cases "sb = 0"; cases "eb = 0") (simp_all add: break_ranges_def bit_pos_def Let_def)
  qed
qed

section \<open>Properties\<close>

text \<open>
  C26. Breaking a bit range visits a sequence of non-empty ranges that covers the bits from the start to the end
  exactly once, in increasing order forwards and in decreasing order backwards, until the visitor asks to stop.
  The result is true exactly when the visitor stopped the iteration.
\<close>

theorem break_bit_range_covers:
  assumes "start_bit < 8" "end_bit < 8" "bit_pos start_addr start_bit \<le> bit_pos end_addr end_bit"
  shows "\<exists>rs. covers (bit_pos start_addr start_bit) rs (bit_pos end_addr end_bit) \<and>
    (\<forall>forwards (visitor :: bit_byte_range \<Rightarrow> 's \<Rightarrow> bool \<times> 's) st.
       break_bit_range start_addr start_bit end_addr end_bit forwards visitor st =
       visit_until visitor (if forwards then rs else rev rs) st)"
  by (intro exI [of _ "break_ranges start_addr start_bit end_addr end_bit"] conjI allI
        break_ranges_cover [OF assms] break_bit_range_visits)

theorem break_bit_range_covers_witness:
  "\<exists>rs. covers (bit_pos 0x1000 3) rs (bit_pos 0x1002 5) \<and>
    (\<forall>forwards (visitor :: bit_byte_range \<Rightarrow> bit_byte_range list \<Rightarrow> bool \<times> bit_byte_range list) st.
       break_bit_range 0x1000 3 0x1002 5 forwards visitor st =
       visit_until visitor (if forwards then rs else rev rs) st)"
  by (rule break_bit_range_covers) (simp_all add: bit_pos_def)

end
