(* ===== verification/SideMetadata_Layout.thy ===== *)
theory SideMetadata_Layout
  imports SideMetadata_Ranges
begin

text \<open>
  Where side metadata lives (\<open>util/metadata/side_metadata/helpers.rs\<close>, the layout part of
  \<open>side_metadata/global.rs\<close> and \<open>side_metadata/constants.rs\<close>, on a 64-bit target): the translation
  between data addresses and metadata bits, the sizes, and the placing of one table after another.
  The offset of a spec is an address on this target; the logarithms of a spec are natural numbers.
\<close>

record side_metadata_spec =
  spec_name :: string
  is_global :: bool
  spec_offset :: address
  log_num_of_bits :: nat
  log_bytes_in_region :: nat

definition uses_contiguous_side_metadata :: "side_metadata_spec \<Rightarrow> bool" where
  "uses_contiguous_side_metadata s \<longleftrightarrow> is_global s \<or> True"

definition is_absolute_offset :: "side_metadata_spec \<Rightarrow> bool" where
  "is_absolute_offset s \<longleftrightarrow> uses_contiguous_side_metadata s"

definition is_rel_offset :: "side_metadata_spec \<Rightarrow> bool" where
  "is_rel_offset s \<longleftrightarrow> \<not> is_absolute_offset s"

definition get_absolute_offset :: "side_metadata_spec \<Rightarrow> address" where
  "get_absolute_offset s = spec_offset s"

section \<open>Address translation\<close>

definition address_to_contiguous_meta_address :: "side_metadata_spec \<Rightarrow> address \<Rightarrow> address" where
  "address_to_contiguous_meta_address s data_addr =
     (let shift = int LOG_BITS_IN_BYTE - int (log_num_of_bits s)
      in if 0 \<le> shift
         then get_absolute_offset s + drop_bit (nat shift) (drop_bit (log_bytes_in_region s) data_addr)
         else get_absolute_offset s + push_bit (nat (- shift)) (drop_bit (log_bytes_in_region s) data_addr))"

definition address_to_meta_address :: "side_metadata_spec \<Rightarrow> address \<Rightarrow> address" where
  "address_to_meta_address s data_addr = address_to_contiguous_meta_address s data_addr"

text \<open>The subtraction of the logarithms wraps, and a shift amount counts modulo the width of the word.\<close>

definition contiguous_meta_address_to_address :: "side_metadata_spec \<Rightarrow> address \<Rightarrow> nat \<Rightarrow> address" where
  "contiguous_meta_address_to_address s metadata_addr b =
     (let shift = int LOG_BITS_IN_BYTE - int (log_num_of_bits s);
          relative_meta_addr = metadata_addr - get_absolute_offset s;
          data_addr_intermediate =
            (if 0 \<le> shift then push_bit (nat shift) relative_meta_addr else drop_bit (nat (- shift)) relative_meta_addr);
          data_addr_bit_shift =
            (if 0 \<le> shift then (int (log_bytes_in_region s) - int (log_num_of_bits s)) mod 64 else int (log_bytes_in_region s))
      in push_bit (log_bytes_in_region s) data_addr_intermediate + push_bit (nat data_addr_bit_shift) (of_nat b))"

definition align_metadata_address :: "side_metadata_spec \<Rightarrow> address \<Rightarrow> nat \<Rightarrow> address \<times> nat" where
  "align_metadata_address s metadata_addr b =
     (if log_num_of_bits s \<ge> LOG_BITS_IN_BYTE
      then (align_down metadata_addr (push_bit (log_num_of_bits s - LOG_BITS_IN_BYTE) 1), 0)
      else (metadata_addr, unat (raw_align_down (of_nat b) (push_bit (log_num_of_bits s) 1))))"

definition log_data_meta_ratio :: "side_metadata_spec \<Rightarrow> nat" where
  "log_data_meta_ratio s =
     (let log_data_bits_in_region = LOG_BITS_IN_BYTE + log_bytes_in_region s;
          log_meta_bits_in_region = log_num_of_bits s
      in log_data_bits_in_region - log_meta_bits_in_region)"

definition data_to_meta_size_round_up :: "side_metadata_spec \<Rightarrow> usize \<Rightarrow> usize" where
  "data_to_meta_size_round_up s data_size = rshift_align_up data_size (log_data_meta_ratio s)"

definition meta_to_data_size :: "side_metadata_spec \<Rightarrow> usize \<Rightarrow> usize" where
  "meta_to_data_size s meta_size = push_bit (log_data_meta_ratio s) meta_size"

definition metadata_address_range_size :: "side_metadata_spec \<Rightarrow> usize" where
  "metadata_address_range_size s = push_bit (LOG_ARCH_ADDRESS_SPACE - log_data_meta_ratio s) 1"

definition meta_byte_lshift :: "side_metadata_spec \<Rightarrow> address \<Rightarrow> nat" where
  "meta_byte_lshift s data_addr =
     (let bits_num_log = log_num_of_bits s in
      if bits_num_log \<ge> 3 then 0
      else
        (let rem_shift = 64 - (LOG_BITS_IN_BYTE - bits_num_log)
         in unat (ucast (push_bit bits_num_log
              (drop_bit rem_shift (push_bit rem_shift (drop_bit (log_bytes_in_region s) data_addr)))) :: u8)))"

definition meta_byte_mask :: "side_metadata_spec \<Rightarrow> u8" where
  "meta_byte_mask s = (let bits_num_log = log_num_of_bits s in ucast ((push_bit (2 ^ bits_num_log) 1 :: usize) - 1))"

section \<open>Placing the tables\<close>

definition upper_bound_offset :: "side_metadata_spec \<Rightarrow> address" where
  "upper_bound_offset s = spec_offset s + metadata_address_range_size s"

definition upper_bound_address_for_contiguous :: "side_metadata_spec \<Rightarrow> address" where
  "upper_bound_address_for_contiguous s = upper_bound_offset s"

definition layout_after :: "side_metadata_spec \<Rightarrow> address" where
  "layout_after s =
     (let upper = upper_bound_offset s
      in if is_absolute_offset s then align_up upper BYTES_IN_WORD else raw_align_up upper BYTES_IN_WORD)"

definition GLOBAL_SIDE_METADATA_BASE_ADDRESS :: address where
  "GLOBAL_SIDE_METADATA_BASE_ADDRESS = 0x00000c0000000000"

definition LOG_GLOBAL_SIDE_METADATA_WORST_CASE_RATIO :: nat where
  "LOG_GLOBAL_SIDE_METADATA_WORST_CASE_RATIO = 1"

definition LOG_MAX_GLOBAL_SIDE_METADATA_SIZE :: nat where
  "LOG_MAX_GLOBAL_SIDE_METADATA_SIZE = LOG_ARCH_ADDRESS_SPACE - LOG_GLOBAL_SIDE_METADATA_WORST_CASE_RATIO"

definition LOCAL_SIDE_METADATA_BASE_ADDRESS :: address where
  "LOCAL_SIDE_METADATA_BASE_ADDRESS = GLOBAL_SIDE_METADATA_BASE_ADDRESS + push_bit LOG_MAX_GLOBAL_SIDE_METADATA_SIZE 1"

section \<open>Bits of a region\<close>

text \<open>
  The bits of a region, counted from the start of the table: region \<open>r\<close> has the bits from
  \<open>r * 2 ^ log_num_of_bits\<close> on. Every address computation above is about this number.
\<close>

definition region_index :: "side_metadata_spec \<Rightarrow> address \<Rightarrow> nat" where
  "region_index s d = unat d div 2 ^ log_bytes_in_region s"

definition meta_pos :: "side_metadata_spec \<Rightarrow> address \<Rightarrow> nat" where
  "meta_pos s d = region_index s d * 2 ^ log_num_of_bits s"

definition bit_at :: "address \<Rightarrow> nat \<Rightarrow> address \<times> nat" where
  "bit_at base p = (base + of_nat (p div 8), p mod 8)"

lemma of_nat_unat_drop: "(of_nat (unat w div 2 ^ k) :: usize) = drop_bit k w"
  by (simp flip: unat_drop)

lemma push_bit_of_nat: "push_bit k (w :: usize) = of_nat (unat w * 2 ^ k)"
  by (simp add: push_bit_eq_mult)

lemma meta_pos_div:
  "log_num_of_bits s \<le> 3 \<Longrightarrow> meta_pos s d div 8 = region_index s d div 2 ^ (3 - log_num_of_bits s)"
  "3 \<le> log_num_of_bits s \<Longrightarrow> meta_pos s d div 8 = region_index s d * 2 ^ (log_num_of_bits s - 3)"
proof -
  assume "log_num_of_bits s \<le> 3"
  then have "(8 :: nat) = 2 ^ (3 - log_num_of_bits s) * 2 ^ log_num_of_bits s"
    by (simp add: power_add [symmetric])
  then show "meta_pos s d div 8 = region_index s d div 2 ^ (3 - log_num_of_bits s)"
    unfolding meta_pos_def by (metis div_mult_mult2 power_not_zero zero_neq_numeral)
next
  assume "3 \<le> log_num_of_bits s"
  then have "(2 :: nat) ^ log_num_of_bits s = 2 ^ (log_num_of_bits s - 3) * 8"
    using power_add [of "2 :: nat" "log_num_of_bits s - 3" 3] by simp
  then show "meta_pos s d div 8 = region_index s d * 2 ^ (log_num_of_bits s - 3)"
    unfolding meta_pos_def by simp
qed

lemma meta_address_pos: "address_to_meta_address s d = spec_offset s + of_nat (meta_pos s d div 8)"
proof (cases "log_num_of_bits s \<le> 3")
  case True
  then have "drop_bit (3 - log_num_of_bits s) (drop_bit (log_bytes_in_region s) d) = of_nat (meta_pos s d div 8)"
    using of_nat_unat_drop [of "drop_bit (log_bytes_in_region s) d" "3 - log_num_of_bits s"]
    by (simp only: unat_drop region_index_def [symmetric] meta_pos_div(1))
  with True show ?thesis
    by (simp add: address_to_meta_address_def address_to_contiguous_meta_address_def get_absolute_offset_def Let_def
        nat_diff_distrib del: drop_bit_drop_bit)
next
  case False
  then have "meta_pos s d div 8 = region_index s d * 2 ^ (log_num_of_bits s - 3)" by (simp add: meta_pos_div(2))
  then have "push_bit (log_num_of_bits s - 3) (drop_bit (log_bytes_in_region s) d) = of_nat (meta_pos s d div 8)"
    by (simp only: region_index_def push_bit_of_nat unat_drop)
  moreover have "nat (- (3 - int (log_num_of_bits s))) = log_num_of_bits s - 3" by simp
  ultimately show ?thesis using False
    by (simp add: address_to_meta_address_def address_to_contiguous_meta_address_def get_absolute_offset_def Let_def)
qed

lemma meta_shift_pos: "meta_byte_lshift s d = meta_pos s d mod 8"
proof (cases "3 \<le> log_num_of_bits s")
  case True
  then have "(8 :: nat) dvd 2 ^ log_num_of_bits s" using le_imp_power_dvd [of 3 "log_num_of_bits s" "2 :: nat"] by simp
  then have "meta_pos s d mod 8 = 0" by (simp add: meta_pos_def)
  with True show ?thesis by (simp add: meta_byte_lshift_def)
next
  case False
  let ?k = "log_num_of_bits s" and ?x = "drop_bit (log_bytes_in_region s) d"
  have k: "?k \<in> {0, 1, 2}" using False by auto
  have "drop_bit (64 - (3 - ?k)) (push_bit (64 - (3 - ?k)) ?x) = take_bit (3 - ?k) ?x"
    by (rule bit_word_eqI) (use k in \<open>auto simp: bit_simps\<close>)
  moreover have "unat (ucast (push_bit ?k (take_bit (3 - ?k) ?x)) :: u8) = region_index s d mod 2 ^ (3 - ?k) * 2 ^ ?k"
  proof -
    let ?m = "region_index s d mod 2 ^ (3 - ?k)"
    have "unat (take_bit (3 - ?k) ?x) = take_bit (3 - ?k) (unat ?x)" using k by (simp add: unsigned_take_bit_eq)
    then have "unat (take_bit (3 - ?k) ?x) = ?m" by (simp only: take_bit_eq_mod unat_drop region_index_def)
    then have "push_bit ?k (take_bit (3 - ?k) ?x) = of_nat (?m * 2 ^ ?k)" by (simp add: push_bit_of_nat)
    moreover have "?m * 2 ^ ?k < 8"
    proof -
      have "?m < 2 ^ (3 - ?k)" by simp
      then have "?m * 2 ^ ?k < 2 ^ (3 - ?k) * 2 ^ ?k" by simp
      also have "\<dots> = 8" using False by (simp add: power_add [symmetric])
      finally show ?thesis .
    qed
    moreover have "unat (ucast (of_nat n :: usize) :: u8) = n" if "n < 8" for n
      using that by (simp add: unsigned_ucast_eq unsigned_of_nat take_bit_eq_mod)
    ultimately show ?thesis by presburger
  qed
  moreover have "region_index s d mod 2 ^ (3 - ?k) * 2 ^ ?k = meta_pos s d mod 8"
  proof -
    have "(8 :: nat) = 2 ^ (3 - ?k) * 2 ^ ?k" using False by (simp add: power_add [symmetric])
    then show ?thesis unfolding meta_pos_def by (metis mult_mod_left)
  qed
  ultimately show ?thesis using False by (simp add: meta_byte_lshift_def Let_def)
qed

text \<open>What the code requires of a spec: at most 64 bits per region, and no more metadata than data.\<close>

definition spec_ok :: "side_metadata_spec \<Rightarrow> bool" where
  "spec_ok s \<longleftrightarrow> log_num_of_bits s \<le> 6 \<and> log_num_of_bits s \<le> log_bytes_in_region s + 3 \<and> log_bytes_in_region s \<le> 47 \<and>
     log_data_meta_ratio s \<le> LOG_ARCH_ADDRESS_SPACE"

lemma spec_ok_ratio:
  assumes "spec_ok s"
  shows "log_data_meta_ratio s + log_num_of_bits s = log_bytes_in_region s + 3"
    "8 * 2 ^ (LOG_ARCH_ADDRESS_SPACE - log_data_meta_ratio s) = 2 ^ (47 - log_bytes_in_region s) * (2 :: nat) ^ log_num_of_bits s"
proof -
  show r: "log_data_meta_ratio s + log_num_of_bits s = log_bytes_in_region s + 3"
    using assms by (simp add: spec_ok_def log_data_meta_ratio_def)
  have "3 + (47 - log_data_meta_ratio s) = (47 - log_bytes_in_region s) + log_num_of_bits s"
    using r assms unfolding spec_ok_def LOG_ARCH_ADDRESS_SPACE_def by linarith
  then have "(2 :: nat) ^ (3 + (47 - log_data_meta_ratio s)) = 2 ^ ((47 - log_bytes_in_region s) + log_num_of_bits s)" by simp
  then show "8 * 2 ^ (LOG_ARCH_ADDRESS_SPACE - log_data_meta_ratio s) = 2 ^ (47 - log_bytes_in_region s) * (2 :: nat) ^ log_num_of_bits s"
    by (simp add: power_add LOG_ARCH_ADDRESS_SPACE_def)
qed

lemma meta_pos_less:
  assumes "spec_ok s" "unat d < 2 ^ 47"
  shows "meta_pos s d + 2 ^ log_num_of_bits s \<le> 8 * 2 ^ (LOG_ARCH_ADDRESS_SPACE - log_data_meta_ratio s)"
proof -
  have "(2 :: nat) ^ 47 = 2 ^ (47 - log_bytes_in_region s) * 2 ^ log_bytes_in_region s"
    using assms(1) by (simp add: spec_ok_def power_add [symmetric])
  then have "region_index s d < 2 ^ (47 - log_bytes_in_region s)"
    using assms(2) unfolding region_index_def by (metis less_mult_imp_div_less)
  then have "(region_index s d + 1) * 2 ^ log_num_of_bits s \<le> 2 ^ (47 - log_bytes_in_region s) * 2 ^ log_num_of_bits s"
    by (intro mult_le_mono1) simp
  then show ?thesis unfolding meta_pos_def spec_ok_ratio(2) [OF assms(1)] by (simp add: algebra_simps)
qed

lemma meta_pos_bound:
  assumes "log_num_of_bits s \<le> log_bytes_in_region s + 3"
  shows "meta_pos s d + 2 ^ log_num_of_bits s \<le> 8 * 2 ^ 64 \<or> 64 < log_bytes_in_region s"
proof (cases "64 < log_bytes_in_region s")
  case False
  have "unat d < 2 ^ 64" by (rule unat_less_64)
  moreover have "(2 :: nat) ^ 64 = 2 ^ (64 - log_bytes_in_region s) * 2 ^ log_bytes_in_region s"
    using False power_add [of "2 :: nat" "64 - log_bytes_in_region s" "log_bytes_in_region s"] by simp
  ultimately have "region_index s d < 2 ^ (64 - log_bytes_in_region s)"
    unfolding region_index_def by (metis less_mult_imp_div_less)
  then have "(region_index s d + 1) * 2 ^ log_num_of_bits s \<le> 2 ^ (64 - log_bytes_in_region s) * 2 ^ log_num_of_bits s"
    by (intro mult_le_mono1) simp
  also have "\<dots> \<le> 2 ^ (64 - log_bytes_in_region s) * 2 ^ (log_bytes_in_region s + 3)"
    using assms by (intro mult_le_mono2 power_increasing) auto
  also have "\<dots> = 8 * 2 ^ 64"
    using False power_add [of "2 :: nat" "64 - log_bytes_in_region s" "log_bytes_in_region s + 3"] by simp
  finally show ?thesis unfolding meta_pos_def by (simp add: algebra_simps)
qed simp

lemma bit_at_inj: "inj_on (bit_at base) {..<8 * 2 ^ 64}"
proof (rule inj_onI)
  fix p q assume pq: "p \<in> {..<8 * 2 ^ 64}" "q \<in> {..<8 * 2 ^ 64}" and e: "bit_at base p = bit_at base q"
  have "(of_nat (p div 8) :: usize) = of_nat (q div 8)" and m: "p mod 8 = q mod 8" using e by (simp_all add: bit_at_def)
  moreover have "p div 8 < 2 ^ 64" "q div 8 < 2 ^ 64" using pq by auto
  ultimately have "p div 8 = q div 8"
    using unat_of_nat_64 [of "p div 8"] unat_of_nat_64 [of "q div 8"] by presburger
  with m show "p = q" by (metis mod_div_mult_eq)
qed

lemma bit_at_pos:
  assumes "unat base + p div 8 < 2 ^ 64"
  shows "bit_pos (fst (bit_at base p)) (snd (bit_at base p)) = 8 * unat base + p"
proof -
  have "unat (of_nat (p div 8) :: usize) = p div 8" using assms by (intro unat_of_nat_64) simp
  then have "unat (base + of_nat (p div 8)) = unat base + p div 8" using assms unat_add_64 [of base "of_nat (p div 8)"] by simp
  then show ?thesis by (simp add: bit_at_def bit_pos_def)
qed

lemma data_address_of_pos:
  assumes "spec_ok s" "log_num_of_bits s \<le> log_bytes_in_region s" "log_num_of_bits s < 3"
  shows "contiguous_meta_address_to_address s (spec_offset s + of_nat (p div 8)) (p mod 8) =
    of_nat (p * 2 ^ (log_bytes_in_region s - log_num_of_bits s))"
proof -
  let ?k = "log_num_of_bits s" and ?r = "log_bytes_in_region s"
  have sh: "nat (int 3 - int ?k) = 3 - ?k" "0 \<le> int 3 - int ?k" using assms(3) by simp_all
  have dm: "nat ((int ?r - int ?k) mod 64) = ?r - ?k"
    using assms(1,2) by (simp add: spec_ok_def nat_mod_distrib)
  have "contiguous_meta_address_to_address s (spec_offset s + of_nat (p div 8)) (p mod 8) =
      of_nat (p div 8) * 2 ^ (3 - ?k) * 2 ^ ?r + of_nat (p mod 8) * 2 ^ (?r - ?k)"
    unfolding contiguous_meta_address_to_address_def Let_def get_absolute_offset_def
    using sh dm by (simp add: push_bit_eq_mult)
  also have "\<dots> = of_nat (p div 8 * (2 ^ (3 - ?k) * 2 ^ ?r) + p mod 8 * 2 ^ (?r - ?k))" by (simp add: mult.assoc)
  also have "2 ^ (3 - ?k) * 2 ^ ?r = (8 :: nat) * 2 ^ (?r - ?k)"
    using assms(2,3) power_add [of "2 :: nat" 3 "?r - ?k"] by (simp add: power_add [symmetric])
  also have "p div 8 * (8 * 2 ^ (?r - ?k)) + p mod 8 * 2 ^ (?r - ?k) = p * 2 ^ (?r - ?k)"
    by (metis add_mult_distrib mod_div_mult_eq mult.assoc add.commute)
  finally show ?thesis .
qed

lemma data_address_of_wide_pos:
  assumes "spec_ok s" "3 \<le> log_num_of_bits s" "r < 2 ^ (64 - log_bytes_in_region s)"
  shows "contiguous_meta_address_to_address s (spec_offset s + of_nat (r * 2 ^ (log_num_of_bits s - 3))) 0 =
    of_nat (r * 2 ^ log_bytes_in_region s)"
proof -
  let ?k = "log_num_of_bits s" and ?r = "log_bytes_in_region s"
  have "r * 2 ^ (?k - 3) < 2 ^ (64 - ?r) * 2 ^ (?k - 3)" using assms(3) by simp
  also have "\<dots> \<le> 2 ^ (64 - ?r) * 2 ^ ?r" using assms(1) by (intro mult_le_mono2 power_increasing) (auto simp: spec_ok_def)
  also have "\<dots> = 2 ^ 64" using assms(1) power_add [of "2 :: nat" "64 - ?r" ?r] by (simp add: spec_ok_def)
  finally have u: "unat (of_nat (r * 2 ^ (?k - 3)) :: usize) = r * 2 ^ (?k - 3)" by (rule unat_of_nat_64)
  have "drop_bit (?k - 3) (of_nat (r * 2 ^ (?k - 3)) :: usize) = of_nat (unat (of_nat (r * 2 ^ (?k - 3)) :: usize) div 2 ^ (?k - 3))"
    by (rule of_nat_unat_drop [symmetric])
  also have "\<dots> = of_nat r" unfolding u by simp
  finally have d: "drop_bit (?k - 3) (of_nat (r * 2 ^ (?k - 3)) :: usize) = of_nat r" .
  show ?thesis
  proof (cases "?k = 3")
    case True
    then show ?thesis
      by (simp add: contiguous_meta_address_to_address_def Let_def get_absolute_offset_def push_bit_eq_mult)
  next
    case False
    with assms(2) have "nat (- (3 - int ?k)) = ?k - 3" "\<not> 0 \<le> 3 - int ?k" by simp_all
    then show ?thesis using d
      by (simp add: contiguous_meta_address_to_address_def Let_def get_absolute_offset_def push_bit_eq_mult del: of_nat_mult) simp
  qed
qed

lemma align_down_of_nat: "raw_align_down d (push_bit k 1) = of_nat (unat d div 2 ^ k * 2 ^ k)"
proof -
  have "int (unat d) div 2 ^ k * 2 ^ k = uint d - uint d mod 2 ^ k" by (simp add: minus_mod_eq_div_mult)
  then have "uint (raw_align_down d (2 ^ k)) = int (unat d div 2 ^ k * 2 ^ k)" by (simp add: uint_align_down zdiv_int)
  then have "raw_align_down d (2 ^ k) = word_of_int (int (unat d div 2 ^ k * 2 ^ k))" by (metis word_of_int_uint)
  then show ?thesis by (simp add: push_bit_eq_mult)
qed

lemma region_start: "raw_align_down d (push_bit (log_bytes_in_region s) 1) = of_nat (region_index s d * 2 ^ log_bytes_in_region s)"
  by (simp only: align_down_of_nat region_index_def)

section \<open>Properties of the translation\<close>

text \<open>
  C27. Translating a data address to its metadata bits and back gives the start of its region, for every
  spec whose values are at least a byte wide or whose regions have at least as many bytes as a value has bits.
\<close>

theorem meta_address_roundtrip:
  assumes "spec_ok s" "3 \<le> log_num_of_bits s \<or> log_num_of_bits s \<le> log_bytes_in_region s"
  shows "contiguous_meta_address_to_address s (address_to_contiguous_meta_address s d) (meta_byte_lshift s d) =
    align_down d (push_bit (log_bytes_in_region s) 1)"
proof -
  let ?k = "log_num_of_bits s" and ?r = "log_bytes_in_region s"
  have m: "address_to_contiguous_meta_address s d = spec_offset s + of_nat (meta_pos s d div 8)"
    using meta_address_pos [of s d] by (simp add: address_to_meta_address_def)
  show ?thesis
  proof (cases "3 \<le> ?k")
    case True
    have "unat d < 2 ^ (64 - ?r) * 2 ^ ?r"
      using unat_less_64 [of d] assms(1) power_add [of "2 :: nat" "64 - ?r" ?r] by (simp add: spec_ok_def)
    then have "region_index s d < 2 ^ (64 - ?r)" unfolding region_index_def by (rule less_mult_imp_div_less)
    moreover have "meta_byte_lshift s d = 0" using True by (simp add: meta_byte_lshift_def)
    ultimately show ?thesis
      using data_address_of_wide_pos [OF assms(1) True, of "region_index s d"] meta_pos_div(2) [OF True, of d] region_start
      unfolding m align_down_def by simp
  next
    case False
    then have k: "?k \<le> ?r" "?k < 3" using assms(2) by auto
    have "meta_pos s d * 2 ^ (?r - ?k) = region_index s d * 2 ^ ?r"
      using k(1) by (simp add: meta_pos_def power_add [symmetric])
    then show ?thesis
      using data_address_of_pos [OF assms(1) k, of "meta_pos s d"] region_start
      unfolding m meta_shift_pos align_down_def by simp
  qed
qed

theorem meta_address_roundtrip_witness:
  "let s = \<lparr>spec_name = ''VO_BIT'', is_global = True, spec_offset = 0xc0000000000, log_num_of_bits = 0, log_bytes_in_region = 3\<rparr>
   in contiguous_meta_address_to_address s (address_to_contiguous_meta_address s 0x20000001234) (meta_byte_lshift s 0x20000001234) =
     0x20000001230"
  using meta_address_roundtrip [of "\<lparr>spec_name = ''VO_BIT'', is_global = True, spec_offset = 0xc0000000000,
      log_num_of_bits = 0, log_bytes_in_region = 3\<rparr>" "0x20000001234"]
  by (simp add: spec_ok_def log_data_meta_ratio_def LOG_ARCH_ADDRESS_SPACE_def align_down_def raw_align_down_def)

text \<open>
  C28. When a value has more bits than its region has bytes and is narrower than a byte, the translation
  back is wrong for every region whose bits are not the first ones of their byte: the difference of the two
  logarithms wraps, the bit offset is shifted out, and the result is the start of the first region with bits
  in the same byte of metadata.
\<close>

theorem meta_address_roundtrip_dense:
  assumes "log_num_of_bits s < 3" "log_bytes_in_region s < log_num_of_bits s"
  shows "contiguous_meta_address_to_address s (address_to_contiguous_meta_address s d) (meta_byte_lshift s d) =
      align_down d (push_bit (log_bytes_in_region s + 3 - log_num_of_bits s) 1) \<and>
    (contiguous_meta_address_to_address s (address_to_contiguous_meta_address s d) (meta_byte_lshift s d) =
      align_down d (push_bit (log_bytes_in_region s) 1) \<longleftrightarrow> meta_byte_lshift s d = 0)"
proof -
  let ?k = "log_num_of_bits s" and ?r = "log_bytes_in_region s"
  let ?b = "contiguous_meta_address_to_address s (address_to_contiguous_meta_address s d) (meta_byte_lshift s d)"
  let ?K = "?r + 3 - ?k" and ?i = "unat d div 2 ^ ?r"
  have m: "address_to_contiguous_meta_address s d = spec_offset s + of_nat (meta_pos s d div 8)"
    using meta_address_pos [of s d] by (simp add: address_to_meta_address_def)
  have e: "(8 :: nat) = 2 ^ ?k * 2 ^ (3 - ?k)" "2 ^ ?K = (2 :: nat) ^ ?r * 2 ^ (3 - ?k)"
    using assms(1) by (simp_all flip: power_add)
  have pos1: "meta_pos s d div 8 = ?i div 2 ^ (3 - ?k)" using meta_pos_div(1) [of s d] assms(1) by (simp add: region_index_def)
  have "meta_pos s d mod 8 = (2 ^ ?k * ?i) mod (2 ^ ?k * 2 ^ (3 - ?k))"
    by (simp only: meta_pos_def region_index_def e(1) [symmetric] mult.commute)
  then have pos2: "meta_pos s d mod 8 = 2 ^ ?k * (?i mod 2 ^ (3 - ?k))" by (simp only: mult_mod_right)
  have "(int ?r - int ?k) mod 64 = (int ?r - int ?k + 64) mod 64" by simp
  also have "\<dots> = int ?r - int ?k + 64" by (rule mod_pos_pos_trivial) (use assms in simp_all)
  finally have sh: "nat (int 3 - int ?k) = 3 - ?k" "0 \<le> int 3 - int ?k" "nat ((int ?r - int ?k) mod 64) = 64 + ?r - ?k"
    using assms by simp_all
  have lost: "(of_nat (2 ^ ?k * y) :: usize) * 2 ^ (64 + ?r - ?k) = 0" for y
  proof -
    have "(of_nat (2 ^ ?k * y) :: usize) * 2 ^ (64 + ?r - ?k) = of_nat y * 2 ^ (?k + (64 + ?r - ?k))"
      by (simp add: power_add)
    also have "?k + (64 + ?r - ?k) = 64 + ?r" using assms by simp
    also have "(2 :: usize) ^ (64 + ?r) = 0" by simp
    finally show ?thesis by simp
  qed
  have "?b = of_nat (?i div 2 ^ (3 - ?k)) * 2 ^ (3 - ?k) * 2 ^ ?r"
    unfolding m meta_shift_pos contiguous_meta_address_to_address_def Let_def get_absolute_offset_def pos1 pos2
    using sh lost [of "?i mod 2 ^ (3 - ?k)"] by (simp add: push_bit_eq_mult del: of_nat_mult)
  also have "\<dots> = of_nat (unat d div 2 ^ ?K * 2 ^ ?K)" by (simp add: e(2) div_mult2_eq mult.assoc mult.commute)
  finally have b: "?b = of_nat (unat d div 2 ^ ?K * 2 ^ ?K)" .
  have "?b = align_down d (push_bit ?r 1) \<longleftrightarrow> unat d div 2 ^ ?K * 2 ^ ?K = ?i * 2 ^ ?r"
  proof -
    have "x * (unat d div x) < 2 ^ 64" for x by (rule le_less_trans [OF times_div_less_eq_dividend unat_less_64])
    then have "unat (of_nat (unat d div x * x) :: usize) = unat d div x * x" for x by (intro unat_of_nat_64) (simp add: mult.commute)
    then show ?thesis unfolding b align_down_def align_down_of_nat by metis
  qed
  also have "\<dots> \<longleftrightarrow> ?i div 2 ^ (3 - ?k) * 2 ^ (3 - ?k) = ?i" by (simp add: e(2) div_mult2_eq)
  also have "\<dots> \<longleftrightarrow> meta_byte_lshift s d = 0" 
    unfolding meta_shift_pos pos2 by (metis dvd_div_mult_self dvd_triv_right mod_0_imp_dvd mod_eq_0_iff_dvd mult_eq_0_iff power_not_zero zero_neq_numeral)
  finally show ?thesis using b align_down_of_nat [of d ?K] unfolding align_down_def by metis
qed

theorem meta_address_roundtrip_dense_witness:
  "let s = \<lparr>spec_name = ''DENSE'', is_global = True, spec_offset = 0xc0000000000, log_num_of_bits = 1, log_bytes_in_region = 0\<rparr>
   in spec_ok s \<and>
      contiguous_meta_address_to_address s (address_to_contiguous_meta_address s 7) (meta_byte_lshift s 7) = 4"
  using meta_address_roundtrip_dense [of "\<lparr>spec_name = ''DENSE'', is_global = True, spec_offset = 0xc0000000000,
      log_num_of_bits = 1, log_bytes_in_region = 0\<rparr>" 7]
  by (simp add: spec_ok_def log_data_meta_ratio_def LOG_ARCH_ADDRESS_SPACE_def align_down_def raw_align_down_def)

section \<open>The tables of the collector\<close>

text \<open>
  The specs that \<open>spec_defs.rs\<close> lays out one after another, for the default features. An entry gives the
  name, the logarithm of the number of bits and the logarithm of the region size.
\<close>

definition LOG_REF_COUNT_BITS :: nat where "LOG_REF_COUNT_BITS = 3"
definition LOG_STRONG_REF_COUNT_BITS :: nat where "LOG_STRONG_REF_COUNT_BITS = 2"

definition LOG_BYTES_PER_RC_LOCK_BIT :: nat where "LOG_BYTES_PER_RC_LOCK_BIT = 9"
definition LOG_BYTES_IN_MALLOC_PAGE :: nat where "LOG_BYTES_IN_MALLOC_PAGE = LOG_BYTES_IN_PAGE"
definition immix_block_LOG_BYTES :: nat where "immix_block_LOG_BYTES = 15"
definition immix_line_LOG_BYTES :: nat where "immix_line_LOG_BYTES = 8"
definition ms_block_LOG_BYTES :: nat where "ms_block_LOG_BYTES = 16"
definition chunk_LOG_BYTES :: nat where "chunk_LOG_BYTES = LOG_BYTES_IN_CHUNK"

definition spec_at :: "bool \<Rightarrow> address \<Rightarrow> string \<times> nat \<times> nat \<Rightarrow> side_metadata_spec" where
  "spec_at global off = (\<lambda>(name, bits, region).
     \<lparr>spec_name = name, is_global = global, spec_offset = off, log_num_of_bits = bits, log_bytes_in_region = region\<rparr>)"

fun define_specs_after :: "bool \<Rightarrow> side_metadata_spec \<Rightarrow> (string \<times> nat \<times> nat) list \<Rightarrow> side_metadata_spec list" where
  "define_specs_after global prev [] = [prev]"
| "define_specs_after global prev (e # es) = prev # define_specs_after global (spec_at global (layout_after prev) e) es"

fun define_side_metadata_specs :: "bool \<Rightarrow> (string \<times> nat \<times> nat) list \<Rightarrow> side_metadata_spec list" where
  "define_side_metadata_specs global [] = []"
| "define_side_metadata_specs global (e # es) =
     define_specs_after global
       (spec_at global (if global then GLOBAL_SIDE_METADATA_BASE_ADDRESS else LOCAL_SIDE_METADATA_BASE_ADDRESS) e) es"

definition GLOBAL_SPECS :: "side_metadata_spec list" where
  "GLOBAL_SPECS = define_side_metadata_specs True
    [(''VO_BIT'', 0, LOG_MIN_OBJECT_SIZE),
     (''MS_ACTIVE_CHUNK'', 3, LOG_BYTES_IN_CHUNK),
     (''SFT_DENSE_CHUNK_MAP_INDEX'', 3, LOG_BYTES_IN_CHUNK),
     (''RC_TABLE'', LOG_REF_COUNT_BITS, LOG_MIN_OBJECT_SIZE),
     (''RC_LOCK_BITS'', 0, LOG_BYTES_PER_RC_LOCK_BIT),
     (''IX_BLOCK_DEFRAG'', 3, immix_block_LOG_BYTES),
     (''SANITY_MARK_BITS'', 3, LOG_MIN_OBJECT_SIZE),
     (''OBJ_COLOR_TABLE'', 1, LOG_MIN_OBJECT_SIZE),
     (''IN_STACK_TABLE'', 0, LOG_MIN_OBJECT_SIZE),
     (''STRONG_RC_TABLE'', LOG_STRONG_REF_COUNT_BITS, LOG_MIN_OBJECT_SIZE)]"

definition LOCAL_SPECS :: "side_metadata_spec list" where
  "LOCAL_SPECS = define_side_metadata_specs False
    [(''MALLOC_MS_ACTIVE_PAGE'', 3, LOG_BYTES_IN_MALLOC_PAGE),
     (''MS_OFFSET_MALLOC'', 0, LOG_MIN_OBJECT_SIZE),
     (''IX_LINE_MARK'', 3, immix_line_LOG_BYTES),
     (''IX_BLOCK_MARK'', 3, immix_block_LOG_BYTES),
     (''RC_STRADDLE_LINES'', 3, immix_line_LOG_BYTES),
     (''IX_BLOCK_LOG'', 0, immix_block_LOG_BYTES),
     (''NURSERY_PROMOTION_STATE'', 3, immix_block_LOG_BYTES),
     (''PHASE_EPOCH'', 3, immix_block_LOG_BYTES),
     (''IX_BLOCK_DEAD_WORDS'', 5, immix_block_LOG_BYTES),
     (''CHUNK_MARK'', 3, chunk_LOG_BYTES),
     (''CHUNK_BIN'', 3, chunk_LOG_BYTES),
     (''CHUNK_LIVE_BLOCKS'', 4, chunk_LOG_BYTES),
     (''CHUNK_PREV'', 6, chunk_LOG_BYTES),
     (''CHUNK_NEXT'', 6, chunk_LOG_BYTES),
     (''BLOCK_OWNER'', 6, immix_block_LOG_BYTES),
     (''BLOCK_IN_USE'', 3, immix_block_LOG_BYTES),
     (''IX_BLOCK_ALLOC_BITS'', 3, immix_block_LOG_BYTES),
     (''MS_BLOCK_MARK'', 3, ms_block_LOG_BYTES),
     (''MS_BLOCK_NEXT'', LOG_BITS_IN_ADDRESS, ms_block_LOG_BYTES),
     (''MS_BLOCK_PREV'', LOG_BITS_IN_ADDRESS, ms_block_LOG_BYTES),
     (''MS_BLOCK_LIST'', LOG_BITS_IN_ADDRESS, ms_block_LOG_BYTES),
     (''MS_BLOCK_SIZE'', LOG_BITS_IN_ADDRESS, ms_block_LOG_BYTES),
     (''MS_BLOCK_TLS'', LOG_BITS_IN_ADDRESS, ms_block_LOG_BYTES),
     (''MS_FREE'', LOG_BITS_IN_ADDRESS, ms_block_LOG_BYTES),
     (''MS_LOCAL_FREE'', LOG_BITS_IN_ADDRESS, ms_block_LOG_BYTES),
     (''MS_THREAD_FREE'', LOG_BITS_IN_ADDRESS, ms_block_LOG_BYTES)]"

text \<open>A table is the interval of the addresses of a spec; a list of tables is laid out in order.\<close>

definition table_end :: "side_metadata_spec \<Rightarrow> nat" where
  "table_end s = unat (spec_offset s) + unat (metadata_address_range_size s)"

fun laid_out :: "side_metadata_spec list \<Rightarrow> bool" where
  "laid_out [] \<longleftrightarrow> True"
| "laid_out [s] \<longleftrightarrow> spec_ok s \<and> table_end s < 2 ^ 64"
| "laid_out (s # t # ts) \<longleftrightarrow> spec_ok s \<and> table_end s \<le> unat (spec_offset t) \<and> laid_out (t # ts)"

lemmas layout_eval = spec_at_def layout_after_def upper_bound_offset_def metadata_address_range_size_def log_data_meta_ratio_def
  is_absolute_offset_def uses_contiguous_side_metadata_def align_up_def raw_align_up_def LOG_ARCH_ADDRESS_SPACE_def
  LOG_REF_COUNT_BITS_def LOG_STRONG_REF_COUNT_BITS_def LOG_BYTES_PER_RC_LOCK_BIT_def LOG_BYTES_IN_MALLOC_PAGE_def
  immix_block_LOG_BYTES_def immix_line_LOG_BYTES_def ms_block_LOG_BYTES_def chunk_LOG_BYTES_def LOG_BITS_IN_ADDRESS_def
  GLOBAL_SIDE_METADATA_BASE_ADDRESS_def LOCAL_SIDE_METADATA_BASE_ADDRESS_def LOG_MAX_GLOBAL_SIDE_METADATA_SIZE_def
  LOG_GLOBAL_SIDE_METADATA_WORST_CASE_RATIO_def BYTES_IN_WORD_def

lemma all_specs_laid_out: "laid_out (GLOBAL_SPECS @ LOCAL_SPECS)"
  by (simp add: GLOBAL_SPECS_def LOCAL_SPECS_def layout_eval table_end_def spec_ok_def)

lemma laid_out_spec_ok: "laid_out ss \<Longrightarrow> s \<in> set ss \<Longrightarrow> spec_ok s"
  by (induction ss rule: laid_out.induct) auto

lemma laid_out_le:
  "laid_out (s # ss) \<Longrightarrow> t \<in> set ss \<Longrightarrow> table_end s \<le> unat (spec_offset t)"
proof (induction "s # ss" arbitrary: s ss rule: laid_out.induct)
  case (3 s t' ts)
  then show ?case by (fastforce simp: table_end_def)
qed simp_all

lemma laid_out_end: "laid_out ss \<Longrightarrow> s \<in> set ss \<Longrightarrow> table_end s < 2 ^ 64"
proof (induction ss rule: laid_out.induct)
  case (3 s t ts)
  have "unat (spec_offset t) < 2 ^ 64" by (rule unat_less_64)
  with 3 show ?case by auto
qed auto

lemma laid_out_nth:
  "laid_out ss \<Longrightarrow> i < j \<Longrightarrow> j < length ss \<Longrightarrow> table_end (ss ! i) \<le> unat (spec_offset (ss ! j))"
proof (induction ss arbitrary: i j)
  case (Cons s ss)
  show ?case
  proof (cases i)
    case 0
    have "ss ! (j - 1) \<in> set ss" using Cons.prems by (cases j) auto
    with 0 Cons.prems laid_out_le [of s ss "ss ! (j - 1)"] show ?thesis by (cases j) auto
  next
    case (Suc i')
    have "laid_out ss" using Cons.prems(1) by (cases ss) auto
    with Suc Cons show ?thesis by (cases j) auto
  qed
qed simp

end
