(* ===== verification/SideMetadata.thy ===== *)
theory SideMetadata
  imports SideMetadata_Layout
begin

text \<open>
  Accesses of side metadata (\<open>util/metadata/side_metadata/global.rs\<close>): loads, stores and atomic updates
  of the value of one data address. Every operation is a read or an update of one \<open>metadata_field\<close>, which
  is the second interpretation of \<open>metadata_access\<close>. The wrapper \<open>side_metadata_access\<close> only calls its
  function in a release build.
\<close>

section \<open>Operations\<close>

definition sm_load :: "value_type \<Rightarrow> side_metadata_spec \<Rightarrow> address \<Rightarrow> byte_mem \<Rightarrow> usize" where
  "sm_load T s data_addr m =
     (let meta_addr = address_to_meta_address s data_addr; bits_num_log = log_num_of_bits s in
      if bits_num_log < 3 then
        (let lshift = meta_byte_lshift s data_addr; msk = push_bit lshift (meta_byte_mask s);
             byte_val = u8_load meta_addr m
         in from_u8 (drop_bit lshift (byte_val AND msk)))
      else addr_load T meta_addr m)"

definition sm_store :: "value_type \<Rightarrow> side_metadata_spec \<Rightarrow> address \<Rightarrow> usize \<Rightarrow> byte_mem \<Rightarrow> byte_mem option" where
  "sm_store T s data_addr metadata m =
     (let meta_addr = address_to_meta_address s data_addr; bits_num_log = log_num_of_bits s in
      if bits_num_log < 3 then do {
        let lshift = meta_byte_lshift s data_addr;
        let msk = push_bit lshift (meta_byte_mask s);
        let old_val = u8_load meta_addr m;
        v \<leftarrow> to_u8 metadata;
        let new_val = (old_val AND NOT msk) OR push_bit lshift v;
        Some (u8_store meta_addr new_val m) }
      else Some (addr_store T meta_addr metadata m))"

definition load_byte :: "side_metadata_spec \<Rightarrow> address \<Rightarrow> byte_mem \<Rightarrow> u8" where
  "load_byte s data_addr m = u8_load (address_to_meta_address s data_addr) m"

definition sm_load_atomic :: "value_type \<Rightarrow> side_metadata_spec \<Rightarrow> address \<Rightarrow> byte_mem \<Rightarrow> usize" where
  "sm_load_atomic T s data_addr m =
     (let meta_addr = address_to_meta_address s data_addr; bits_num_log = log_num_of_bits s in
      if bits_num_log < 3 then
        (let lshift = meta_byte_lshift s data_addr; msk = push_bit lshift (meta_byte_mask s);
             byte_val = u8_load meta_addr m
         in from_u8 (drop_bit lshift (byte_val AND msk)))
      else mv_load_atomic T meta_addr m)"

definition sm_store_atomic :: "value_type \<Rightarrow> side_metadata_spec \<Rightarrow> address \<Rightarrow> usize \<Rightarrow> byte_mem \<Rightarrow> byte_mem option" where
  "sm_store_atomic T s data_addr metadata m =
     (let meta_addr = address_to_meta_address s data_addr; bits_num_log = log_num_of_bits s in
      if bits_num_log < 3 then do {
        let lshift = meta_byte_lshift s data_addr;
        let msk = push_bit lshift (meta_byte_mask s);
        metadata_u8 \<leftarrow> to_u8 metadata;
        (_, m) \<leftarrow> u8_fetch_update meta_addr (\<lambda>v. Some (Some ((v AND NOT msk) OR push_bit lshift metadata_u8))) m;
        Some m }
      else Some (mv_store_atomic T meta_addr metadata m))"

definition set_zero :: "side_metadata_spec \<Rightarrow> address \<Rightarrow> byte_mem \<Rightarrow> byte_mem option" where
  "set_zero s data_addr m =
     (if log_num_of_bits s \<le> 3 then sm_store U8 s data_addr 0 m
      else if log_num_of_bits s = 4 then sm_store U16 s data_addr 0 m
      else if log_num_of_bits s = 5 then sm_store U32 s data_addr 0 m
      else if log_num_of_bits s = 6 then sm_store U64 s data_addr 0 m
      else None)"

definition set_zero_atomic :: "side_metadata_spec \<Rightarrow> address \<Rightarrow> byte_mem \<Rightarrow> byte_mem option" where
  "set_zero_atomic s data_addr m =
     (if log_num_of_bits s \<le> 3 then sm_store_atomic U8 s data_addr 0 m
      else if log_num_of_bits s = 4 then sm_store_atomic U16 s data_addr 0 m
      else if log_num_of_bits s = 5 then sm_store_atomic U32 s data_addr 0 m
      else if log_num_of_bits s = 6 then sm_store_atomic U64 s data_addr 0 m
      else None)"

definition set_raw_byte_atomic :: "side_metadata_spec \<Rightarrow> address \<Rightarrow> byte_mem \<Rightarrow> byte_mem" where
  "set_raw_byte_atomic s data_addr m = u8_store (address_to_meta_address s data_addr) 0xff m"

definition load_raw_byte :: "side_metadata_spec \<Rightarrow> address \<Rightarrow> byte_mem \<Rightarrow> u8" where
  "load_raw_byte s data_addr m = u8_load (address_to_meta_address s data_addr) m"

definition load_raw_word :: "side_metadata_spec \<Rightarrow> address \<Rightarrow> byte_mem \<Rightarrow> usize" where
  "load_raw_word s data_addr m =
     (let meta_addr = address_to_meta_address s data_addr; aligned_meta_addr = align_down meta_addr BYTES_IN_ADDRESS
      in addr_load Usize aligned_meta_addr m)"

text \<open>\<open>m0\<close> is the memory at the first load, \<open>m\<close> the memory at the exchange.\<close>

definition compare_exchange_atomic ::
  "value_type \<Rightarrow> side_metadata_spec \<Rightarrow> address \<Rightarrow> usize \<Rightarrow> usize \<Rightarrow> byte_mem \<Rightarrow> byte_mem \<Rightarrow>
   ((usize + usize) \<times> byte_mem) option" where
  "compare_exchange_atomic T s data_addr old_metadata new_metadata m0 m =
     (let meta_addr = address_to_meta_address s data_addr; bits_num_log = log_num_of_bits s in
      if bits_num_log < 3 then do {
        let lshift = meta_byte_lshift s data_addr;
        let msk = push_bit lshift (meta_byte_mask s);
        let real_old_byte = u8_load meta_addr m0;
        old \<leftarrow> to_u8 old_metadata;
        let expected_old_byte = (real_old_byte AND NOT msk) OR push_bit lshift old;
        new \<leftarrow> to_u8 new_metadata;
        let expected_new_byte = (expected_old_byte AND NOT msk) OR push_bit lshift new;
        let (r, m) = u8_compare_exchange meta_addr expected_old_byte expected_new_byte m;
        Some (map_sum (\<lambda>x. from_u8 (drop_bit lshift (x AND msk))) (\<lambda>x. from_u8 (drop_bit lshift (x AND msk))) r, m) }
      else Some (mv_compare_exchange T meta_addr old_metadata new_metadata m))"

definition fetch_ops_on_bits ::
  "side_metadata_spec \<Rightarrow> address \<Rightarrow> address \<Rightarrow> (u8 \<Rightarrow> u8) \<Rightarrow> byte_mem \<Rightarrow> (u8 \<times> byte_mem) option" where
  "fetch_ops_on_bits s data_addr meta_addr update m = do {
     let lshift = meta_byte_lshift s data_addr;
     let msk = push_bit lshift (meta_byte_mask s);
     (r, m) \<leftarrow> u8_fetch_update meta_addr
       (\<lambda>raw_byte. let old_val = drop_bit lshift (raw_byte AND msk); new_val = update old_val;
                       new_raw_byte = (raw_byte AND NOT msk) OR (push_bit lshift new_val AND msk)
                   in Some (Some new_raw_byte)) m;
     case r of Inl _ \<Rightarrow> None | Inr old_raw_byte \<Rightarrow> Some (drop_bit lshift (old_raw_byte AND msk), m) }"

definition fetch_add_atomic ::
  "value_type \<Rightarrow> side_metadata_spec \<Rightarrow> address \<Rightarrow> usize \<Rightarrow> byte_mem \<Rightarrow> (usize \<times> byte_mem) option" where
  "fetch_add_atomic T s data_addr val m =
     (let meta_addr = address_to_meta_address s data_addr; bits_num_log = log_num_of_bits s in
      if bits_num_log < 3 then do {
        v \<leftarrow> to_u8 val;
        (old, m) \<leftarrow> fetch_ops_on_bits s data_addr meta_addr (\<lambda>x. x + v) m;
        Some (from_u8 old, m) }
      else Some (mv_fetch_add T meta_addr val m))"

definition fetch_sub_atomic ::
  "value_type \<Rightarrow> side_metadata_spec \<Rightarrow> address \<Rightarrow> usize \<Rightarrow> byte_mem \<Rightarrow> (usize \<times> byte_mem) option" where
  "fetch_sub_atomic T s data_addr val m =
     (let meta_addr = address_to_meta_address s data_addr in
      if log_num_of_bits s < 3 then do {
        v \<leftarrow> to_u8 val;
        (old, m) \<leftarrow> fetch_ops_on_bits s data_addr meta_addr (\<lambda>x. x - v) m;
        Some (from_u8 old, m) }
      else Some (mv_fetch_sub T meta_addr val m))"

definition fetch_and_atomic ::
  "value_type \<Rightarrow> side_metadata_spec \<Rightarrow> address \<Rightarrow> usize \<Rightarrow> byte_mem \<Rightarrow> (usize \<times> byte_mem) option" where
  "fetch_and_atomic T s data_addr val m =
     (let meta_addr = address_to_meta_address s data_addr in
      if log_num_of_bits s < 3 then do {
        let lshift = meta_byte_lshift s data_addr;
        let msk = push_bit lshift (meta_byte_mask s);
        v \<leftarrow> to_u8 val;
        let rhs = push_bit lshift v OR NOT msk;
        let (old_raw_byte, m) = u8_fetch_and meta_addr rhs m;
        let old_val = drop_bit lshift (old_raw_byte AND msk);
        Some (from_u8 old_val, m) }
      else Some (mv_fetch_and T meta_addr val m))"

definition fetch_or_atomic ::
  "value_type \<Rightarrow> side_metadata_spec \<Rightarrow> address \<Rightarrow> usize \<Rightarrow> byte_mem \<Rightarrow> (usize \<times> byte_mem) option" where
  "fetch_or_atomic T s data_addr val m =
     (let meta_addr = address_to_meta_address s data_addr in
      if log_num_of_bits s < 3 then do {
        let lshift = meta_byte_lshift s data_addr;
        let msk = push_bit lshift (meta_byte_mask s);
        v \<leftarrow> to_u8 val;
        let rhs = push_bit lshift v AND msk;
        let (old_raw_byte, m) = u8_fetch_or meta_addr rhs m;
        let old_val = drop_bit lshift (old_raw_byte AND msk);
        Some (from_u8 old_val, m) }
      else Some (mv_fetch_or T meta_addr val m))"

definition fetch_update_atomic ::
  "value_type \<Rightarrow> side_metadata_spec \<Rightarrow> address \<Rightarrow> (usize \<Rightarrow> usize option) \<Rightarrow> byte_mem \<Rightarrow>
   ((usize + usize) \<times> byte_mem) option" where
  "fetch_update_atomic T s data_addr f m =
     (let meta_addr = address_to_meta_address s data_addr in
      if log_num_of_bits s < 3 then do {
        let lshift = meta_byte_lshift s data_addr;
        let msk = push_bit lshift (meta_byte_mask s);
        (r, m) \<leftarrow> u8_fetch_update meta_addr
          (\<lambda>raw_byte. let old_val = drop_bit lshift (raw_byte AND msk)
             in case f (from_u8 old_val) of
                  None \<Rightarrow> Some None
                | Some new_val \<Rightarrow> do {
                    v \<leftarrow> to_u8 new_val;
                    Some (Some ((raw_byte AND NOT msk) OR (push_bit lshift v AND msk))) }) m;
        Some (map_sum (\<lambda>x. from_u8 (drop_bit lshift (x AND msk))) (\<lambda>x. from_u8 (drop_bit lshift (x AND msk))) r, m) }
      else mv_fetch_update T meta_addr (\<lambda>x. Some (f x)) m)"

section \<open>It is a field\<close>

type_synonym side_object = "value_type \<times> side_metadata_spec \<times> address"

text \<open>The check that debug builds make of the value type of an access.\<close>

definition assert_value_type :: "value_type \<Rightarrow> side_metadata_spec \<Rightarrow> bool" where
  "assert_value_type T s \<longleftrightarrow>
     (if log_num_of_bits s < 3 then LOG2 T = 3
      else if log_num_of_bits s \<le> 6 then LOG2 T = log_num_of_bits s
      else False)"

definition side_valid :: "side_object \<Rightarrow> bool" where
  "side_valid = (\<lambda>(T, s, d). assert_value_type T s \<and> spec_ok s)"

definition side_cell :: "side_object \<Rightarrow> metadata_field" where
  "side_cell = (\<lambda>(T, s, d).
     if log_num_of_bits s < 3 then BitsIn (address_to_meta_address s d) (meta_byte_lshift s d) (2 ^ log_num_of_bits s)
     else Whole (address_to_meta_address s d) T)"

fun side_fetch :: "fetch_op \<Rightarrow> side_object \<Rightarrow> usize \<Rightarrow> byte_mem \<Rightarrow> (usize \<times> byte_mem) option" where
  "side_fetch FetchAdd (T, s, d) v m = fetch_add_atomic T s d v m"
| "side_fetch FetchSub (T, s, d) v m = fetch_sub_atomic T s d v m"
| "side_fetch FetchAnd (T, s, d) v m = fetch_and_atomic T s d v m"
| "side_fetch FetchOr (T, s, d) v m = fetch_or_atomic T s d v m"

lemma BITS_LOG2: "BITS T = 2 ^ LOG2 T"
  by (cases T) simp_all

lemma side_width: "assert_value_type T s \<Longrightarrow> field_width (side_cell (T, s, d)) = 2 ^ log_num_of_bits s"
  by (auto simp: assert_value_type_def side_cell_def BITS_LOG2 split: if_splits)

lemma side_mask: "log_num_of_bits s < 3 \<Longrightarrow> meta_byte_mask s = mask (2 ^ log_num_of_bits s)"
proof -
  assume "log_num_of_bits s < 3"
  then have "log_num_of_bits s \<in> {0, 1, 2}" by auto
  then show ?thesis by (auto simp: meta_byte_mask_def mask_eq_exp_minus_1)
qed

lemma side_shift_fits:
  assumes "log_num_of_bits s < 3"
  shows "meta_byte_lshift s d + 2 ^ log_num_of_bits s \<le> 8"
proof -
  let ?k = "log_num_of_bits s"
  have "(8 :: nat) = 2 ^ (3 - ?k) * 2 ^ ?k" using assms by (simp add: power_add [symmetric])
  then have "meta_pos s d mod 8 = region_index s d mod 2 ^ (3 - ?k) * 2 ^ ?k" unfolding meta_pos_def by (metis mult_mod_left)
  moreover have "(region_index s d mod 2 ^ (3 - ?k) + 1) * 2 ^ ?k \<le> 2 ^ (3 - ?k) * 2 ^ ?k"
    by (intro mult_le_mono1) (simp add: Suc_leI)
  ultimately show ?thesis using \<open>8 = _\<close> by (simp add: meta_shift_pos algebra_simps)
qed

lemmas side_op_defs = sm_load_def sm_store_def sm_load_atomic_def sm_store_atomic_def compare_exchange_atomic_def
  fetch_ops_on_bits_def fetch_add_atomic_def fetch_sub_atomic_def fetch_and_atomic_def fetch_or_atomic_def

lemma side_load_field:
  "sm_load T s d m = field_get (side_cell (T, s, d)) m" "sm_load_atomic T s d m = field_get (side_cell (T, s, d)) m"
  by (simp_all add: side_op_defs side_cell_def side_mask byte_get_def mv_load_atomic_def u8_load_def from_u8_def Let_def)

lemma side_store_field:
  assumes "take_bit (field_width (side_cell (T, s, d))) v = v"
  shows "sm_store T s d v m = Some (field_put (side_cell (T, s, d)) v m)"
    "sm_store_atomic T s d v m = Some (field_put (side_cell (T, s, d)) v m)"
proof -
  have "sm_store T s d v m = Some (field_put (side_cell (T, s, d)) v m) \<and>
    sm_store_atomic T s d v m = Some (field_put (side_cell (T, s, d)) v m)"
  proof (cases "log_num_of_bits s < 3")
    case True
    with assms have v: "take_bit (2 ^ log_num_of_bits s) v = v" by (simp add: side_cell_def)
    have k: "2 ^ log_num_of_bits s \<le> (8 :: nat)" using side_shift_fits [OF True, of d] by simp
    show ?thesis
      using True to_u8_small [OF v k] byte_put_exact [OF ucast_take_u8 [OF v] side_shift_fits [OF True, of d]]
      by (simp add: side_op_defs side_cell_def side_mask u8_fetch_update_def u8_load_def u8_store_def Let_def)
  qed (simp add: side_op_defs side_cell_def mv_store_atomic_def Let_def)
  then show "sm_store T s d v m = Some (field_put (side_cell (T, s, d)) v m)"
    "sm_store_atomic T s d v m = Some (field_put (side_cell (T, s, d)) v m)" by simp_all
qed

lemma side_fetch_field:
  assumes "take_bit (field_width (side_cell x)) v = v"
  shows "side_fetch op x v m = Some (field_get (side_cell x) m, field_put (side_cell x) (apply_op op (field_get (side_cell x) m) v) m)"
proof -
  obtain T s d where x: "x = (T, s, d)" by (cases x)
  show ?thesis
  proof (cases "log_num_of_bits s < 3")
    case True
    with assms have v: "take_bit (2 ^ log_num_of_bits s) v = v" by (simp add: side_cell_def x)
    note fit = side_shift_fits [OF True, of d]
    then have k: "2 ^ log_num_of_bits s \<le> (8 :: nat)" by simp
    obtain b where vb: "v = ucast (b :: u8)" using ucast_back [OF v k] by metis
    show ?thesis unfolding x using True to_u8_small [OF v k]
      by (cases op) (simp_all add: side_op_defs side_cell_def side_mask byte_get_def byte_put_trunc u8_fetch_update_def
          u8_fetch_and_def u8_fetch_or_def vb u8_ops byte_and_put [OF fit] byte_or_put [OF fit] from_u8_def Let_def)
  next
    case False
    then show ?thesis unfolding x
      by (cases op) (simp_all add: side_op_defs side_cell_def
          mv_fetch_add_def mv_fetch_sub_def mv_fetch_and_def mv_fetch_or_def addr_store_take Let_def)
  qed
qed

text \<open>Unlike header metadata, side metadata returns the value of the field and not the byte around it.\<close>

lemma side_cas_bits:
  assumes "log_num_of_bits s < 3" "take_bit (2 ^ log_num_of_bits s) old = old" "take_bit (2 ^ log_num_of_bits s) new = new"
  shows "compare_exchange_atomic T s d old new m0 m =
    (let a = address_to_meta_address s d; l = meta_byte_lshift s d; k = 2 ^ log_num_of_bits s in
     Some (if m a = byte_put l k (m0 a) (ucast old) then (Inr (ucast (byte_get l k (m a))), m(a := byte_put l k (m a) (ucast new)))
       else (Inl (ucast (byte_get l k (m a))), m)))"
proof -
  have k: "2 ^ log_num_of_bits s \<le> (8 :: nat)" using side_shift_fits [OF assms(1), of d] by simp
  note put = byte_put_exact [OF ucast_take_u8 side_shift_fits [OF assms(1)]]
  show ?thesis
    using assms(1) to_u8_small [OF assms(2) k] to_u8_small [OF assms(3) k] put [OF assms(2)] put [OF assms(3)]
    by (simp add: side_op_defs side_mask u8_compare_exchange_def u8_load_def Let_def from_u8_def byte_put_put byte_get_def)
qed

lemma side_cas_field:
  assumes "take_bit (field_width (side_cell (T, s, d))) old = old" "take_bit (field_width (side_cell (T, s, d))) new = new"
  shows "\<exists>r. compare_exchange_atomic T s d old new m0 m = Some r \<and>
      (r = (Inr old, field_put (side_cell (T, s, d)) new m) \<and> field_get (side_cell (T, s, d)) m = old \<or>
       r = (Inl (field_get (side_cell (T, s, d)) m), m)) \<and>
      (field_get (side_cell (T, s, d)) m = old \<longrightarrow> m0 = m \<longrightarrow> r = (Inr old, field_put (side_cell (T, s, d)) new m))"
proof (cases "log_num_of_bits s < 3")
  case True
  let ?a = "address_to_meta_address s d" and ?l = "meta_byte_lshift s d" and ?k = "2 ^ log_num_of_bits s"
  from True have f: "side_cell (T, s, d) = BitsIn ?a ?l ?k" by (simp add: side_cell_def)
  have v: "take_bit ?k old = old" "take_bit ?k new = new" using assms f by simp_all
  have k: "?k \<le> (8 :: nat)" using side_shift_fits [OF True, of d] by simp
  note c = byte_cas [OF side_shift_fits [OF True, of d] ucast_take_u8 [OF v(1)]]
  have b: "ucast (ucast old :: u8) = old" using ucast_back [OF v(1) k] by simp
  then have g: "ucast (byte_get ?l ?k (m ?a)) = old \<longleftrightarrow> byte_get ?l ?k (m ?a) = ucast old"
    by (metis ucast_u8)
  show ?thesis unfolding side_cas_bits [OF True v] Let_def f field_put.simps field_get.simps g using b c by auto
next
  case False
  then show ?thesis
    by (auto simp: side_op_defs side_cell_def mv_compare_exchange_def addr_compare_exchange_def Let_def)
qed

interpretation side: metadata_access side_valid side_cell "\<lambda>(T, s, d). sm_load_atomic T s d"
  "\<lambda>(T, s, d). sm_store_atomic T s d" "\<lambda>(T, s, d). compare_exchange_atomic T s d" side_fetch
proof
  fix x assume "side_valid x"
  then show "field_ok (side_cell x)" using side_shift_fits by (auto simp: side_cell_def split: prod.splits)
next
  fix x :: side_object and old new :: usize and m0 m :: byte_mem
  assume a: "take_bit (field_width (side_cell x)) old = old" "take_bit (field_width (side_cell x)) new = new"
  obtain T s d where x: "x = (T, s, d)" by (cases x)
  show "\<exists>r. (case x of (T, s, d) \<Rightarrow> compare_exchange_atomic T s d) old new m0 m = Some r \<and>
      (\<exists>y. r = (Inr y, field_put (side_cell x) new m) \<and> field_get (side_cell x) m = old \<or> r = (Inl y, m))"
    using side_cas_field [of T s d old new m0 m] a unfolding x by fastforce
  assume "field_get (side_cell x) m = old"
  with side_cas_field [of T s d old new m m] a
  show "\<exists>y. (case x of (T, s, d) \<Rightarrow> compare_exchange_atomic T s d) old new m m = Some (Inr y, field_put (side_cell x) new m)"
    unfolding x by auto
qed (auto simp: side_load_field side_store_field side_fetch_field)

section \<open>Which bits\<close>

lemma within_byte:
  fixes p i :: nat
  assumes "p mod 8 + i < 8"
  shows "(p + i) div 8 = p div 8" "(p + i) mod 8 = p mod 8 + i"
proof -
  have "p + i = p div 8 * 8 + (p mod 8 + i)" by simp
  moreover have "(q * 8 + x) div 8 = q" "(q * 8 + x) mod 8 = x" if "x < 8" for q x :: nat using that by simp_all
  ultimately show "(p + i) div 8 = p div 8" "(p + i) mod 8 = p mod 8 + i" using assms by presburger+
qed

lemma side_field_pos:
  assumes "assert_value_type T s" "i < 2 ^ log_num_of_bits s"
  shows "field_pos (side_cell (T, s, d)) i = bit_at (spec_offset s) (meta_pos s d + i)"
proof (cases "log_num_of_bits s < 3")
  case True
  have "meta_pos s d mod 8 + i < 8" using side_shift_fits [OF True, of d] assms(2) by (simp add: meta_shift_pos)
  then have "(meta_pos s d + i) div 8 = meta_pos s d div 8" "(meta_pos s d + i) mod 8 = meta_pos s d mod 8 + i"
    by (rule within_byte)+
  with True show ?thesis by (simp add: side_cell_def bit_at_def meta_address_pos meta_shift_pos)
next
  case False
  then have "(8 :: nat) dvd 2 ^ log_num_of_bits s" using le_imp_power_dvd [of 3 "log_num_of_bits s" "2 :: nat"] by simp
  then have "8 dvd meta_pos s d" by (simp add: meta_pos_def)
  then have "(meta_pos s d + i) div 8 = meta_pos s d div 8 + i div 8" "(meta_pos s d + i) mod 8 = i mod 8"
    by (auto elim!: dvdE)
  with False show ?thesis by (simp add: side_cell_def bit_at_def meta_address_pos add.assoc)
qed

lemma side_footprint:
  assumes "assert_value_type T s"
  shows "footprint (side_cell (T, s, d)) = bit_at (spec_offset s) ` {meta_pos s d..<meta_pos s d + 2 ^ log_num_of_bits s}"
proof -
  have "footprint (side_cell (T, s, d)) = (\<lambda>i. bit_at (spec_offset s) (meta_pos s d + i)) ` {..<2 ^ log_num_of_bits s}"
    unfolding footprint_def side_width [OF assms] by (rule image_cong) (simp_all add: side_field_pos [OF assms])
  also have "\<dots> = bit_at (spec_offset s) ` (\<lambda>i. meta_pos s d + i) ` {0..<2 ^ log_num_of_bits s}"
    by (simp only: image_image lessThan_atLeast0)
  also have "(\<lambda>i. meta_pos s d + i) ` {0..<2 ^ log_num_of_bits s} = {meta_pos s d..<meta_pos s d + 2 ^ log_num_of_bits s}"
    using image_add_atLeastLessThan [of "meta_pos s d" 0 "2 ^ log_num_of_bits s"] by (simp add: add.commute)
  finally show ?thesis .
qed

lemma side_regions_disjoint:
  assumes "assert_value_type T s" "assert_value_type T' s" "spec_ok s" "region_index s d \<noteq> region_index s d'"
  shows "footprint (side_cell (T, s, d)) \<inter> footprint (side_cell (T', s, d')) = {}"
proof -
  let ?n = "2 ^ log_num_of_bits s" and ?I = "\<lambda>d. {meta_pos s d..<meta_pos s d + 2 ^ log_num_of_bits s}"
  have "meta_pos s d + ?n \<le> meta_pos s d' \<or> meta_pos s d' + ?n \<le> meta_pos s d"
  proof (cases "region_index s d < region_index s d'")
    case True
    then have "(region_index s d + 1) * ?n \<le> region_index s d' * ?n" by (intro mult_le_mono1) simp
    then show ?thesis by (simp add: meta_pos_def algebra_simps)
  next
    case False
    then have "(region_index s d' + 1) * ?n \<le> region_index s d * ?n" using assms(4) by (intro mult_le_mono1) simp
    then show ?thesis by (simp add: meta_pos_def algebra_simps)
  qed
  then have "?I d \<inter> ?I d' = {}" by auto
  moreover have "?I x \<subseteq> {..<8 * 2 ^ 64}" for x
    using meta_pos_bound [of s x] assms(3) by (auto simp: spec_ok_def)
  ultimately have "bit_at (spec_offset s) ` ?I d \<inter> bit_at (spec_offset s) ` ?I d' = {}"
    using inj_on_image_Int [OF bit_at_inj, of "?I d" "?I d'" "spec_offset s"] by (metis image_empty)
  then show ?thesis by (simp add: side_footprint assms)
qed

lemma side_cell_region:
  assumes "region_index s d = region_index s d'"
  shows "side_cell (T, s, d) = side_cell (T, s, d')"
  using assms by (simp add: side_cell_def meta_address_pos meta_shift_pos meta_pos_def)

lemma table_size: "spec_ok s \<Longrightarrow> unat (metadata_address_range_size s) = 2 ^ (LOG_ARCH_ADDRESS_SPACE - log_data_meta_ratio s)"
  using unat_of_nat_64 [of "2 ^ (47 - log_data_meta_ratio s)"] power_strict_increasing [of "47 - log_data_meta_ratio s" 64 "2 :: nat"]
  by (simp add: metadata_address_range_size_def push_bit_eq_mult LOG_ARCH_ADDRESS_SPACE_def)

lemma side_footprint_in_table:
  assumes "assert_value_type T s" "spec_ok s" "unat d < 2 ^ 47" "table_end s \<le> 2 ^ 64" "(x, j) \<in> footprint (side_cell (T, s, d))"
  shows "8 * unat (spec_offset s) \<le> bit_pos x j" "bit_pos x j < 8 * table_end s" "j < 8"
proof -
  obtain p where p: "p < meta_pos s d + 2 ^ log_num_of_bits s" "(x, j) = bit_at (spec_offset s) p"
    using assms(5) unfolding side_footprint [OF assms(1)] by auto
  have e: "table_end s = unat (spec_offset s) + 2 ^ (LOG_ARCH_ADDRESS_SPACE - log_data_meta_ratio s)"
    unfolding table_end_def table_size [OF assms(2)] ..
  have "p < 8 * 2 ^ (LOG_ARCH_ADDRESS_SPACE - log_data_meta_ratio s)"
    using p(1) meta_pos_less [OF assms(2,3)] by simp
  then have "p div 8 < 2 ^ (LOG_ARCH_ADDRESS_SPACE - log_data_meta_ratio s)" by (simp add: less_mult_imp_div_less mult.commute)
  then have "unat (spec_offset s) + p div 8 < 2 ^ 64" using assms(4) e by simp
  from bit_at_pos [OF this] have "bit_pos x j = 8 * unat (spec_offset s) + p" using p(2) by (metis fst_conv snd_conv)
  then show "8 * unat (spec_offset s) \<le> bit_pos x j" "bit_pos x j < 8 * table_end s"
    using \<open>p < 8 * 2 ^ _\<close> unfolding e by simp_all
  show "j < 8" using p(2) by (simp add: bit_at_def)
qed

lemma side_tables_disjoint:
  assumes "assert_value_type T s" "spec_ok s" "unat d < 2 ^ 47" "assert_value_type T' s'" "spec_ok s'" "unat d' < 2 ^ 47"
    "table_end s \<le> unat (spec_offset s')" "table_end s' \<le> 2 ^ 64"
  shows "footprint (side_cell (T, s, d)) \<inter> footprint (side_cell (T', s', d')) = {}"
proof -
  have "table_end s \<le> 2 ^ 64" using assms(7) unat_less_64 [of "spec_offset s'"] by simp
  note a = side_footprint_in_table [OF assms(1-3) this] and b = side_footprint_in_table [OF assms(4-6,8)]
  show ?thesis
  proof (rule ccontr)
    assume "\<not> ?thesis"
    then obtain x j where "(x, j) \<in> footprint (side_cell (T, s, d))" "(x, j) \<in> footprint (side_cell (T', s', d'))" by auto
    from a(2) [OF this(1)] b(1) [OF this(2)] assms(7) show False by linarith
  qed
qed

section \<open>Properties of single accesses\<close>

text \<open>
  C29. Side metadata is a table indexed by region: after a store, a load gives the stored value at every
  data address of the same region and the old value at every other data address.
\<close>

theorem side_store_load:
  assumes "assert_value_type T s" "spec_ok s" "take_bit (2 ^ log_num_of_bits s) v = v"
  shows "\<exists>m'. sm_store_atomic T s d v m = Some m' \<and>
    (\<forall>d'. sm_load_atomic T s d' m' = (if region_index s d' = region_index s d then v else sm_load_atomic T s d' m))"
proof -
  have val: "side_valid (T, s, x)" for x using assms(1,2) by (simp add: side_valid_def)
  obtain m' where m': "sm_store_atomic T s d v m = Some m'" "sm_load_atomic T s d m' = v"
    "\<And>y. side_valid y \<Longrightarrow> footprint (side_cell (T, s, d)) \<inter> footprint (side_cell y) = {} \<Longrightarrow>
      (case y of (T, s, d) \<Rightarrow> sm_load_atomic T s d) m' = (case y of (T, s, d) \<Rightarrow> sm_load_atomic T s d) m"
    using side.load_store [OF val [of d], of v m] assms(3) unfolding side_width [OF assms(1)] prod.case by blast
  have "sm_load_atomic T s d' m' = (if region_index s d' = region_index s d then v else sm_load_atomic T s d' m)" for d'
  proof (cases "region_index s d' = region_index s d")
    case True
    with m'(2) show ?thesis by (simp add: side_load_field side_cell_region [OF True])
  next
    case False
    with m'(3) [OF val, of d'] side_regions_disjoint [OF assms(1,1,2), of d d'] show ?thesis by auto
  qed
  with m'(1) show ?thesis by blast
qed

text \<open>A table of two bits for every word, for the concrete instances below.\<close>

definition colors :: side_metadata_spec where
  "colors = spec_at True 0xd0000000000 (''OBJ_COLOR_TABLE'', 1, 3)"

lemma colors_ok: "assert_value_type U8 colors" "spec_ok colors" "log_num_of_bits colors = 1" "log_bytes_in_region colors = 3"
  by (simp_all add: colors_def spec_at_def assert_value_type_def spec_ok_def log_data_meta_ratio_def LOG_ARCH_ADDRESS_SPACE_def)

lemma colors_load: "sm_load_atomic U8 colors 0x20000001240 (\<lambda>_. 0xff) = 3" "sm_load_atomic U8 colors 0x20000001238 (\<lambda>_. 0xff) = 3"
  by (simp_all add: colors_def spec_at_def sm_load_atomic_def u8_load_def meta_byte_mask_def meta_byte_lshift_def from_u8_def)

theorem side_store_load_witness:
  "\<exists>m'. sm_store_atomic U8 colors 0x20000001238 2 (\<lambda>_. 0xff) = Some m' \<and> sm_load_atomic U8 colors 0x2000000123c m' = 2 \<and>
     sm_load_atomic U8 colors 0x20000001240 m' = 3"
  using side_store_load [OF colors_ok(1,2), of 2 "0x20000001238" "\<lambda>_. 0xff"] colors_load
  by (auto simp: colors_ok region_index_def)

text \<open>
  C13. The tables of the collector do not interfere: for any two of the thirty-six specs, a store to one of
  them leaves every value of the other unchanged, for all data addresses of the 47-bit address space.
\<close>

theorem side_tables_independent:
  assumes "i < length (GLOBAL_SPECS @ LOCAL_SPECS)" "j < length (GLOBAL_SPECS @ LOCAL_SPECS)" "i \<noteq> j"
    and s: "s = (GLOBAL_SPECS @ LOCAL_SPECS) ! i" and t: "t = (GLOBAL_SPECS @ LOCAL_SPECS) ! j"
    and "assert_value_type T s" "assert_value_type T' t" "take_bit (2 ^ log_num_of_bits s) v = v"
    and "unat d < 2 ^ 47" "unat d' < 2 ^ 47"
  shows "\<exists>m'. sm_store_atomic T s d v m = Some m' \<and> sm_load_atomic T' t d' m' = sm_load_atomic T' t d' m"
proof -
  note l = all_specs_laid_out
  have ok: "spec_ok s" "spec_ok t" "table_end s \<le> 2 ^ 64" "table_end t \<le> 2 ^ 64"
    using laid_out_spec_ok [OF l] laid_out_end [OF l] assms(1,2) unfolding s t by (meson less_imp_le nth_mem)+
  have "footprint (side_cell (T, s, d)) \<inter> footprint (side_cell (T', t, d')) = {}"
  proof (cases "i < j")
    case True
    then show ?thesis using side_tables_disjoint [OF assms(6) ok(1) assms(9) assms(7) ok(2) assms(10) _ ok(4)]
        laid_out_nth [OF l _ assms(2)] unfolding s t by blast
  next
    case False
    then have "j < i" using assms(3) by simp
    then show ?thesis using side_tables_disjoint [OF assms(7) ok(2) assms(10) assms(6) ok(1) assms(9) _ ok(3)]
        laid_out_nth [OF l _ assms(1)] unfolding s t by blast
  qed
  moreover have "side_valid (T, s, d)" "side_valid (T', t, d')" using ok assms(6,7) by (simp_all add: side_valid_def)
  ultimately show ?thesis
    using side.load_store [of "(T, s, d)" v m] assms(8) unfolding side_width [OF assms(6)] prod.case by fastforce
qed

lemma some_specs:
  "length (GLOBAL_SPECS @ LOCAL_SPECS) = 36"
  "assert_value_type U8 ((GLOBAL_SPECS @ LOCAL_SPECS) ! 3)" "assert_value_type U8 ((GLOBAL_SPECS @ LOCAL_SPECS) ! 9)"
  "log_num_of_bits ((GLOBAL_SPECS @ LOCAL_SPECS) ! 3) = 3"
  by (simp_all add: GLOBAL_SPECS_def LOCAL_SPECS_def layout_eval assert_value_type_def)

theorem side_tables_independent_witness:
  "\<exists>m'. sm_store_atomic U8 ((GLOBAL_SPECS @ LOCAL_SPECS) ! 3) 0x20000001238 5 (\<lambda>_. 0xff) = Some m' \<and>
     sm_load_atomic U8 ((GLOBAL_SPECS @ LOCAL_SPECS) ! 9) 0x20000001238 m' =
     sm_load_atomic U8 ((GLOBAL_SPECS @ LOCAL_SPECS) ! 9) 0x20000001238 (\<lambda>_. 0xff)"
  by (rule side_tables_independent [OF _ _ _ refl refl some_specs(2,3)]) (simp_all add: some_specs(1,4) del: length_append)

text \<open>
  C18. Compare-and-exchange of side metadata is correct under interference. It succeeds only if the value
  was the expected one at the moment of the exchange, and then it changes the value of this region only; it
  returns the expected value on success and the current value on failure; without interference it succeeds
  whenever the value is the expected one.
\<close>

theorem side_compare_exchange_linearizable:
  assumes "assert_value_type T s" "spec_ok s" "take_bit (2 ^ log_num_of_bits s) old = old" "take_bit (2 ^ log_num_of_bits s) new = new"
  shows "\<exists>r m'. compare_exchange_atomic T s d old new m0 m = Some (r, m') \<and>
    (case r of
       Inr y \<Rightarrow> y = old \<and> sm_load_atomic T s d m = old \<and>
         (\<forall>d'. sm_load_atomic T s d' m' = (if region_index s d' = region_index s d then new else sm_load_atomic T s d' m))
     | Inl y \<Rightarrow> y = sm_load_atomic T s d m \<and> m' = m \<and> (m0 = m \<longrightarrow> y \<noteq> old))"
proof -
  let ?f = "side_cell (T, s, d)"
  have w: "take_bit (field_width ?f) old = old" "take_bit (field_width ?f) new = new"
    using assms(3,4) by (simp_all add: side_width [OF assms(1)])
  have put: "sm_load_atomic T s d' (field_put ?f new m) =
      (if region_index s d' = region_index s d then new else sm_load_atomic T s d' m)" for d'
  proof -
    have ok: "field_ok (side_cell (T, s, x))" for x
      using side.cell_ok [of "(T, s, x)"] assms(1,2) by (simp add: side_valid_def)
    show ?thesis
      using side_regions_disjoint [OF assms(1,1,2), of d d'] side_cell_region [of s d' d T] w(2)
      by (simp add: side_load_field field_get_put [OF ok] field_get_put_other [OF ok ok])
  qed
  show ?thesis
    using side_cas_field [OF w, of m0 m] put by (fastforce simp: side_load_field)
qed

theorem side_compare_exchange_linearizable_witness:
  "\<exists>r m'. compare_exchange_atomic U8 colors 0x20000001238 3 1 (\<lambda>_. 0xff) (\<lambda>_. 0xff) = Some (r, m') \<and>
     (case r of Inr y \<Rightarrow> y = 3 \<and> sm_load_atomic U8 colors 0x2000000123c m' = 1 | Inl y \<Rightarrow> y = 3 \<and> y \<noteq> 3)"
  using side_compare_exchange_linearizable [OF colors_ok(1,2), of 3 1 "0x20000001238" "\<lambda>_. 0xff" "\<lambda>_. 0xff"] colors_load
  by (fastforce simp: colors_ok region_index_def split: sum.splits)

text \<open>
  The atomic updates of side metadata return the previous value of the region and replace it by the
  sum, difference, conjunction or disjunction with the argument, truncated to the number of bits of the
  spec; every other region keeps its value.
\<close>

theorem side_fetch_updates:
  assumes "assert_value_type T s" "spec_ok s" "take_bit (2 ^ log_num_of_bits s) v = v"
  shows "\<exists>m'. side_fetch op (T, s, d) v m = Some (sm_load_atomic T s d m, m') \<and>
    (\<forall>d'. sm_load_atomic T s d' m' = (if region_index s d' = region_index s d
       then take_bit (2 ^ log_num_of_bits s) (apply_op op (sm_load_atomic T s d m) v) else sm_load_atomic T s d' m))"
proof -
  let ?f = "side_cell (T, s, d)" and ?v = "apply_op op (field_get (side_cell (T, s, d)) m) v"
  have w: "take_bit (field_width ?f) v = v" using assms(3) by (simp add: side_width [OF assms(1)])
  have ok: "field_ok (side_cell (T, s, x))" for x
    using side.cell_ok [of "(T, s, x)"] assms(1,2) by (simp add: side_valid_def)
  have "sm_load_atomic T s d' (field_put ?f ?v m) = (if region_index s d' = region_index s d
       then take_bit (2 ^ log_num_of_bits s) ?v else sm_load_atomic T s d' m)" for d'
    using side_regions_disjoint [OF assms(1,1,2), of d d'] side_cell_region [of s d' d T]
    by (simp add: side_load_field field_get_put [OF ok] field_get_put_other [OF ok ok] side_width [OF assms(1)])
  then show ?thesis using side_fetch_field [OF w, of op m] by (simp add: side_load_field)
qed

theorem side_fetch_updates_witness:
  "\<exists>m'. side_fetch FetchAdd (U8, colors, 0x20000001238) 2 (\<lambda>_. 0xff) = Some (3, m') \<and> sm_load_atomic U8 colors 0x20000001238 m' = 1"
  using side_fetch_updates [OF colors_ok(1,2), of 2 FetchAdd "0x20000001238" "\<lambda>_. 0xff"] colors_load
  by (auto simp: colors_ok region_index_def)

end
