(* ===== verification/SideMetadata_Bulk.thy ===== *)
theory SideMetadata_Bulk
  imports SideMetadata
begin

text \<open>
  Bulk updates of side metadata (\<open>side_metadata/global.rs\<close>): clearing, setting and copying the metadata of a
  range of data addresses, with partial bytes at both ends, and the byte array view of a table.
\<close>

section \<open>Operations\<close>

text \<open>\<open>memory::set\<close> and the copy of a run of bytes.\<close>

definition mem_set :: "address \<Rightarrow> u8 \<Rightarrow> usize \<Rightarrow> byte_mem \<Rightarrow> byte_mem" where
  "mem_set start val len m = (\<lambda>x. if x - start < len then val else m x)"

definition mem_zero :: "address \<Rightarrow> usize \<Rightarrow> byte_mem \<Rightarrow> byte_mem" where
  "mem_zero start len m = mem_set start 0 len m"

definition mem_copy :: "address \<Rightarrow> address \<Rightarrow> usize \<Rightarrow> byte_mem \<Rightarrow> byte_mem" where
  "mem_copy src dst len m = (\<lambda>x. if x - dst < len then m (src + (x - dst)) else m x)"

definition checked_shl_u8 :: "u8 \<Rightarrow> nat \<Rightarrow> u8 option" where
  "checked_shl_u8 v n = (if n < 8 then Some (push_bit n v) else None)"

definition unwrap_or :: "'a option \<Rightarrow> 'a \<Rightarrow> 'a" where
  "unwrap_or x d = (case x of None \<Rightarrow> d | Some y \<Rightarrow> y)"

fun zero_visitor :: "bit_byte_range \<Rightarrow> byte_mem \<Rightarrow> bool \<times> byte_mem" where
  "zero_visitor (Bytes start end) m = (False, mem_zero start (end - start) m)"
| "zero_visitor (BitsInByte addr bit_start bit_end) m =
     (let msk = unwrap_or (checked_shl_u8 0xff bit_end) 0 OR NOT (push_bit bit_start 0xff)
      in (False, snd (u8_fetch_and addr msk m)))"

definition zero_meta_bits :: "address \<Rightarrow> nat \<Rightarrow> address \<Rightarrow> nat \<Rightarrow> byte_mem \<Rightarrow> byte_mem" where
  "zero_meta_bits meta_start_addr meta_start_bit meta_end_addr meta_end_bit m =
     snd (break_bit_range meta_start_addr meta_start_bit meta_end_addr meta_end_bit True zero_visitor m)"

fun set_visitor :: "bit_byte_range \<Rightarrow> byte_mem \<Rightarrow> bool \<times> byte_mem" where
  "set_visitor (Bytes start end) m = (False, mem_set start 0xff (end - start) m)"
| "set_visitor (BitsInByte addr bit_start bit_end) m =
     (let msk = NOT (unwrap_or (checked_shl_u8 0xff bit_end) 0) AND push_bit bit_start 0xff
      in (False, snd (u8_fetch_or addr msk m)))"

definition set_meta_bits :: "address \<Rightarrow> nat \<Rightarrow> address \<Rightarrow> nat \<Rightarrow> byte_mem \<Rightarrow> byte_mem" where
  "set_meta_bits meta_start_addr meta_start_bit meta_end_addr meta_end_bit m =
     snd (break_bit_range meta_start_addr meta_start_bit meta_end_addr meta_end_bit True set_visitor m)"

definition bulk_update_metadata ::
  "side_metadata_spec \<Rightarrow> address \<Rightarrow> usize \<Rightarrow> (address \<Rightarrow> nat \<Rightarrow> address \<Rightarrow> nat \<Rightarrow> byte_mem \<Rightarrow> byte_mem) \<Rightarrow> byte_mem \<Rightarrow> byte_mem" where
  "bulk_update_metadata s data_start data_bytes update_meta_bits m =
     (if data_bytes = 0 then m
      else
        (let meta_start = address_to_meta_address s data_start;
             meta_start_shift = meta_byte_lshift s data_start;
             meta_end = address_to_meta_address s (data_start + data_bytes);
             meta_end_shift = meta_byte_lshift s (data_start + data_bytes)
         in update_meta_bits meta_start meta_start_shift meta_end meta_end_shift m))"

definition bzero_metadata :: "side_metadata_spec \<Rightarrow> address \<Rightarrow> usize \<Rightarrow> byte_mem \<Rightarrow> byte_mem" where
  "bzero_metadata s start sz m = bulk_update_metadata s start sz zero_meta_bits m"

definition bset_metadata :: "side_metadata_spec \<Rightarrow> address \<Rightarrow> usize \<Rightarrow> byte_mem \<Rightarrow> byte_mem" where
  "bset_metadata s start sz m = bulk_update_metadata s start sz set_meta_bits m"

fun copy_visitor :: "address \<Rightarrow> address \<Rightarrow> bit_byte_range \<Rightarrow> byte_mem \<Rightarrow> bool \<times> byte_mem" where
  "copy_visitor dst_meta_start_addr src_meta_start_addr (Bytes dst_start dst_end) m =
     (let byte_offset = dst_start - dst_meta_start_addr; src_start = src_meta_start_addr + byte_offset;
          sz = dst_end - dst_start
      in (False, mem_copy src_start dst_start sz m))"
| "copy_visitor dst_meta_start_addr src_meta_start_addr (BitsInByte dst bit_start bit_end) m =
     (let byte_offset = dst - dst_meta_start_addr; src = src_meta_start_addr + byte_offset;
          msk = NOT (unwrap_or (checked_shl_u8 0xff bit_end) 0) AND push_bit bit_start 0xff;
          old_src = u8_load src m; old_dst = u8_load dst m;
          new = (old_src AND msk) OR (old_dst AND NOT msk)
      in (False, u8_store dst new m))"

definition bcopy_metadata_contiguous :: "side_metadata_spec \<Rightarrow> address \<Rightarrow> usize \<Rightarrow> side_metadata_spec \<Rightarrow> byte_mem \<Rightarrow> byte_mem" where
  "bcopy_metadata_contiguous s start sz other m =
     (let dst_meta_start_addr = address_to_meta_address s start;
          dst_meta_start_bit = meta_byte_lshift s start;
          dst_meta_end_addr = address_to_meta_address s (start + sz);
          dst_meta_end_bit = meta_byte_lshift s (start + sz);
          src_meta_start_addr = address_to_meta_address other start
      in snd (break_bit_range dst_meta_start_addr dst_meta_start_bit dst_meta_end_addr dst_meta_end_bit True
           (copy_visitor dst_meta_start_addr src_meta_start_addr) m))"

text \<open>The byte array view: a base address, with the number of entries as a bound.\<close>

record metadata_byte_array_ref =
  mba_data :: address
  mba_entries :: nat

definition mba_new :: "nat \<Rightarrow> side_metadata_spec \<Rightarrow> address \<Rightarrow> usize \<Rightarrow> metadata_byte_array_ref" where
  "mba_new entries metadata_spec start bytes =
     \<lparr>mba_data = address_to_meta_address metadata_spec start, mba_entries = entries\<rparr>"

definition mba_len :: "metadata_byte_array_ref \<Rightarrow> nat" where
  "mba_len a = mba_entries a"

definition mba_get :: "metadata_byte_array_ref \<Rightarrow> nat \<Rightarrow> byte_mem \<Rightarrow> u8" where
  "mba_get a index m = m (mba_data a + of_nat index)"

definition mba_set :: "metadata_byte_array_ref \<Rightarrow> nat \<Rightarrow> u8 \<Rightarrow> byte_mem \<Rightarrow> byte_mem option" where
  "mba_set a index value m = (if index < mba_entries a then Some (m(mba_data a + of_nat index := value)) else None)"

section \<open>Visiting bits\<close>

definition in_range :: "nat \<Rightarrow> nat \<Rightarrow> address \<Rightarrow> nat \<Rightarrow> bool" where
  "in_range p q x j \<longleftrightarrow> p \<le> bit_pos x j \<and> bit_pos x j < q"

lemma covers_le: "covers p rs q \<Longrightarrow> p \<le> q"
proof (induction rs arbitrary: p)
  case (Cons r rs)
  have "range_lo r < range_hi r" using Cons.prems by (cases r) (auto simp: bit_pos_def word_less_nat_alt)
  with Cons show ?case by fastforce
qed simp

text \<open>
  A visitor that gives the bits of each range the values \<open>g\<close> gives them to the whole interval, as long as it
  only needs the bits outside the interval to be unchanged.
\<close>

lemma visit_bits:
  assumes "covers p rs q" "P \<le> p" "q \<le> Q"
    and "\<And>r m'. range_ok r \<Longrightarrow> P \<le> range_lo r \<Longrightarrow> range_hi r \<le> Q \<Longrightarrow>
      (\<And>x j. j < 8 \<Longrightarrow> \<not> in_range P Q x j \<Longrightarrow> bit (m' x) j = bit (m0 x) j) \<Longrightarrow>
      \<not> fst (v r m') \<and> (\<forall>x j. j < 8 \<longrightarrow> bit (snd (v r m') x) j = (if in_range (range_lo r) (range_hi r) x j then g x j else bit (m' x) j))"
    and "\<And>x j. j < 8 \<Longrightarrow> \<not> in_range P Q x j \<Longrightarrow> bit (m x) j = bit (m0 x) j" "j < 8"
  shows "bit (snd (visit_until v rs m) x) j = (if in_range p q x j then g x j else bit (m x) j)"
  using assms(1,2,5)
proof (induction rs arbitrary: p m)
  case Nil
  then show ?case by (auto simp: in_range_def)
next
  case (Cons r rs)
  then have r: "range_lo r = p" "range_ok r" "covers (range_hi r) rs q" by simp_all
  have lt: "range_lo r < range_hi r" using r(2) by (cases r) (auto simp: bit_pos_def word_less_nat_alt)
  have q: "range_hi r \<le> q" by (rule covers_le [OF r(3)])
  obtain b m' where v: "v r m = (b, m')" by (cases "v r m")
  have vr: "\<not> fst (v r m)"
    "\<And>x j. j < 8 \<Longrightarrow> bit (snd (v r m) x) j = (if in_range (range_lo r) (range_hi r) x j then g x j else bit (m x) j)"
    using assms(4) [OF r(2), of m] Cons.prems(2,3) r(1) q assms(3) by auto
  have out: "\<And>x j. j < 8 \<Longrightarrow> \<not> in_range P Q x j \<Longrightarrow> bit (m' x) j = bit (m0 x) j"
    using vr(2) Cons.prems(2,3) r(1) q assms(3) v by (auto simp: in_range_def)
  have "bit (snd (visit_until v rs m') x) j = (if in_range (range_hi r) q x j then g x j else bit (m' x) j)"
    using Cons.IH [OF r(3) _ out] Cons.prems(2) r(1) lt by simp
  moreover have "bit (m' x) j = (if in_range p (range_hi r) x j then g x j else bit (m x) j)"
    using vr(2) [OF assms(6), of x] v r(1) by simp
  ultimately show ?case using v vr(1) q lt r(1) by (auto simp: in_range_def)
qed

lemma in_range_bytes:
  assumes "s < e" "j < 8"
  shows "in_range (bit_pos s 0) (bit_pos e 0) x j \<longleftrightarrow> x - s < e - s"
proof -
  have "unat (e - s) = unat e - unat s" using assms(1) by (simp add: unat_sub less_imp_le)
  moreover have "unat (x - s) = (if unat s \<le> unat x then unat x - unat s else unat x + 2 ^ 64 - unat s)"
    using unat_sub_if_size [of x s] by (simp add: word_size)
  ultimately show ?thesis
    using assms unat_less_64 [of e] unat_less_64 [of s] unfolding in_range_def bit_pos_def word_less_nat_alt by auto
qed

lemma in_range_bits:
  assumes "s < e" "e \<le> 8" "j < 8"
  shows "in_range (bit_pos a s) (bit_pos a e) x j \<longleftrightarrow> x = a \<and> s \<le> j \<and> j < e"
proof -
  have "x = a" if "8 * unat a + s \<le> 8 * unat x + j" "8 * unat x + j < 8 * unat a + e"
  proof -
    have "unat x = unat a" using that assms by linarith
    then show ?thesis by (simp add: word_unat_eq_iff)
  qed
  then show ?thesis by (auto simp: in_range_def bit_pos_def)
qed

lemma bit_masks:
  assumes "s < e" "e \<le> 8" "j < 8"
  shows "bit (unwrap_or (checked_shl_u8 0xff e) 0 OR NOT (push_bit s 0xff)) j \<longleftrightarrow> \<not> (s \<le> j \<and> j < e)"
    "bit (NOT (unwrap_or (checked_shl_u8 0xff e) 0) AND push_bit s 0xff) j \<longleftrightarrow> s \<le> j \<and> j < e"
proof -
  have ff: "bit (0xff :: u8) n \<longleftrightarrow> n < 8" for n
    using bit_mask_iff [where 'a = u8, of 8 n] by (simp add: mask_numeral)
  have "bit (unwrap_or (checked_shl_u8 0xff e) 0) j \<longleftrightarrow> e \<le> j"
    using assms ff [of "j - e"] by (auto simp: unwrap_or_def checked_shl_u8_def bit_push_bit_iff)
  moreover have "bit (push_bit s (0xff :: u8)) j \<longleftrightarrow> s \<le> j" using assms ff [of "j - s"] by (auto simp: bit_push_bit_iff)
  ultimately show "bit (unwrap_or (checked_shl_u8 0xff e) 0 OR NOT (push_bit s 0xff)) j \<longleftrightarrow> \<not> (s \<le> j \<and> j < e)"
    "bit (NOT (unwrap_or (checked_shl_u8 0xff e) 0) AND push_bit s 0xff) j \<longleftrightarrow> s \<le> j \<and> j < e"
    using assms(3) by (auto simp: bit_or_iff bit_and_iff bit_not_iff)
qed

lemma visitors_continue:
  "\<not> fst (zero_visitor r m)" "\<not> fst (set_visitor r m)" "\<not> fst (copy_visitor dst src r m)"
  by (cases r; simp add: Let_def)+

lemma zero_visitor_bits:
  assumes "range_ok r" "j < 8"
  shows "bit (snd (zero_visitor r m) x) j = (if in_range (range_lo r) (range_hi r) x j then False else bit (m x) j)"
proof (cases r)
  case (Bytes s e)
  with assms show ?thesis by (simp add: in_range_bytes mem_zero_def mem_set_def)
next
  case (BitsInByte a s e)
  with assms show ?thesis by (simp add: in_range_bits u8_fetch_and_def bit_and_iff [of "m a"] bit_masks(1))
qed

lemma set_visitor_bits:
  assumes "range_ok r" "j < 8"
  shows "bit (snd (set_visitor r m) x) j = (if in_range (range_lo r) (range_hi r) x j then True else bit (m x) j)"
proof (cases r)
  case (Bytes s e)
  have "bit (0xff :: u8) j" using assms(2) bit_mask_iff [where 'a = u8, of 8 j] by (simp add: mask_numeral)
  with Bytes assms show ?thesis by (simp add: in_range_bytes mem_set_def)
next
  case (BitsInByte a s e)
  with assms show ?thesis by (auto simp: in_range_bits u8_fetch_or_def bit_or_iff [of "m a"] bit_masks(2))
qed

lemma zero_meta_bits_at:
  assumes "sb < 8" "eb < 8" "bit_pos sa sb \<le> bit_pos ea eb" "j < 8"
  shows "bit (zero_meta_bits sa sb ea eb m x) j = (if in_range (bit_pos sa sb) (bit_pos ea eb) x j then False else bit (m x) j)"
  unfolding zero_meta_bits_def break_bit_range_visits if_True
  by (rule visit_bits [OF break_ranges_cover [OF assms(1-3)] order_refl order_refl]) (simp_all add: zero_visitor_bits visitors_continue assms)

lemma set_meta_bits_at:
  assumes "sb < 8" "eb < 8" "bit_pos sa sb \<le> bit_pos ea eb" "j < 8"
  shows "bit (set_meta_bits sa sb ea eb m x) j = (if in_range (bit_pos sa sb) (bit_pos ea eb) x j then True else bit (m x) j)"
  unfolding set_meta_bits_def break_bit_range_visits if_True
  by (rule visit_bits [OF break_ranges_cover [OF assms(1-3)] order_refl order_refl]) (simp_all add: set_visitor_bits visitors_continue assms)

section \<open>The bits of a data range\<close>

lemma meta_pos_le:
  assumes "spec_ok s" "unat d \<le> 2 ^ 47"
  shows "meta_pos s d \<le> 8 * 2 ^ (LOG_ARCH_ADDRESS_SPACE - log_data_meta_ratio s)"
proof -
  have "(2 :: nat) ^ 47 = 2 ^ (47 - log_bytes_in_region s) * 2 ^ log_bytes_in_region s"
    using assms(1) by (simp add: spec_ok_def power_add [symmetric])
  then have "region_index s d \<le> 2 ^ (47 - log_bytes_in_region s)"
    using div_le_mono [OF assms(2), of "2 ^ log_bytes_in_region s"] unfolding region_index_def
    by (metis nonzero_mult_div_cancel_right power_not_zero zero_neq_numeral)
  then show ?thesis unfolding meta_pos_def spec_ok_ratio(2) [OF assms(1)] by (rule mult_le_mono1)
qed

lemma meta_bit_pos:
  assumes "spec_ok s" "table_end s < 2 ^ 64" "unat d \<le> 2 ^ 47"
  shows "bit_pos (address_to_meta_address s d) (meta_byte_lshift s d) = 8 * unat (spec_offset s) + meta_pos s d"
proof -
  have "meta_pos s d div 8 \<le> 2 ^ (LOG_ARCH_ADDRESS_SPACE - log_data_meta_ratio s)" using meta_pos_le [OF assms(1,3)] by linarith
  then have "unat (spec_offset s) + meta_pos s d div 8 < 2 ^ 64"
    using assms(2) unfolding table_end_def table_size [OF assms(1)] by linarith
  from bit_at_pos [OF this] show ?thesis by (simp add: bit_at_def meta_address_pos meta_shift_pos)
qed

lemma meta_pos_mono: "unat d \<le> unat d' \<Longrightarrow> meta_pos s d \<le> meta_pos s d'"
  by (simp add: meta_pos_def region_index_def div_le_mono)

lemma region_in_range:
  fixes a b c n i :: nat
  assumes "i < n"
  shows "a * n \<le> c * n + i \<and> c * n + i < b * n \<longleftrightarrow> a \<le> c \<and> c < b"
proof -
  have "a * n \<le> c * n + i \<longleftrightarrow> a \<le> c"
  proof
    assume h: "a * n \<le> c * n + i"
    have "a * n < (c + 1) * n" using h assms by simp
    then show "a \<le> c" by (simp add: less_Suc_eq_le del: mult_Suc)
  next
    assume "a \<le> c"
    then have "a * n \<le> c * n" by (rule mult_le_mono1)
    then show "a * n \<le> c * n + i" by (rule trans_le_add1)
  qed
  moreover have "c * n + i < b * n \<longleftrightarrow> c < b"
  proof
    assume "c * n + i < b * n"
    then have "c * n < b * n" by linarith
    then show "c < b" by simp
  next
    assume "c < b"
    then have "(c + 1) * n \<le> b * n" by (intro mult_le_mono1) simp
    then show "c * n + i < b * n" using assms by simp
  qed
  ultimately show ?thesis by blast
qed

text \<open>A data range and the metadata it has: the regions from that of its start up to that of its end.\<close>

definition data_range_ok :: "side_metadata_spec \<Rightarrow> address \<Rightarrow> usize \<Rightarrow> bool" where
  "data_range_ok s start sz \<longleftrightarrow> spec_ok s \<and> table_end s < 2 ^ 64 \<and> unat start + unat sz \<le> 2 ^ 47"

definition in_regions :: "side_metadata_spec \<Rightarrow> address \<Rightarrow> usize \<Rightarrow> address \<Rightarrow> bool" where
  "in_regions s start sz d \<longleftrightarrow> region_index s start \<le> region_index s d \<and> region_index s d < region_index s (start + sz)"

lemma data_range_end: "data_range_ok s start sz \<Longrightarrow> unat (start + sz) = unat start + unat sz"
  by (rule unat_add_64) (simp add: data_range_ok_def)

lemma data_range_pos:
  assumes "data_range_ok s start sz"
  shows "bit_pos (address_to_meta_address s start) (meta_byte_lshift s start) = 8 * unat (spec_offset s) + meta_pos s start"
    "bit_pos (address_to_meta_address s (start + sz)) (meta_byte_lshift s (start + sz)) = 8 * unat (spec_offset s) + meta_pos s (start + sz)"
    "meta_pos s start \<le> meta_pos s (start + sz)"
    "meta_byte_lshift s start < 8" "meta_byte_lshift s (start + sz) < 8"
proof -
  show "bit_pos (address_to_meta_address s start) (meta_byte_lshift s start) = 8 * unat (spec_offset s) + meta_pos s start"
    "bit_pos (address_to_meta_address s (start + sz)) (meta_byte_lshift s (start + sz)) = 8 * unat (spec_offset s) + meta_pos s (start + sz)"
    using assms data_range_end [OF assms] by (auto simp: data_range_ok_def intro!: meta_bit_pos)
  show "meta_pos s start \<le> meta_pos s (start + sz)" by (rule meta_pos_mono) (simp add: data_range_end [OF assms])
  show "meta_byte_lshift s start < 8" "meta_byte_lshift s (start + sz) < 8" by (simp_all add: meta_shift_pos)
qed

text \<open>
  What a bulk update that gives the bits of the interval the values \<open>g\<close> means for loads: the loads of the
  regions in the range read \<open>g\<close>, the others are unchanged.
\<close>

lemma side_load_bits:
  assumes "data_range_ok s start sz" "assert_value_type T s" "unat d < 2 ^ 47"
    and "\<And>x j. j < 8 \<Longrightarrow> bit (m' x) j = (if in_range (8 * unat (spec_offset s) + meta_pos s start)
      (8 * unat (spec_offset s) + meta_pos s (start + sz)) x j then g x j else bit (m x) j)"
  shows "bit (sm_load_atomic T s d m') i = (if in_regions s start sz d
      then i < 2 ^ log_num_of_bits s \<and> (case bit_at (spec_offset s) (meta_pos s d + i) of (x, j) \<Rightarrow> g x j)
      else bit (sm_load_atomic T s d m) i)"
proof (cases "i < 2 ^ log_num_of_bits s")
  case False
  have ok: "field_ok (side_cell (T, s, d))" using side.cell_ok [of "(T, s, d)"] assms(1,2) by (simp add: side_valid_def data_range_ok_def)
  with False show ?thesis by (simp add: side_load_field bit_field_get side_width [OF assms(2)])
next
  case True
  let ?p = "meta_pos s d + i" and ?o = "8 * unat (spec_offset s)"
  have sp: "spec_ok s" "table_end s < 2 ^ 64" using assms(1) by (simp_all add: data_range_ok_def)
  have ok: "field_ok (side_cell (T, s, d))" using side.cell_ok [of "(T, s, d)"] sp assms(2) by (simp add: side_valid_def)
  obtain x j where xj: "bit_at (spec_offset s) ?p = (x, j)" by (cases "bit_at (spec_offset s) ?p")
  then have j: "j < 8" by (auto simp: bit_at_def)
  have val: "bit (sm_load_atomic T s d n) i = bit (n x) j" for n
    using True xj by (simp add: side_load_field bit_field_get [OF ok] side_width [OF assms(2)] side_field_pos [OF assms(2) True])
  have "?p < 8 * 2 ^ (LOG_ARCH_ADDRESS_SPACE - log_data_meta_ratio s)" using meta_pos_less [OF sp(1) assms(3)] True by simp
  then have "?p div 8 < 2 ^ (LOG_ARCH_ADDRESS_SPACE - log_data_meta_ratio s)" by (simp add: less_mult_imp_div_less mult.commute)
  then have "unat (spec_offset s) + ?p div 8 < 2 ^ 64"
    using sp(2) unfolding table_end_def table_size [OF sp(1)] by linarith
  then have "bit_pos x j = ?o + ?p" using bit_at_pos [of "spec_offset s" ?p] xj by simp
  then have "in_range (?o + meta_pos s start) (?o + meta_pos s (start + sz)) x j \<longleftrightarrow> in_regions s start sz d"
    using region_in_range [OF True, of "region_index s start" "region_index s d" "region_index s (start + sz)"]
    by (simp add: in_range_def in_regions_def meta_pos_def)
  then show ?thesis using True val assms(4) [OF j, of x] xj by simp
qed

lemma bulk_update_bits:
  assumes "data_range_ok s start sz" "j < 8"
    and "\<And>sa sb ea eb m x j. sb < 8 \<Longrightarrow> eb < 8 \<Longrightarrow> bit_pos sa sb \<le> bit_pos ea eb \<Longrightarrow> j < 8 \<Longrightarrow>
      bit (update sa sb ea eb m x) j = (if in_range (bit_pos sa sb) (bit_pos ea eb) x j then b else bit (m x) j)"
  shows "bit (bulk_update_metadata s start sz update m x) j = (if in_range (8 * unat (spec_offset s) + meta_pos s start)
      (8 * unat (spec_offset s) + meta_pos s (start + sz)) x j then b else bit (m x) j)"
proof (cases "sz = 0")
  case True
  then show ?thesis by (auto simp: bulk_update_metadata_def in_range_def)
next
  case False
  note p = data_range_pos [OF assms(1)]
  show ?thesis using False assms(3) [OF p(4,5) _ assms(2), of _ _ m x] p(1-3)
    by (simp add: bulk_update_metadata_def)
qed

lemma outside_table:
  assumes "data_range_ok s start sz" "\<not> (unat (spec_offset s) \<le> unat x \<and> unat x < table_end s)" "j < 8"
  shows "\<not> in_range (8 * unat (spec_offset s) + meta_pos s start) (8 * unat (spec_offset s) + meta_pos s (start + sz)) x j"
proof -
  have "spec_ok s" "unat (start + sz) \<le> 2 ^ 47" using assms(1) data_range_end [OF assms(1)] by (simp_all add: data_range_ok_def)
  from meta_pos_le [OF this] have "8 * unat (spec_offset s) + meta_pos s (start + sz) \<le> 8 * table_end s"
    unfolding table_end_def table_size [OF \<open>spec_ok s\<close>] by simp
  then show ?thesis using assms(2,3) unfolding in_range_def bit_pos_def by linarith
qed

lemma byte_eqI: "(\<And>j. j < 8 \<Longrightarrow> bit a j = bit b j) \<Longrightarrow> a = (b :: u8)"
  by (rule bit_word_eqI) auto

section \<open>Properties\<close>

text \<open>
  C8. Clearing the metadata of a data range sets the value of every region from that of the start up to that
  of the end to zero, setting it sets every bit of these values, and both leave all other regions and all memory
  outside the table unchanged, whether or not the bits start or end at a byte.
\<close>

theorem bulk_update_exact:
  assumes "data_range_ok s start sz" "assert_value_type T s"
  shows "(\<forall>d. unat d < 2 ^ 47 \<longrightarrow>
      sm_load_atomic T s d (bzero_metadata s start sz m) = (if in_regions s start sz d then 0 else sm_load_atomic T s d m) \<and>
      sm_load_atomic T s d (bset_metadata s start sz m) = (if in_regions s start sz d then mask (2 ^ log_num_of_bits s) else sm_load_atomic T s d m)) \<and>
    (\<forall>x. \<not> (unat (spec_offset s) \<le> unat x \<and> unat x < table_end s) \<longrightarrow>
      bzero_metadata s start sz m x = m x \<and> bset_metadata s start sz m x = m x)"
proof -
  note z = bulk_update_bits [where update = zero_meta_bits and b = False, OF assms(1) _ zero_meta_bits_at]
    and o = bulk_update_bits [where update = set_meta_bits and b = True, OF assms(1) _ set_meta_bits_at]
  have lim: "i < 64" if "i < 2 ^ log_num_of_bits s" for i :: nat
  proof -
    have "(2 :: nat) ^ log_num_of_bits s \<le> 2 ^ 6" using assms(1) by (intro power_increasing) (auto simp: data_range_ok_def spec_ok_def)
    with that show ?thesis by simp
  qed
  have "sm_load_atomic T s d (bzero_metadata s start sz m) = (if in_regions s start sz d then 0 else sm_load_atomic T s d m)"
    if "unat d < 2 ^ 47" for d
    unfolding bzero_metadata_def
    by (rule bit_word_eqI) (simp add: side_load_bits [OF assms that z] split: prod.splits)
  moreover have "sm_load_atomic T s d (bset_metadata s start sz m) =
      (if in_regions s start sz d then mask (2 ^ log_num_of_bits s) else sm_load_atomic T s d m)" if "unat d < 2 ^ 47" for d
    unfolding bset_metadata_def
    by (rule bit_word_eqI) (use lim in \<open>auto simp: side_load_bits [OF assms that o] bit_mask_iff split: prod.splits\<close>)
  moreover have "bzero_metadata s start sz m x = m x \<and> bset_metadata s start sz m x = m x"
    if "\<not> (unat (spec_offset s) \<le> unat x \<and> unat x < table_end s)" for x
    unfolding bzero_metadata_def bset_metadata_def using outside_table [OF assms(1) that] z o by (auto intro!: byte_eqI)
  ultimately show ?thesis by blast
qed

theorem bulk_update_exact_witness:
  "sm_load_atomic U8 colors 0x20000001240 (bzero_metadata colors 0x20000001238 16 (\<lambda>_. 0xff)) = 0 \<and>
   sm_load_atomic U8 colors 0x20000001240 (bset_metadata colors 0x20000001238 16 (\<lambda>_. 0)) = 3 \<and>
   bzero_metadata colors 0x20000001238 16 (\<lambda>_. 0xff) 0 = 0xff"
proof -
  have ok: "data_range_ok colors 0x20000001238 16"
    by (simp add: data_range_ok_def colors_ok table_end_def table_size [OF colors_ok(2)])
      (simp add: colors_def spec_at_def log_data_meta_ratio_def LOG_ARCH_ADDRESS_SPACE_def)
  have o: "unat (spec_offset colors) = 0xd0000000000" by (simp add: colors_def spec_at_def)
  from bulk_update_exact [OF ok colors_ok(1), of "\<lambda>_. 0xff"] bulk_update_exact [OF ok colors_ok(1), of "\<lambda>_. 0"] show ?thesis
    by (simp add: in_regions_def region_index_def colors_ok o mask_eq_exp_minus_1)
qed

text \<open>Copying: the source of every byte of the interval is the same byte of the other table.\<close>

definition tables_apart :: "side_metadata_spec \<Rightarrow> side_metadata_spec \<Rightarrow> bool" where
  "tables_apart s t \<longleftrightarrow> table_end s \<le> unat (spec_offset t) \<or> table_end t \<le> unat (spec_offset s)"

definition same_shape :: "side_metadata_spec \<Rightarrow> side_metadata_spec \<Rightarrow> bool" where
  "same_shape s t \<longleftrightarrow> log_num_of_bits s = log_num_of_bits t \<and> log_bytes_in_region s = log_bytes_in_region t"

lemma same_shape_pos:
  assumes "same_shape s t"
  shows "meta_pos s d = meta_pos t d" "log_data_meta_ratio s = log_data_meta_ratio t" "assert_value_type T s = assert_value_type T t"
    "spec_ok s = spec_ok t"
proof -
  show r: "log_data_meta_ratio s = log_data_meta_ratio t" using assms by (simp add: same_shape_def log_data_meta_ratio_def)
  show "meta_pos s d = meta_pos t d" using assms by (simp add: same_shape_def meta_pos_def region_index_def)
  show "assert_value_type T s = assert_value_type T t" using assms by (simp add: same_shape_def assert_value_type_def)
  show "spec_ok s = spec_ok t" using assms r by (simp add: same_shape_def spec_ok_def)
qed

lemma copy_source_outside:
  assumes "data_range_ok s start sz" "data_range_ok t start sz" "same_shape s t" "tables_apart s t" "j < 8"
    and "in_range (8 * unat (spec_offset s) + meta_pos s start) (8 * unat (spec_offset s) + meta_pos s (start + sz)) x j"
  shows "\<not> in_range (8 * unat (spec_offset s) + meta_pos s start) (8 * unat (spec_offset s) + meta_pos s (start + sz))
    (spec_offset t + (x - spec_offset s)) j"
proof -
  have ok: "spec_ok s" "spec_ok t" "table_end t < 2 ^ 64" using assms(1,2) by (simp_all add: data_range_ok_def)
  have x: "unat (spec_offset s) \<le> unat x" "unat x < table_end s"
    using outside_table [OF assms(1) _ assms(5), of x] assms(6) by blast+
  then have "unat (x - spec_offset s) = unat x - unat (spec_offset s)" by (simp add: unat_sub word_le_nat_alt)
  then have u: "unat (x - spec_offset s) < 2 ^ (LOG_ARCH_ADDRESS_SPACE - log_data_meta_ratio t)"
    using x unfolding table_end_def table_size [OF ok(1)] same_shape_pos(2) [OF assms(3)] by linarith
  have e: "table_end t = unat (spec_offset t) + 2 ^ (LOG_ARCH_ADDRESS_SPACE - log_data_meta_ratio t)"
    by (simp add: table_end_def table_size [OF ok(2)])
  have "unat (spec_offset t + (x - spec_offset s)) = unat (spec_offset t) + unat (x - spec_offset s)"
    by (rule unat_add_64) (use u e ok(3) in linarith)
  then have "unat (spec_offset t) \<le> unat (spec_offset t + (x - spec_offset s))"
    "unat (spec_offset t + (x - spec_offset s)) < table_end t" using u e by linarith+
  then show ?thesis using outside_table [OF assms(1) _ assms(5)] assms(4) unfolding tables_apart_def by fastforce
qed

lemma copy_visitor_bits:
  assumes "range_ok r" "j < 8"
  shows "bit (snd (copy_visitor dst src r m) x) j =
    (if in_range (range_lo r) (range_hi r) x j then bit (m (src + (x - dst))) j else bit (m x) j)"
proof (cases r)
  case (Bytes a e)
  with assms show ?thesis by (simp add: in_range_bytes mem_copy_def algebra_simps)
next
  case (BitsInByte a s e)
  with assms show ?thesis
    by (auto simp: in_range_bits u8_load_def u8_store_def Let_def bit_or_iff [of "_ AND _"] bit_and_iff [of "m _"] bit_not_iff
        bit_masks)
qed

lemma bcopy_bits:
  assumes "data_range_ok s start sz" "data_range_ok t start sz" "same_shape s t" "tables_apart s t" "j < 8"
  shows "bit (bcopy_metadata_contiguous s start sz t m x) j = (if in_range (8 * unat (spec_offset s) + meta_pos s start)
      (8 * unat (spec_offset s) + meta_pos s (start + sz)) x j then bit (m (spec_offset t + (x - spec_offset s))) j else bit (m x) j)"
proof -
  let ?P = "8 * unat (spec_offset s) + meta_pos s start" and ?Q = "8 * unat (spec_offset s) + meta_pos s (start + sz)"
  let ?dst = "address_to_meta_address s start" and ?src = "address_to_meta_address t start"
  note p = data_range_pos [OF assms(1)]
  have src: "?src + (y - ?dst) = spec_offset t + (y - spec_offset s)" for y
    by (simp add: meta_address_pos same_shape_pos(1) [OF assms(3)] algebra_simps)
  have cov: "covers ?P (break_ranges ?dst (meta_byte_lshift s start) (address_to_meta_address s (start + sz)) (meta_byte_lshift s (start + sz))) ?Q"
    using break_ranges_cover [OF p(4,5), of ?dst "address_to_meta_address s (start + sz)"] p(1-3) by simp
  show ?thesis
    unfolding bcopy_metadata_contiguous_def Let_def break_bit_range_visits if_True
  proof (rule visit_bits [OF cov order_refl order_refl, where m0 = m])
    fix r and m' :: byte_mem assume r: "range_ok r" "?P \<le> range_lo r" "range_hi r \<le> ?Q"
      and out: "\<And>x j. j < 8 \<Longrightarrow> \<not> in_range ?P ?Q x j \<Longrightarrow> bit (m' x) j = bit (m x) j"
    have "bit (m' (spec_offset t + (x - spec_offset s))) j = bit (m (spec_offset t + (x - spec_offset s))) j"
      if "j < 8" "in_range (range_lo r) (range_hi r) x j" for x j
    proof (rule out [OF that(1)])
      have "in_range ?P ?Q x j" using that(2) r(2,3) by (auto simp: in_range_def)
      then show "\<not> in_range ?P ?Q (spec_offset t + (x - spec_offset s)) j"
        by (rule copy_source_outside [OF assms(1-4) that(1)])
    qed
    then show "\<not> fst (copy_visitor ?dst ?src r m') \<and> (\<forall>x j. j < 8 \<longrightarrow> bit (snd (copy_visitor ?dst ?src r m') x) j =
        (if in_range (range_lo r) (range_hi r) x j then bit (m (spec_offset t + (x - spec_offset s))) j else bit (m' x) j))"
      using visitors_continue(3) copy_visitor_bits [OF r(1)] by (simp add: src)
  qed (use assms(5) in simp_all)
qed

text \<open>
  C30. Copying the metadata of a data range from another table of the same shape gives every region of the
  range the value it has in the other table, and leaves all other regions and all memory outside the
  destination table unchanged.
\<close>

theorem bcopy_exact:
  assumes "data_range_ok s start sz" "data_range_ok t start sz" "same_shape s t" "tables_apart s t" "assert_value_type T s"
  shows "(\<forall>d. unat d < 2 ^ 47 \<longrightarrow> sm_load_atomic T s d (bcopy_metadata_contiguous s start sz t m) =
      (if in_regions s start sz d then sm_load_atomic T t d m else sm_load_atomic T s d m)) \<and>
    (\<forall>x. \<not> (unat (spec_offset s) \<le> unat x \<and> unat x < table_end s) \<longrightarrow> bcopy_metadata_contiguous s start sz t m x = m x)"
proof -
  note c = bcopy_bits [OF assms(1-4)]
  have T: "assert_value_type T t" using assms(3,5) by (simp add: same_shape_pos(3))
  have ok: "field_ok (side_cell (T, t, d))" for d
    using side.cell_ok [of "(T, t, d)"] T assms(2) by (simp add: side_valid_def data_range_ok_def)
  have bits: "log_num_of_bits s = log_num_of_bits t" using assms(3) by (simp add: same_shape_def)
  have "sm_load_atomic T s d (bcopy_metadata_contiguous s start sz t m) =
      (if in_regions s start sz d then sm_load_atomic T t d m else sm_load_atomic T s d m)" if "unat d < 2 ^ 47" for d
  proof (rule bit_word_eqI)
    fix i
    have "bit (sm_load_atomic T t d m) i \<longleftrightarrow> i < 2 ^ log_num_of_bits s \<and>
        (case bit_at (spec_offset s) (meta_pos s d + i) of (x, j) \<Rightarrow> bit (m (spec_offset t + (x - spec_offset s))) j)"
      using side_field_pos [OF T, of i d]
      by (auto simp: side_load_field bit_field_get [OF ok] side_width [OF T] bits same_shape_pos(1) [OF assms(3)] bit_at_def)
    then show "bit (sm_load_atomic T s d (bcopy_metadata_contiguous s start sz t m)) i =
        bit (if in_regions s start sz d then sm_load_atomic T t d m else sm_load_atomic T s d m) i"
      using side_load_bits [OF assms(1,5) that c] by simp
  qed
  moreover have "bcopy_metadata_contiguous s start sz t m x = m x"
    if "\<not> (unat (spec_offset s) \<le> unat x \<and> unat x < table_end s)" for x
    using outside_table [OF assms(1) that] c by (auto intro!: byte_eqI)
  ultimately show ?thesis by blast
qed

theorem bcopy_exact_witness:
  "let t = colors\<lparr>spec_offset := 0x200000000000\<rparr>;
       m = bcopy_metadata_contiguous colors 0x20000001238 16 t (\<lambda>x. if x < 0x100000000000 then 0xff else 0x55)
   in sm_load_atomic U8 colors 0x20000001240 m = 1 \<and> sm_load_atomic U8 colors 0x20000001248 m = 3"
proof -
  let ?t = "colors\<lparr>spec_offset := 0x200000000000\<rparr>"
  have t: "same_shape colors ?t" by (simp add: same_shape_def)
  then have ok: "spec_ok ?t" using same_shape_pos(4) [OF t] colors_ok(2) by simp
  have e: "table_end colors = 0xd0000000000 + 2 ^ 42" "table_end ?t = 0x200000000000 + 2 ^ 42"
    by (simp_all add: table_end_def table_size [OF colors_ok(2)] table_size [OF ok])
      (simp_all add: colors_def spec_at_def log_data_meta_ratio_def LOG_ARCH_ADDRESS_SPACE_def)
  have "data_range_ok colors 0x20000001238 16" "data_range_ok ?t 0x20000001238 16" "tables_apart colors ?t"
    by (simp_all add: data_range_ok_def colors_ok ok e tables_apart_def)
  from bcopy_exact [OF this(1,2) t this(3) colors_ok(1), of "\<lambda>x. if x < 0x100000000000 then 0xff else 0x55"] show ?thesis
    by (simp add: in_regions_def region_index_def colors_ok)
      (simp add: colors_def spec_at_def sm_load_atomic_def u8_load_def meta_byte_mask_def meta_byte_lshift_def from_u8_def
        address_to_meta_address_def address_to_contiguous_meta_address_def get_absolute_offset_def Let_def)
qed

end
