(* ===== verification/SideMetadata_Search.thy ===== *)
theory SideMetadata_Search
  imports SideMetadata_Bulk
begin

text \<open>
  Searching side metadata (\<open>side_metadata/helpers.rs\<close> and \<open>side_metadata/global.rs\<close>): the last region before
  an address with a value, and all regions of a range with a value, each in a simple and in a fast version.
  Whether an address is mapped is the state of the mmapper, an argument \<open>mapped\<close>. A callback appends to a
  list of the addresses it is called with.
\<close>

section \<open>Bits of a word\<close>

fun leading_zeros_from :: "nat \<Rightarrow> 'a :: len word \<Rightarrow> nat" where
  "leading_zeros_from 0 w = 0"
| "leading_zeros_from (Suc n) w = (if bit w n then 0 else Suc (leading_zeros_from n w))"

definition leading_zeros :: "'a :: len word \<Rightarrow> nat" where
  "leading_zeros w = leading_zeros_from LENGTH('a) w"

fun trailing_zeros_from :: "nat \<Rightarrow> nat \<Rightarrow> 'a :: len word \<Rightarrow> nat" where
  "trailing_zeros_from 0 i w = 0"
| "trailing_zeros_from (Suc n) i w = (if bit w i then 0 else Suc (trailing_zeros_from n (Suc i) w))"

definition trailing_zeros :: "'a :: len word \<Rightarrow> nat" where
  "trailing_zeros w = trailing_zeros_from LENGTH('a) 0 w"

definition find_last_non_zero_bit :: "'a :: len word \<Rightarrow> nat \<Rightarrow> nat \<Rightarrow> nat option" where
  "find_last_non_zero_bit val start end =
     (let msk = (if end - start < LENGTH('a) then push_bit start (push_bit (end - start) 1 - 1) else push_bit start (- 1));
          masked = val AND msk
      in if masked = 0 then None else Some (LENGTH('a) - leading_zeros masked - 1))"

section \<open>The last bit of a range\<close>

datatype find_meta_bit_result = Found address nat | NotFound | UnmappedMetadata

definition addr_is_mapped :: "(address \<Rightarrow> bool) \<Rightarrow> address \<Rightarrow> bool" where
  "addr_is_mapped mapped a \<longleftrightarrow> (if a = 0 then False else mapped a)"

function find_last_bytes_loop ::
  "(address \<Rightarrow> bool) \<Rightarrow> byte_mem \<Rightarrow> address \<Rightarrow> address \<Rightarrow> address \<Rightarrow> find_meta_bit_result option" where
  "find_last_bytes_loop mapped m meta_start cur mapped_chunk =
     (if cur > meta_start then
        (let step = (if is_aligned_to cur BYTES_IN_ADDRESS \<and> cur - BYTES_IN_ADDRESS \<ge> meta_start then BYTES_IN_ADDRESS else 1);
             cur = cur - step
         in if cur < mapped_chunk \<and> \<not> addr_is_mapped mapped cur then Some UnmappedMetadata
            else
              (let mapped_chunk = (if cur < mapped_chunk then align_down cur MMAP_CHUNK_BYTES else mapped_chunk)
               in if step = BYTES_IN_ADDRESS then
                    (let val = addr_load Usize cur m
                     in if val \<noteq> 0 then do {
                          b \<leftarrow> find_last_non_zero_bit val 0 64;
                          let byte_offset = drop_bit LOG_BITS_IN_BYTE b;
                          let bit_offset = b - push_bit LOG_BITS_IN_BYTE byte_offset;
                          Some (Found (cur + of_nat byte_offset) bit_offset) }
                        else find_last_bytes_loop mapped m meta_start cur mapped_chunk)
                  else
                    (let val = u8_load cur m
                     in case find_last_non_zero_bit val 0 8 of
                          Some b \<Rightarrow> Some (Found cur b)
                        | None \<Rightarrow> find_last_bytes_loop mapped m meta_start cur mapped_chunk)))
      else Some NotFound)"
  by pat_completeness auto

lemma aligned_word_ge: "is_aligned_to cur BYTES_IN_ADDRESS \<Longrightarrow> cur \<noteq> 0 \<Longrightarrow> 8 \<le> unat cur"
proof -
  assume a: "is_aligned_to cur BYTES_IN_ADDRESS" and n: "cur \<noteq> 0"
  have "8 dvd uint cur" using a raw_is_aligned_iff [of cur 3] by (simp add: is_aligned_to_def size_constants)
  then have "int 8 dvd int (unat cur)" by (simp only: uint_nat of_nat_numeral)
  then have "8 dvd unat cur" by (simp only: int_dvd_int_iff)
  moreover have "0 < unat cur" using n by (simp add: unat_gt_0)
  ultimately show ?thesis by (rule dvd_imp_le)
qed

lemma unat_sub_64: "unat b \<le> unat a \<Longrightarrow> unat (a - b :: usize) = unat a - unat b"
  by (simp add: unat_sub word_le_nat_alt)

lemma step_less:
  assumes "start < (cur :: usize)" "step = (if is_aligned_to cur BYTES_IN_ADDRESS \<and> c then BYTES_IN_ADDRESS else 1)"
  shows "unat (cur - step) = unat cur - unat step" "unat step \<le> unat cur" "0 < unat step"
proof -
  have "cur \<noteq> 0" using assms(1) by auto
  then have "0 < unat cur" by (simp add: unat_gt_0)
  then show le: "unat step \<le> unat cur" using aligned_word_ge [OF _ \<open>cur \<noteq> 0\<close>] unfolding assms(2) by (auto simp: size_constants)
  show "0 < unat step" unfolding assms(2) by (simp add: size_constants)
  show "unat (cur - step) = unat cur - unat step" by (rule unat_sub_64 [OF le])
qed

lemma step_measure:
  assumes "start < (cur :: usize)" "step = (if is_aligned_to cur BYTES_IN_ADDRESS \<and> c then BYTES_IN_ADDRESS else 1)" "next = cur - step"
  shows "((mapped, m, start, next, chunk), (mapped, m, start, cur, chunk')) \<in> measure (\<lambda>(mapped, m, start, cur, chunk). unat cur)"
  using step_less [OF assms(1,2)] assms(3) by simp

termination find_last_bytes_loop
  by (relation "measure (\<lambda>(mapped, m, start, cur, chunk). unat cur)") (simp, (rule step_measure; assumption)+)

declare find_last_bytes_loop.simps [simp del]

definition find_last_non_zero_bit_in_metadata_bytes ::
  "(address \<Rightarrow> bool) \<Rightarrow> byte_mem \<Rightarrow> address \<Rightarrow> address \<Rightarrow> find_meta_bit_result option" where
  "find_last_non_zero_bit_in_metadata_bytes mapped m meta_start meta_end =
     find_last_bytes_loop mapped m meta_start meta_end (- 1)"

definition find_last_non_zero_bit_in_metadata_bits ::
  "(address \<Rightarrow> bool) \<Rightarrow> byte_mem \<Rightarrow> address \<Rightarrow> nat \<Rightarrow> nat \<Rightarrow> find_meta_bit_result" where
  "find_last_non_zero_bit_in_metadata_bits mapped m addr start_bit end_bit =
     (if \<not> addr_is_mapped mapped addr then UnmappedMetadata
      else
        (let byte = u8_load addr m
         in case find_last_non_zero_bit byte start_bit end_bit of Some b \<Rightarrow> Found addr b | None \<Rightarrow> NotFound))"

section \<open>The last value before an address\<close>

text \<open>The loop of the simple version goes down by the size of a region; its result is undefined if it does not end.\<close>

partial_function (option) find_prev_simple_loop ::
  "(address \<Rightarrow> bool) \<Rightarrow> value_type \<Rightarrow> side_metadata_spec \<Rightarrow> byte_mem \<Rightarrow> address \<Rightarrow> address \<Rightarrow> address option option" where
  "find_prev_simple_loop mapped T s m end_addr cursor =
     (if cursor \<ge> end_addr then
        (if \<not> addr_is_mapped mapped cursor then Some None
         else if sm_load T s cursor m \<noteq> 0 then Some (Some cursor)
         else find_prev_simple_loop mapped T s m end_addr (cursor - push_bit (log_bytes_in_region s) 1))
      else Some None)"

definition find_prev_non_zero_value_simple ::
  "(address \<Rightarrow> bool) \<Rightarrow> value_type \<Rightarrow> side_metadata_spec \<Rightarrow> byte_mem \<Rightarrow> address \<Rightarrow> usize \<Rightarrow> address option option" where
  "find_prev_non_zero_value_simple mapped T s m data_addr search_limit_bytes =
     (let region_bytes = push_bit (log_bytes_in_region s) 1;
          start_addr = align_down data_addr region_bytes;
          end_addr = saturating_sub data_addr search_limit_bytes + 1
      in find_prev_simple_loop mapped T s m end_addr start_addr)"

text \<open>The state of the visitor is the result found so far; the outer level is lost when an unwrap fails.\<close>

fun handle_found :: "side_metadata_spec \<Rightarrow> find_meta_bit_result \<Rightarrow> address option option \<Rightarrow> bool \<times> address option option" where
  "handle_found s (Found addr b) res =
     (let (addr, b) = align_metadata_address s addr b in (True, Some (Some (contiguous_meta_address_to_address s addr b))))"
| "handle_found s UnmappedMetadata res = (True, res)"
| "handle_found s NotFound res = (False, res)"

fun find_prev_visitor ::
  "(address \<Rightarrow> bool) \<Rightarrow> side_metadata_spec \<Rightarrow> byte_mem \<Rightarrow> bit_byte_range \<Rightarrow> address option option \<Rightarrow> bool \<times> address option option" where
  "find_prev_visitor mapped s m (Bytes start end) res =
     (case find_last_non_zero_bit_in_metadata_bytes mapped m start end of
        None \<Rightarrow> (True, None)
      | Some r \<Rightarrow> handle_found s r res)"
| "find_prev_visitor mapped s m (BitsInByte addr bit_start bit_end) res =
     handle_found s (find_last_non_zero_bit_in_metadata_bits mapped m addr bit_start bit_end) res"

definition find_prev_non_zero_value_fast ::
  "(address \<Rightarrow> bool) \<Rightarrow> value_type \<Rightarrow> side_metadata_spec \<Rightarrow> byte_mem \<Rightarrow> address \<Rightarrow> usize \<Rightarrow> address option option" where
  "find_prev_non_zero_value_fast mapped T s m data_addr search_limit_bytes =
     (if \<not> addr_is_mapped mapped data_addr then Some None
      else if sm_load T s data_addr m \<noteq> 0 then Some (Some (align_down data_addr (push_bit (log_bytes_in_region s) 1)))
      else do {
        let start_addr = saturating_sub data_addr search_limit_bytes + 1;
        let end_addr = data_addr;
        let start_meta_addr = address_to_contiguous_meta_address s start_addr;
        let start_meta_shift = meta_byte_lshift s start_addr;
        let end_meta_addr = address_to_contiguous_meta_address s end_addr;
        let end_meta_shift = meta_byte_lshift s end_addr;
        let (_, st) = break_bit_range start_meta_addr start_meta_shift end_meta_addr end_meta_shift False
          (find_prev_visitor mapped s m) (Some None);
        res \<leftarrow> st;
        Some (case res of
            None \<Rightarrow> None
          | Some addr \<Rightarrow>
              (let addr = align_down addr (push_bit (log_bytes_in_region s) 1)
               in if addr \<ge> start_addr \<and> addr < end_addr then Some addr else None)) })"

definition find_prev_non_zero_value ::
  "(address \<Rightarrow> bool) \<Rightarrow> value_type \<Rightarrow> side_metadata_spec \<Rightarrow> byte_mem \<Rightarrow> address \<Rightarrow> usize \<Rightarrow> address option option" where
  "find_prev_non_zero_value mapped T s m data_addr search_limit_bytes =
     (if uses_contiguous_side_metadata s then find_prev_non_zero_value_fast mapped T s m data_addr search_limit_bytes
      else find_prev_non_zero_value_simple mapped T s m data_addr search_limit_bytes)"

section \<open>All values of a range\<close>

function scan_non_zero_bits_in_metadata_word :: "address \<Rightarrow> usize \<Rightarrow> (address \<times> nat) list" where
  "scan_non_zero_bits_in_metadata_word meta_addr w =
     (if w \<noteq> 0 then (meta_addr, trailing_zeros w) # scan_non_zero_bits_in_metadata_word meta_addr (w AND (w - 1)) else [])"
  by pat_completeness auto
termination
proof (relation "measure (\<lambda>(a, w). unat w)")
  fix w :: usize and a :: address assume "w \<noteq> 0"
  then have "0 < unat w" by (simp add: unat_gt_0)
  then have "w - 1 < w" using unat_sub_64 [of 1 w] by (simp add: word_less_nat_alt)
  moreover have "w AND (w - 1) \<le> w - 1" by (rule word_and_le1)
  ultimately show "((a, w AND (w - 1)), (a, w)) \<in> measure (\<lambda>(a, w). unat w)" by (simp add: word_less_nat_alt word_le_nat_alt)
qed simp

declare scan_non_zero_bits_in_metadata_word.simps [simp del]

text \<open>The three loops over the bytes: up to a word boundary, by words, and the remaining bytes.\<close>

partial_function (option) scan_head_loop :: "byte_mem \<Rightarrow> address \<Rightarrow> address \<Rightarrow> (address \<times> nat) list \<Rightarrow> (address \<times> (address \<times> nat) list) option" where
  "scan_head_loop m meta_end cursor visits =
     (if cursor < meta_end \<and> \<not> is_aligned_to cursor BYTES_IN_ADDRESS
      then scan_head_loop m meta_end (cursor + 1)
             (visits @ scan_non_zero_bits_in_metadata_word cursor (ucast (u8_load cursor m)))
      else Some (cursor, visits))"

partial_function (option) scan_word_loop :: "byte_mem \<Rightarrow> address \<Rightarrow> address \<Rightarrow> (address \<times> nat) list \<Rightarrow> (address \<times> (address \<times> nat) list) option" where
  "scan_word_loop m meta_end cursor visits =
     (if cursor + BYTES_IN_ADDRESS < meta_end
      then scan_word_loop m meta_end (cursor + BYTES_IN_ADDRESS)
             (visits @ scan_non_zero_bits_in_metadata_word cursor (addr_load Usize cursor m))
      else Some (cursor, visits))"

partial_function (option) scan_tail_loop :: "byte_mem \<Rightarrow> address \<Rightarrow> address \<Rightarrow> (address \<times> nat) list \<Rightarrow> (address \<times> nat) list option" where
  "scan_tail_loop m meta_end cursor visits =
     (if cursor < meta_end
      then scan_tail_loop m meta_end (cursor + 1)
             (visits @ scan_non_zero_bits_in_metadata_word cursor (ucast (u8_load cursor m)))
      else Some visits)"

definition scan_non_zero_bits_in_metadata_bytes :: "byte_mem \<Rightarrow> address \<Rightarrow> address \<Rightarrow> (address \<times> nat) list option" where
  "scan_non_zero_bits_in_metadata_bytes m meta_start meta_end = do {
     (cursor, visits) \<leftarrow> scan_head_loop m meta_end meta_start [];
     (cursor, visits) \<leftarrow> scan_word_loop m meta_end cursor visits;
     scan_tail_loop m meta_end cursor visits }"

definition scan_non_zero_bits_in_metadata_bits :: "byte_mem \<Rightarrow> address \<Rightarrow> nat \<Rightarrow> nat \<Rightarrow> (address \<times> nat) list" where
  "scan_non_zero_bits_in_metadata_bits m meta_addr bit_start bit_end =
     (let byte = u8_load meta_addr m
      in map (\<lambda>b. (meta_addr, b)) (filter (\<lambda>b. byte AND push_bit b 1 \<noteq> 0) [bit_start..<bit_end]))"

partial_function (option) scan_simple_loop ::
  "value_type \<Rightarrow> side_metadata_spec \<Rightarrow> byte_mem \<Rightarrow> address \<Rightarrow> address \<Rightarrow> address list \<Rightarrow> address list option" where
  "scan_simple_loop T s m data_end_addr cursor visits =
     (if cursor < data_end_addr
      then scan_simple_loop T s m data_end_addr (cursor + push_bit (log_bytes_in_region s) 1)
             (if sm_load T s cursor m \<noteq> 0 then visits @ [cursor] else visits)
      else Some visits)"

definition scan_non_zero_values_simple ::
  "value_type \<Rightarrow> side_metadata_spec \<Rightarrow> byte_mem \<Rightarrow> address \<Rightarrow> address \<Rightarrow> address list option" where
  "scan_non_zero_values_simple T s m data_start_addr data_end_addr = scan_simple_loop T s m data_end_addr data_start_addr []"

fun scan_visitor :: "side_metadata_spec \<Rightarrow> byte_mem \<Rightarrow> bit_byte_range \<Rightarrow> address list option \<Rightarrow> bool \<times> address list option" where
  "scan_visitor s m (Bytes start end) st =
     (False, do { visits \<leftarrow> st; bits \<leftarrow> scan_non_zero_bits_in_metadata_bytes m start end;
        Some (visits @ map (\<lambda>(addr, b). contiguous_meta_address_to_address s addr b) bits) })"
| "scan_visitor s m (BitsInByte addr bit_start bit_end) st =
     (False, do { visits \<leftarrow> st;
        Some (visits @ map (\<lambda>(addr, b). contiguous_meta_address_to_address s addr b)
          (scan_non_zero_bits_in_metadata_bits m addr bit_start bit_end)) })"

definition scan_non_zero_values_fast :: "side_metadata_spec \<Rightarrow> byte_mem \<Rightarrow> address \<Rightarrow> address \<Rightarrow> address list option" where
  "scan_non_zero_values_fast s m data_start_addr data_end_addr =
     (let start_meta_addr = address_to_contiguous_meta_address s data_start_addr;
          start_meta_shift = meta_byte_lshift s data_start_addr;
          end_meta_addr = address_to_contiguous_meta_address s data_end_addr;
          end_meta_shift = meta_byte_lshift s data_end_addr
      in snd (break_bit_range start_meta_addr start_meta_shift end_meta_addr end_meta_shift False (scan_visitor s m) (Some [])))"

definition scan_non_zero_values ::
  "value_type \<Rightarrow> side_metadata_spec \<Rightarrow> byte_mem \<Rightarrow> address \<Rightarrow> address \<Rightarrow> address list option" where
  "scan_non_zero_values T s m data_start_addr data_end_addr =
     (if uses_contiguous_side_metadata s \<and> log_num_of_bits s = 0
      then scan_non_zero_values_fast s m data_start_addr data_end_addr
      else scan_non_zero_values_simple T s m data_start_addr data_end_addr)"

end
