(* ===== verification/SideMetadata_Find.thy ===== *)
theory SideMetadata_Find
  imports SideMetadata_Search
begin

text \<open>
  Correctness of the search for the last value before an address: the fast version, which works on words
  and bytes of metadata bits, finds the same region as the simple version, which loads one value after the other.
\<close>

section \<open>The last bit of a word\<close>

lemma leading_zeros_from_bits:
  "leading_zeros_from n w \<le> n" "n - leading_zeros_from n w \<le> j \<Longrightarrow> j < n \<Longrightarrow> \<not> bit w j"
  "leading_zeros_from n w < n \<Longrightarrow> bit w (n - leading_zeros_from n w - 1)"
proof (induction n)
  case (Suc n)
  { case 1 then show ?case using Suc(1) by simp }
  { case 2 then show ?case using Suc(2) by (cases "j = n") (auto split: if_splits) }
  { case 3 then show ?case using Suc(3) by (auto split: if_splits) }
qed auto

lemma find_last_mask:
  fixes w :: "'a :: len word"
  assumes "s < e" "e \<le> LENGTH('a)" "j < LENGTH('a)"
  shows "bit (if e - s < LENGTH('a) then push_bit s (push_bit (e - s) 1 - 1) else push_bit s (- 1) :: 'a word) j \<longleftrightarrow> s \<le> j \<and> j < e"
proof -
  have m: "push_bit (e - s) 1 - 1 = (mask (e - s) :: 'a word)" by (simp add: push_bit_eq_mult mask_eq_exp_minus_1)
  show ?thesis unfolding m using assms by (auto simp: bit_simps)
qed

lemma leading_zeros_last:
  fixes v :: "'a :: len word"
  assumes "bit v j"
  shows "bit v (LENGTH('a) - leading_zeros v - 1)" "LENGTH('a) - leading_zeros v - 1 < i \<Longrightarrow> \<not> bit v i"
proof -
  note lz = leading_zeros_from_bits [of "LENGTH('a)" v, folded leading_zeros_def]
  have "j < LENGTH('a)" using assms by (rule bit_imp_le_length)
  with lz(2) [of j] assms have "leading_zeros v < LENGTH('a)" by (cases "LENGTH('a) \<le> leading_zeros v") auto
  then show "bit v (LENGTH('a) - leading_zeros v - 1)" by (rule lz(3))
  show "\<not> bit v i" if "LENGTH('a) - leading_zeros v - 1 < i"
    using lz(2) [of i] that bit_imp_le_length [of v i] by force
qed

lemma find_last_non_zero_bit_iff:
  fixes w :: "'a :: len word"
  assumes "s < e" "e \<le> LENGTH('a)"
  shows "find_last_non_zero_bit w s e = Some b \<longleftrightarrow> s \<le> b \<and> b < e \<and> bit w b \<and> (\<forall>j. b < j \<and> j < e \<longrightarrow> \<not> bit w j)"
    "find_last_non_zero_bit w s e = None \<longleftrightarrow> (\<forall>j. s \<le> j \<and> j < e \<longrightarrow> \<not> bit w j)"
proof -
  obtain v where v: "v = w AND (if e - s < LENGTH('a) then push_bit s (push_bit (e - s) 1 - 1) else push_bit s (- 1))" by blast
  have bv: "bit v j \<longleftrightarrow> bit w j \<and> s \<le> j \<and> j < e" for j
  proof (cases "j < LENGTH('a)")
    case True
    then show ?thesis using find_last_mask [OF assms True] by (simp only: v bit_and_iff)
  next
    case False
    then show ?thesis using assms(2) bit_imp_le_length [of w j] bit_imp_le_length [of v j] by auto
  qed
  have f: "find_last_non_zero_bit w s e = (if v = 0 then None else Some (LENGTH('a) - leading_zeros v - 1))"
    by (simp only: find_last_non_zero_bit_def Let_def v)
  have z: "v = 0 \<longleftrightarrow> (\<forall>j. \<not> bit v j)" by (auto simp: bit_eq_iff dest: bit_imp_le_length)
  show "find_last_non_zero_bit w s e = None \<longleftrightarrow> (\<forall>j. s \<le> j \<and> j < e \<longrightarrow> \<not> bit w j)"
    unfolding f using z bv by auto
  show "find_last_non_zero_bit w s e = Some b \<longleftrightarrow> s \<le> b \<and> b < e \<and> bit w b \<and> (\<forall>j. b < j \<and> j < e \<longrightarrow> \<not> bit w j)"
  proof (cases "v = 0")
    case True
    then show ?thesis using f z bv by auto
  next
    case False
    then obtain j where "bit v j" using z by blast
    note l = leading_zeros_last [OF this]
    let ?b = "LENGTH('a) - leading_zeros v - 1"
    have "b = ?b \<longleftrightarrow> bit v b \<and> (\<forall>j. b < j \<longrightarrow> \<not> bit v j)" using l by (metis linorder_neqE_nat)
    with False show ?thesis unfolding f using bv by auto
  qed
qed

section \<open>The last bit of memory\<close>

text \<open>A bit of memory by its position, and the last one that is set in an interval of positions.\<close>

definition abit :: "byte_mem \<Rightarrow> nat \<Rightarrow> bool" where
  "abit m p = bit (m (of_nat (p div 8))) (p mod 8)"

lemma abit_pos: "j < 8 \<Longrightarrow> abit m (bit_pos x j) = bit (m x) j"
  by (simp add: abit_def bit_pos_def)

fun last_abit :: "byte_mem \<Rightarrow> nat \<Rightarrow> nat \<Rightarrow> nat option" where
  "last_abit m p 0 = None"
| "last_abit m p (Suc q) = (if q < p then None else if abit m q then Some q else last_abit m p q)"

lemma last_abit_iff:
  "last_abit m p q = Some r \<longleftrightarrow> p \<le> r \<and> r < q \<and> abit m r \<and> (\<forall>r'. r < r' \<and> r' < q \<longrightarrow> \<not> abit m r')"
  "last_abit m p q = None \<longleftrightarrow> (\<forall>r. p \<le> r \<and> r < q \<longrightarrow> \<not> abit m r)"
proof (induction q)
  case (Suc q)
  { case 1 show ?case using Suc(1) by (auto simp: less_Suc_eq) }
  { case 2 show ?case using Suc(2) by (auto simp: less_Suc_eq not_less) }
qed auto

lemma last_abit_split:
  assumes "p \<le> r" "r \<le> q"
  shows "last_abit m p q = (case last_abit m r q of Some x \<Rightarrow> Some x | None \<Rightarrow> last_abit m p r)"
proof (cases "last_abit m r q")
  case (Some x)
  then have "last_abit m p q = Some x" using assms unfolding last_abit_iff by auto
  with Some show ?thesis by simp
next
  case None
  show ?thesis
  proof (cases "last_abit m p r")
    case (Some x)
    then have "last_abit m p q = Some x" using None assms unfolding last_abit_iff by (meson le_less_linear less_le_trans)
    with None Some show ?thesis by simp
  next
    case No: None
    then have "last_abit m p q = None" using None assms unfolding last_abit_iff by (meson le_less_linear)
    with None No show ?thesis by simp
  qed
qed

text \<open>The last bit of a word or of a byte is the last bit of its interval.\<close>

lemma last_abit_window:
  fixes w :: "'a :: len word"
  assumes "\<And>i. i < n \<Longrightarrow> abit m (p + i) = bit w (s + i)" "0 < n" "s + n \<le> LENGTH('a)"
  shows "last_abit m p (p + n) = map_option (\<lambda>b. p + (b - s)) (find_last_non_zero_bit w s (s + n))"
proof (cases "find_last_non_zero_bit w s (s + n)")
  case None
  then have "\<not> abit m (p + i)" if "i < n" for i using assms that by (simp add: find_last_non_zero_bit_iff)
  then have "last_abit m p (p + n) = None" unfolding last_abit_iff by (metis le_add_diff_inverse nat_add_left_cancel_less)
  with None show ?thesis by simp
next
  case (Some b)
  then have b: "s \<le> b" "b < s + n" "bit w b" "\<And>j. b < j \<Longrightarrow> j < s + n \<Longrightarrow> \<not> bit w j"
    using assms(2,3) by (auto simp: find_last_non_zero_bit_iff)
  have "abit m (p + (b - s))" using assms(1) [of "b - s"] b(1-3) by simp
  moreover have "\<not> abit m r" if "p + (b - s) < r" "r < p + n" for r
    using assms(1) [of "r - p"] b(4) [of "s + (r - p)"] b(1) that by simp
  ultimately have "last_abit m p (p + n) = Some (p + (b - s))" using b(1,2) by (auto simp: last_abit_iff)
  with Some show ?thesis by simp
qed

lemma last_abit_word:
  assumes "unat a + 8 \<le> 2 ^ 64"
  shows "last_abit m (8 * unat a) (8 * unat a + 64) = map_option (\<lambda>b. 8 * unat a + b) (find_last_non_zero_bit (addr_load Usize a m) 0 64)"
proof -
  have "abit m (8 * unat a + i) = bit (addr_load Usize a m) i" if "i < 64" for i
  proof -
    have "(8 * unat a + i) div 8 = unat a + i div 8" "(8 * unat a + i) mod 8 = i mod 8" by simp_all
    then show ?thesis using that by (simp add: abit_def addr_load_def bit_load_le)
  qed
  then show ?thesis using last_abit_window [where n = 64 and s = 0 and w = "addr_load Usize a m"] by simp
qed

lemma last_abit_byte:
  assumes "s < e" "e \<le> 8"
  shows "last_abit m (bit_pos a s) (bit_pos a e) = map_option (\<lambda>b. bit_pos a b) (find_last_non_zero_bit (m a) s e)"
proof -
  have "abit m (bit_pos a s + i) = bit (m a) (s + i)" if "i < e - s" for i
    using abit_pos [of "s + i" m a] that assms by (simp add: bit_pos_def add.assoc)
  from last_abit_window [where n = "e - s" and w = "m a" and s = s, OF this] assms
  have "last_abit m (bit_pos a s) (bit_pos a s + (e - s)) = map_option (\<lambda>b. bit_pos a s + (b - s)) (find_last_non_zero_bit (m a) s e)" by simp
  moreover have "bit_pos a s + (e - s) = bit_pos a e" using assms by (simp add: bit_pos_def)
  moreover have "map_option (\<lambda>b. bit_pos a s + (b - s)) (find_last_non_zero_bit (m a) s e) = map_option (bit_pos a) (find_last_non_zero_bit (m a) s e)"
    by (rule map_option_cong [OF refl]) (use assms in \<open>auto simp: find_last_non_zero_bit_iff bit_pos_def\<close>)
  ultimately show ?thesis by simp
qed

section \<open>The search in bytes and in ranges\<close>

fun found_at :: "nat option \<Rightarrow> find_meta_bit_result" where
  "found_at None = NotFound"
| "found_at (Some p) = Found (of_nat (p div 8)) (p mod 8)"

definition find_step :: "address \<Rightarrow> address \<Rightarrow> usize" where
  "find_step start cur = (if is_aligned_to cur BYTES_IN_ADDRESS \<and> start \<le> cur - BYTES_IN_ADDRESS then BYTES_IN_ADDRESS else 1)"

lemma find_step_bounds:
  assumes "start < cur"
  shows "start \<le> cur - find_step start cur" "cur - find_step start cur < cur" "unat (cur - find_step start cur) = unat cur - unat (find_step start cur)"
    "unat (find_step start cur) \<le> unat cur" "find_step start cur = 8 \<or> find_step start cur = 1"
proof -
  note sl = step_less [OF assms find_step_def [of start cur]]
  show "unat (cur - find_step start cur) = unat cur - unat (find_step start cur)" "unat (find_step start cur) \<le> unat cur"
    by (rule sl)+
  show c: "find_step start cur = 8 \<or> find_step start cur = 1" by (simp add: find_step_def size_constants)
  show "start \<le> cur - find_step start cur"
  proof (cases "is_aligned_to cur BYTES_IN_ADDRESS \<and> start \<le> cur - BYTES_IN_ADDRESS")
    case True
    then show ?thesis unfolding find_step_def by (simp only: if_True simp_thms)
  next
    case False
    then have "find_step start cur = 1" unfolding find_step_def by (simp only: if_False)
    with sl(1) assms show ?thesis by (simp add: word_le_nat_alt word_less_nat_alt)
  qed
  show "cur - find_step start cur < cur" using sl by (simp add: word_less_nat_alt)
qed

lemma find_last_bytes_unfold:
  "find_last_bytes_loop mapped m start cur chunk =
     (if start < cur then
        (let c = cur - find_step start cur in
         if c < chunk \<and> \<not> addr_is_mapped mapped c then Some UnmappedMetadata
         else
           (let chunk' = (if c < chunk then align_down c MMAP_CHUNK_BYTES else chunk) in
            if find_step start cur = BYTES_IN_ADDRESS then
              (if addr_load Usize c m \<noteq> 0 then do {
                 b \<leftarrow> find_last_non_zero_bit (addr_load Usize c m) 0 64;
                 Some (Found (c + of_nat (drop_bit LOG_BITS_IN_BYTE b)) (b - push_bit LOG_BITS_IN_BYTE (drop_bit LOG_BITS_IN_BYTE b))) }
               else find_last_bytes_loop mapped m start c chunk')
            else
              (case find_last_non_zero_bit (u8_load c m) 0 8 of
                 Some b \<Rightarrow> Some (Found c b)
               | None \<Rightarrow> find_last_bytes_loop mapped m start c chunk')))
      else Some NotFound)"
  by (subst find_last_bytes_loop.simps) (simp only: Let_def find_step_def [symmetric])

text \<open>One round of the loop looks at the bits between the old and the new cursor.\<close>

lemma find_last_bytes_round:
  assumes "start < cur" "c = cur - find_step start cur" "addr_is_mapped mapped c"
  shows "find_last_bytes_loop mapped m start cur chunk =
    (case last_abit m (8 * unat c) (8 * unat cur) of
       Some p \<Rightarrow> Some (found_at (Some p))
     | None \<Rightarrow> find_last_bytes_loop mapped m start c (if c < chunk then align_down c MMAP_CHUNK_BYTES else chunk))"
proof (cases "find_step start cur = 8")
  case True
  note fb = find_step_bounds [OF assms(1)]
  have b: "8 * unat cur = 8 * unat c + 64" using fb(3,4) True unfolding assms(2) by simp
  have "unat c + 8 \<le> 2 ^ 64" using fb(3,4) True unat_less_64 [of cur] unfolding assms(2) by simp
  note w = last_abit_word [OF this, of m]
  have nz: "addr_load Usize c m = 0 \<longleftrightarrow> find_last_non_zero_bit (addr_load Usize c m) 0 64 = None"
    by (simp add: find_last_non_zero_bit_def Let_def)
  have d: "(8 * unat c + i) div 8 = unat c + i div 8" "(8 * unat c + i) mod 8 = i mod 8" "i - i div 8 * 8 = i mod 8" for i
    by (simp_all add: minus_div_mult_eq_mod)
  have "find_step start cur = BYTES_IN_ADDRESS" using True by (simp add: size_constants)
  moreover from this have "cur - BYTES_IN_ADDRESS = c" unfolding assms(2) by simp
  ultimately show ?thesis
    using assms(1,3) nz unfolding b w
    by (subst find_last_bytes_unfold, cases "find_last_non_zero_bit (addr_load Usize c m) 0 64")
       (simp_all add: Let_def drop_bit_eq_div push_bit_eq_mult d)
next
  case False
  note fb = find_step_bounds [OF assms(1)]
  have st: "find_step start cur = 1" using fb(5) False by blast
  have "8 * unat cur = 8 * unat c + 8" using fb(3,4) st unfolding assms(2) by simp
  then have w: "last_abit m (8 * unat c) (8 * unat cur) = map_option (bit_pos c) (find_last_non_zero_bit (m c) 0 8)"
    using last_abit_byte [of 0 8 m c] by (simp add: bit_pos_def [abs_def])
  have "(bit_pos c i) div 8 = unat c \<and> bit_pos c i mod 8 = i" if "find_last_non_zero_bit (m c) 0 8 = Some i" for i
    using that by (simp add: find_last_non_zero_bit_iff bit_pos_def)
  moreover have "find_step start cur \<noteq> BYTES_IN_ADDRESS" using False by (simp add: size_constants)
  ultimately show ?thesis
    using assms(1,3) unfolding w
    by (subst find_last_bytes_unfold, cases "find_last_non_zero_bit (m c) 0 8")
       (simp_all only: Let_def assms(2) [symmetric], simp_all add: u8_load_def)
qed

lemma find_last_bytes_loop_correct:
  assumes "start \<le> cur" "\<And>x. start \<le> x \<Longrightarrow> x < cur \<Longrightarrow> addr_is_mapped mapped x"
  shows "find_last_bytes_loop mapped m start cur chunk = Some (found_at (last_abit m (8 * unat start) (8 * unat cur)))"
  using assms
proof (induction "unat cur" arbitrary: cur chunk rule: less_induct)
  case less
  show ?case
  proof (cases "start < cur")
    case False
    with less.prems(1) have "start = cur" by simp
    moreover have "last_abit m (8 * unat cur) (8 * unat cur) = None" unfolding last_abit_iff by linarith
    ultimately show ?thesis by (subst find_last_bytes_loop.simps) simp
  next
    case True
    define c where "c = cur - find_step start cur"
    note fb = find_step_bounds [OF True, folded c_def]
    have "last_abit m (8 * unat start) (8 * unat cur) =
        (case last_abit m (8 * unat c) (8 * unat cur) of Some x \<Rightarrow> Some x | None \<Rightarrow> last_abit m (8 * unat start) (8 * unat c))"
      by (rule last_abit_split) (use fb(1,2) in \<open>simp_all add: word_le_nat_alt word_less_nat_alt\<close>)
    moreover have "find_last_bytes_loop mapped m start c k = Some (found_at (last_abit m (8 * unat start) (8 * unat c)))" for k
      by (rule less.hyps) (use fb(1,2) less.prems(2) in \<open>auto simp: word_less_nat_alt\<close>)
    ultimately show ?thesis
      using find_last_bytes_round [OF True c_def less.prems(2) [OF fb(1,2)], of m chunk] by (simp split: option.splits)
  qed
qed

definition found_addr :: "side_metadata_spec \<Rightarrow> nat \<Rightarrow> address" where
  "found_addr s p =
     (let (a, b) = align_metadata_address s (of_nat (p div 8)) (p mod 8) in contiguous_meta_address_to_address s a b)"

fun find_outcome :: "side_metadata_spec \<Rightarrow> nat option \<Rightarrow> bool \<times> address option option" where
  "find_outcome s None = (False, Some None)"
| "find_outcome s (Some p) = (True, Some (Some (found_addr s p)))"

lemma handle_found_outcome: "handle_found s (found_at r) (Some None) = find_outcome s r"
  by (cases r) (simp_all add: found_addr_def split: prod.splits)

lemma find_prev_visitor_range:
  assumes "range_ok r" "\<And>x. range_lo r \<le> bit_pos x 7 \<Longrightarrow> bit_pos x 0 < range_hi r \<Longrightarrow> addr_is_mapped mapped x"
  shows "find_prev_visitor mapped s m r (Some None) = find_outcome s (last_abit m (range_lo r) (range_hi r))"
proof (cases r)
  case (Bytes a e)
  have "find_last_bytes_loop mapped m a e (- 1) = Some (found_at (last_abit m (8 * unat a) (8 * unat e)))"
    by (rule find_last_bytes_loop_correct) (use assms Bytes in \<open>auto simp: bit_pos_def word_le_nat_alt word_less_nat_alt\<close>)
  then show ?thesis
    by (simp add: Bytes find_last_non_zero_bit_in_metadata_bytes_def handle_found_outcome bit_pos_def)
next
  case (BitsInByte a st e)
  then have ok: "st < e" "e \<le> 8" "addr_is_mapped mapped a" using assms by (auto simp: bit_pos_def)
  have "find_last_non_zero_bit_in_metadata_bits mapped m a st e = found_at (last_abit m (bit_pos a st) (bit_pos a e))"
    unfolding last_abit_byte [OF ok(1,2)] find_last_non_zero_bit_in_metadata_bits_def
  proof (cases "find_last_non_zero_bit (m a) st e")
    case (Some i)
    then have "i < 8" using ok find_last_non_zero_bit_iff(1) [of st e "m a" i] by simp
    with Some ok(3) show "(if \<not> addr_is_mapped mapped a then UnmappedMetadata
      else let byte = u8_load a m in case find_last_non_zero_bit byte st e of None \<Rightarrow> NotFound | Some b \<Rightarrow> Found a b) =
      found_at (map_option (bit_pos a) (find_last_non_zero_bit (m a) st e))" by (simp add: u8_load_def bit_pos_def)
  qed (use ok(3) in \<open>simp add: u8_load_def\<close>)
  then show ?thesis by (simp add: BitsInByte handle_found_outcome)
qed

lemma visit_find:
  assumes "covers p rs q" "\<And>x. p \<le> bit_pos x 7 \<Longrightarrow> bit_pos x 0 < q \<Longrightarrow> addr_is_mapped mapped x"
  shows "visit_until (find_prev_visitor mapped s m) (rev rs) (Some None) = find_outcome s (last_abit m p q)"
  using assms
proof (induction rs arbitrary: p)
  case Nil
  then have "last_abit m p q = None" by (auto simp: last_abit_iff)
  then show ?case by simp
next
  case (Cons r rs)
  then have r: "range_lo r = p" "range_ok r" "covers (range_hi r) rs q" by simp_all
  have lt: "p < range_hi r" using r(1,2) by (cases r) (auto simp: bit_pos_def word_less_nat_alt)
  have q: "range_hi r \<le> q" by (rule covers_le [OF r(3)])
  have "visit_until (find_prev_visitor mapped s m) (rev rs) (Some None) = find_outcome s (last_abit m (range_hi r) q)"
    by (rule Cons.IH [OF r(3)]) (use Cons.prems(2) lt in auto)
  moreover have "find_prev_visitor mapped s m r (Some None) = find_outcome s (last_abit m p (range_hi r))"
    using find_prev_visitor_range [OF r(2), of mapped s m] Cons.prems(2) q r(1) by (meson less_le_trans)
  moreover have "last_abit m p q = (case last_abit m (range_hi r) q of Some x \<Rightarrow> Some x | None \<Rightarrow> last_abit m p (range_hi r))"
    by (rule last_abit_split) (use lt q in auto)
  ultimately show ?case
    by (cases "last_abit m (range_hi r) q")
       (simp_all add: visit_until_append or_else_def visit_until_single del: visit_until.simps(2))
qed

section \<open>From bits to regions\<close>

text \<open>The region that a bit of a table belongs to.\<close>

lemma align_bits_in_byte:
  fixes q k :: nat
  assumes "k < 3"
  shows "q div 2 ^ k * 2 ^ k div 8 = q div 8" "q div 2 ^ k * 2 ^ k mod 8 = q mod 8 div 2 ^ k * 2 ^ k"
proof -
  have e: "(8 :: nat) = 2 ^ (3 - k) * 2 ^ k" using assms by (simp add: power_add [symmetric])
  have "q = q div 8 * 2 ^ (3 - k) * 2 ^ k + q mod 8" using div_mult_mod_eq [of q 8] e by (simp add: mult.assoc)
  then have "q div 2 ^ k = (q div 8 * 2 ^ (3 - k) * 2 ^ k + q mod 8) div 2 ^ k" by simp
  also have "\<dots> = q div 8 * 2 ^ (3 - k) + q mod 8 div 2 ^ k" by simp
  finally have "q div 2 ^ k * 2 ^ k = (q div 8 * 2 ^ (3 - k) + q mod 8 div 2 ^ k) * 2 ^ k" by simp
  also have "\<dots> = q div 8 * 8 + q mod 8 div 2 ^ k * 2 ^ k" unfolding add_mult_distrib mult.assoc e [symmetric] ..
  finally have q: "q div 2 ^ k * 2 ^ k = q div 8 * 8 + q mod 8 div 2 ^ k * 2 ^ k" .
  have "q mod 8 div 2 ^ k * 2 ^ k \<le> q mod 8" by (rule div_times_less_eq_dividend)
  then have b: "q mod 8 div 2 ^ k * 2 ^ k < 8" by (rule le_less_trans) simp
  show "q div 2 ^ k * 2 ^ k div 8 = q div 8" "q div 2 ^ k * 2 ^ k mod 8 = q mod 8 div 2 ^ k * 2 ^ k"
    unfolding q using b by simp_all
qed

lemma region_of_bit:
  assumes "spec_ok s" "q < 8 * 2 ^ (LOG_ARCH_ADDRESS_SPACE - log_data_meta_ratio s)"
  shows "q div 2 ^ log_num_of_bits s < (2 :: nat) ^ (47 - log_bytes_in_region s)"
  using assms(2) unfolding spec_ok_ratio(2) [OF assms(1)] by (simp add: less_mult_imp_div_less)

lemma found_addr_region:
  assumes "spec_ok s" "3 \<le> log_num_of_bits s \<or> log_num_of_bits s \<le> log_bytes_in_region s" "8 dvd unat (spec_offset s)"
    and "table_end s < 2 ^ 64" "q < 8 * 2 ^ (LOG_ARCH_ADDRESS_SPACE - log_data_meta_ratio s)"
  shows "found_addr s (8 * unat (spec_offset s) + q) = of_nat (q div 2 ^ log_num_of_bits s * 2 ^ log_bytes_in_region s)"
proof -
  let ?o = "unat (spec_offset s)" and ?r = "q div 2 ^ log_num_of_bits s"
  have pd: "(8 * ?o + q) div 8 = ?o + q div 8" "(8 * ?o + q) mod 8 = q mod 8" by simp_all
  have a: "?o + q div 8 < 2 ^ 64" using assms(4,5) unfolding table_end_def table_size [OF assms(1)] by linarith
  show ?thesis
  proof (cases "3 \<le> log_num_of_bits s")
    case True
    let ?k = "log_num_of_bits s - 3"
    have "?k \<le> 3" using assms(1) unfolding spec_ok_def by linarith
    then have "(2 :: nat) ^ ?k dvd 2 ^ 3" by (rule le_imp_power_dvd)
    then have "2 ^ ?k dvd ?o" using assms(3) by (simp add: dvd_trans)
    then obtain c where c: "?o = 2 ^ ?k * c" by (rule dvdE)
    have "(2 :: nat) ^ log_num_of_bits s = 8 * 2 ^ ?k" using True power_add [of "2 :: nat" 3 ?k] by simp
    then have r: "q div 8 div 2 ^ ?k = ?r" by (simp add: div_mult2_eq)
    have "(?o + q div 8) div 2 ^ ?k * 2 ^ ?k = ?o + ?r * 2 ^ ?k"
      unfolding c by (simp add: r algebra_simps)
    then have "align_down (of_nat (?o + q div 8)) (push_bit ?k 1) = spec_offset s + of_nat (?r * 2 ^ ?k)"
      unfolding align_down_def align_down_of_nat unat_of_nat_64 [OF a] by simp
    moreover have "?r < 2 ^ (64 - log_bytes_in_region s)"
      using region_of_bit [OF assms(1,5)] by (rule less_le_trans) (intro power_increasing, simp_all)
    ultimately show ?thesis
      using data_address_of_wide_pos [OF assms(1) True, of ?r] True unfolding found_addr_def align_metadata_address_def pd by simp
  next
    case False
    let ?k = "log_num_of_bits s"
    have k: "?k \<le> log_bytes_in_region s" "?k < 3" using False assms(2) by auto
    have "unat (of_nat (q mod 8) :: usize) = q mod 8" by (rule unat_of_nat_64) simp
    then have "raw_align_down (of_nat (q mod 8)) (push_bit ?k 1) = of_nat (q mod 8 div 2 ^ ?k * 2 ^ ?k)"
      by (simp only: align_down_of_nat)
    moreover have "q mod 8 div 2 ^ ?k * 2 ^ ?k < 2 ^ 64"
      by (rule le_less_trans [OF div_times_less_eq_dividend]) (rule less_trans [OF mod_less_divisor [of 8 q]], simp_all)
    ultimately have al: "unat (raw_align_down (of_nat (q mod 8)) (push_bit ?k 1)) = q mod 8 div 2 ^ ?k * 2 ^ ?k"
      using unat_of_nat_64 by metis
    have pw: "?r * 2 ^ ?k * 2 ^ (log_bytes_in_region s - ?k) = ?r * 2 ^ log_bytes_in_region s"
      using k(1) by (simp add: power_add [symmetric] mult.assoc)
    show ?thesis
      using data_address_of_pos [OF assms(1) k, of "?r * 2 ^ ?k", unfolded pw align_bits_in_byte [OF k(2), of q]] False al
      unfolding found_addr_def align_metadata_address_def pd by simp
  qed
qed

section \<open>Both versions find the same region\<close>

text \<open>The specification: the last region start between two bounds with a value that is not zero.\<close>

definition is_prev_value :: "value_type \<Rightarrow> side_metadata_spec \<Rightarrow> byte_mem \<Rightarrow> address \<Rightarrow> address \<Rightarrow> address option \<Rightarrow> bool" where
  "is_prev_value T s m lo hi x \<longleftrightarrow>
     (case x of
        None \<Rightarrow> \<forall>a. 2 ^ log_bytes_in_region s dvd unat a \<and> lo \<le> a \<and> a \<le> hi \<longrightarrow> sm_load T s a m = 0
      | Some a \<Rightarrow> 2 ^ log_bytes_in_region s dvd unat a \<and> lo \<le> a \<and> a \<le> hi \<and> sm_load T s a m \<noteq> 0 \<and>
          (\<forall>a'. 2 ^ log_bytes_in_region s dvd unat a' \<and> a < a' \<and> a' \<le> hi \<longrightarrow> sm_load T s a' m = 0))"

lemma is_prev_value_unique: "is_prev_value T s m lo hi x \<Longrightarrow> is_prev_value T s m lo hi y \<Longrightarrow> x = y"
  unfolding is_prev_value_def by (auto split: option.splits) (meson linorder_neqE)

lemma find_prev_simple_loop_correct:
  assumes "log_bytes_in_region s < 64" "0 < end" "2 ^ log_bytes_in_region s dvd unat cursor"
    and "\<And>a. end \<le> a \<Longrightarrow> a \<le> cursor \<Longrightarrow> addr_is_mapped mapped a"
  shows "\<exists>x. find_prev_simple_loop mapped T s m end cursor = Some x \<and> is_prev_value T s m end cursor x"
  using assms(3,4)
proof (induction "unat cursor" arbitrary: cursor rule: less_induct)
  case less
  let ?B = "2 ^ log_bytes_in_region s"
  show ?case
  proof (cases "end \<le> cursor")
    case False
    then show ?thesis by (subst find_prev_simple_loop.simps) (auto simp: is_prev_value_def)
  next
    case True
    then have mp: "addr_is_mapped mapped cursor" using less.prems(2) by simp
    have "0 < unat cursor" using True assms(2) unat_gt_0 by (metis leD word_neq_0_conv)
    then have B: "?B \<le> unat cursor" using less.prems(1) by (simp add: dvd_imp_le)
    have "unat (push_bit (log_bytes_in_region s) 1 :: usize) = ?B"
      using unat_of_nat_64 [of ?B] power_strict_increasing [OF assms(1), of "2 :: nat"] by (simp add: push_bit_eq_mult)
    then have n: "unat (cursor - push_bit (log_bytes_in_region s) 1) = unat cursor - ?B" using unat_sub_64 B by metis
    show ?thesis
    proof (cases "sm_load T s cursor m = 0")
      case False
      then show ?thesis using True mp less.prems(1) by (subst find_prev_simple_loop.simps) (auto simp: is_prev_value_def)
    next
      case z: True
      let ?c = "cursor - push_bit (log_bytes_in_region s) 1"
      have lt: "?c < cursor" using n B \<open>0 < unat cursor\<close> by (simp add: word_less_nat_alt)
      obtain x where x: "find_prev_simple_loop mapped T s m end ?c = Some x" "is_prev_value T s m end ?c x"
      proof -
        have "?B dvd unat ?c" unfolding n using less.prems(1) by (intro dvd_diff_nat) simp_all
        then have "\<exists>x. find_prev_simple_loop mapped T s m end ?c = Some x \<and> is_prev_value T s m end ?c x"
          by (rule less.hyps [OF lt [unfolded word_less_nat_alt]]) (use less.prems(2) lt in auto)
        then show thesis using that by blast
      qed
      have below: "a \<le> ?c" if "?B dvd unat a" "a \<le> cursor" "a \<noteq> cursor" for a
      proof -
        have "unat a < unat cursor" using that(2,3) by (simp add: word_le_nat_alt word_unat_eq_iff)
        moreover have "?B dvd unat cursor - unat a" using that(1) less.prems(1) by (rule dvd_diff_nat [rotated])
        ultimately have "?B \<le> unat cursor - unat a" by (simp add: dvd_imp_le)
        then show ?thesis using n \<open>unat a < unat cursor\<close> by (simp add: word_le_nat_alt)
      qed
      have "is_prev_value T s m end cursor x"
        using x(2) z below lt unfolding is_prev_value_def by (auto split: option.splits)
      with x(1) True mp z show ?thesis by (subst find_prev_simple_loop.simps) simp
    qed
  qed
qed

text \<open>A value is zero when all its bits are.\<close>

lemma sm_load_bits:
  assumes "spec_ok s" "assert_value_type T s" "table_end s < 2 ^ 64" "unat d < 2 ^ 47"
  shows "sm_load T s d m \<noteq> 0 \<longleftrightarrow> (\<exists>i < 2 ^ log_num_of_bits s. abit m (8 * unat (spec_offset s) + meta_pos s d + i))"
proof -
  have ok: "field_ok (side_cell (T, s, d))" using side.cell_ok [of "(T, s, d)"] assms(1,2) by (simp add: side_valid_def)
  have "bit (sm_load T s d m) i \<longleftrightarrow> abit m (8 * unat (spec_offset s) + meta_pos s d + i)" if i: "i < 2 ^ log_num_of_bits s" for i
  proof -
    have "meta_pos s d + i < 8 * 2 ^ (LOG_ARCH_ADDRESS_SPACE - log_data_meta_ratio s)"
      using meta_pos_less [OF assms(1,4)] i by simp
    then have "unat (spec_offset s) + (meta_pos s d + i) div 8 < 2 ^ 64"
      using assms(3) unfolding table_end_def table_size [OF assms(1)] by linarith
    from bit_at_pos [OF this] show ?thesis
      using i abit_pos [of "snd (bit_at (spec_offset s) (meta_pos s d + i))" m "fst (bit_at (spec_offset s) (meta_pos s d + i))"]
      by (simp add: side_load_field bit_field_get [OF ok] side_width [OF assms(2)] side_field_pos [OF assms(2) i] add.assoc)
        (simp add: bit_at_def)
  qed
  moreover have "bit (sm_load T s d m) i \<Longrightarrow> i < 2 ^ log_num_of_bits s" for i
    by (simp add: side_load_field bit_field_get [OF ok] side_width [OF assms(2)])
  moreover have "sm_load T s d m \<noteq> 0 \<longleftrightarrow> (\<exists>i. bit (sm_load T s d m) i)" using bit_eq_iff [of "sm_load T s d m" 0] by auto
  ultimately show ?thesis by blast
qed

lemma sm_load_zero_range:
  assumes "spec_ok s" "assert_value_type T s" "table_end s < 2 ^ 64" "unat d < 2 ^ 47"
    and "\<And>p. lo \<le> p \<Longrightarrow> p < 8 * unat (spec_offset s) + hi * 2 ^ log_num_of_bits s \<Longrightarrow> \<not> abit m p"
    and "lo \<le> 8 * unat (spec_offset s) + meta_pos s d" "region_index s d < hi"
  shows "sm_load T s d m = 0"
proof -
  have "\<not> abit m (8 * unat (spec_offset s) + meta_pos s d + i)" if "i < 2 ^ log_num_of_bits s" for i
  proof (rule assms(5))
    have "(region_index s d + 1) * 2 ^ log_num_of_bits s \<le> hi * 2 ^ log_num_of_bits s"
      using assms(7) by (intro mult_le_mono1) simp
    then show "8 * unat (spec_offset s) + meta_pos s d + i < 8 * unat (spec_offset s) + hi * 2 ^ log_num_of_bits s"
      using that by (simp add: meta_pos_def)
  qed (use assms(6) in simp)
  then show ?thesis using sm_load_bits [OF assms(1-4)] by blast
qed

lemma sm_load_zero_above:
  assumes "spec_ok s" "assert_value_type T s" "table_end s < 2 ^ 64" "unat d < 2 ^ 47" "sm_load T s d m = 0" "unat a \<le> unat d"
    and "\<And>p. lo \<le> p \<Longrightarrow> p < 8 * unat (spec_offset s) + meta_pos s d \<Longrightarrow> \<not> abit m p"
    and "lo \<le> 8 * unat (spec_offset s) + meta_pos s a"
  shows "sm_load T s a m = 0"
proof (cases "region_index s a = region_index s d")
  case True
  then show ?thesis
    using sm_load_bits [OF assms(1-4), of m] sm_load_bits [OF assms(1-3), of a m] assms(4-6)
    by (simp add: meta_pos_def del: not_less) blast
next
  case False
  then have "region_index s a < region_index s d" using assms(6) by (metis region_index_def div_le_mono le_neq_implies_less)
  with sm_load_zero_range [OF assms(1-3) _ _ assms(8), where hi = "region_index s d"] show ?thesis
    using assms(4,6,7) by (auto simp: meta_pos_def)
qed

text \<open>What the fast version makes of the last bit it finds.\<close>

definition prev_of_bit :: "side_metadata_spec \<Rightarrow> address \<Rightarrow> address \<Rightarrow> nat option \<Rightarrow> address option" where
  "prev_of_bit s start end r =
     (case r of None \<Rightarrow> None
      | Some p \<Rightarrow>
          (let addr = align_down (found_addr s p) (push_bit (log_bytes_in_region s) 1)
           in if start \<le> addr \<and> addr < end then Some addr else None))"

lemma aligned_region: "2 ^ log_bytes_in_region s dvd unat a \<Longrightarrow> unat a = region_index s a * 2 ^ log_bytes_in_region s"
  by (simp add: region_index_def)

lemma align_down_region:
  defines "c d s \<equiv> align_down d (push_bit (log_bytes_in_region s) 1)"
  shows "unat (c d s) = region_index s d * 2 ^ log_bytes_in_region s" "c d s \<le> d" "region_index s (c d s) = region_index s d"
proof -
  have le: "region_index s d * 2 ^ log_bytes_in_region s \<le> unat d" unfolding region_index_def by (rule div_times_less_eq_dividend)
  then have "region_index s d * 2 ^ log_bytes_in_region s < 2 ^ 64" using unat_less_64 by (rule le_less_trans)
  then show c: "unat (c d s) = region_index s d * 2 ^ log_bytes_in_region s"
    unfolding align_down_def region_start c_def by (rule unat_of_nat_64)
  show "c d s \<le> d" unfolding word_le_nat_alt c by (rule le)
  show "region_index s (c d s) = region_index s d" by (simp add: region_index_def [of s "c d s"] c)
qed

lemma prev_of_bit_correct:
  assumes "spec_ok s" "assert_value_type T s" "table_end s < 2 ^ 64" "unat d < 2 ^ 47" "sm_load T s d m = 0" "start \<le> d"
    and "3 \<le> log_num_of_bits s \<or> log_num_of_bits s \<le> log_bytes_in_region s" "8 dvd unat (spec_offset s)"
  shows "is_prev_value T s m start d
    (prev_of_bit s start d (last_abit m (8 * unat (spec_offset s) + meta_pos s start) (8 * unat (spec_offset s) + meta_pos s d)))"
proof -
  let ?o = "8 * unat (spec_offset s)" and ?B = "2 ^ log_bytes_in_region s :: nat" and ?N = "2 ^ log_num_of_bits s :: nat"
  note above = sm_load_zero_above [OF assms(1-5)]
  show ?thesis
  proof (cases "last_abit m (?o + meta_pos s start) (?o + meta_pos s d)")
    case None
    have "sm_load T s a m = 0" if "start \<le> a" "a \<le> d" for a
    proof (rule above)
      show "?o + meta_pos s start \<le> ?o + meta_pos s a" using that(1) meta_pos_mono [of start a s] by (simp add: word_le_nat_alt)
    qed (use None that(2) in \<open>auto simp: last_abit_iff word_le_nat_alt\<close>)
    with None show ?thesis by (simp add: prev_of_bit_def is_prev_value_def)
  next
    case (Some p)
    then have p: "?o + meta_pos s start \<le> p" "p < ?o + meta_pos s d" "abit m p"
      "\<And>q. p < q \<Longrightarrow> q < ?o + meta_pos s d \<Longrightarrow> \<not> abit m q" unfolding last_abit_iff by auto
    define q where "q = p - ?o"
    have pq: "p = ?o + q" using p(1) by (simp add: q_def)
    have ql: "q < region_index s d * ?N" using p(2) by (simp add: pq meta_pos_def)
    have r: "q div ?N < region_index s d" using ql by (simp add: less_mult_imp_div_less)
    have le: "q div ?N * ?B < region_index s d * ?B" using r by simp
    have ld: "region_index s d * ?B \<le> unat d" unfolding region_index_def by (rule div_times_less_eq_dividend)
    have qt: "q < 8 * 2 ^ (LOG_ARCH_ADDRESS_SPACE - log_data_meta_ratio s)"
      using meta_pos_less [OF assms(1,4)] ql by (simp add: meta_pos_def)
    define a where "a = found_addr s p"
    have "a = of_nat (q div ?N * ?B)" unfolding a_def pq by (rule found_addr_region [OF assms(1,7,8,3) qt])
    moreover have "q div ?N * ?B < 2 ^ 64" using le ld unat_less_64 [of d] by linarith
    ultimately have ua: "unat a = q div ?N * ?B" using unat_of_nat_64 by metis
    then have ra: "region_index s a = q div ?N" "?B dvd unat a" by (simp_all add: region_index_def)
    have al: "align_down a (push_bit (log_bytes_in_region s) 1) = a"
      unfolding align_down_def region_start ra(1) ua [symmetric] by simp
    have ad: "a < d" unfolding word_less_nat_alt ua using le ld by (rule less_le_trans)
    have "sm_load T s a m \<noteq> 0"
    proof -
      have "p = ?o + meta_pos s a + q mod ?N" unfolding pq meta_pos_def ra(1) by (simp add: mult.commute)
      moreover have "q mod ?N < ?N" by simp
      ultimately show ?thesis using sm_load_bits [OF assms(1-3), of a m] p(3) ad assms(4) by (metis less_trans word_less_nat_alt)
    qed
    moreover have "sm_load T s a' m = 0" if "?B dvd unat a'" "a < a'" "a' \<le> d" for a'
    proof (rule above)
      have "q div ?N < region_index s a'" using that(2) ua aligned_region [OF that(1)] by (simp add: word_less_nat_alt)
      then have "(q div ?N + 1) * ?N \<le> region_index s a' * ?N" by (intro mult_le_mono1) simp
      moreover have "q < (q div ?N + 1) * ?N" by (simp add: dividend_less_div_times)
      ultimately show "Suc p \<le> ?o + meta_pos s a'" by (simp add: pq meta_pos_def)
    qed (use p(4) that(3) in \<open>auto simp: word_le_nat_alt\<close>)
    ultimately show ?thesis
      using Some al ad ra(2) unfolding prev_of_bit_def is_prev_value_def a_def [symmetric]
      by (auto simp: Let_def simp flip: a_def)
  qed
qed

text \<open>The conditions under which the search is made.\<close>

definition search_ok ::
  "(address \<Rightarrow> bool) \<Rightarrow> value_type \<Rightarrow> side_metadata_spec \<Rightarrow> address \<Rightarrow> usize \<Rightarrow> bool" where
  "search_ok mapped T s data_addr limit \<longleftrightarrow>
     spec_ok s \<and> assert_value_type T s \<and> table_end s < 2 ^ 64 \<and> 8 dvd unat (spec_offset s) \<and>
     (3 \<le> log_num_of_bits s \<or> log_num_of_bits s \<le> log_bytes_in_region s) \<and> unat data_addr < 2 ^ 47 \<and> 0 < limit \<and>
     (\<forall>x. spec_offset s \<le> x \<and> unat x < table_end s \<longrightarrow> addr_is_mapped mapped x) \<and>
     (\<forall>x. saturating_sub data_addr limit < x \<and> x \<le> data_addr \<longrightarrow> addr_is_mapped mapped x) \<and> addr_is_mapped mapped data_addr"

lemma search_start:
  assumes "addr_is_mapped mapped data_addr" "0 < limit"
  shows "saturating_sub data_addr limit + 1 \<le> data_addr" "0 < saturating_sub data_addr limit + 1"
    "saturating_sub data_addr limit + 1 \<le> x \<longleftrightarrow> saturating_sub data_addr limit < x"
proof -
  have "data_addr \<noteq> 0" using assms(1) by (auto simp: addr_is_mapped_def)
  then have d: "0 < unat data_addr" "0 < unat limit" using assms(2) by (simp_all add: unat_gt_0)
  have lt: "unat (saturating_sub data_addr limit) < unat data_addr"
    using d unat_sub_64 [of limit data_addr] by (simp add: saturating_sub_def word_le_nat_alt)
  then have s: "unat (saturating_sub data_addr limit + 1) = unat (saturating_sub data_addr limit) + 1"
    using unat_add_64 [of "saturating_sub data_addr limit" 1] unat_less_64 [of data_addr] by simp
  show "saturating_sub data_addr limit + 1 \<le> data_addr" "0 < saturating_sub data_addr limit + 1"
    "saturating_sub data_addr limit + 1 \<le> x \<longleftrightarrow> saturating_sub data_addr limit < x"
    using lt by (simp_all add: word_le_nat_alt word_less_nat_alt s Suc_le_eq)
qed

lemma table_mapped:
  assumes "search_ok mapped T s d limit" "8 * unat (spec_offset s) + p \<le> bit_pos x 7" "bit_pos x 0 < 8 * unat (spec_offset s) + meta_pos s d"
  shows "addr_is_mapped mapped x"
proof -
  have ok: "spec_ok s" "unat d < 2 ^ 47" "\<And>x. spec_offset s \<le> x \<Longrightarrow> unat x < table_end s \<Longrightarrow> addr_is_mapped mapped x"
    using assms(1) by (auto simp: search_ok_def)
  have "unat (spec_offset s) \<le> unat x" using assms(2) unfolding bit_pos_def by linarith
  moreover have "unat x < table_end s"
    using assms(3) meta_pos_less [OF ok(1,2)] unfolding bit_pos_def table_end_def table_size [OF ok(1)] by linarith
  ultimately show ?thesis using ok(3) by (simp add: word_le_nat_alt)
qed

lemma find_prev_fast_correct:
  assumes "search_ok mapped T s d limit" "sm_load T s d m = 0"
  shows "\<exists>x. find_prev_non_zero_value_fast mapped T s m d limit = Some x \<and> is_prev_value T s m (saturating_sub d limit + 1) d x"
proof -
  let ?st = "saturating_sub d limit + 1" and ?o = "8 * unat (spec_offset s)"
  have ok: "spec_ok s" "assert_value_type T s" "table_end s < 2 ^ 64" "unat d < 2 ^ 47" "0 < limit" "8 dvd unat (spec_offset s)"
    "3 \<le> log_num_of_bits s \<or> log_num_of_bits s \<le> log_bytes_in_region s" "addr_is_mapped mapped d"
    using assms(1) by (auto simp: search_ok_def)
  note st = search_start [OF ok(8,5)]
  have pos: "bit_pos (address_to_contiguous_meta_address s a) (meta_byte_lshift s a) = ?o + meta_pos s a" if "a \<le> d" for a
    using meta_bit_pos [OF ok(1,3), of a] that ok(4) by (simp add: address_to_meta_address_def word_le_nat_alt)
  have "?o + meta_pos s ?st \<le> ?o + meta_pos s d" using meta_pos_mono [of ?st d s] st(1) by (simp add: word_le_nat_alt)
  then have cov: "covers (?o + meta_pos s ?st) (break_ranges (address_to_contiguous_meta_address s ?st) (meta_byte_lshift s ?st)
      (address_to_contiguous_meta_address s d) (meta_byte_lshift s d)) (?o + meta_pos s d)"
    using break_ranges_cover [of "meta_byte_lshift s ?st" "meta_byte_lshift s d" "address_to_contiguous_meta_address s ?st"
        "address_to_contiguous_meta_address s d"] pos [OF st(1)] pos [of d] by (simp add: meta_shift_pos)
  have "break_bit_range (address_to_contiguous_meta_address s ?st) (meta_byte_lshift s ?st) (address_to_contiguous_meta_address s d)
      (meta_byte_lshift s d) False (find_prev_visitor mapped s m) (Some None) =
    find_outcome s (last_abit m (?o + meta_pos s ?st) (?o + meta_pos s d))"
    unfolding break_bit_range_visits using visit_find [OF cov table_mapped [OF assms(1)]] by simp
  then have "find_prev_non_zero_value_fast mapped T s m d limit =
    Some (prev_of_bit s ?st d (last_abit m (?o + meta_pos s ?st) (?o + meta_pos s d)))"
    using assms(2) ok(8) unfolding find_prev_non_zero_value_fast_def
    by (cases "last_abit m (?o + meta_pos s ?st) (?o + meta_pos s d)") (simp_all add: Let_def prev_of_bit_def)
  with prev_of_bit_correct [OF ok(1-4) assms(2) st(1) ok(7,6)] show ?thesis by blast
qed

lemma find_prev_simple_correct:
  assumes "search_ok mapped T s d limit"
  shows "\<exists>x. find_prev_non_zero_value_simple mapped T s m d limit = Some x \<and> is_prev_value T s m (saturating_sub d limit + 1) d x"
proof -
  let ?st = "saturating_sub d limit + 1" and ?c = "align_down d (push_bit (log_bytes_in_region s) 1)"
  have ok: "spec_ok s" "0 < limit" "addr_is_mapped mapped d" "\<And>x. saturating_sub d limit < x \<Longrightarrow> x \<le> d \<Longrightarrow> addr_is_mapped mapped x"
    using assms by (auto simp: search_ok_def)
  note st = search_start [OF ok(3,2)]
  note c = align_down_region(1) [of d s] and cd = align_down_region(2) [of d s]
  have "\<exists>x. find_prev_simple_loop mapped T s m ?st ?c = Some x \<and> is_prev_value T s m ?st ?c x"
  proof (rule find_prev_simple_loop_correct)
    show "log_bytes_in_region s < 64" using ok(1) by (simp add: spec_ok_def)
    show "addr_is_mapped mapped a" if "?st \<le> a" "a \<le> ?c" for a using ok(4) [of a] that cd unfolding st(3) by (meson order_trans)
    show "2 ^ log_bytes_in_region s dvd unat ?c" unfolding c by simp
  qed (rule st(2))
  moreover have "a \<le> ?c \<longleftrightarrow> a \<le> d" if "2 ^ log_bytes_in_region s dvd unat a" for a
  proof
    assume "a \<le> d"
    then have "region_index s a \<le> region_index s d" by (simp add: region_index_def div_le_mono word_le_nat_alt)
    then show "a \<le> ?c" unfolding word_le_nat_alt c aligned_region [OF that] by (rule mult_le_mono1)
  qed (rule order_trans [OF _ cd])
  then have "is_prev_value T s m ?st ?c x \<longleftrightarrow> is_prev_value T s m ?st d x" for x
    unfolding is_prev_value_def by (auto split: option.splits)
  ultimately show ?thesis unfolding find_prev_non_zero_value_simple_def Let_def by blast
qed

text \<open>
  C14. The fast search for the last non-zero value, which looks at words and bytes of metadata bits, and the simple
  search, which loads one value after the other, both return, and return the same region: the last region start
  in the search range with a value that is not zero, or none if there is no such region. The search range
  contains the start of the region of the data address if the value of this region is not zero.
\<close>

theorem find_prev_fast_simple:
  assumes "search_ok mapped T s d limit"
    and "sm_load T s d m = 0 \<or> saturating_sub d limit < align_down d (push_bit (log_bytes_in_region s) 1)"
  shows "\<exists>x. find_prev_non_zero_value_fast mapped T s m d limit = Some x \<and>
    find_prev_non_zero_value_simple mapped T s m d limit = Some x \<and>
    is_prev_value T s m (saturating_sub d limit + 1) d x"
proof (cases "sm_load T s d m = 0")
  case True
  then show ?thesis
    using find_prev_fast_correct [OF assms(1)] find_prev_simple_correct [OF assms(1)] is_prev_value_unique by blast
next
  case False
  let ?c = "align_down d (push_bit (log_bytes_in_region s) 1)"
  have ok: "addr_is_mapped mapped d" "0 < limit" "\<And>x. saturating_sub d limit < x \<Longrightarrow> x \<le> d \<Longrightarrow> addr_is_mapped mapped x"
    "spec_ok s" "assert_value_type T s" "table_end s < 2 ^ 64" "unat d < 2 ^ 47"
    using assms(1) by (auto simp: search_ok_def)
  have c: "?c \<le> d" "region_index s ?c = region_index s d" using align_down_region by auto
  then have "sm_load T s ?c m \<noteq> 0"
    using False sm_load_bits [OF ok(4-7)] sm_load_bits [OF ok(4-6)] ok(7) by (simp add: meta_pos_def word_le_nat_alt)
  moreover have "saturating_sub d limit + 1 \<le> ?c" using assms(2) False unfolding search_start(3) [OF ok(1,2)] by blast
  moreover have "addr_is_mapped mapped ?c" using ok(3) assms(2) False c(1) by blast
  ultimately have "find_prev_non_zero_value_simple mapped T s m d limit = Some (Some ?c)"
    unfolding find_prev_non_zero_value_simple_def by (subst find_prev_simple_loop.simps) (simp add: Let_def)
  moreover have "find_prev_non_zero_value_fast mapped T s m d limit = Some (Some ?c)"
    using ok(1) False by (simp add: find_prev_non_zero_value_fast_def)
  ultimately show ?thesis using find_prev_simple_correct [OF assms(1), of m] by simp
qed

lemma colors_search_ok: "search_ok (\<lambda>_. True) U8 colors 0x20000001238 64"
  unfolding search_ok_def using colors_ok(1,2)
  by (simp add: addr_is_mapped_def table_end_def layout_eval colors_def saturating_sub_def)

theorem find_prev_fast_simple_witness:
  "\<exists>x. find_prev_non_zero_value_fast (\<lambda>_. True) U8 colors (\<lambda>_. 0xff) 0x20000001238 64 = Some x \<and>
    find_prev_non_zero_value_simple (\<lambda>_. True) U8 colors (\<lambda>_. 0xff) 0x20000001238 64 = Some x \<and>
    is_prev_value U8 colors (\<lambda>_. 0xff) (saturating_sub 0x20000001238 64 + 1) 0x20000001238 x"
  using find_prev_fast_simple [OF colors_search_ok, of "\<lambda>_. 0xff"]
  by (simp add: colors_ok align_down_def raw_align_down_def saturating_sub_def)

text \<open>
  C31. The two searches disagree when the search range does not reach back to the start of the region of the
  data address and the value of this region is not zero: the fast one returns the start of the region, which is
  outside the range, and the simple one finds nothing.
\<close>

theorem find_prev_fast_simple_differ:
  assumes "addr_is_mapped mapped d" "0 < limit" "sm_load T s d m \<noteq> 0"
    and "align_down d (push_bit (log_bytes_in_region s) 1) \<le> saturating_sub d limit"
  shows "find_prev_non_zero_value_fast mapped T s m d limit = Some (Some (align_down d (push_bit (log_bytes_in_region s) 1))) \<and>
    find_prev_non_zero_value_simple mapped T s m d limit = Some None"
proof
  have "\<not> saturating_sub d limit + 1 \<le> align_down d (push_bit (log_bytes_in_region s) 1)"
    using assms(4) unfolding search_start(3) [OF assms(1,2)] by simp
  then show "find_prev_non_zero_value_simple mapped T s m d limit = Some None"
    unfolding find_prev_non_zero_value_simple_def by (subst find_prev_simple_loop.simps) (simp add: Let_def)
qed (use assms in \<open>simp add: find_prev_non_zero_value_fast_def\<close>)

theorem find_prev_fast_simple_differ_witness:
  "find_prev_non_zero_value_fast (\<lambda>_. True) U8 colors (\<lambda>_. 0xff) 0x2000000123c 2 = Some (Some 0x20000001238) \<and>
    find_prev_non_zero_value_simple (\<lambda>_. True) U8 colors (\<lambda>_. 0xff) 0x2000000123c 2 = Some None"
  using find_prev_fast_simple_differ [of "\<lambda>_. True" "0x2000000123c" 2 U8 colors "\<lambda>_. 0xff"]
  by (simp add: addr_is_mapped_def colors_def spec_at_def sm_load_def u8_load_def meta_byte_mask_def meta_byte_lshift_def from_u8_def
      align_down_def raw_align_down_def saturating_sub_def)

end
