(* ===== verification/MetadataSpec.thy ===== *)
theory MetadataSpec
  imports HeaderMetadata SideMetadata_Bulk
begin

text \<open>
  Metadata of an object, in its header or on the side (\<open>util/metadata/global.rs\<close>), the header accesses that
  the object model of a VM provides by default and the declaration of the specs of a VM
  (\<open>vm/object_model.rs\<close>). What a VM binding supplies is the record \<open>vm_object_model\<close>: where the header of
  an object is and where each piece of metadata lives. An object reference is its raw address.
\<close>

datatype metadata_spec = InHeader header_metadata_spec | OnSide side_metadata_spec

definition is_on_side :: "metadata_spec \<Rightarrow> bool" where
  "is_on_side s \<longleftrightarrow> (case s of OnSide _ \<Rightarrow> True | InHeader _ \<Rightarrow> False)"

definition is_in_header :: "metadata_spec \<Rightarrow> bool" where
  "is_in_header s \<longleftrightarrow> (case s of InHeader _ \<Rightarrow> True | OnSide _ \<Rightarrow> False)"

definition extract_side_spec :: "metadata_spec \<Rightarrow> side_metadata_spec option" where
  "extract_side_spec s = (case s of OnSide spec \<Rightarrow> Some spec | InHeader _ \<Rightarrow> None)"

fun extract_side_metadata :: "metadata_spec list \<Rightarrow> side_metadata_spec list" where
  "extract_side_metadata [] = []"
| "extract_side_metadata (OnSide ss # specs) = ss # extract_side_metadata specs"
| "extract_side_metadata (InHeader _ # specs) = extract_side_metadata specs"

section \<open>The object model of a VM\<close>

type_synonym object_reference = address

definition to_raw_address :: "object_reference \<Rightarrow> address" where
  "to_raw_address self = self"

definition from_raw_address :: "address \<Rightarrow> object_reference option" where
  "from_raw_address addr = (if addr = 0 then None else Some addr)"

definition from_raw_address_unchecked :: "address \<Rightarrow> object_reference" where
  "from_raw_address_unchecked addr = addr"

record vm_object_model =
  ref_to_header :: "object_reference \<Rightarrow> address"
  ref_to_object_start :: "object_reference \<Rightarrow> address"
  get_current_size :: "object_reference \<Rightarrow> usize"
  COMPRESSED_PTR_ENABLED :: bool
  GLOBAL_LOG_BIT_SPEC :: metadata_spec
  GLOBAL_FIELD_UNLOG_BIT_SPEC :: metadata_spec
  LOCAL_FORWARDING_POINTER_SPEC :: metadata_spec
  LOCAL_FORWARDING_BITS_SPEC :: metadata_spec
  LOCAL_MARK_BIT_SPEC :: metadata_spec
  LOCAL_LOS_MARK_NURSERY_SPEC :: metadata_spec

definition to_header :: "vm_object_model \<Rightarrow> object_reference \<Rightarrow> address" where
  "to_header vm self = ref_to_header vm self"

definition load_metadata ::
  "vm_object_model \<Rightarrow> value_type \<Rightarrow> header_metadata_spec \<Rightarrow> object_reference \<Rightarrow> usize option \<Rightarrow> byte_mem \<Rightarrow> usize" where
  "load_metadata vm T s object msk m = hdr_load T s (to_header vm object) msk m"

definition load_metadata_atomic ::
  "vm_object_model \<Rightarrow> value_type \<Rightarrow> header_metadata_spec \<Rightarrow> object_reference \<Rightarrow> usize option \<Rightarrow> byte_mem \<Rightarrow> usize" where
  "load_metadata_atomic vm T s object msk m = hdr_load_atomic T s (to_header vm object) msk m"

definition store_metadata ::
  "vm_object_model \<Rightarrow> value_type \<Rightarrow> header_metadata_spec \<Rightarrow> object_reference \<Rightarrow> usize \<Rightarrow> usize option \<Rightarrow> byte_mem \<Rightarrow> byte_mem option" where
  "store_metadata vm T s object val msk m = hdr_store T s (to_header vm object) val msk m"

definition store_metadata_atomic ::
  "vm_object_model \<Rightarrow> value_type \<Rightarrow> header_metadata_spec \<Rightarrow> object_reference \<Rightarrow> usize \<Rightarrow> usize option \<Rightarrow> byte_mem \<Rightarrow> byte_mem option" where
  "store_metadata_atomic vm T s object val msk m = hdr_store_atomic T s (to_header vm object) val msk m"

definition vm_compare_exchange_metadata ::
  "vm_object_model \<Rightarrow> value_type \<Rightarrow> header_metadata_spec \<Rightarrow> object_reference \<Rightarrow> usize \<Rightarrow> usize \<Rightarrow> usize option \<Rightarrow>
   byte_mem \<Rightarrow> byte_mem \<Rightarrow> ((usize + usize) \<times> byte_mem) option" where
  "vm_compare_exchange_metadata vm T s object old_val new_val msk m0 m =
     hdr_compare_exchange T s (to_header vm object) old_val new_val msk m0 m"

definition vm_fetch_add_metadata ::
  "vm_object_model \<Rightarrow> value_type \<Rightarrow> header_metadata_spec \<Rightarrow> object_reference \<Rightarrow> usize \<Rightarrow> byte_mem \<Rightarrow> (usize \<times> byte_mem) option" where
  "vm_fetch_add_metadata vm T s object val m = hdr_fetch_add T s (to_header vm object) val m"

definition vm_fetch_sub_metadata ::
  "vm_object_model \<Rightarrow> value_type \<Rightarrow> header_metadata_spec \<Rightarrow> object_reference \<Rightarrow> usize \<Rightarrow> byte_mem \<Rightarrow> (usize \<times> byte_mem) option" where
  "vm_fetch_sub_metadata vm T s object val m = hdr_fetch_sub T s (to_header vm object) val m"

definition vm_fetch_and_metadata ::
  "vm_object_model \<Rightarrow> value_type \<Rightarrow> header_metadata_spec \<Rightarrow> object_reference \<Rightarrow> usize \<Rightarrow> byte_mem \<Rightarrow> (usize \<times> byte_mem) option" where
  "vm_fetch_and_metadata vm T s object val m = hdr_fetch_and T s (to_header vm object) val m"

definition vm_fetch_or_metadata ::
  "vm_object_model \<Rightarrow> value_type \<Rightarrow> header_metadata_spec \<Rightarrow> object_reference \<Rightarrow> usize \<Rightarrow> byte_mem \<Rightarrow> (usize \<times> byte_mem) option" where
  "vm_fetch_or_metadata vm T s object val m = hdr_fetch_or T s (to_header vm object) val m"

definition vm_fetch_update_metadata ::
  "vm_object_model \<Rightarrow> value_type \<Rightarrow> header_metadata_spec \<Rightarrow> object_reference \<Rightarrow> (usize \<Rightarrow> usize option) \<Rightarrow> byte_mem \<Rightarrow>
   ((usize + usize) \<times> byte_mem) option" where
  "vm_fetch_update_metadata vm T s object f m = hdr_fetch_update T s (to_header vm object) f m"

section \<open>Accesses of metadata\<close>

text \<open>A mask restricts an access in the header and is ignored on the side.\<close>

definition ms_load ::
  "vm_object_model \<Rightarrow> value_type \<Rightarrow> metadata_spec \<Rightarrow> object_reference \<Rightarrow> usize option \<Rightarrow> byte_mem \<Rightarrow> usize" where
  "ms_load vm T self object msk m =
     (case self of
        OnSide s \<Rightarrow> sm_load T s (to_raw_address object) m
      | InHeader s \<Rightarrow> load_metadata vm T s object msk m)"

definition ms_load_atomic ::
  "vm_object_model \<Rightarrow> value_type \<Rightarrow> metadata_spec \<Rightarrow> object_reference \<Rightarrow> usize option \<Rightarrow> byte_mem \<Rightarrow> usize" where
  "ms_load_atomic vm T self object msk m =
     (case self of
        OnSide s \<Rightarrow> sm_load_atomic T s (to_raw_address object) m
      | InHeader s \<Rightarrow> load_metadata_atomic vm T s object msk m)"

definition ms_store ::
  "vm_object_model \<Rightarrow> value_type \<Rightarrow> metadata_spec \<Rightarrow> object_reference \<Rightarrow> usize \<Rightarrow> usize option \<Rightarrow> byte_mem \<Rightarrow> byte_mem option" where
  "ms_store vm T self object val msk m =
     (case self of
        OnSide s \<Rightarrow> sm_store T s (to_raw_address object) val m
      | InHeader s \<Rightarrow> store_metadata vm T s object val msk m)"

definition ms_store_atomic ::
  "vm_object_model \<Rightarrow> value_type \<Rightarrow> metadata_spec \<Rightarrow> object_reference \<Rightarrow> usize \<Rightarrow> usize option \<Rightarrow> byte_mem \<Rightarrow> byte_mem option" where
  "ms_store_atomic vm T self object val msk m =
     (case self of
        OnSide s \<Rightarrow> sm_store_atomic T s (to_raw_address object) val m
      | InHeader s \<Rightarrow> store_metadata_atomic vm T s object val msk m)"

definition compare_exchange_metadata ::
  "vm_object_model \<Rightarrow> value_type \<Rightarrow> metadata_spec \<Rightarrow> object_reference \<Rightarrow> usize \<Rightarrow> usize \<Rightarrow> usize option \<Rightarrow>
   byte_mem \<Rightarrow> byte_mem \<Rightarrow> ((usize + usize) \<times> byte_mem) option" where
  "compare_exchange_metadata vm T self object old_val new_val msk m0 m =
     (case self of
        OnSide s \<Rightarrow> compare_exchange_atomic T s (to_raw_address object) old_val new_val m0 m
      | InHeader s \<Rightarrow> vm_compare_exchange_metadata vm T s object old_val new_val msk m0 m)"

definition fetch_add_metadata ::
  "vm_object_model \<Rightarrow> value_type \<Rightarrow> metadata_spec \<Rightarrow> object_reference \<Rightarrow> usize \<Rightarrow> byte_mem \<Rightarrow> (usize \<times> byte_mem) option" where
  "fetch_add_metadata vm T self object val m =
     (case self of
        OnSide s \<Rightarrow> fetch_add_atomic T s (to_raw_address object) val m
      | InHeader s \<Rightarrow> vm_fetch_add_metadata vm T s object val m)"

definition fetch_sub_metadata ::
  "vm_object_model \<Rightarrow> value_type \<Rightarrow> metadata_spec \<Rightarrow> object_reference \<Rightarrow> usize \<Rightarrow> byte_mem \<Rightarrow> (usize \<times> byte_mem) option" where
  "fetch_sub_metadata vm T self object val m =
     (case self of
        OnSide s \<Rightarrow> fetch_sub_atomic T s (to_raw_address object) val m
      | InHeader s \<Rightarrow> vm_fetch_sub_metadata vm T s object val m)"

definition fetch_and_metadata ::
  "vm_object_model \<Rightarrow> value_type \<Rightarrow> metadata_spec \<Rightarrow> object_reference \<Rightarrow> usize \<Rightarrow> byte_mem \<Rightarrow> (usize \<times> byte_mem) option" where
  "fetch_and_metadata vm T self object val m =
     (case self of
        OnSide s \<Rightarrow> fetch_and_atomic T s (to_raw_address object) val m
      | InHeader s \<Rightarrow> vm_fetch_and_metadata vm T s object val m)"

definition fetch_or_metadata ::
  "vm_object_model \<Rightarrow> value_type \<Rightarrow> metadata_spec \<Rightarrow> object_reference \<Rightarrow> usize \<Rightarrow> byte_mem \<Rightarrow> (usize \<times> byte_mem) option" where
  "fetch_or_metadata vm T self object val m =
     (case self of
        OnSide s \<Rightarrow> fetch_or_atomic T s (to_raw_address object) val m
      | InHeader s \<Rightarrow> vm_fetch_or_metadata vm T s object val m)"

definition fetch_update_metadata ::
  "vm_object_model \<Rightarrow> value_type \<Rightarrow> metadata_spec \<Rightarrow> object_reference \<Rightarrow> (usize \<Rightarrow> usize option) \<Rightarrow> byte_mem \<Rightarrow>
   ((usize + usize) \<times> byte_mem) option" where
  "fetch_update_metadata vm T self object f m =
     (case self of
        OnSide s \<Rightarrow> fetch_update_atomic T s (to_raw_address object) f m
      | InHeader s \<Rightarrow> vm_fetch_update_metadata vm T s object f m)"

section \<open>The specs of a VM\<close>

text \<open>The arguments of the macro that declares a kind of VM metadata, and the kinds it is used for.\<close>

record vm_metadata_kind =
  kind_name :: string
  IS_GLOBAL :: bool
  LOG_NUM_BITS :: nat
  side_min_obj_size :: nat

definition VMGlobalLogBitSpec :: vm_metadata_kind where
  "VMGlobalLogBitSpec = \<lparr>kind_name = ''VMGlobalLogBitSpec'', IS_GLOBAL = True, LOG_NUM_BITS = 0, side_min_obj_size = LOG_MIN_OBJECT_SIZE\<rparr>"

definition VMGlobalFieldUnlogBitSpec :: vm_metadata_kind where
  "VMGlobalFieldUnlogBitSpec =
     \<lparr>kind_name = ''VMGlobalFieldUnlogBitSpec'', IS_GLOBAL = True, LOG_NUM_BITS = 0, side_min_obj_size = LOG_BYTES_IN_ADDRESS\<rparr>"

definition VMLocalForwardingPointerSpec :: vm_metadata_kind where
  "VMLocalForwardingPointerSpec =
     \<lparr>kind_name = ''VMLocalForwardingPointerSpec'', IS_GLOBAL = False, LOG_NUM_BITS = LOG_BITS_IN_WORD, side_min_obj_size = LOG_MIN_OBJECT_SIZE\<rparr>"

definition VMLocalForwardingBitsSpec :: vm_metadata_kind where
  "VMLocalForwardingBitsSpec =
     \<lparr>kind_name = ''VMLocalForwardingBitsSpec'', IS_GLOBAL = False, LOG_NUM_BITS = 1, side_min_obj_size = LOG_MIN_OBJECT_SIZE\<rparr>"

definition VMLocalMarkBitSpec :: vm_metadata_kind where
  "VMLocalMarkBitSpec = \<lparr>kind_name = ''VMLocalMarkBitSpec'', IS_GLOBAL = False, LOG_NUM_BITS = 0, side_min_obj_size = LOG_MIN_OBJECT_SIZE\<rparr>"

definition VMLocalPinningBitSpec :: vm_metadata_kind where
  "VMLocalPinningBitSpec =
     \<lparr>kind_name = ''VMLocalPinningBitSpec'', IS_GLOBAL = False, LOG_NUM_BITS = 0, side_min_obj_size = LOG_MIN_OBJECT_SIZE\<rparr>"

definition VMLocalLOSMarkNurserySpec :: vm_metadata_kind where
  "VMLocalLOSMarkNurserySpec =
     \<lparr>kind_name = ''VMLocalLOSMarkNurserySpec'', IS_GLOBAL = False, LOG_NUM_BITS = 1, side_min_obj_size = LOG_BYTES_IN_PAGE\<rparr>"

definition GLOBAL_SIDE_METADATA_VM_BASE_OFFSET :: address where
  "GLOBAL_SIDE_METADATA_VM_BASE_OFFSET = upper_bound_offset (last GLOBAL_SPECS)"

definition LOCAL_SIDE_METADATA_VM_BASE_OFFSET :: address where
  "LOCAL_SIDE_METADATA_VM_BASE_OFFSET = upper_bound_offset (last LOCAL_SPECS)"

definition vm_in_header :: "vm_metadata_kind \<Rightarrow> int \<Rightarrow> metadata_spec" where
  "vm_in_header k off = InHeader \<lparr>bit_offset = off, num_of_bits = push_bit (LOG_NUM_BITS k) 1\<rparr>"

definition vm_side_first :: "vm_metadata_kind \<Rightarrow> metadata_spec" where
  "vm_side_first k =
     OnSide (spec_at (IS_GLOBAL k) (if IS_GLOBAL k then GLOBAL_SIDE_METADATA_VM_BASE_OFFSET else LOCAL_SIDE_METADATA_VM_BASE_OFFSET)
       (kind_name k, LOG_NUM_BITS k, side_min_obj_size k))"

definition vm_side_first_compressed :: "vm_metadata_kind \<Rightarrow> metadata_spec" where
  "vm_side_first_compressed k =
     OnSide (spec_at (IS_GLOBAL k) (if IS_GLOBAL k then GLOBAL_SIDE_METADATA_VM_BASE_OFFSET else LOCAL_SIDE_METADATA_VM_BASE_OFFSET)
       (kind_name k, LOG_NUM_BITS k, side_min_obj_size k - 1))"

definition vm_side_after :: "vm_metadata_kind \<Rightarrow> metadata_spec \<Rightarrow> metadata_spec option" where
  "vm_side_after k spec =
     (if \<not> is_on_side spec then None
      else do {
        side_spec \<leftarrow> extract_side_spec spec;
        if is_global side_spec \<noteq> IS_GLOBAL k then None
        else Some (OnSide (spec_at (IS_GLOBAL k) (layout_after side_spec) (kind_name k, LOG_NUM_BITS k, side_min_obj_size k))) })"

section \<open>It is a field\<close>

text \<open>The object of an access: the VM, the value type, the spec and the object.\<close>

type_synonym spec_object = "vm_object_model \<times> value_type \<times> metadata_spec \<times> object_reference"

definition ms_cell :: "spec_object \<Rightarrow> metadata_field" where
  "ms_cell = (\<lambda>(vm, T, self, object).
     case self of OnSide s \<Rightarrow> side_cell (T, s, object) | InHeader s \<Rightarrow> hdr_cell (T, s, ref_to_header vm object))"

definition ms_valid :: "spec_object \<Rightarrow> bool" where
  "ms_valid = (\<lambda>(vm, T, self, object).
     case self of OnSide s \<Rightarrow> side_valid (T, s, object) | InHeader s \<Rightarrow> hdr_valid (T, s, ref_to_header vm object))"

fun ms_fetch :: "fetch_op \<Rightarrow> spec_object \<Rightarrow> usize \<Rightarrow> byte_mem \<Rightarrow> (usize \<times> byte_mem) option" where
  "ms_fetch FetchAdd (vm, T, self, object) v m = fetch_add_metadata vm T self object v m"
| "ms_fetch FetchSub (vm, T, self, object) v m = fetch_sub_metadata vm T self object v m"
| "ms_fetch FetchAnd (vm, T, self, object) v m = fetch_and_metadata vm T self object v m"
| "ms_fetch FetchOr (vm, T, self, object) v m = fetch_or_metadata vm T self object v m"

lemmas ms_op_defs = ms_load_def ms_load_atomic_def ms_store_def ms_store_atomic_def compare_exchange_metadata_def
  fetch_add_metadata_def fetch_sub_metadata_def fetch_and_metadata_def fetch_or_metadata_def
  load_metadata_def load_metadata_atomic_def store_metadata_def store_metadata_atomic_def vm_compare_exchange_metadata_def
  vm_fetch_add_metadata_def vm_fetch_sub_metadata_def vm_fetch_and_metadata_def vm_fetch_or_metadata_def
  to_raw_address_def to_header_def

lemma ms_fetch_cases:
  "ms_fetch op (vm, T, self, object) v m =
     (case self of OnSide s \<Rightarrow> side_fetch op (T, s, object) v m | InHeader s \<Rightarrow> hdr_fetch op (T, s, ref_to_header vm object) v m)"
  by (cases op; cases self) (simp_all add: ms_op_defs)

interpretation spec: metadata_access ms_valid ms_cell "\<lambda>(vm, T, self, object). ms_load_atomic vm T self object None"
  "\<lambda>(vm, T, self, object) v. ms_store_atomic vm T self object v None"
  "\<lambda>(vm, T, self, object) old new. compare_exchange_metadata vm T self object old new None" ms_fetch
proof
  fix x :: spec_object assume v: "ms_valid x"
  obtain vm T self ob where x: "x = (vm, T, self, ob)" by (cases x)
  note d = ms_valid_def ms_cell_def ms_op_defs
  show "field_ok (ms_cell x)" using v side.cell_ok hdr.cell_ok by (auto simp: x d split: metadata_spec.splits)
  fix m m0 :: byte_mem
  show "(case x of (vm, T, self, object) \<Rightarrow> ms_load_atomic vm T self object None) m = field_get (ms_cell x) m"
    using v side.load_cell hdr.load_cell by (auto simp: x d split: metadata_spec.splits)
  { fix w :: usize and op assume "take_bit (field_width (ms_cell x)) w = w"
    then show "(case x of (vm, T, self, object) \<Rightarrow> \<lambda>v. ms_store_atomic vm T self object v None) w m = Some (field_put (ms_cell x) w m)"
      "ms_fetch op x w m = Some (field_get (ms_cell x) m, field_put (ms_cell x) (apply_op op (field_get (ms_cell x) m) w) m)"
      using v side.store_cell hdr.store_cell side.fetch_cell hdr.fetch_cell
      by (auto simp: x ms_fetch_cases) (auto simp: d split: metadata_spec.splits) }
  fix old new :: usize
  assume o: "take_bit (field_width (ms_cell x)) old = old" and n: "take_bit (field_width (ms_cell x)) new = new"
  show "\<exists>r. (case x of (vm, T, self, object) \<Rightarrow> \<lambda>old new. compare_exchange_metadata vm T self object old new None) old new m0 m = Some r \<and>
      (\<exists>y. r = (Inr y, field_put (ms_cell x) new m) \<and> field_get (ms_cell x) m = old \<or> r = (Inl y, m))"
    using v o n side.cas_ok hdr.cas_ok by (fastforce simp: x d split: metadata_spec.splits)
  assume "field_get (ms_cell x) m = old"
  then show "\<exists>y. (case x of (vm, T, self, object) \<Rightarrow> \<lambda>old new. compare_exchange_metadata vm T self object old new None) old new m m =
      Some (Inr y, field_put (ms_cell x) new m)"
    using v o n side.cas_quiet hdr.cas_quiet by (fastforce simp: x d split: metadata_spec.splits)
qed

text \<open>A VM that keeps the forwarding pointer in the first word of the header and the forwarding bits in its two
  lowest bits, for the concrete instances below.\<close>

definition header_vm :: vm_object_model where
  "header_vm = \<lparr>ref_to_header = (\<lambda>ob. ob), ref_to_object_start = (\<lambda>ob. ob), get_current_size = (\<lambda>_. 16),
     COMPRESSED_PTR_ENABLED = False, GLOBAL_LOG_BIT_SPEC = vm_side_first VMGlobalLogBitSpec,
     GLOBAL_FIELD_UNLOG_BIT_SPEC = vm_side_first VMGlobalFieldUnlogBitSpec,
     LOCAL_FORWARDING_POINTER_SPEC = vm_in_header VMLocalForwardingPointerSpec 0,
     LOCAL_FORWARDING_BITS_SPEC = vm_in_header VMLocalForwardingBitsSpec 0,
     LOCAL_MARK_BIT_SPEC = vm_side_first VMLocalMarkBitSpec,
     LOCAL_LOS_MARK_NURSERY_SPEC = vm_in_header VMLocalLOSMarkNurserySpec 64\<rparr>"

end
