(* ===== verification/ObjectForwarding.thy ===== *)
theory ObjectForwarding
  imports MetadataSpec
begin

text \<open>
  Forwarding of objects by several threads (\<open>util/object_forwarding.rs\<close>) and the tracing of a copying space that
  uses it (\<open>CopySpace::trace_object\<close> in \<open>policy/copyspace.rs\<close>). Every thread runs the steps of \<open>fwd_step\<close>, one memory
  access at a time, and the steps of the threads interleave with each other and with writes to other metadata.
  Copying an object is done by the VM: it is the parameter \<open>copy\<close>, which returns the new object and
  the memory after the copy.
\<close>

section \<open>Operations\<close>

definition FORWARDING_NOT_TRIGGERED_YET :: usize where "FORWARDING_NOT_TRIGGERED_YET = 0"
definition BEING_FORWARDED :: usize where "BEING_FORWARDED = 2"
definition FORWARDED :: usize where "FORWARDED = 3"
definition FORWARDING_POINTER_MASK :: usize where "FORWARDING_POINTER_MASK = 0x00fffffffffffff8"

definition get_forwarding_status :: "vm_object_model \<Rightarrow> object_reference \<Rightarrow> byte_mem \<Rightarrow> usize" where
  "get_forwarding_status vm object m = ms_load_atomic vm U8 (LOCAL_FORWARDING_BITS_SPEC vm) object None m"

definition is_forwarded :: "vm_object_model \<Rightarrow> object_reference \<Rightarrow> byte_mem \<Rightarrow> bool" where
  "is_forwarded vm object m \<longleftrightarrow> get_forwarding_status vm object m = FORWARDED"

definition is_being_forwarded :: "vm_object_model \<Rightarrow> object_reference \<Rightarrow> byte_mem \<Rightarrow> bool" where
  "is_being_forwarded vm object m \<longleftrightarrow> get_forwarding_status vm object m = BEING_FORWARDED"

definition is_forwarded_or_being_forwarded :: "vm_object_model \<Rightarrow> object_reference \<Rightarrow> byte_mem \<Rightarrow> bool" where
  "is_forwarded_or_being_forwarded vm object m \<longleftrightarrow> get_forwarding_status vm object m \<noteq> FORWARDING_NOT_TRIGGERED_YET"

definition state_is_forwarded_or_being_forwarded :: "usize \<Rightarrow> bool" where
  "state_is_forwarded_or_being_forwarded forwarding_bits \<longleftrightarrow> forwarding_bits \<noteq> FORWARDING_NOT_TRIGGERED_YET"

definition state_is_being_forwarded :: "usize \<Rightarrow> bool" where
  "state_is_being_forwarded forwarding_bits \<longleftrightarrow> forwarding_bits = BEING_FORWARDED"

definition clear_forwarding_bits :: "vm_object_model \<Rightarrow> object_reference \<Rightarrow> byte_mem \<Rightarrow> byte_mem option" where
  "clear_forwarding_bits vm object m = ms_store_atomic vm U8 (LOCAL_FORWARDING_BITS_SPEC vm) object 0 None m"

definition read_forwarding_pointer :: "vm_object_model \<Rightarrow> object_reference \<Rightarrow> byte_mem \<Rightarrow> object_reference" where
  "read_forwarding_pointer vm object m =
     from_raw_address_unchecked
       (ms_load_atomic vm Usize (LOCAL_FORWARDING_POINTER_SPEC vm) object (Some FORWARDING_POINTER_MASK) m)"

definition write_forwarding_pointer ::
  "vm_object_model \<Rightarrow> object_reference \<Rightarrow> object_reference \<Rightarrow> byte_mem \<Rightarrow> byte_mem option" where
  "write_forwarding_pointer vm object new_object m =
     ms_store_atomic vm Usize (LOCAL_FORWARDING_POINTER_SPEC vm) object (to_raw_address new_object) (Some FORWARDING_POINTER_MASK) m"

definition forwarding_bits_offset_in_forwarding_pointer :: "vm_object_model \<Rightarrow> int option" where
  "forwarding_bits_offset_in_forwarding_pointer vm =
     (case (LOCAL_FORWARDING_POINTER_SPEC vm, LOCAL_FORWARDING_BITS_SPEC vm) of
        (InHeader fp, InHeader fb) \<Rightarrow>
          (let maybe_shift = bit_offset fb - bit_offset fp
           in if maybe_shift \<ge> 0 \<and> maybe_shift < uint BITS_IN_WORD then Some maybe_shift else None)
      | _ \<Rightarrow> None)"

text \<open>
  The program of a thread that traces an object: \<open>trace_object\<close> with the calls of \<open>attempt_to_forward\<close>,
  \<open>spin_and_get_forwarded_object\<close> and \<open>forward_object\<close> opened up, cut at the accesses to shared memory. The
  compare-and-exchange has two accesses; \<open>AttemptExchange\<close> carries the memory at the first one.
\<close>

datatype fwd_pc =
    TraceStart
  | AttemptLoad
  | AttemptRead usize
  | AttemptExchange usize byte_mem
  | Attempted usize
  | Spin usize
  | ReadPointer
  | CopyObject
  | WriteForwarding object_reference
  | WriteBits object_reference
  | Enqueue object_reference
  | Return object_reference

fun attempt_to_forward :: "vm_object_model \<Rightarrow> object_reference \<Rightarrow> fwd_pc \<Rightarrow> byte_mem \<Rightarrow> (fwd_pc \<times> byte_mem) option" where
  "attempt_to_forward vm object AttemptLoad m =
     (let old_value = get_forwarding_status vm object m
      in if old_value \<noteq> FORWARDING_NOT_TRIGGERED_YET then Some (Attempted old_value, m) else Some (AttemptRead old_value, m))"
| "attempt_to_forward vm object (AttemptRead old_value) m = Some (AttemptExchange old_value m, m)"
| "attempt_to_forward vm object (AttemptExchange old_value m0) m = do {
     (r, m') \<leftarrow> compare_exchange_metadata vm U8 (LOCAL_FORWARDING_BITS_SPEC vm) object old_value BEING_FORWARDED None m0 m;
     Some (case r of Inr _ \<Rightarrow> Attempted old_value | Inl _ \<Rightarrow> AttemptLoad, m') }"
| "attempt_to_forward vm object pc m = None"

fun spin_and_get_forwarded_object :: "vm_object_model \<Rightarrow> object_reference \<Rightarrow> fwd_pc \<Rightarrow> byte_mem \<Rightarrow> (fwd_pc \<times> byte_mem) option" where
  "spin_and_get_forwarded_object vm object (Spin forwarding_bits) m =
     (if forwarding_bits = BEING_FORWARDED then Some (Spin (get_forwarding_status vm object m), m)
      else if forwarding_bits = FORWARDED then Some (ReadPointer, m)
      else Some (Return object, m))"
| "spin_and_get_forwarded_object vm object ReadPointer m = Some (Return (read_forwarding_pointer vm object m), m)"
| "spin_and_get_forwarded_object vm object pc m = None"

fun forward_object ::
  "vm_object_model \<Rightarrow> (byte_mem \<Rightarrow> object_reference \<times> byte_mem) \<Rightarrow> object_reference \<Rightarrow> fwd_pc \<Rightarrow> byte_mem \<Rightarrow> (fwd_pc \<times> byte_mem) option" where
  "forward_object vm copy object CopyObject m = (let (new_object, m') = copy m in Some (WriteForwarding new_object, m'))"
| "forward_object vm copy object (WriteForwarding new_object) m =
     (case forwarding_bits_offset_in_forwarding_pointer vm of
        Some shift \<Rightarrow> do {
          m' \<leftarrow> ms_store_atomic vm Usize (LOCAL_FORWARDING_POINTER_SPEC vm) object
                 (to_raw_address new_object OR push_bit (nat shift) FORWARDED) None m;
          Some (Enqueue new_object, m') }
      | None \<Rightarrow> do { m' \<leftarrow> write_forwarding_pointer vm object new_object m; Some (WriteBits new_object, m') })"
| "forward_object vm copy object (WriteBits new_object) m = do {
     m' \<leftarrow> ms_store_atomic vm U8 (LOCAL_FORWARDING_BITS_SPEC vm) object FORWARDED None m;
     Some (Enqueue new_object, m') }"
| "forward_object vm copy object pc m = None"

text \<open>The whole program of a thread; the queue is the list of the objects that have been enqueued.\<close>

fun fwd_step ::
  "vm_object_model \<Rightarrow> (byte_mem \<Rightarrow> object_reference \<times> byte_mem) \<Rightarrow> bool \<Rightarrow> object_reference \<Rightarrow> fwd_pc \<Rightarrow>
   byte_mem \<times> object_reference list \<Rightarrow> (fwd_pc \<times> byte_mem \<times> object_reference list) option" where
  "fwd_step vm copy from_space object TraceStart (m, q) = Some (if \<not> from_space then Return object else AttemptLoad, m, q)"
| "fwd_step vm copy from_space object (Attempted forwarding_status) (m, q) =
     Some (if state_is_forwarded_or_being_forwarded forwarding_status then Spin forwarding_status else CopyObject, m, q)"
| "fwd_step vm copy from_space object (Enqueue new_object) (m, q) = Some (Return new_object, m, q @ [new_object])"
| "fwd_step vm copy from_space object (Spin s) (m, q) =
     map_option (\<lambda>(pc, m). (pc, m, q)) (spin_and_get_forwarded_object vm object (Spin s) m)"
| "fwd_step vm copy from_space object ReadPointer (m, q) =
     map_option (\<lambda>(pc, m). (pc, m, q)) (spin_and_get_forwarded_object vm object ReadPointer m)"
| "fwd_step vm copy from_space object CopyObject (m, q) =
     map_option (\<lambda>(pc, m). (pc, m, q)) (forward_object vm copy object CopyObject m)"
| "fwd_step vm copy from_space object (WriteForwarding n) (m, q) =
     map_option (\<lambda>(pc, m). (pc, m, q)) (forward_object vm copy object (WriteForwarding n) m)"
| "fwd_step vm copy from_space object (WriteBits n) (m, q) =
     map_option (\<lambda>(pc, m). (pc, m, q)) (forward_object vm copy object (WriteBits n) m)"
| "fwd_step vm copy from_space object (Return n) (m, q) = None"
| "fwd_step vm copy from_space object pc (m, q) =
     map_option (\<lambda>(pc, m). (pc, m, q)) (attempt_to_forward vm object pc m)"

section \<open>Interleaving\<close>

type_synonym fwd_state = "byte_mem \<times> object_reference list \<times> (nat \<Rightarrow> fwd_pc)"

definition bits_object :: "vm_object_model \<Rightarrow> object_reference \<Rightarrow> spec_object" where
  "bits_object vm object = (vm, U8, LOCAL_FORWARDING_BITS_SPEC vm, object)"

definition pointer_object :: "vm_object_model \<Rightarrow> object_reference \<Rightarrow> spec_object" where
  "pointer_object vm object = (vm, Usize, LOCAL_FORWARDING_POINTER_SPEC vm, object)"

text \<open>Writes by other parts of the collector leave the forwarding state of the object alone.\<close>

definition same_forwarding :: "vm_object_model \<Rightarrow> object_reference \<Rightarrow> byte_mem \<Rightarrow> byte_mem \<Rightarrow> bool" where
  "same_forwarding vm object m m' \<longleftrightarrow>
     field_get (ms_cell (bits_object vm object)) m' = field_get (ms_cell (bits_object vm object)) m \<and>
     field_get (ms_cell (pointer_object vm object)) m' = field_get (ms_cell (pointer_object vm object)) m"

inductive fwd_run ::
  "vm_object_model \<Rightarrow> (byte_mem \<Rightarrow> object_reference \<times> byte_mem) \<Rightarrow> nat \<Rightarrow> object_reference \<Rightarrow> fwd_state \<Rightarrow> fwd_state \<Rightarrow> bool"
  for vm :: vm_object_model and copy :: "byte_mem \<Rightarrow> object_reference \<times> byte_mem" and k :: nat and object :: object_reference where
  thread: "t < k \<Longrightarrow> fwd_step vm copy True object (pcs t) (m, q) = Some (pc', m', q') \<Longrightarrow>
    fwd_run vm copy k object (m, q, pcs) (m', q', pcs(t := pc'))"
| other: "same_forwarding vm object m m' \<Longrightarrow> fwd_run vm copy k object (m, q, pcs) (m', q, pcs)"

text \<open>At the start no thread has begun, the queue is empty and the forwarding bits of the object are clear.\<close>

definition fwd_init :: "vm_object_model \<Rightarrow> object_reference \<Rightarrow> fwd_state \<Rightarrow> bool" where
  "fwd_init vm object = (\<lambda>(m, q, pcs).
     get_forwarding_status vm object m = FORWARDING_NOT_TRIGGERED_YET \<and> q = [] \<and> pcs = (\<lambda>_. TraceStart))"

text \<open>
  What the code relies on: the VM declares two forwarding bits and a forwarding pointer of a word, which share no bits, or
  share a word in the header in which the bits are outside the mask of the pointer; copying returns
  an aligned reference below the mask and leaves the forwarding state of the old object alone.
\<close>

definition fwd_layout_ok :: "vm_object_model \<Rightarrow> object_reference \<Rightarrow> bool" where
  "fwd_layout_ok vm object \<longleftrightarrow>
     ms_valid (bits_object vm object) \<and> field_width (ms_cell (bits_object vm object)) = 2 \<and>
     ms_valid (pointer_object vm object) \<and> field_width (ms_cell (pointer_object vm object)) = 64 \<and>
     (case forwarding_bits_offset_in_forwarding_pointer vm of
        Some shift \<Rightarrow> push_bit (nat shift) FORWARDED AND FORWARDING_POINTER_MASK = 0
      | None \<Rightarrow> footprint (ms_cell (bits_object vm object)) \<inter> footprint (ms_cell (pointer_object vm object)) = {})"

definition reference_ok :: "object_reference \<Rightarrow> bool" where
  "reference_ok object \<longleftrightarrow> object AND FORWARDING_POINTER_MASK = object"

definition copy_ok :: "vm_object_model \<Rightarrow> object_reference \<Rightarrow> (byte_mem \<Rightarrow> object_reference \<times> byte_mem) \<Rightarrow> bool" where
  "copy_ok vm object copy \<longleftrightarrow> (\<forall>m. reference_ok (fst (copy m)) \<and> same_forwarding vm object m (snd (copy m)))"

section \<open>The forwarding state of an object\<close>

lemma status_field:
  assumes "fwd_layout_ok vm ob"
  shows "get_forwarding_status vm ob m = field_get (ms_cell (bits_object vm ob)) m"
  using spec.load_cell [of "bits_object vm ob" m] assms by (simp add: fwd_layout_ok_def bits_object_def get_forwarding_status_def)

lemma take_bit_status: "take_bit 2 FORWARDED = FORWARDED" "take_bit 2 BEING_FORWARDED = BEING_FORWARDED"
  "take_bit 2 FORWARDING_NOT_TRIGGERED_YET = FORWARDING_NOT_TRIGGERED_YET"
  by (simp_all add: FORWARDED_def BEING_FORWARDED_def FORWARDING_NOT_TRIGGERED_YET_def take_bit_eq_mask mask_eq_exp_minus_1)

lemma pointer_whole:
  assumes "fwd_layout_ok vm ob"
  obtains a where "ms_cell (pointer_object vm ob) = Whole a Usize"
proof -
  have v: "ms_valid (pointer_object vm ob)" and w: "field_width (ms_cell (pointer_object vm ob)) = 64"
    using assms by (auto simp: fwd_layout_ok_def)
  have "\<exists>a. ms_cell (pointer_object vm ob) = Whole a Usize"
  proof (cases "LOCAL_FORWARDING_POINTER_SPEC vm")
    case (InHeader s)
    with v w show ?thesis by (auto simp: pointer_object_def ms_cell_def ms_valid_def hdr_cell_def split: if_splits)
  next
    case (OnSide s)
    with v have "field_ok (side_cell (Usize, s, ob))" using side.cell_ok by (simp add: pointer_object_def ms_valid_def)
    with OnSide w show ?thesis by (auto simp: pointer_object_def ms_cell_def side_cell_def split: if_splits)
  qed
  then show ?thesis using that by blast
qed

lemma read_pointer_field:
  assumes "fwd_layout_ok vm ob"
  shows "read_forwarding_pointer vm ob m =
    (if is_in_header (LOCAL_FORWARDING_POINTER_SPEC vm) then field_get (ms_cell (pointer_object vm ob)) m AND FORWARDING_POINTER_MASK
     else field_get (ms_cell (pointer_object vm ob)) m)"
proof (cases "LOCAL_FORWARDING_POINTER_SPEC vm")
  case (InHeader s)
  have "hdr_load_inner Usize s (ref_to_header vm ob) (Some FORWARDING_POINTER_MASK) True m =
    hdr_load_inner Usize s (ref_to_header vm ob) None True m AND FORWARDING_POINTER_MASK"
    by (simp add: hdr_load_inner_def mv_bitand_def Let_def)
  with InHeader show ?thesis
    by (simp add: read_forwarding_pointer_def from_raw_address_unchecked_def is_in_header_def pointer_object_def ms_cell_def
        ms_op_defs hdr_load_atomic_def hdr_load_field)
next
  case (OnSide s)
  then show ?thesis
    by (simp add: read_forwarding_pointer_def from_raw_address_unchecked_def is_in_header_def pointer_object_def ms_cell_def
        ms_op_defs side_load_field)
qed

lemma same_forwarding_view:
  assumes "fwd_layout_ok vm ob" "same_forwarding vm ob m m'"
  shows "get_forwarding_status vm ob m' = get_forwarding_status vm ob m" "read_forwarding_pointer vm ob m' = read_forwarding_pointer vm ob m"
  using assms(2) by (simp_all add: status_field [OF assms(1)] read_pointer_field [OF assms(1)] same_forwarding_def)

text \<open>When both are in one word of the header the forwarding bits are two bits of the pointer word.\<close>

lemma bits_in_pointer:
  assumes "fwd_layout_ok vm ob" "forwarding_bits_offset_in_forwarding_pointer vm = Some sh"
  shows "field_get (ms_cell (bits_object vm ob)) m = take_bit 2 (drop_bit (nat sh) (field_get (ms_cell (pointer_object vm ob)) m))"
    "is_in_header (LOCAL_FORWARDING_POINTER_SPEC vm)" "nat sh + 2 \<le> 64"
proof -
  obtain fp fb where sp: "LOCAL_FORWARDING_POINTER_SPEC vm = InHeader fp" "LOCAL_FORWARDING_BITS_SPEC vm = InHeader fb"
    "sh = bit_offset fb - bit_offset fp" "0 \<le> sh" "sh < 64"
    using assms(2) by (auto simp: forwarding_bits_offset_in_forwarding_pointer_def BITS_IN_WORD_def LOG_BITS_IN_WORD_def
        LOG_BYTES_IN_WORD_def Let_def split: metadata_spec.splits if_splits)
  show "is_in_header (LOCAL_FORWARDING_POINTER_SPEC vm)" by (simp add: is_in_header_def sp(1))
  define h where "h = ref_to_header vm ob"
  have v: "assert_spec U8 fb" "assert_spec Usize fp" "field_width (hdr_cell (U8, fb, h)) = 2" "field_width (hdr_cell (Usize, fp, h)) = 64"
    using assms(1) by (simp_all add: fwd_layout_ok_def bits_object_def pointer_object_def ms_valid_def ms_cell_def hdr_valid_def sp(1,2) h_def)
  have nb: "num_of_bits fb = 2" "num_of_bits fb < 8" "\<not> num_of_bits fp < 8" using v(3,4) by (auto simp: hdr_cell_def split: if_splits)
  have al: "bit_offset fp mod 64 = 0" using v(2) nb(3) by (simp add: assert_spec_def take_bit_eq_mod split: if_splits)
  have fit: "hdr_shift fb + 2 \<le> 8" using hdr_shift_fits(1) [OF v(1) nb(2)] nb(1) by simp
  have d: "bit_offset fb div 8 = bit_offset fp div 8 + sh div 8" "bit_offset fb mod 8 = sh mod 8"
  proof -
    obtain c where "bit_offset fp = 64 * c" using al by (auto elim: dvdE simp: mod_eq_0_iff_dvd)
    then have "bit_offset fp = 8 * (8 * c)" "bit_offset fb = sh + 8 * (8 * c)" using sp(3) by simp_all
    then show "bit_offset fb div 8 = bit_offset fp div 8 + sh div 8" "bit_offset fb mod 8 = sh mod 8"
      by (simp_all only: div_mult_self4 mod_mult_self4 nonzero_mult_div_cancel_left mod_mult_self2)
  qed
  have sm: "hdr_shift fb = nat sh mod 8" using sp(4) d(2) by (simp add: hdr_shift_def nat_mod_distrib)
  have a: "hdr_meta_addr fb h = hdr_meta_addr fp h + of_nat (nat sh div 8)"
  proof -
    have "int (nat sh div 8) = sh div 8" using sp(4) by (simp add: zdiv_int)
    then have "(of_nat (nat sh div 8) :: usize) = word_of_int (sh div 8)" by (metis of_int_of_nat_eq)
    then show ?thesis by (simp add: hdr_meta_addr_def addr_add_offset_def hdr_byte_offset_def drop_bit_eq_div d(1))
  qed
  have pos: "(nat sh + j) div 8 = nat sh div 8" "(nat sh + j) mod 8 = hdr_shift fb + j" "nat sh + j < 64" if "j < 2" for j
  proof -
    have n: "nat sh = 8 * (nat sh div 8) + hdr_shift fb" unfolding sm by simp
    have "nat sh + j = 8 * (nat sh div 8) + (hdr_shift fb + j)" "hdr_shift fb + j < 8" using n that fit by linarith+
    then show "(nat sh + j) div 8 = nat sh div 8" "(nat sh + j) mod 8 = hdr_shift fb + j" by (metis div_mult_self4 mod_mult_self4 div_less mod_less add.right_neutral zero_neq_numeral mult.commute)+
    have "nat sh div 8 < 8" using sp(4,5) by (simp add: less_mult_imp_div_less nat_less_iff)
    with n that fit show "nat sh + j < 64" by linarith
  qed
  show "nat sh + 2 \<le> 64" using pos(3) [of 1] by simp
  have ok: "field_ok (hdr_cell (U8, fb, h))" "field_ok (hdr_cell (Usize, fp, h))"
    using v(1,2) hdr.cell_ok by (simp_all add: hdr_valid_def)
  have "field_get (hdr_cell (U8, fb, h)) m = take_bit 2 (drop_bit (nat sh) (field_get (hdr_cell (Usize, fp, h)) m))"
  proof (rule bit_word_eqI)
    fix j
    have c: "hdr_cell (U8, fb, h) = BitsIn (hdr_meta_addr fb h) (hdr_shift fb) 2" "hdr_cell (Usize, fp, h) = Whole (hdr_meta_addr fp h) Usize"
      using nb by (simp_all add: hdr_cell_def)
    show "bit (field_get (hdr_cell (U8, fb, h)) m) j = bit (take_bit 2 (drop_bit (nat sh) (field_get (hdr_cell (Usize, fp, h)) m))) j"
      unfolding bit_take_bit_iff bit_drop_bit_eq o_apply bit_field_get [OF ok(1)] bit_field_get [OF ok(2)]
      unfolding c using pos [of j] by (auto simp: a)
  qed
  then show "field_get (ms_cell (bits_object vm ob)) m = take_bit 2 (drop_bit (nat sh) (field_get (ms_cell (pointer_object vm ob)) m))"
    by (simp add: ms_cell_def bits_object_def pointer_object_def sp h_def)
qed

lemma store_together:
  assumes "fwd_layout_ok vm ob" "forwarding_bits_offset_in_forwarding_pointer vm = Some sh" "reference_ok n"
  obtains m' where "ms_store_atomic vm Usize (LOCAL_FORWARDING_POINTER_SPEC vm) ob (to_raw_address n OR push_bit (nat sh) FORWARDED) None m = Some m'"
    "get_forwarding_status vm ob m' = FORWARDED" "read_forwarding_pointer vm ob m' = n"
proof -
  let ?P = "pointer_object vm ob" and ?w = "n OR push_bit (nat sh) FORWARDED"
  have v: "ms_valid ?P" "field_width (ms_cell ?P) = 64" "push_bit (nat sh) FORWARDED AND FORWARDING_POINTER_MASK = 0"
    using assms(1,2) by (simp_all add: fwd_layout_ok_def)
  have st: "ms_store_atomic vm Usize (LOCAL_FORWARDING_POINTER_SPEC vm) ob (to_raw_address n OR push_bit (nat sh) FORWARDED) None m = Some (field_put (ms_cell ?P) ?w m)"
    using spec.store_cell [OF v(1), of ?w m] v(2) by (simp add: pointer_object_def to_raw_address_def take_bit_word_eq_self)
  have g: "field_get (ms_cell ?P) (field_put (ms_cell ?P) ?w m) = ?w" using spec.cell_ok [OF v(1)] by (simp add: field_get_put v(2) take_bit_word_eq_self)
  have r: "read_forwarding_pointer vm ob (field_put (ms_cell ?P) ?w m) = n"
    using v(3) assms(3) by (simp add: read_pointer_field [OF assms(1)] bits_in_pointer(2) [OF assms(1,2)] g reference_ok_def bit.conj_disj_distrib2)
  have "bit FORWARDED j" if "j < 2" for j using that by (auto simp: FORWARDED_def less_2_cases_iff)
  moreover have "bit FORWARDED j \<Longrightarrow> j < 2" for j using take_bit_status(1) by (metis bit_take_bit_iff)
  ultimately have "take_bit 2 (drop_bit (nat sh) ?w) = FORWARDED"
    using bits_in_pointer(3) [OF assms(1,2)] by (intro bit_word_eqI) (fastforce simp: bit_take_bit_iff bit_drop_bit_eq bit_or_iff bit_push_bit_iff)
  then have "get_forwarding_status vm ob (field_put (ms_cell ?P) ?w m) = FORWARDED"
    by (simp only: status_field [OF assms(1)] bits_in_pointer(1) [OF assms(1,2)] g)
  with st r that show thesis by blast
qed

lemma store_pointer:
  assumes "fwd_layout_ok vm ob" "forwarding_bits_offset_in_forwarding_pointer vm = None" "reference_ok n"
  obtains m' where "write_forwarding_pointer vm ob n m = Some m'"
    "get_forwarding_status vm ob m' = get_forwarding_status vm ob m" "read_forwarding_pointer vm ob m' = n"
proof -
  let ?P = "pointer_object vm ob" and ?B = "bits_object vm ob"
  have v: "ms_valid ?P" "field_width (ms_cell ?P) = 64" "ms_valid ?B" "footprint (ms_cell ?B) \<inter> footprint (ms_cell ?P) = {}"
    using assms(1,2) by (simp_all add: fwd_layout_ok_def)
  have ok: "field_ok (ms_cell ?P)" "field_ok (ms_cell ?B)" using v spec.cell_ok by simp_all
  have "\<exists>w. write_forwarding_pointer vm ob n m = Some (field_put (ms_cell ?P) w m) \<and>
      (if is_in_header (LOCAL_FORWARDING_POINTER_SPEC vm) then w AND FORWARDING_POINTER_MASK else w) = n"
  proof (cases "LOCAL_FORWARDING_POINTER_SPEC vm")
    case (OnSide s)
    then have c: "ms_cell ?P = side_cell (Usize, s, ob)" by (simp add: ms_cell_def pointer_object_def)
    have "sm_store_atomic Usize s ob n m = Some (field_put (side_cell (Usize, s, ob)) n m)"
      using side_store_field(2) [of Usize s ob n m] v(2) c by (simp add: take_bit_word_eq_self)
    with OnSide c show ?thesis by (simp add: write_forwarding_pointer_def ms_op_defs is_in_header_def)
  next
    case (InHeader s)
    let ?w = "(addr_load Usize (hdr_meta_addr s (ref_to_header vm ob)) m AND NOT FORWARDING_POINTER_MASK) OR (n AND FORWARDING_POINTER_MASK)"
    have c: "ms_cell ?P = hdr_cell (Usize, s, ref_to_header vm ob)" "\<not> num_of_bits s < 8"
      using InHeader v(2) by (auto simp: ms_cell_def pointer_object_def hdr_cell_def split: if_splits)
    then have "write_forwarding_pointer vm ob n m = Some (field_put (ms_cell ?P) ?w m)"
      using InHeader by (simp add: write_forwarding_pointer_def ms_op_defs hdr_store_atomic_def hdr_store_inner_def hdr_cell_def
          mv_fetch_update_def mv_bitor_def mv_bitand_def mv_inv_def take_bit_word_eq_self Let_def)
    moreover have "?w AND FORWARDING_POINTER_MASK = n"
      using assms(3) unfolding reference_ok_def by (simp add: bit.conj_disj_distrib2 and.assoc)
    ultimately show ?thesis using InHeader by (auto simp: is_in_header_def)
  qed
  then obtain w where w: "write_forwarding_pointer vm ob n m = Some (field_put (ms_cell ?P) w m)"
    "(if is_in_header (LOCAL_FORWARDING_POINTER_SPEC vm) then w AND FORWARDING_POINTER_MASK else w) = n" by blast
  have "field_get (ms_cell ?P) (field_put (ms_cell ?P) w m) = w" using ok(1) by (simp add: field_get_put v(2) take_bit_word_eq_self)
  moreover have "field_get (ms_cell ?B) (field_put (ms_cell ?P) w m) = field_get (ms_cell ?B) m"
    using field_get_put_other [OF ok] v(4) by blast
  ultimately show thesis
    by (intro that [OF w(1)]) (simp_all only: read_pointer_field [OF assms(1)] status_field [OF assms(1)] w(2))
qed

lemma store_bits:
  assumes "fwd_layout_ok vm ob" "forwarding_bits_offset_in_forwarding_pointer vm = None"
  obtains m' where "ms_store_atomic vm U8 (LOCAL_FORWARDING_BITS_SPEC vm) ob FORWARDED None m = Some m'"
    "get_forwarding_status vm ob m' = FORWARDED" "read_forwarding_pointer vm ob m' = read_forwarding_pointer vm ob m"
proof -
  let ?P = "pointer_object vm ob" and ?B = "bits_object vm ob"
  have v: "ms_valid ?P" "field_width (ms_cell ?B) = 2" "ms_valid ?B" "footprint (ms_cell ?B) \<inter> footprint (ms_cell ?P) = {}"
    using assms(1,2) by (simp_all add: fwd_layout_ok_def)
  have ok: "field_ok (ms_cell ?P)" "field_ok (ms_cell ?B)" using v spec.cell_ok by simp_all
  have "ms_store_atomic vm U8 (LOCAL_FORWARDING_BITS_SPEC vm) ob FORWARDED None m = Some (field_put (ms_cell ?B) FORWARDED m)"
    using spec.store_cell [OF v(3), of FORWARDED m] v(2) by (simp add: take_bit_status bits_object_def)
  moreover have "field_get (ms_cell ?B) (field_put (ms_cell ?B) FORWARDED m) = FORWARDED"
    by (simp add: field_get_put ok(2) v(2) take_bit_status)
  moreover have "field_get (ms_cell ?P) (field_put (ms_cell ?B) FORWARDED m) = field_get (ms_cell ?P) m"
    by (rule field_get_put_other [OF ok(2,1) v(4)])
  ultimately show thesis using that by (simp add: read_pointer_field [OF assms(1)] status_field [OF assms(1)])
qed

lemma exchange_bits:
  assumes "fwd_layout_ok vm ob"
  obtains r m' where
    "compare_exchange_metadata vm U8 (LOCAL_FORWARDING_BITS_SPEC vm) ob FORWARDING_NOT_TRIGGERED_YET BEING_FORWARDED None m0 m = Some (r, m')"
    "(\<exists>y. r = Inl y) \<and> m' = m \<or> (\<exists>y. r = Inr y) \<and> get_forwarding_status vm ob m = FORWARDING_NOT_TRIGGERED_YET \<and>
       get_forwarding_status vm ob m' = BEING_FORWARDED"
    "m0 = m \<and> get_forwarding_status vm ob m = FORWARDING_NOT_TRIGGERED_YET \<longrightarrow> (\<exists>y. r = Inr y)"
proof -
  let ?B = "bits_object vm ob"
  have v: "ms_valid ?B" "field_width (ms_cell ?B) = 2" using assms by (simp_all add: fwd_layout_ok_def)
  have t: "take_bit (field_width (ms_cell ?B)) FORWARDING_NOT_TRIGGERED_YET = FORWARDING_NOT_TRIGGERED_YET"
    "take_bit (field_width (ms_cell ?B)) BEING_FORWARDED = BEING_FORWARDED" by (simp_all add: v(2) take_bit_status)
  have g: "field_get (ms_cell ?B) (field_put (ms_cell ?B) BEING_FORWARDED m) = BEING_FORWARDED"
    using spec.cell_ok [OF v(1)] by (simp add: field_get_put t)
  let ?c = "compare_exchange_metadata vm U8 (LOCAL_FORWARDING_BITS_SPEC vm) ob FORWARDING_NOT_TRIGGERED_YET BEING_FORWARDED None"
  obtain r y where r: "?c m0 m = Some r"
    "r = (Inr y, field_put (ms_cell ?B) BEING_FORWARDED m) \<and> field_get (ms_cell ?B) m = FORWARDING_NOT_TRIGGERED_YET \<or> r = (Inl y, m)"
    using spec.cas_ok [OF v(1) t, of m0 m] unfolding bits_object_def by auto
  have q: "\<exists>y. ?c m m = Some (Inr y, field_put (ms_cell ?B) BEING_FORWARDED m)"
    if "field_get (ms_cell ?B) m = FORWARDING_NOT_TRIGGERED_YET"
    using spec.cas_quiet [OF v(1) t that] unfolding bits_object_def by auto
  show thesis
  proof (rule that [of "fst r" "snd r"])
    show "?c m0 m = Some (fst r, snd r)" using r(1) by simp
    show "(\<exists>y. fst r = Inl y) \<and> snd r = m \<or> (\<exists>y. fst r = Inr y) \<and> get_forwarding_status vm ob m = FORWARDING_NOT_TRIGGERED_YET \<and>
       get_forwarding_status vm ob (snd r) = BEING_FORWARDED"
      using r(2) g by (auto simp: status_field [OF assms])
    show "m0 = m \<and> get_forwarding_status vm ob m = FORWARDING_NOT_TRIGGERED_YET \<longrightarrow> (\<exists>y. fst r = Inr y)"
      using q r(1) by (auto simp: status_field [OF assms])
  qed
qed

section \<open>One thread forwards the object\<close>

text \<open>The threads that have won the object and not yet published the copy, and those that have to enqueue it.\<close>

fun claims :: "fwd_pc \<Rightarrow> bool" where
  "claims (Attempted v) \<longleftrightarrow> v = FORWARDING_NOT_TRIGGERED_YET"
| "claims CopyObject \<longleftrightarrow> True"
| "claims (WriteForwarding n) \<longleftrightarrow> True"
| "claims (WriteBits n) \<longleftrightarrow> True"
| "claims pc \<longleftrightarrow> False"

fun enqueues :: "fwd_pc \<Rightarrow> bool" where
  "enqueues (Enqueue n) \<longleftrightarrow> True"
| "enqueues pc \<longleftrightarrow> False"

definition threads :: "(fwd_pc \<Rightarrow> bool) \<Rightarrow> nat \<Rightarrow> (nat \<Rightarrow> fwd_pc) \<Rightarrow> nat" where
  "threads P k pcs = (\<Sum>t<k. of_bool (P (pcs t)))"

lemma threads_upd: "t < k \<Longrightarrow> threads P k (pcs(t := pc)) + of_bool (P (pcs t)) = threads P k pcs + of_bool (P pc)"
proof (induction k)
  case (Suc k)
  then show ?case by (cases "t = k") (auto simp: threads_def intro!: sum.cong)
qed simp

lemma threads_zero: "threads P k pcs = 0 \<longleftrightarrow> (\<forall>t<k. \<not> P (pcs t))"
  by (auto simp: threads_def)

lemma threads_one:
  assumes "threads P k pcs = 1" "t < k" "P (pcs t)" "t' < k" "P (pcs t')"
  shows "t' = t"
proof (rule ccontr)
  assume "t' \<noteq> t"
  then have "(\<Sum>i\<in>{t, t'}. of_bool (P (pcs i))) \<le> threads P k pcs"
    unfolding threads_def using assms by (intro sum_mono2) auto
  with \<open>t' \<noteq> t\<close> assms show False by simp
qed

text \<open>What a thread knows at each point of its program.\<close>

fun pc_ok :: "vm_object_model \<Rightarrow> object_reference \<Rightarrow> byte_mem \<Rightarrow> fwd_pc \<Rightarrow> bool" where
  "pc_ok vm ob m (AttemptRead v) \<longleftrightarrow> v = FORWARDING_NOT_TRIGGERED_YET"
| "pc_ok vm ob m (AttemptExchange v m0) \<longleftrightarrow> v = FORWARDING_NOT_TRIGGERED_YET"
| "pc_ok vm ob m (Attempted v) \<longleftrightarrow> v = FORWARDING_NOT_TRIGGERED_YET \<or>
     v = BEING_FORWARDED \<and> get_forwarding_status vm ob m \<noteq> FORWARDING_NOT_TRIGGERED_YET \<or> v = FORWARDED \<and> is_forwarded vm ob m"
| "pc_ok vm ob m (Spin v) \<longleftrightarrow>
     v = BEING_FORWARDED \<and> get_forwarding_status vm ob m \<noteq> FORWARDING_NOT_TRIGGERED_YET \<or> v = FORWARDED \<and> is_forwarded vm ob m"
| "pc_ok vm ob m ReadPointer \<longleftrightarrow> is_forwarded vm ob m"
| "pc_ok vm ob m (WriteForwarding n) \<longleftrightarrow> reference_ok n"
| "pc_ok vm ob m (WriteBits n) \<longleftrightarrow> read_forwarding_pointer vm ob m = n \<and> forwarding_bits_offset_in_forwarding_pointer vm = None"
| "pc_ok vm ob m (Enqueue n) \<longleftrightarrow> is_forwarded vm ob m \<and> read_forwarding_pointer vm ob m = n"
| "pc_ok vm ob m (Return n) \<longleftrightarrow> is_forwarded vm ob m \<and> read_forwarding_pointer vm ob m = n"
| "pc_ok vm ob m pc \<longleftrightarrow> True"

definition fwd_inv :: "vm_object_model \<Rightarrow> nat \<Rightarrow> object_reference \<Rightarrow> fwd_state \<Rightarrow> bool" where
  "fwd_inv vm k ob = (\<lambda>(m, q, pcs).
     (\<forall>t<k. pc_ok vm ob m (pcs t)) \<and>
     get_forwarding_status vm ob m \<in> {FORWARDING_NOT_TRIGGERED_YET, BEING_FORWARDED, FORWARDED} \<and>
     threads claims k pcs = of_bool (is_being_forwarded vm ob m) \<and>
     threads enqueues k pcs + length q = of_bool (is_forwarded vm ob m) \<and>
     set q \<subseteq> {read_forwarding_pointer vm ob m})"

lemma status_distinct [simp]:
  "BEING_FORWARDED \<noteq> FORWARDING_NOT_TRIGGERED_YET" "FORWARDED \<noteq> FORWARDING_NOT_TRIGGERED_YET" "FORWARDED \<noteq> BEING_FORWARDED"
  "FORWARDING_NOT_TRIGGERED_YET \<noteq> BEING_FORWARDED" "FORWARDING_NOT_TRIGGERED_YET \<noteq> FORWARDED" "BEING_FORWARDED \<noteq> FORWARDED"
  by (simp_all add: FORWARDED_def BEING_FORWARDED_def FORWARDING_NOT_TRIGGERED_YET_def)

lemma pc_ok_same:
  "get_forwarding_status vm ob m' = get_forwarding_status vm ob m \<Longrightarrow> read_forwarding_pointer vm ob m' = read_forwarding_pointer vm ob m \<Longrightarrow>
   pc_ok vm ob m' pc = pc_ok vm ob m pc"
  by (cases pc) (simp_all add: is_forwarded_def)

lemma pc_ok_other:
  "pc_ok vm ob m pc \<Longrightarrow> \<not> claims pc \<Longrightarrow> \<not> is_forwarded vm ob m \<Longrightarrow>
   (get_forwarding_status vm ob m \<noteq> FORWARDING_NOT_TRIGGERED_YET \<Longrightarrow> get_forwarding_status vm ob m' \<noteq> FORWARDING_NOT_TRIGGERED_YET) \<Longrightarrow>
   pc_ok vm ob m' pc"
  by (cases pc) (auto simp: is_forwarded_def)

lemma fwd_thread_inv:
  assumes "fwd_layout_ok vm ob" "copy_ok vm ob copy" "fwd_inv vm k ob (m, q, pcs)" "t < k"
    and "fwd_step vm copy True ob (pcs t) (m, q) = Some (pc', m', q')"
  shows "fwd_inv vm k ob (m', q', pcs(t := pc'))"
proof -
  note up = threads_upd [OF assms(4), of claims pcs pc'] threads_upd [OF assms(4), of enqueues pcs pc']
  have ok: "pc_ok vm ob m (pcs t)" and inv: "\<And>t. t < k \<Longrightarrow> pc_ok vm ob m (pcs t)"
    "get_forwarding_status vm ob m \<in> {FORWARDING_NOT_TRIGGERED_YET, BEING_FORWARDED, FORWARDED}"
    "threads claims k pcs = of_bool (is_being_forwarded vm ob m)"
    "threads enqueues k pcs + length q = of_bool (is_forwarded vm ob m)" "set q \<subseteq> {read_forwarding_pointer vm ob m}"
    using assms(3,4) by (auto simp: fwd_inv_def)
  note sd = is_forwarded_def is_being_forwarded_def
  have quiet: ?thesis if "get_forwarding_status vm ob m' = get_forwarding_status vm ob m"
    "read_forwarding_pointer vm ob m' = read_forwarding_pointer vm ob m" "q' = q" "claims pc' = claims (pcs t)"
    "enqueues pc' = enqueues (pcs t)" "pc_ok vm ob m pc'"
    using that inv up by (auto simp: fwd_inv_def sd pc_ok_same [OF that(1,2)])
  have others: "pc_ok vm ob m' (pcs t')" if "t' < k" "t' \<noteq> t" "\<not> is_forwarded vm ob m" "threads claims k pcs = of_bool (claims (pcs t))"
    "get_forwarding_status vm ob m \<noteq> FORWARDING_NOT_TRIGGERED_YET \<Longrightarrow> get_forwarding_status vm ob m' \<noteq> FORWARDING_NOT_TRIGGERED_YET" for t'
  proof (rule pc_ok_other [OF inv(1) [OF that(1)] _ that(3,5)])
    show "\<not> claims (pcs t')"
      using that(1,2,4) threads_one [of claims k pcs t t'] threads_zero [of claims k pcs] assms(4) by (cases "claims (pcs t)") auto
  qed
  show ?thesis
  proof (cases "pcs t")
    case (AttemptExchange v m0)
    with ok have v: "v = FORWARDING_NOT_TRIGGERED_YET" by simp
    obtain r m1 where r: "compare_exchange_metadata vm U8 (LOCAL_FORWARDING_BITS_SPEC vm) ob v BEING_FORWARDED None m0 m = Some (r, m1)"
      "(\<exists>y. r = Inl y) \<and> m1 = m \<or> (\<exists>y. r = Inr y) \<and> get_forwarding_status vm ob m = FORWARDING_NOT_TRIGGERED_YET \<and>
       get_forwarding_status vm ob m1 = BEING_FORWARDED"
      unfolding v by (rule exchange_bits [OF assms(1), of m0 m])
    then have e: "m' = m1" "q' = q" "pc' = (case r of Inr _ \<Rightarrow> Attempted v | Inl _ \<Rightarrow> AttemptLoad)"
      using assms(5) unfolding AttemptExchange by auto
    show ?thesis
    proof (cases r)
      case (Inl y)
      with r e AttemptExchange show ?thesis by (intro quiet) auto
    next
      case (Inr y)
      with r(2) have st: "get_forwarding_status vm ob m = FORWARDING_NOT_TRIGGERED_YET" "get_forwarding_status vm ob m' = BEING_FORWARDED"
        using e by auto
      have "q = []" "threads claims k pcs = 0" using inv(3,4) st by (auto simp: sd)
      with st e Inr AttemptExchange v up inv(4) others show ?thesis by (auto simp: fwd_inv_def sd)
    qed
  next
    case (WriteForwarding n)
    have c: "threads claims k pcs = 1" "is_being_forwarded vm ob m" "threads enqueues k pcs = 0" "q = []"
      using inv(3,4) threads_zero [of claims k pcs] assms(4) WriteForwarding by (auto simp: sd split: if_splits)
    have n: "reference_ok n" using ok WriteForwarding by simp
    show ?thesis
    proof (cases "forwarding_bits_offset_in_forwarding_pointer vm")
      case None
      obtain m1 where "write_forwarding_pointer vm ob n m = Some m1"
        "get_forwarding_status vm ob m1 = get_forwarding_status vm ob m" "read_forwarding_pointer vm ob m1 = n"
        by (rule store_pointer [OF assms(1) None n])
      with assms(5) None WriteForwarding c up others show ?thesis by (auto simp: fwd_inv_def sd)
    next
      case (Some sh)
      obtain m1 where "ms_store_atomic vm Usize (LOCAL_FORWARDING_POINTER_SPEC vm) ob (to_raw_address n OR push_bit (nat sh) FORWARDED) None m = Some m1"
        "get_forwarding_status vm ob m1 = FORWARDED" "read_forwarding_pointer vm ob m1 = n"
        by (rule store_together [OF assms(1) Some n])
      with assms(5) Some WriteForwarding c up others show ?thesis by (auto simp: fwd_inv_def sd)
    qed
  next
    case (WriteBits n)
    have c: "threads claims k pcs = 1" "is_being_forwarded vm ob m" "threads enqueues k pcs = 0" "q = []"
      using inv(3,4) threads_zero [of claims k pcs] assms(4) WriteBits by (auto simp: sd split: if_splits)
    have n: "read_forwarding_pointer vm ob m = n" "forwarding_bits_offset_in_forwarding_pointer vm = None" using ok WriteBits by auto
    obtain m1 where "ms_store_atomic vm U8 (LOCAL_FORWARDING_BITS_SPEC vm) ob FORWARDED None m = Some m1"
      "get_forwarding_status vm ob m1 = FORWARDED" "read_forwarding_pointer vm ob m1 = read_forwarding_pointer vm ob m"
      by (rule store_bits [OF assms(1) n(2)])
    with assms(5) n WriteBits c up others show ?thesis by (auto simp: fwd_inv_def sd)
  next
    case CopyObject
    obtain n m1 where "copy m = (n, m1)" by (cases "copy m")
    with assms(2) have "reference_ok n" "same_forwarding vm ob m m1" by (auto simp: copy_ok_def) (metis fst_conv, metis snd_conv)
    with same_forwarding_view [OF assms(1) this(2)] \<open>copy m = _\<close> assms(5) CopyObject show ?thesis by (intro quiet) auto
  next
    case (Enqueue n)
    then have "threads enqueues k pcs \<noteq> 0" unfolding threads_zero using assms(4) by force
    moreover have "threads enqueues k pcs + length q = 1" using inv(4) ok Enqueue by simp
    ultimately have "q = []" by (cases q) simp_all
    with Enqueue assms(5) ok inv up show ?thesis by (auto simp: fwd_inv_def sd)
  next
    case (Spin v)
    with assms(5) ok inv(2) show ?thesis by (intro quiet) (auto simp: sd split: if_splits)
  next
    case (Attempted v)
    with assms(5) ok show ?thesis by (intro quiet) (auto simp: state_is_forwarded_or_being_forwarded_def split: if_splits)
  next
    case AttemptLoad
    with assms(5) inv(2) show ?thesis by (intro quiet) (auto simp: sd Let_def split: if_splits)
  next
    case TraceStart
    with assms(5) show ?thesis by (intro quiet) auto
  next
    case (AttemptRead v)
    with assms(5) ok show ?thesis by (intro quiet) auto
  next
    case ReadPointer
    with assms(5) ok show ?thesis by (intro quiet) auto
  qed (use assms(5) in simp)
qed

lemma fwd_run_inv:
  assumes "fwd_layout_ok vm ob" "copy_ok vm ob copy" "fwd_run vm copy k ob s s'" "fwd_inv vm k ob s"
  shows "fwd_inv vm k ob s'"
  using assms(3)
proof cases
  case (thread t pcs m q pc' m' q')
  then show ?thesis using fwd_thread_inv [OF assms(1,2)] assms(4) by simp
next
  case (other m m' q pcs)
  note v = same_forwarding_view [OF assms(1) other(3)]
  show ?thesis using assms(4) by (simp add: other(1,2) fwd_inv_def is_forwarded_def is_being_forwarded_def v pc_ok_same [OF v])
qed

lemma fwd_reach_inv:
  assumes "fwd_layout_ok vm ob" "copy_ok vm ob copy" "(fwd_run vm copy k ob)\<^sup>*\<^sup>* s s'" "fwd_inv vm k ob s"
  shows "fwd_inv vm k ob s'"
  using assms(3,4) by (induction rule: rtranclp_induct) (auto intro: fwd_run_inv [OF assms(1,2)])

lemma fwd_init_inv: "fwd_init vm ob s \<Longrightarrow> fwd_inv vm k ob s"
  by (auto simp: fwd_init_def fwd_inv_def threads_def is_forwarded_def is_being_forwarded_def)

text \<open>
  C4. Whatever the number of threads that trace the same object and however their steps interleave with each other
  and with writes to other metadata: at most one thread has the object to copy at any time, at most one copy is
  enqueued, every thread that returns has the object that the forwarding pointer names, and when all threads have
  returned exactly one copy has been enqueued and all of them have returned it.
\<close>

theorem forward_once:
  assumes "fwd_layout_ok vm ob" "copy_ok vm ob copy" "fwd_init vm ob s" "(fwd_run vm copy k ob)\<^sup>*\<^sup>* s (m, q, pcs)"
  shows "card {t. t < k \<and> claims (pcs t)} \<le> 1 \<and> length q \<le> 1 \<and>
    (\<forall>t n. t < k \<and> pcs t = Return n \<longrightarrow> is_forwarded vm ob m \<and> n = read_forwarding_pointer vm ob m) \<and>
    (0 < k \<and> (\<forall>t<k. \<exists>n. pcs t = Return n) \<longrightarrow> q = [read_forwarding_pointer vm ob m])"
proof -
  have inv: "fwd_inv vm k ob (m, q, pcs)"
    by (rule fwd_reach_inv [OF assms(1,2,4)]) (rule fwd_init_inv [OF assms(3)])
  then have i: "\<forall>t<k. pc_ok vm ob m (pcs t)" "threads claims k pcs = of_bool (is_being_forwarded vm ob m)"
    "threads enqueues k pcs + length q = of_bool (is_forwarded vm ob m)" "set q \<subseteq> {read_forwarding_pointer vm ob m}"
    by (auto simp: fwd_inv_def)
  have "card {t. t < k \<and> claims (pcs t)} = threads claims k pcs"
    by (simp add: threads_def of_bool_def sum.If_cases Int_def conj_commute)
  then have "card {t. t < k \<and> claims (pcs t)} \<le> 1" using i(2) by simp
  moreover have "length q \<le> 1" using i(3) by (cases "is_forwarded vm ob m") simp_all
  moreover have r: "is_forwarded vm ob m \<and> n = read_forwarding_pointer vm ob m" if "t < k" "pcs t = Return n" for t n
    using i(1) that by force
  moreover have "q = [read_forwarding_pointer vm ob m]" if "0 < k" "\<forall>t<k. \<exists>n. pcs t = Return n"
  proof -
    have "threads enqueues k pcs = 0" unfolding threads_zero using that(2) by force
    moreover have "is_forwarded vm ob m" using r that by blast
    ultimately have "length q = 1" using i(3) by simp
    then obtain x where "q = [x]" by (auto simp: length_Suc_conv)
    with i(4) show ?thesis by simp
  qed
  ultimately show ?thesis by blast
qed

section \<open>Every state can be completed\<close>

text \<open>
  How far a thread is from returning, for each state of the object. While the object is free a failed exchange of a
  thread with an old view of the byte is followed by one with the current view.
\<close>

definition phase :: "vm_object_model \<Rightarrow> object_reference \<Rightarrow> byte_mem \<Rightarrow> nat" where
  "phase vm ob m = (if is_forwarded vm ob m then 0 else if is_being_forwarded vm ob m then 1 else 2)"

fun steps_left :: "nat \<Rightarrow> byte_mem \<Rightarrow> fwd_pc \<Rightarrow> nat" where
  "steps_left p m (Return n) = 0"
| "steps_left p m (Enqueue n) = 1"
| "steps_left p m ReadPointer = 2"
| "steps_left p m (Spin v) = (if v = BEING_FORWARDED then 4 else 3)"
| "steps_left p m (WriteBits n) = 2"
| "steps_left p m (WriteForwarding n) = 3"
| "steps_left p m CopyObject = 4"
| "steps_left p m (Attempted v) = 5"
| "steps_left p m (AttemptExchange v m0) = (if p = 2 \<and> m0 = m then 5 else 9)"
| "steps_left p m (AttemptRead v) = (if p = 2 then 6 else 10)"
| "steps_left p m AttemptLoad = 8"
| "steps_left p m TraceStart = 11"

text \<open>A thread that can move on: the owner of the object while it is being forwarded, any thread otherwise.\<close>

lemma thread_moves:
  assumes "fwd_layout_ok vm ob" "copy_ok vm ob copy" "fwd_inv vm k ob (m, q, pcs)" "t < k"
    and "\<nexists>n. pcs t = Return n" "is_being_forwarded vm ob m \<Longrightarrow> claims (pcs t)"
  obtains pc' m' q' where "fwd_step vm copy True ob (pcs t) (m, q) = Some (pc', m', q')"
    "phase vm ob m' < phase vm ob m \<or> phase vm ob m' = phase vm ob m \<and> (m' = m \<or> phase vm ob m = 1) \<and>
       steps_left (phase vm ob m) m pc' < steps_left (phase vm ob m) m (pcs t)"
proof -
  have inv: "pc_ok vm ob m (pcs t)" "get_forwarding_status vm ob m \<in> {FORWARDING_NOT_TRIGGERED_YET, BEING_FORWARDED, FORWARDED}"
    "claims (pcs t) \<Longrightarrow> is_being_forwarded vm ob m"
    using assms(3,4) threads_zero [of claims k pcs] by (auto simp: fwd_inv_def split: if_splits)
  note d = phase_def is_forwarded_def is_being_forwarded_def
  show thesis
  proof (cases "pcs t")
    case (AttemptExchange v m0)
    with inv(1) have v: "v = FORWARDING_NOT_TRIGGERED_YET" by simp
    obtain r m1 where r: "compare_exchange_metadata vm U8 (LOCAL_FORWARDING_BITS_SPEC vm) ob v BEING_FORWARDED None m0 m = Some (r, m1)"
      "(\<exists>y. r = Inl y) \<and> m1 = m \<or> (\<exists>y. r = Inr y) \<and> get_forwarding_status vm ob m = FORWARDING_NOT_TRIGGERED_YET \<and>
       get_forwarding_status vm ob m1 = BEING_FORWARDED"
      "m0 = m \<and> get_forwarding_status vm ob m = FORWARDING_NOT_TRIGGERED_YET \<longrightarrow> (\<exists>y. r = Inr y)"
      unfolding v by (rule exchange_bits [OF assms(1), of m0 m])
    show thesis
      by (rule that [of "case r of Inr _ \<Rightarrow> Attempted v | Inl _ \<Rightarrow> AttemptLoad" m1 q])
        (use r assms(6) inv(2) AttemptExchange in \<open>auto simp: d split: sum.splits if_splits\<close>)
  next
    case (WriteForwarding n)
    with inv have b: "is_being_forwarded vm ob m" "reference_ok n" by auto
    show thesis
    proof (cases "forwarding_bits_offset_in_forwarding_pointer vm")
      case None
      obtain m1 where "write_forwarding_pointer vm ob n m = Some m1" "get_forwarding_status vm ob m1 = get_forwarding_status vm ob m"
        by (rule store_pointer [OF assms(1) None b(2)])
      then show thesis by (intro that [of "WriteBits n" m1 q]) (use WriteForwarding None b in \<open>auto simp: d\<close>)
    next
      case (Some sh)
      obtain m1 where "ms_store_atomic vm Usize (LOCAL_FORWARDING_POINTER_SPEC vm) ob (to_raw_address n OR push_bit (nat sh) FORWARDED) None m = Some m1"
        "get_forwarding_status vm ob m1 = FORWARDED"
        by (rule store_together [OF assms(1) Some b(2)])
      then show thesis by (intro that [of "Enqueue n" m1 q]) (use WriteForwarding Some b in \<open>auto simp: d\<close>)
    qed
  next
    case (WriteBits n)
    with inv have b: "is_being_forwarded vm ob m" "forwarding_bits_offset_in_forwarding_pointer vm = None" by auto
    obtain m1 where "ms_store_atomic vm U8 (LOCAL_FORWARDING_BITS_SPEC vm) ob FORWARDED None m = Some m1"
      "get_forwarding_status vm ob m1 = FORWARDED"
      by (rule store_bits [OF assms(1) b(2)])
    then show thesis by (intro that [of "Enqueue n" m1 q]) (use WriteBits b in \<open>auto simp: d\<close>)
  next
    case CopyObject
    obtain n m1 where c: "copy m = (n, m1)" by (cases "copy m")
    with assms(2) have "same_forwarding vm ob m m1" unfolding copy_ok_def by (metis snd_conv)
    with same_forwarding_view [OF assms(1) this] c CopyObject inv(3) show thesis
      by (intro that [of "WriteForwarding n" m1 q]) (auto simp: d)
  next
    case (Attempted v)
    then show thesis
      by (intro that [of "if state_is_forwarded_or_being_forwarded v then Spin v else CopyObject" m q])
        (use inv in \<open>auto simp: state_is_forwarded_or_being_forwarded_def\<close>)
  next
    case (Spin v)
    then show thesis
      using that [of "if v = BEING_FORWARDED then Spin (get_forwarding_status vm ob m) else if v = FORWARDED then ReadPointer else Return ob" m q]
        inv assms(6) by (auto simp: d)
  next
    case AttemptLoad
    then show thesis
      by (intro that [of "if get_forwarding_status vm ob m \<noteq> FORWARDING_NOT_TRIGGERED_YET then Attempted (get_forwarding_status vm ob m)
          else AttemptRead (get_forwarding_status vm ob m)" m q])
        (use inv in \<open>auto simp: d Let_def\<close>)
  next
    case (AttemptRead v)
    then show thesis by (intro that [of "AttemptExchange v m" m q]) auto
  next
    case ReadPointer
    then show thesis by (intro that [of "Return (read_forwarding_pointer vm ob m)" m q]) auto
  next
    case (Enqueue n)
    then show thesis by (intro that [of "Return n" m "q @ [n]"]) auto
  next
    case TraceStart
    then show thesis by (intro that [of AttemptLoad m q]) auto
  qed (use assms(5) in simp)
qed

definition fwd_left :: "vm_object_model \<Rightarrow> nat \<Rightarrow> object_reference \<Rightarrow> fwd_state \<Rightarrow> nat" where
  "fwd_left vm k ob = (\<lambda>(m, q, pcs). \<Sum>t<k. steps_left (phase vm ob m) m (pcs t))"

lemma steps_left_memory: "p \<noteq> 2 \<Longrightarrow> steps_left p m' pc = steps_left p m pc"
  by (cases pc) auto

lemma fwd_progress:
  assumes "fwd_layout_ok vm ob" "copy_ok vm ob copy" "fwd_inv vm k ob s" "\<exists>t<k. \<nexists>n. snd (snd s) t = Return n"
  obtains s' where "fwd_run vm copy k ob s s'" "(s', s) \<in> measures [\<lambda>s. phase vm ob (fst s), fwd_left vm k ob]"
proof -
  obtain m q pcs where s: "s = (m, q, pcs)" by (cases s)
  have "\<exists>t<k. (\<nexists>n. pcs t = Return n) \<and> (is_being_forwarded vm ob m \<longrightarrow> claims (pcs t))"
  proof (cases "is_being_forwarded vm ob m")
    case True
    then have "threads claims k pcs \<noteq> 0" using assms(3) by (simp add: fwd_inv_def s)
    then obtain t where "t < k" "claims (pcs t)" unfolding threads_zero by blast
    then show ?thesis by (metis claims.simps(12))
  next
    case False
    then show ?thesis using assms(4) by (auto simp: s)
  qed
  then obtain t where t: "t < k" "\<nexists>n. pcs t = Return n" "is_being_forwarded vm ob m \<Longrightarrow> claims (pcs t)" by blast
  obtain pc' m' q' where st: "fwd_step vm copy True ob (pcs t) (m, q) = Some (pc', m', q')"
    "phase vm ob m' < phase vm ob m \<or> phase vm ob m' = phase vm ob m \<and> (m' = m \<or> phase vm ob m = 1) \<and>
       steps_left (phase vm ob m) m pc' < steps_left (phase vm ob m) m (pcs t)"
    by (rule thread_moves [OF assms(1,2) assms(3) [unfolded s] t])
  have "fwd_left vm k ob (m', q', pcs(t := pc')) < fwd_left vm k ob (m, q, pcs)" if "\<not> phase vm ob m' < phase vm ob m"
  proof -
    let ?f = "steps_left (phase vm ob m) m"
    have "steps_left (phase vm ob m') m' pc = ?f pc" for pc
      using st(2) that steps_left_memory [of "phase vm ob m" m' pc m] by auto
    then have "fwd_left vm k ob (m', q', pcs(t := pc')) = (\<Sum>i<k. ?f ((pcs(t := pc')) i))" by (simp add: fwd_left_def)
    also have "\<dots> < (\<Sum>i<k. ?f (pcs i))"
      by (rule sum_strict_mono_ex1) (use st(2) that t(1) in auto)
    finally show ?thesis by (simp add: fwd_left_def)
  qed
  then have "((m', q', pcs(t := pc')), s) \<in> measures [\<lambda>s. phase vm ob (fst s), fwd_left vm k ob]"
    using st(2) by (auto simp: s)
  with fwd_run.thread [where pcs = pcs and t = t, OF t(1) st(1)] that show thesis by (simp add: s)
qed

lemma fwd_completes:
  assumes "fwd_layout_ok vm ob" "copy_ok vm ob copy" "fwd_inv vm k ob s"
  shows "\<exists>s'. (fwd_run vm copy k ob)\<^sup>*\<^sup>* s s' \<and> (\<forall>t<k. \<exists>n. snd (snd s') t = Return n)"
  using assms(3)
proof (induction s rule: wf_induct_rule [OF wf_measures [of "[\<lambda>s. phase vm ob (fst s), fwd_left vm k ob]"]])
  case (1 s)
  show ?case
  proof (cases "\<exists>t<k. \<nexists>n. snd (snd s) t = Return n")
    case True
    obtain s1 where s1: "fwd_run vm copy k ob s s1" "(s1, s) \<in> measures [\<lambda>s. phase vm ob (fst s), fwd_left vm k ob]"
      by (rule fwd_progress [OF assms(1,2) 1(2) True])
    with 1(1) fwd_run_inv [OF assms(1,2) s1(1) 1(2)] show ?thesis by (meson converse_rtranclp_into_rtranclp)
  next
    case False
    then show ?thesis by blast
  qed
qed

text \<open>
  C16. Tracing cannot get stuck: every state that any number of threads can reach has a continuation in which all of them
  return, however long some of them have been spinning on the forwarding bits of the object or repeating the exchange.
\<close>

theorem forward_completes:
  assumes "fwd_layout_ok vm ob" "copy_ok vm ob copy" "fwd_init vm ob s0" "(fwd_run vm copy k ob)\<^sup>*\<^sup>* s0 s"
  shows "\<exists>m q pcs. (fwd_run vm copy k ob)\<^sup>*\<^sup>* s (m, q, pcs) \<and> (\<forall>t<k. pcs t = Return (read_forwarding_pointer vm ob m))"
proof -
  have inv: "fwd_inv vm k ob s" by (rule fwd_reach_inv [OF assms(1,2,4)]) (rule fwd_init_inv [OF assms(3)])
  obtain m q pcs where s: "(fwd_run vm copy k ob)\<^sup>*\<^sup>* s (m, q, pcs)" "\<forall>t<k. \<exists>n. pcs t = Return n"
    using fwd_completes [OF assms(1,2) inv] by auto
  have "\<forall>t<k. pc_ok vm ob m (pcs t)" using fwd_reach_inv [OF assms(1,2) s(1) inv] by (simp add: fwd_inv_def)
  with s(2) have "\<forall>t<k. pcs t = Return (read_forwarding_pointer vm ob m)" by (metis pc_ok.simps(9))
  with s(1) show ?thesis by blast
qed

lemma header_vm_ok:
  "fwd_layout_ok header_vm ob" "copy_ok header_vm ob (\<lambda>m. (0x20000004000, m))"
  "fwd_init header_vm ob (\<lambda>_. 0, [], \<lambda>_. TraceStart)"
proof -
  show "fwd_layout_ok header_vm ob"
    by (simp add: fwd_layout_ok_def header_vm_def bits_object_def pointer_object_def vm_in_header_def VMLocalForwardingPointerSpec_def
        VMLocalForwardingBitsSpec_def ms_valid_def ms_cell_def hdr_valid_def hdr_cell_def assert_spec_def LOG_BITS_IN_WORD_def
        LOG_BYTES_IN_WORD_def BITS_IN_WORD_def forwarding_bits_offset_in_forwarding_pointer_def FORWARDED_def FORWARDING_POINTER_MASK_def)
  show "copy_ok header_vm ob (\<lambda>m. (0x20000004000, m))"
    by (simp add: copy_ok_def reference_ok_def same_forwarding_def FORWARDING_POINTER_MASK_def)
  show "fwd_init header_vm ob (\<lambda>_. 0, [], \<lambda>_. TraceStart)"
    by (simp add: fwd_init_def header_vm_def get_forwarding_status_def vm_in_header_def VMLocalForwardingBitsSpec_def ms_op_defs
        hdr_load_atomic_def hdr_load_field hdr_cell_def byte_get_def FORWARDING_NOT_TRIGGERED_YET_def)
qed

theorem forward_once_witness:
  "\<exists>m pcs. (fwd_run header_vm (\<lambda>m. (0x20000004000, m)) 3 0x20000001238)\<^sup>*\<^sup>* (\<lambda>_. 0, [], \<lambda>_. TraceStart)
     (m, [read_forwarding_pointer header_vm 0x20000001238 m], pcs)"
proof -
  note ok = header_vm_ok [of "0x20000001238"]
  obtain m q pcs where "(fwd_run header_vm (\<lambda>m. (0x20000004000, m)) 3 0x20000001238)\<^sup>*\<^sup>* (\<lambda>_. 0, [], \<lambda>_. TraceStart) (m, q, pcs)"
    "\<forall>t<3. \<exists>n. pcs t = Return n"
    using fwd_completes [OF ok(1,2) fwd_init_inv [OF ok(3)], of 3] by auto
  with forward_once [OF ok this(1)] show ?thesis by auto
qed

theorem forward_completes_witness:
  "\<exists>m q pcs. (fwd_run header_vm (\<lambda>m. (0x20000004000, m)) 3 0x20000001238)\<^sup>*\<^sup>* (\<lambda>_. 0, [], \<lambda>_. TraceStart) (m, q, pcs) \<and>
     pcs 2 = Return (read_forwarding_pointer header_vm 0x20000001238 m)"
proof -
  obtain m q pcs where "(fwd_run header_vm (\<lambda>m. (0x20000004000, m)) 3 0x20000001238)\<^sup>*\<^sup>* (\<lambda>_. 0, [], \<lambda>_. TraceStart) (m, q, pcs)"
    "\<forall>t<3. pcs t = Return (read_forwarding_pointer header_vm 0x20000001238 m)"
    using forward_completes [OF header_vm_ok rtranclp.rtrancl_refl, of 3 "0x20000001238"] by blast
  moreover from this(2) have "pcs 2 = Return (read_forwarding_pointer header_vm 0x20000001238 m)" by simp
  ultimately show ?thesis by blast
qed

end
