(* ===== verification/MarkBit.thy ===== *)
theory MarkBit
  imports MetadataSpec
begin

text \<open>
  Mark bits (\<open>util/metadata/mark_bit.rs\<close>), log bits (\<open>util/metadata/log_bit.rs\<close>) and the space that marks with them,
  \<open>policy/immortalspace.rs\<close>. A mark bit on the side is cleared before each collection and 1 means marked; a mark
  bit in the header keeps its value and the meaning of the two values is exchanged after each collection. The loop of
  \<open>test_and_mark\<close> is that of one thread; what the page resource of the space reports is the list \<open>regions\<close>.
\<close>

section \<open>Mark bits and log bits\<close>

definition spec_mark :: "vm_object_model \<Rightarrow> metadata_spec \<Rightarrow> object_reference \<Rightarrow> byte_mem \<Rightarrow> byte_mem option" where
  "spec_mark vm self object m = ms_store_atomic vm U8 self object 1 None m"

definition spec_is_marked :: "vm_object_model \<Rightarrow> metadata_spec \<Rightarrow> object_reference \<Rightarrow> byte_mem \<Rightarrow> bool" where
  "spec_is_marked vm self object m \<longleftrightarrow> ms_load_atomic vm U8 self object None m = 1"

definition log_clear :: "vm_object_model \<Rightarrow> metadata_spec \<Rightarrow> object_reference \<Rightarrow> byte_mem \<Rightarrow> byte_mem option" where
  "log_clear vm self object m = ms_store_atomic vm U8 self object 0 None m"

definition mark_as_unlogged :: "vm_object_model \<Rightarrow> metadata_spec \<Rightarrow> object_reference \<Rightarrow> byte_mem \<Rightarrow> byte_mem option" where
  "mark_as_unlogged vm self object m = ms_store_atomic vm U8 self object 1 None m"

definition mark_byte_as_unlogged :: "vm_object_model \<Rightarrow> metadata_spec \<Rightarrow> object_reference \<Rightarrow> byte_mem \<Rightarrow> byte_mem option" where
  "mark_byte_as_unlogged vm self object m =
     (case self of
        InHeader _ \<Rightarrow> mark_as_unlogged vm self object m
      | OnSide spec \<Rightarrow> Some (set_raw_byte_atomic spec (to_raw_address object) m))"

definition is_unlogged :: "vm_object_model \<Rightarrow> metadata_spec \<Rightarrow> object_reference \<Rightarrow> byte_mem \<Rightarrow> bool" where
  "is_unlogged vm self object m \<longleftrightarrow> ms_load_atomic vm U8 self object None m = 1"

section \<open>The mark state\<close>

record mark_state = mark_value :: usize

definition mark_state_new :: mark_state where
  "mark_state_new = \<lparr>mark_value = 1\<rparr>"

definition unmarked_state :: "mark_state \<Rightarrow> usize" where
  "unmarked_state self = mark_value self XOR 1"

definition ms_is_marked :: "vm_object_model \<Rightarrow> mark_state \<Rightarrow> object_reference \<Rightarrow> byte_mem \<Rightarrow> bool" where
  "ms_is_marked vm self object m \<longleftrightarrow>
     (let state = ms_load_atomic vm U8 (LOCAL_MARK_BIT_SPEC vm) object None m in state = mark_value self)"

partial_function (option) test_and_mark ::
  "vm_object_model \<Rightarrow> mark_state \<Rightarrow> object_reference \<Rightarrow> byte_mem \<Rightarrow> (bool \<times> byte_mem) option" where
  "test_and_mark vm self object m =
     (let old_value = ms_load_atomic vm U8 (LOCAL_MARK_BIT_SPEC vm) object None m in
      if old_value = mark_value self then Some (False, m)
      else do {
        (r, m') \<leftarrow> compare_exchange_metadata vm U8 (LOCAL_MARK_BIT_SPEC vm) object old_value (mark_value self) None m m;
        case r of Inr _ \<Rightarrow> Some (True, m') | Inl _ \<Rightarrow> test_and_mark vm self object m' })"

definition on_object_metadata_initialization ::
  "vm_object_model \<Rightarrow> mark_state \<Rightarrow> object_reference \<Rightarrow> byte_mem \<Rightarrow> byte_mem option" where
  "on_object_metadata_initialization vm self object m =
     (if is_in_header (LOCAL_MARK_BIT_SPEC vm)
      then ms_store_atomic vm U8 (LOCAL_MARK_BIT_SPEC vm) object (unmarked_state self) None m
      else Some m)"

definition on_block_reset :: "vm_object_model \<Rightarrow> mark_state \<Rightarrow> address \<Rightarrow> usize \<Rightarrow> byte_mem \<Rightarrow> byte_mem" where
  "on_block_reset vm self start sz m =
     (case LOCAL_MARK_BIT_SPEC vm of OnSide side \<Rightarrow> bzero_metadata side start sz m | InHeader _ \<Rightarrow> m)"

definition on_global_release :: "vm_object_model \<Rightarrow> mark_state \<Rightarrow> mark_state" where
  "on_global_release vm self =
     (if is_in_header (LOCAL_MARK_BIT_SPEC vm) then self\<lparr>mark_value := unmarked_state self\<rparr> else self)"

section \<open>The immortal space\<close>

record immortal_space =
  im_mark_state :: mark_state
  im_start :: address
  im_extent :: usize
  needs_log_bit :: bool
  needs_field_log_bit :: bool
  vm_space :: bool

text \<open>The words of an object, each four or eight bytes from the previous one.\<close>

definition field_offsets :: "bool \<Rightarrow> nat \<Rightarrow> nat list" where
  "field_offsets compressed bytes =
     (let step = (if compressed then 4 else 8) in map (\<lambda>i. i * step) [0..<(bytes + step - 1) div step])"

fun unlog_all :: "vm_object_model \<Rightarrow> metadata_spec \<Rightarrow> address list \<Rightarrow> byte_mem \<Rightarrow> byte_mem option" where
  "unlog_all vm spec [] m = Some m"
| "unlog_all vm spec (a # as) m = do { m \<leftarrow> mark_as_unlogged vm spec a m; unlog_all vm spec as m }"

definition immortal_initialize_object_metadata ::
  "vm_object_model \<Rightarrow> immortal_space \<Rightarrow> object_reference \<Rightarrow> nat \<Rightarrow> byte_mem \<Rightarrow> byte_mem option" where
  "immortal_initialize_object_metadata vm self object bytes m = do {
     m \<leftarrow> on_object_metadata_initialization vm (im_mark_state self) object m;
     m \<leftarrow> (if needs_log_bit self then mark_as_unlogged vm (GLOBAL_LOG_BIT_SPEC vm) object m else Some m);
     if needs_log_bit self \<and> needs_field_log_bit self
     then unlog_all vm (GLOBAL_LOG_BIT_SPEC vm) (map (\<lambda>i. to_raw_address object + of_nat i) (field_offsets (COMPRESSED_PTR_ENABLED vm) bytes)) m
     else Some m }"

fun reset_regions :: "vm_object_model \<Rightarrow> mark_state \<Rightarrow> (address \<times> usize) list \<Rightarrow> byte_mem \<Rightarrow> byte_mem" where
  "reset_regions vm st [] m = m"
| "reset_regions vm st ((addr, sz) # rs) m = reset_regions vm st rs (on_block_reset vm st addr sz m)"

definition immortal_prepare :: "vm_object_model \<Rightarrow> immortal_space \<Rightarrow> (address \<times> usize) list \<Rightarrow> byte_mem \<Rightarrow> byte_mem" where
  "immortal_prepare vm self regions m =
     (if vm_space self then on_block_reset vm (im_mark_state self) (im_start self) (im_extent self) m
      else reset_regions vm (im_mark_state self) regions m)"

definition immortal_release :: "vm_object_model \<Rightarrow> immortal_space \<Rightarrow> immortal_space" where
  "immortal_release vm self = self\<lparr>im_mark_state := on_global_release vm (im_mark_state self)\<rparr>"

definition immortal_trace_object ::
  "vm_object_model \<Rightarrow> immortal_space \<Rightarrow> object_reference list \<Rightarrow> object_reference \<Rightarrow> byte_mem \<Rightarrow>
   (object_reference \<times> object_reference list \<times> byte_mem) option" where
  "immortal_trace_object vm self queue object m = do {
     (marked, m) \<leftarrow> test_and_mark vm (im_mark_state self) object m;
     if marked then do {
       m \<leftarrow> (if needs_log_bit self then ms_store_atomic vm U8 (GLOBAL_LOG_BIT_SPEC vm) object 1 None m else Some m);
       Some (object, queue @ [object], m) }
     else Some (object, queue, m) }"

text \<open>Tracing the objects that a collection reaches, in the order it reaches them.\<close>

fun immortal_trace_all ::
  "vm_object_model \<Rightarrow> immortal_space \<Rightarrow> object_reference list \<Rightarrow> object_reference list \<Rightarrow> byte_mem \<Rightarrow>
   (object_reference list \<times> byte_mem) option" where
  "immortal_trace_all vm self queue [] m = Some (queue, m)"
| "immortal_trace_all vm self queue (ob # obs) m = do {
     (_, queue, m) \<leftarrow> immortal_trace_object vm self queue ob m;
     immortal_trace_all vm self queue obs m }"

section \<open>Marking\<close>

definition mark_object :: "vm_object_model \<Rightarrow> object_reference \<Rightarrow> spec_object" where
  "mark_object vm ob = (vm, U8, LOCAL_MARK_BIT_SPEC vm, ob)"

definition log_object :: "vm_object_model \<Rightarrow> object_reference \<Rightarrow> spec_object" where
  "log_object vm ob = (vm, U8, GLOBAL_LOG_BIT_SPEC vm, ob)"

text \<open>
  The metadata of a set of objects: every object has a mark bit and a log bit, and no two of these bits are
  the same.
\<close>

definition marks_ok :: "vm_object_model \<Rightarrow> object_reference set \<Rightarrow> bool" where
  "marks_ok vm obs \<longleftrightarrow>
     (\<forall>ob\<in>obs. ms_valid (mark_object vm ob) \<and> field_width (ms_cell (mark_object vm ob)) = 1 \<and>
        ms_valid (log_object vm ob) \<and> field_width (ms_cell (log_object vm ob)) = 1) \<and>
     (\<forall>ob\<in>obs. \<forall>ob'\<in>obs. footprint (ms_cell (log_object vm ob)) \<inter> footprint (ms_cell (mark_object vm ob')) = {} \<and>
        (ob \<noteq> ob' \<longrightarrow> footprint (ms_cell (mark_object vm ob)) \<inter> footprint (ms_cell (mark_object vm ob')) = {}))"

definition state_ok :: "vm_object_model \<Rightarrow> mark_state \<Rightarrow> bool" where
  "state_ok vm st \<longleftrightarrow> (if is_on_side (LOCAL_MARK_BIT_SPEC vm) then mark_value st = 1 else mark_value st \<in> {0, 1})"

lemma state_ok_steps: "state_ok vm mark_state_new" "state_ok vm st \<Longrightarrow> state_ok vm (on_global_release vm st)"
  by (auto simp: state_ok_def mark_state_new_def on_global_release_def unmarked_state_def is_on_side_def is_in_header_def
      split: metadata_spec.splits)

lemma take_bit_one: "v \<in> {0, 1} \<Longrightarrow> take_bit 1 v = (v :: usize)"
  by auto

lemma is_marked_field:
  assumes "marks_ok vm obs" "ob \<in> obs"
  shows "ms_is_marked vm st ob m \<longleftrightarrow> field_get (ms_cell (mark_object vm ob)) m = mark_value st"
  using spec.load_cell [of "mark_object vm ob" m] assms by (simp add: ms_is_marked_def mark_object_def marks_ok_def)

lemma mark_bit_values:
  assumes "marks_ok vm obs" "ob \<in> obs"
  shows "field_get (ms_cell (mark_object vm ob)) m \<in> {0, 1}"
proof -
  have "take_bit 1 (field_get (ms_cell (mark_object vm ob)) m) = field_get (ms_cell (mark_object vm ob)) m"
    using field_get_take [OF spec.cell_ok, of "mark_object vm ob" m] assms by (simp add: marks_ok_def)
  then have "field_get (ms_cell (mark_object vm ob)) m mod 2 = field_get (ms_cell (mark_object vm ob)) m" by simp
  then show ?thesis by (metis insertI1 insertI2 mod2_eq_if)
qed

lemma other_mark_bits:
  assumes "marks_ok vm obs" "ob \<in> obs" "ob' \<in> obs"
  shows "ob' \<noteq> ob \<Longrightarrow> field_get (ms_cell (mark_object vm ob')) (field_put (ms_cell (mark_object vm ob)) v m) = field_get (ms_cell (mark_object vm ob')) m"
    "field_get (ms_cell (mark_object vm ob')) (field_put (ms_cell (log_object vm ob)) v m) = field_get (ms_cell (mark_object vm ob')) m"
  using assms spec.cell_ok field_get_put_other by (auto simp: marks_ok_def)

lemma test_and_mark_steps:
  assumes "marks_ok vm obs" "ob \<in> obs" "state_ok vm st"
  shows "test_and_mark vm st ob m =
    (if ms_is_marked vm st ob m then Some (False, m) else Some (True, field_put (ms_cell (mark_object vm ob)) (mark_value st) m))"
proof -
  let ?M = "mark_object vm ob" and ?v = "field_get (ms_cell (mark_object vm ob)) m"
  have v: "ms_valid ?M" "field_width (ms_cell ?M) = 1" using assms(1,2) by (auto simp: marks_ok_def)
  have l: "ms_load_atomic vm U8 (LOCAL_MARK_BIT_SPEC vm) ob None m = ?v"
    using spec.load_cell [OF v(1)] by (simp add: mark_object_def)
  have t: "take_bit (field_width (ms_cell ?M)) ?v = ?v" "take_bit (field_width (ms_cell ?M)) (mark_value st) = mark_value st"
    using take_bit_one [OF mark_bit_values [OF assms(1,2), of m]] assms(3) by (auto simp: v(2) state_ok_def split: if_splits)
  obtain y where "compare_exchange_metadata vm U8 (LOCAL_MARK_BIT_SPEC vm) ob ?v (mark_value st) None m m =
      Some (Inr y, field_put (ms_cell ?M) (mark_value st) m)"
    using spec.cas_quiet [OF v(1) t refl] by (auto simp: mark_object_def)
  then show ?thesis
    by (subst test_and_mark.simps) (simp add: l is_marked_field [OF assms(1,2)] Let_def)
qed

lemma mark_puts:
  assumes "marks_ok vm obs" "ob \<in> obs" "state_ok vm st" "ob' \<in> obs"
  shows "ms_is_marked vm st ob' (field_put (ms_cell (mark_object vm ob)) (mark_value st) m) \<longleftrightarrow> ob' = ob \<or> ms_is_marked vm st ob' m"
    "ms_is_marked vm st ob' (field_put (ms_cell (log_object vm ob)) v m) \<longleftrightarrow> ms_is_marked vm st ob' m"
proof -
  have w: "field_ok (ms_cell (mark_object vm ob))" "field_width (ms_cell (mark_object vm ob)) = 1"
    using assms(1,2) spec.cell_ok by (auto simp: marks_ok_def)
  have "mark_value st \<in> {0, 1}" using assms(3) by (auto simp: state_ok_def split: if_splits)
  from take_bit_one [OF this] show "ms_is_marked vm st ob' (field_put (ms_cell (mark_object vm ob)) (mark_value st) m) \<longleftrightarrow> ob' = ob \<or> ms_is_marked vm st ob' m"
    using other_mark_bits(1) [OF assms(1,2,4)] field_get_put [OF w(1)] w(2)
    by (cases "ob' = ob") (simp_all add: is_marked_field [OF assms(1,2)] is_marked_field [OF assms(1,4)])
  show "ms_is_marked vm st ob' (field_put (ms_cell (log_object vm ob)) v m) \<longleftrightarrow> ms_is_marked vm st ob' m"
    by (simp add: is_marked_field [OF assms(1,4)] other_mark_bits(2) [OF assms(1,2,4)])
qed

lemma immortal_trace_object_step:
  assumes "marks_ok vm obs" "ob \<in> obs" "state_ok vm (im_mark_state self)"
  obtains m' where "immortal_trace_object vm self q ob m = Some (ob, if ms_is_marked vm (im_mark_state self) ob m then q else q @ [ob], m')"
    "\<forall>ob'\<in>obs. ms_is_marked vm (im_mark_state self) ob' m' \<longleftrightarrow> ob' = ob \<or> ms_is_marked vm (im_mark_state self) ob' m"
proof (cases "ms_is_marked vm (im_mark_state self) ob m")
  case True
  with that [of m] show thesis by (auto simp: immortal_trace_object_def test_and_mark_steps [OF assms])
next
  case False
  let ?m1 = "field_put (ms_cell (mark_object vm ob)) (mark_value (im_mark_state self)) m"
  let ?m2 = "if needs_log_bit self then field_put (ms_cell (log_object vm ob)) 1 ?m1 else ?m1"
  have "ms_store_atomic vm U8 (GLOBAL_LOG_BIT_SPEC vm) ob 1 None ?m1 = Some (field_put (ms_cell (log_object vm ob)) 1 ?m1)"
    using spec.store_cell [of "log_object vm ob" 1 ?m1] assms(1,2) by (simp add: marks_ok_def log_object_def)
  with False have "immortal_trace_object vm self q ob m = Some (ob, q @ [ob], ?m2)"
    by (simp add: immortal_trace_object_def test_and_mark_steps [OF assms])
  with that [of ?m2] False mark_puts [OF assms] show thesis by simp
qed

text \<open>The objects of a list in the order of their first occurrence.\<close>

definition first_occurrences :: "'a list \<Rightarrow> 'a list" where
  "first_occurrences xs = rev (remdups (rev xs))"

lemma first_occurrences_snoc: "first_occurrences (xs @ [x]) = (if x \<in> set xs then first_occurrences xs else first_occurrences xs @ [x])"
  by (simp add: first_occurrences_def)

lemma immortal_trace_all_snoc:
  "immortal_trace_all vm self q (obs @ [ob]) m = do {
     (q, m) \<leftarrow> immortal_trace_all vm self q obs m;
     (_, q, m) \<leftarrow> immortal_trace_object vm self q ob m;
     Some (q, m) }"
  by (induction obs arbitrary: q m) (auto split: option.splits bind_splits prod.splits)

lemma immortal_trace_all_marks:
  assumes "marks_ok vm live" "state_ok vm (im_mark_state self)" "\<And>ob. ob \<in> live \<Longrightarrow> \<not> ms_is_marked vm (im_mark_state self) ob m"
    and "set obs \<subseteq> live"
  obtains m' where "immortal_trace_all vm self [] obs m = Some (first_occurrences obs, m')"
    "\<And>ob. ob \<in> live \<Longrightarrow> ms_is_marked vm (im_mark_state self) ob m' \<longleftrightarrow> ob \<in> set obs"
proof -
  have "\<exists>m'. immortal_trace_all vm self [] obs m = Some (first_occurrences obs, m') \<and>
    (\<forall>ob\<in>live. ms_is_marked vm (im_mark_state self) ob m' \<longleftrightarrow> ob \<in> set obs)"
    using assms(4)
  proof (induction obs rule: rev_induct)
    case Nil
    then show ?case using assms(3) by (simp add: first_occurrences_def)
  next
    case (snoc ob obs)
    then obtain m1 where m1: "immortal_trace_all vm self [] obs m = Some (first_occurrences obs, m1)"
      "\<forall>ob\<in>live. ms_is_marked vm (im_mark_state self) ob m1 \<longleftrightarrow> ob \<in> set obs" by auto
    have ob: "ob \<in> live" using snoc.prems by simp
    obtain m2 where "immortal_trace_object vm self (first_occurrences obs) ob m1 =
        Some (ob, if ms_is_marked vm (im_mark_state self) ob m1 then first_occurrences obs else first_occurrences obs @ [ob], m2)"
      "\<forall>ob'\<in>live. ms_is_marked vm (im_mark_state self) ob' m2 \<longleftrightarrow> ob' = ob \<or> ms_is_marked vm (im_mark_state self) ob' m1"
      by (rule immortal_trace_object_step [OF assms(1) ob assms(2)])
    with m1 ob show ?case by (auto simp: immortal_trace_all_snoc first_occurrences_snoc)
  qed
  then show thesis using that by blast
qed

section \<open>A collection cycle\<close>

text \<open>What the resets of a preparation do to mark bits on the side, and where the objects of the space are.\<close>

definition in_space :: "vm_object_model \<Rightarrow> immortal_space \<Rightarrow> (address \<times> usize) list \<Rightarrow> object_reference \<Rightarrow> bool" where
  "in_space vm self regions ob \<longleftrightarrow>
     (case LOCAL_MARK_BIT_SPEC vm of
        InHeader _ \<Rightarrow> True
      | OnSide s \<Rightarrow> unat ob < 2 ^ 47 \<and>
          (\<exists>(a, n) \<in> set (if vm_space self then [(im_start self, im_extent self)] else regions). in_regions s a n ob) \<and>
          (\<forall>(a, n) \<in> set (if vm_space self then [(im_start self, im_extent self)] else regions). data_range_ok s a n))"

lemma bzero_load:
  assumes "data_range_ok s start sz" "assert_value_type T s" "unat d < 2 ^ 47"
  shows "sm_load_atomic T s d (bzero_metadata s start sz m) = (if in_regions s start sz d then 0 else sm_load_atomic T s d m)"
  unfolding bzero_metadata_def
  by (rule bit_word_eqI)
    (simp add: side_load_bits [OF assms bulk_update_bits [where update = zero_meta_bits and b = False, OF assms(1) _ zero_meta_bits_at]] split: prod.splits)

lemma reset_regions_zero:
  assumes "LOCAL_MARK_BIT_SPEC vm = OnSide s" "assert_value_type U8 s" "unat ob < 2 ^ 47" "\<forall>(a, n) \<in> set rs. data_range_ok s a n"
  shows "sm_load_atomic U8 s ob (reset_regions vm st rs m) =
    (if \<exists>(a, n) \<in> set rs. in_regions s a n ob then 0 else sm_load_atomic U8 s ob m)"
  using assms(4)
proof (induction rs arbitrary: m)
  case (Cons r rs)
  obtain a n where r: "r = (a, n)" by (cases r)
  with Cons.prems have d: "data_range_ok s a n" by simp
  show ?case using Cons bzero_load [OF d assms(2,3), of m] by (auto simp: r on_block_reset_def assms(1))
qed simp

lemma prepare_unmarks:
  assumes "marks_ok vm obs" "ob \<in> obs" "state_ok vm (im_mark_state self)" "in_space vm self regions ob"
  shows "is_on_side (LOCAL_MARK_BIT_SPEC vm) \<Longrightarrow> \<not> ms_is_marked vm (im_mark_state self) ob (immortal_prepare vm self regions m)"
    "is_in_header (LOCAL_MARK_BIT_SPEC vm) \<Longrightarrow> immortal_prepare vm self regions m = m"
proof -
  have reset: "reset_regions vm st rs m = m" if "is_in_header (LOCAL_MARK_BIT_SPEC vm)" for st rs
    using that by (induction rs arbitrary: m) (auto simp: is_in_header_def on_block_reset_def split: metadata_spec.splits)
  show "immortal_prepare vm self regions m = m" if "is_in_header (LOCAL_MARK_BIT_SPEC vm)"
    using that reset [OF that] by (auto simp: immortal_prepare_def is_in_header_def on_block_reset_def split: metadata_spec.splits)
  assume "is_on_side (LOCAL_MARK_BIT_SPEC vm)"
  then obtain s where s: "LOCAL_MARK_BIT_SPEC vm = OnSide s" by (auto simp: is_on_side_def split: metadata_spec.splits)
  let ?rs = "if vm_space self then [(im_start self, im_extent self)] else regions"
  have t: "assert_value_type U8 s" using assms(1,2) by (auto simp: marks_ok_def mark_object_def ms_valid_def side_valid_def s)
  have p: "immortal_prepare vm self regions m = reset_regions vm (im_mark_state self) ?rs m" by (simp add: immortal_prepare_def)
  have z: "sm_load_atomic U8 s ob (immortal_prepare vm self regions m) = 0"
    using reset_regions_zero [OF s t, of ob ?rs "im_mark_state self" m] assms(4) unfolding p by (auto simp: in_space_def s)
  have "mark_value (im_mark_state self) = 1" using assms(3) by (simp add: state_ok_def is_on_side_def s)
  with z show "\<not> ms_is_marked vm (im_mark_state self) ob (immortal_prepare vm self regions m)"
    by (simp add: ms_is_marked_def ms_op_defs s)
qed

text \<open>
  C12. A cycle of the immortal space. If no object is marked when a collection traces the objects \<open>obs\<close>, in any order and any number
  of times each, then it enqueues each of them once, at its first occurrence, and marks exactly these; after the
  collection is released and the next one prepared none of these objects is marked, and neither is an object that was
  initialized in between. This holds for mark bits in the header, whose meaning flips, and for mark bits on the side. Nothing is said
  of objects that have not been reached: with header bits they are marked when the meaning flips.
\<close>

theorem immortal_cycle:
  assumes "marks_ok vm live" "state_ok vm (im_mark_state self)" "\<forall>ob\<in>live. \<not> ms_is_marked vm (im_mark_state self) ob m"
    and "set obs \<subseteq> live" "new \<in> live" "\<forall>ob\<in>live. in_space vm self regions ob"
  shows "\<exists>m1 m2. immortal_trace_all vm self [] obs m = Some (first_occurrences obs, m1) \<and>
    (\<forall>ob\<in>live. ms_is_marked vm (im_mark_state self) ob m1 \<longleftrightarrow> ob \<in> set obs) \<and>
    on_object_metadata_initialization vm (im_mark_state (immortal_release vm self)) new m1 = Some m2 \<and>
    state_ok vm (im_mark_state (immortal_release vm self)) \<and>
    (\<forall>ob \<in> insert new (set obs).
       \<not> ms_is_marked vm (im_mark_state (immortal_release vm self)) ob (immortal_prepare vm (immortal_release vm self) regions m2))"
proof -
  let ?s = "immortal_release vm self" and ?st = "im_mark_state (immortal_release vm self)"
  have ok: "state_ok vm ?st" using state_ok_steps(2) [OF assms(2)] by (simp add: immortal_release_def)
  obtain m1 where m1: "immortal_trace_all vm self [] obs m = Some (first_occurrences obs, m1)"
    "\<And>ob. ob \<in> live \<Longrightarrow> ms_is_marked vm (im_mark_state self) ob m1 \<longleftrightarrow> ob \<in> set obs"
    by (rule immortal_trace_all_marks [OF assms(1,2) _ assms(4)]) (use assms(3) in auto)
  have sp: "in_space vm ?s regions ob" if "ob \<in> live" for ob
    using assms(6) that by (auto simp: in_space_def immortal_release_def split: metadata_spec.splits)
  show ?thesis
  proof (cases "is_on_side (LOCAL_MARK_BIT_SPEC vm)")
    case True
    then have "on_object_metadata_initialization vm ?st new m1 = Some m1"
      by (auto simp: on_object_metadata_initialization_def is_on_side_def is_in_header_def split: metadata_spec.splits)
    moreover have "\<not> ms_is_marked vm ?st ob (immortal_prepare vm ?s regions m1)" if "ob \<in> insert new (set obs)" for ob
      using prepare_unmarks(1) [OF assms(1) _ ok sp True] that assms(4,5) by blast
    ultimately show ?thesis using m1 ok by blast
  next
    case False
    then have h: "is_in_header (LOCAL_MARK_BIT_SPEC vm)" by (auto simp: is_on_side_def is_in_header_def split: metadata_spec.splits)
    let ?m2 = "field_put (ms_cell (mark_object vm new)) (unmarked_state ?st) m1"
    have st: "mark_value ?st = unmarked_state (im_mark_state self)" "mark_value (im_mark_state self) \<in> {0, 1}"
      using h False assms(2) by (auto simp: immortal_release_def on_global_release_def state_ok_def)
    then have un: "unmarked_state ?st \<in> {0, 1}" "unmarked_state ?st \<noteq> mark_value ?st" by (auto simp: unmarked_state_def)
    have v: "ms_valid (mark_object vm new)" "field_width (ms_cell (mark_object vm new)) = 1" using assms(1,5) by (auto simp: marks_ok_def)
    have init: "on_object_metadata_initialization vm ?st new m1 = Some ?m2"
      using spec.store_cell [OF v(1), of "unmarked_state ?st" m1] take_bit_one [OF un(1)] v(2) h
      by (simp add: on_object_metadata_initialization_def mark_object_def)
    have "\<not> ms_is_marked vm ?st ob (immortal_prepare vm ?s regions ?m2)" if ob: "ob \<in> insert new (set obs)" for ob
    proof -
      have l: "ob \<in> live" using ob assms(4,5) by auto
      have p: "immortal_prepare vm ?s regions ?m2 = ?m2" by (rule prepare_unmarks(2) [OF assms(1) l ok sp [OF l] h])
      show ?thesis
      proof (cases "ob = new")
        case True
        then show ?thesis unfolding p
          using field_get_put [OF spec.cell_ok [OF v(1)], of "unmarked_state ?st" m1] v(2) take_bit_one [OF un(1)] un(2)
          by (simp add: is_marked_field [OF assms(1,5)])
      next
        case False
        then have "ms_is_marked vm (im_mark_state self) ob m1" using ob m1(2) [OF l] by simp
        then have "field_get (ms_cell (mark_object vm ob)) ?m2 = mark_value (im_mark_state self)"
          using other_mark_bits(1) [OF assms(1,5) l False] by (simp add: is_marked_field [OF assms(1) l])
        then show ?thesis unfolding p using st by (auto simp: is_marked_field [OF assms(1) l] unmarked_state_def)
      qed
    qed
    with init m1 ok show ?thesis by blast
  qed
qed

text \<open>A VM with the mark bit and the log bit in the second byte of the header.\<close>

definition header_mark_vm :: vm_object_model where
  "header_mark_vm = header_vm\<lparr>LOCAL_MARK_BIT_SPEC := vm_in_header VMLocalMarkBitSpec 8, GLOBAL_LOG_BIT_SPEC := vm_in_header VMGlobalLogBitSpec 9\<rparr>"

lemma header_mark_cells:
  "mark_object header_mark_vm ob = (header_mark_vm, U8, InHeader \<lparr>bit_offset = 8, num_of_bits = 1\<rparr>, ob)"
  "log_object header_mark_vm ob = (header_mark_vm, U8, InHeader \<lparr>bit_offset = 9, num_of_bits = 1\<rparr>, ob)"
  "ms_cell (mark_object header_mark_vm ob) = BitsIn (ob + 1) 0 1" "ms_cell (log_object header_mark_vm ob) = BitsIn (ob + 1) 1 1"
  by (simp_all add: mark_object_def log_object_def header_mark_vm_def header_vm_def vm_in_header_def VMLocalMarkBitSpec_def
      VMGlobalLogBitSpec_def ms_cell_def hdr_cell_def hdr_meta_addr_def hdr_byte_offset_def hdr_shift_def addr_add_offset_def)

lemma header_mark_vm_ok: "marks_ok header_mark_vm obs"
  unfolding marks_ok_def header_mark_cells(3,4) unfolding header_mark_cells
  by (auto simp: ms_valid_def hdr_valid_def assert_spec_def footprint_def)

definition example_immortal_space :: immortal_space where
  "example_immortal_space = \<lparr>im_mark_state = mark_state_new, im_start = 0, im_extent = 0, needs_log_bit = True,
     needs_field_log_bit = False, vm_space = False\<rparr>"

theorem immortal_cycle_witness:
  "let vm = header_mark_vm; self = example_immortal_space
   in \<exists>m1 m2. immortal_trace_all vm self [] [0x2000, 0x1000, 0x2000] (\<lambda>_. 0) = Some ([0x2000, 0x1000], m1) \<and>
     ms_is_marked vm (im_mark_state self) 0x1000 m1 \<and> \<not> ms_is_marked vm (im_mark_state (immortal_release vm self)) 0x1000 m2"
proof -
  let ?live = "{0x1000, 0x2000, 0x3000} :: address set" and ?obs = "[0x2000, 0x1000, 0x2000] :: address list" and ?s = example_immortal_space
  have a: "state_ok header_mark_vm (im_mark_state ?s)" by (simp add: example_immortal_space_def state_ok_steps)
  have b: "\<forall>ob\<in>?live. \<not> ms_is_marked header_mark_vm (im_mark_state ?s) ob (\<lambda>_. 0)"
    using is_marked_field [OF header_mark_vm_ok [of ?live]]
    by (simp add: header_mark_cells(3) byte_get_def mark_state_new_def example_immortal_space_def)
  have c: "set ?obs \<subseteq> ?live" "0x3000 \<in> ?live" by simp_all
  have d: "\<forall>ob\<in>?live. in_space header_mark_vm ?s [] ob"
    by (simp add: in_space_def header_mark_vm_def header_vm_def vm_in_header_def)
  obtain m1 m2 where "immortal_trace_all header_mark_vm ?s [] ?obs (\<lambda>_. 0) = Some (first_occurrences ?obs, m1)"
    "\<forall>ob\<in>?live. ms_is_marked header_mark_vm (im_mark_state ?s) ob m1 \<longleftrightarrow> ob \<in> set ?obs"
    "\<forall>ob \<in> insert 0x3000 (set ?obs). \<not> ms_is_marked header_mark_vm (im_mark_state (immortal_release header_mark_vm ?s)) ob
       (immortal_prepare header_mark_vm (immortal_release header_mark_vm ?s) [] m2)"
    using immortal_cycle [OF header_mark_vm_ok a b c d] by blast
  moreover have "first_occurrences ?obs = [0x2000, 0x1000]" by (simp add: first_occurrences_def)
  ultimately show ?thesis unfolding Let_def by fastforce
qed

end
