(* ===== verification/SideTables.thy ===== *)
theory SideTables
  imports SideMetadata_Bulk
begin

text \<open>
  The side tables of the collector by name (\<open>util/metadata/side_metadata/spec_defs.rs\<close>) and their byte-sized
  values as functions of the data address: a write to a table is an update of its function at one region, and changes
  no other table. The policies that keep their state in these tables rest on the lemmas of this theory.
\<close>

definition all_specs :: "side_metadata_spec list" where
  "all_specs = GLOBAL_SPECS @ LOCAL_SPECS"

definition RC_TABLE :: side_metadata_spec where "RC_TABLE = GLOBAL_SPECS ! 3"
definition OBJ_COLOR_TABLE :: side_metadata_spec where "OBJ_COLOR_TABLE = GLOBAL_SPECS ! 7"
definition STRONG_RC_TABLE :: side_metadata_spec where "STRONG_RC_TABLE = GLOBAL_SPECS ! 9"
definition IX_LINE_MARK :: side_metadata_spec where "IX_LINE_MARK = LOCAL_SPECS ! 2"
definition IX_BLOCK_MARK :: side_metadata_spec where "IX_BLOCK_MARK = LOCAL_SPECS ! 3"
definition RC_STRADDLE_LINES :: side_metadata_spec where "RC_STRADDLE_LINES = LOCAL_SPECS ! 4"
definition IX_BLOCK_LOG :: side_metadata_spec where "IX_BLOCK_LOG = LOCAL_SPECS ! 5"

text \<open>A table with values of at most a byte, and its value at a data address.\<close>

definition u8_spec :: "side_metadata_spec \<Rightarrow> bool" where
  "u8_spec s \<longleftrightarrow> s \<in> set all_specs \<and> assert_value_type U8 s"

definition side_value :: "side_metadata_spec \<Rightarrow> byte_mem \<Rightarrow> address \<Rightarrow> usize" where
  "side_value s m d = field_get (side_cell (U8, s, d)) m"

definition side_put :: "side_metadata_spec \<Rightarrow> address \<Rightarrow> usize \<Rightarrow> byte_mem \<Rightarrow> byte_mem" where
  "side_put s d v m = field_put (side_cell (U8, s, d)) v m"

definition value_fits :: "side_metadata_spec \<Rightarrow> usize \<Rightarrow> bool" where
  "value_fits s v \<longleftrightarrow> unat v < 2 ^ 2 ^ log_num_of_bits s"

lemma value_fits_take: "value_fits s v \<longleftrightarrow> take_bit (2 ^ log_num_of_bits s) v = v"
proof -
  have "take_bit (2 ^ log_num_of_bits s) v = v \<longleftrightarrow> uint v mod 2 ^ 2 ^ log_num_of_bits s = uint v"
    by (metis uint_take word_uint_eq_iff)
  also have "\<dots> \<longleftrightarrow> int (unat v mod 2 ^ 2 ^ log_num_of_bits s) = int (unat v)" by (simp add: zmod_int)
  also have "\<dots> \<longleftrightarrow> value_fits s v" unfolding of_nat_eq_iff
    by (simp add: value_fits_def) (metis mod_less mod_less_divisor zero_less_numeral zero_less_power)
  finally show ?thesis by simp
qed

lemma u8_spec_ok:
  assumes "u8_spec s"
  shows "spec_ok s" "assert_value_type U8 s" "table_end s \<le> 2 ^ 64"
    "side_valid (U8, s, d)" "field_width (side_cell (U8, s, d)) = 2 ^ log_num_of_bits s"
  using assms laid_out_spec_ok [OF all_specs_laid_out, of s] laid_out_end [OF all_specs_laid_out, of s]
  by (simp_all add: u8_spec_def all_specs_def side_valid_def side_width)

lemma named_specs:
  "RC_TABLE = all_specs ! 3" "OBJ_COLOR_TABLE = all_specs ! 7" "STRONG_RC_TABLE = all_specs ! 9" "IX_LINE_MARK = all_specs ! 12"
  "IX_BLOCK_MARK = all_specs ! 13" "RC_STRADDLE_LINES = all_specs ! 14" "IX_BLOCK_LOG = all_specs ! 15" "length all_specs = 36"
  by (simp_all add: all_specs_def RC_TABLE_def OBJ_COLOR_TABLE_def STRONG_RC_TABLE_def IX_LINE_MARK_def IX_BLOCK_MARK_def RC_STRADDLE_LINES_def
      IX_BLOCK_LOG_def some_specs(1) [unfolded length_append] nth_append GLOBAL_SPECS_def LOCAL_SPECS_def)

lemma named_spec_bits:
  "log_num_of_bits RC_TABLE = 3" "log_bytes_in_region RC_TABLE = 3" "log_num_of_bits OBJ_COLOR_TABLE = 1" "log_bytes_in_region OBJ_COLOR_TABLE = 3"
  "log_num_of_bits STRONG_RC_TABLE = 2" "log_bytes_in_region STRONG_RC_TABLE = 3" "log_num_of_bits IX_LINE_MARK = 3" "log_bytes_in_region IX_LINE_MARK = 8"
  "log_num_of_bits IX_BLOCK_MARK = 3" "log_bytes_in_region IX_BLOCK_MARK = 15" "log_num_of_bits RC_STRADDLE_LINES = 3"
  "log_bytes_in_region RC_STRADDLE_LINES = 8" "log_num_of_bits IX_BLOCK_LOG = 0" "log_bytes_in_region IX_BLOCK_LOG = 15"
  by (simp_all add: RC_TABLE_def OBJ_COLOR_TABLE_def STRONG_RC_TABLE_def IX_LINE_MARK_def IX_BLOCK_MARK_def RC_STRADDLE_LINES_def
      IX_BLOCK_LOG_def GLOBAL_SPECS_def LOCAL_SPECS_def layout_eval)

lemma named_u8_specs [simp]:
  "u8_spec RC_TABLE" "u8_spec OBJ_COLOR_TABLE" "u8_spec STRONG_RC_TABLE" "u8_spec IX_LINE_MARK" "u8_spec IX_BLOCK_MARK"
  "u8_spec RC_STRADDLE_LINES" "u8_spec IX_BLOCK_LOG"
  by (simp_all add: u8_spec_def assert_value_type_def named_spec_bits) (simp_all add: named_specs)

lemma named_specs_distinct:
  "distinct [RC_TABLE, OBJ_COLOR_TABLE, STRONG_RC_TABLE, IX_LINE_MARK, IX_BLOCK_MARK, RC_STRADDLE_LINES, IX_BLOCK_LOG]"
  by (simp add: RC_TABLE_def OBJ_COLOR_TABLE_def STRONG_RC_TABLE_def IX_LINE_MARK_def IX_BLOCK_MARK_def RC_STRADDLE_LINES_def
      IX_BLOCK_LOG_def GLOBAL_SPECS_def LOCAL_SPECS_def layout_eval)

lemma spec_cells_disjoint:
  assumes "u8_spec s" "u8_spec t" "s \<noteq> t" "unat d < 2 ^ 47" "unat d' < 2 ^ 47"
  shows "footprint (side_cell (U8, s, d)) \<inter> footprint (side_cell (U8, t, d')) = {}"
proof -
  obtain i j where ij: "i < length all_specs" "all_specs ! i = s" "j < length all_specs" "all_specs ! j = t"
    using assms(1,2) unfolding u8_spec_def by (meson in_set_conv_nth)
  note s = u8_spec_ok [OF assms(1)] and t = u8_spec_ok [OF assms(2)]
  note l = laid_out_nth [OF all_specs_laid_out, folded all_specs_def]
  show ?thesis
  proof (cases "i < j")
    case True
    with side_tables_disjoint [OF s(2,1) assms(4) t(2,1) assms(5) _ t(3)] l [OF True ij(3)] show ?thesis by (simp add: ij)
  next
    case False
    then have "j < i" using assms(3) ij by (metis nat_neq_iff)
    with side_tables_disjoint [OF t(2,1) assms(5) s(2,1) assms(4) _ s(3)] l [OF \<open>j < i\<close> ij(1)] show ?thesis by (simp add: ij Int_commute)
  qed
qed

section \<open>Accesses as updates of a function\<close>

lemma side_value_put:
  assumes "u8_spec s" "u8_spec t" "value_fits s v" "unat d < 2 ^ 47" "unat d' < 2 ^ 47"
  shows "side_value t (side_put s d v m) d' =
    (if t = s \<and> region_index s d' = region_index s d then v else side_value t m d')"
proof -
  note s = u8_spec_ok [OF assms(1)] and t = u8_spec_ok [OF assms(2)]
  have ok: "field_ok (side_cell (U8, s, d))" "field_ok (side_cell (U8, t, d'))" using side.cell_ok s(4) t(4) by blast+
  show ?thesis
  proof (cases "t = s \<and> region_index s d' = region_index s d")
    case True
    then have "side_cell (U8, t, d') = side_cell (U8, s, d)" using side_cell_region [of s d' d U8] by simp
    with True assms(3) show ?thesis
      by (simp add: side_value_def side_put_def field_get_put [OF ok(1)] s(5) value_fits_take)
  next
    case False
    then have "footprint (side_cell (U8, s, d)) \<inter> footprint (side_cell (U8, t, d')) = {}"
      using spec_cells_disjoint [OF assms(1,2) _ assms(4,5)] side_regions_disjoint [OF s(2,2,1), of d d'] by metis
    with False show ?thesis by (auto simp: side_value_def side_put_def field_get_put_other [OF ok])
  qed
qed

lemma side_value_fits: "u8_spec s \<Longrightarrow> value_fits s (side_value s m d)"
  using field_get_take [OF side.cell_ok, of "(U8, s, d)" m] u8_spec_ok(4,5) [of s d] by (simp add: value_fits_take side_value_def)

lemma side_load_value: "sm_load U8 s d m = side_value s m d" "sm_load_atomic U8 s d m = side_value s m d"
  by (simp_all add: side_load_field side_value_def)

lemma side_store_put_own:
  assumes "assert_value_type U8 s" "value_fits s v"
  shows "sm_store U8 s d v m = Some (side_put s d v m)" "sm_store_atomic U8 s d v m = Some (side_put s d v m)"
  using side_store_field [of U8 s d v m] side_width [OF assms(1), of d] assms(2) by (simp_all add: value_fits_take side_put_def)

lemma side_store_put:
  assumes "u8_spec s" "value_fits s v"
  shows "sm_store U8 s d v m = Some (side_put s d v m)" "sm_store_atomic U8 s d v m = Some (side_put s d v m)"
  using side_store_put_own u8_spec_ok(2) assms by blast+

text \<open>The same inside one table, which may be a table of the VM.\<close>

lemma side_value_put_own:
  assumes "assert_value_type U8 s" "spec_ok s" "value_fits s v"
  shows "side_value s (side_put s d v m) d' = (if region_index s d' = region_index s d then v else side_value s m d')"
proof -
  have ok: "field_ok (side_cell (U8, s, x))" for x using side.cell_ok [of "(U8, s, x)"] assms(1,2) by (simp add: side_valid_def)
  show ?thesis
  proof (cases "region_index s d' = region_index s d")
    case True
    then have "side_cell (U8, s, d') = side_cell (U8, s, d)" by (rule side_cell_region)
    with True assms(3) show ?thesis
      by (simp add: side_value_def side_put_def field_get_put [OF ok] side_width [OF assms(1)] value_fits_take)
  next
    case False
    then have "footprint (side_cell (U8, s, d)) \<inter> footprint (side_cell (U8, s, d')) = {}"
      using side_regions_disjoint [OF assms(1,1,2), of d d'] by metis
    with False show ?thesis by (auto simp: side_value_def side_put_def field_get_put_other [OF ok ok])
  qed
qed

lemma side_fetch_update:
  assumes "\<And>v. f (side_value s m d) = Some v \<Longrightarrow> value_fits s v"
  shows "fetch_update_atomic U8 s d f m =
    Some (case f (side_value s m d) of None \<Rightarrow> (Inl (side_value s m d), m) | Some v \<Rightarrow> (Inr (side_value s m d), side_put s d v m))"
proof (cases "log_num_of_bits s < 3")
  case True
  let ?a = "address_to_meta_address s d" and ?l = "meta_byte_lshift s d" and ?k = "2 ^ log_num_of_bits s"
  have old: "side_value s m d = ucast (byte_get ?l ?k (m ?a))" using True by (simp add: side_value_def side_cell_def)
  show ?thesis
  proof (cases "f (side_value s m d)")
    case None
    then show ?thesis using True
      by (simp add: fetch_update_atomic_def u8_fetch_update_def old byte_get_def side_mask from_u8_def Let_def)
  next
    case (Some v)
    then have v: "take_bit ?k v = v" using assms value_fits_take by blast
    have k: "?k \<le> (8 :: nat)" using side_shift_fits [OF True, of d] by simp
    have "side_put s d v m = m(?a := byte_put ?l ?k (m ?a) (ucast v))" using True by (simp add: side_put_def side_cell_def)
    then show ?thesis using True Some to_u8_small [OF v k]
      by (simp add: fetch_update_atomic_def u8_fetch_update_def old byte_get_def byte_put_def side_mask from_u8_def Let_def)
  qed
next
  case False
  then have "side_cell (U8, s, d) = Whole (address_to_meta_address s d) U8" by (simp add: side_cell_def)
  with False show ?thesis
    by (simp add: fetch_update_atomic_def mv_fetch_update_def side_value_def side_put_def Let_def split: option.splits)
qed

text \<open>Addresses of different words are in different regions of the tables with a value per word.\<close>

lemma word_region_eq:
  assumes "unat d mod 2 ^ log_bytes_in_region s = 0" "unat d' mod 2 ^ log_bytes_in_region s = 0"
  shows "region_index s d = region_index s d' \<longleftrightarrow> d = d'"
  unfolding region_index_def using assms by (metis mod_mult_div_eq word_unat_eq_iff add.right_neutral mult.commute mult_div_mod_eq)

end
