(* ===== verification/ImmixLine.thy ===== *)
theory ImmixLine
  imports SideTables MetadataSpec
begin

text \<open>
  Regions of a fixed, aligned size and the iteration over them (\<open>util/linear_scan.rs\<close>), and the lines of an immix block
  (\<open>policy/immix/line.rs\<close>). A region is represented by its start address, as in the source, and the constant
  \<open>LOG_BYTES\<close> of an implementation of the trait is an argument.
\<close>

section \<open>Regions\<close>

definition region_BYTES :: "nat \<Rightarrow> usize" where
  "region_BYTES lb = push_bit lb 1"

definition region_align :: "nat \<Rightarrow> address \<Rightarrow> address" where
  "region_align lb a = align_down a (region_BYTES lb)"

definition region_is_aligned :: "nat \<Rightarrow> address \<Rightarrow> bool" where
  "region_is_aligned lb a \<longleftrightarrow> is_aligned_to a (region_BYTES lb)"

definition from_unaligned_address :: "nat \<Rightarrow> address \<Rightarrow> address" where
  "from_unaligned_address lb a = region_align lb a"

definition region_end :: "nat \<Rightarrow> address \<Rightarrow> address" where
  "region_end lb self = self + region_BYTES lb"

definition next_nth :: "nat \<Rightarrow> address \<Rightarrow> usize \<Rightarrow> address" where
  "next_nth lb self n = self + push_bit lb n"

definition region_next :: "nat \<Rightarrow> address \<Rightarrow> address" where
  "region_next lb self = next_nth lb self 1"

definition containing :: "nat \<Rightarrow> object_reference \<Rightarrow> address" where
  "containing lb ob = from_unaligned_address lb (to_raw_address ob)"

definition steps_between :: "nat \<Rightarrow> address \<Rightarrow> address \<Rightarrow> usize option" where
  "steps_between lb s e = (if s > e then None else Some (drop_bit lb (e - s)))"

definition includes_address :: "nat \<Rightarrow> address \<Rightarrow> address \<Rightarrow> bool" where
  "includes_address lb self a \<longleftrightarrow> region_align lb a = self"

record region_iterator =
  iter_current :: address
  iter_end :: address

definition region_iterator_new :: "address \<Rightarrow> address \<Rightarrow> region_iterator" where
  "region_iterator_new s e = \<lparr>iter_current = s, iter_end = e\<rparr>"

definition iter_region :: "nat \<Rightarrow> address \<Rightarrow> region_iterator" where
  "iter_region lb self = region_iterator_new self (region_end lb self)"

definition iterator_next :: "nat \<Rightarrow> region_iterator \<Rightarrow> address option \<times> region_iterator" where
  "iterator_next lb self =
     (if iter_current self < iter_end self
      then (Some (iter_current self), self\<lparr>iter_current := region_next lb (iter_current self)\<rparr>)
      else (None, self))"

text \<open>A \<open>for\<close> loop over the regions of an iterator; the body may panic.\<close>

partial_function (option) for_regions ::
  "nat \<Rightarrow> (address \<Rightarrow> 's \<Rightarrow> 's option) \<Rightarrow> region_iterator \<Rightarrow> 's \<Rightarrow> 's option" where
  "for_regions lb body it s =
     (case iterator_next lb it of
        (None, _) \<Rightarrow> Some s
      | (Some r, it) \<Rightarrow> do { s \<leftarrow> body r s; for_regions lb body it s })"

section \<open>Lines\<close>

definition Line_LOG_BYTES :: nat where "Line_LOG_BYTES = immix_line_LOG_BYTES"
definition Line_BYTES :: usize where "Line_BYTES = region_BYTES Line_LOG_BYTES"
definition RESET_MARK_STATE :: usize where "RESET_MARK_STATE = 1"
definition MAX_MARK_STATE :: usize where "MAX_MARK_STATE = 127"

definition Line_align :: "address \<Rightarrow> address" where
  "Line_align a = align_down a Line_BYTES"

definition Line_is_aligned :: "address \<Rightarrow> bool" where
  "Line_is_aligned a \<longleftrightarrow> Line_align a = a"

definition Line_of :: "address \<Rightarrow> address" where
  "Line_of a = align_down a Line_BYTES"

definition Line_containing :: "vm_object_model \<Rightarrow> object_reference \<Rightarrow> address" where
  "Line_containing vm ob = align_down (ref_to_object_start vm ob) Line_BYTES"

definition Line_block :: "address \<Rightarrow> address" where
  "Line_block self = from_unaligned_address immix_block_LOG_BYTES self"

definition Line_end :: "address \<Rightarrow> address" where
  "Line_end self = self + Line_BYTES"

definition get_index_within_block :: "address \<Rightarrow> usize" where
  "get_index_within_block self = drop_bit Line_LOG_BYTES (get_extent self (region_align immix_block_LOG_BYTES self))"

definition line_mark :: "address \<Rightarrow> usize \<Rightarrow> byte_mem \<Rightarrow> byte_mem option" where
  "line_mark self state m = sm_store U8 IX_LINE_MARK self state m"

definition line_is_marked :: "address \<Rightarrow> usize \<Rightarrow> byte_mem \<Rightarrow> bool" where
  "line_is_marked self state m \<longleftrightarrow> sm_load U8 IX_LINE_MARK self m = state"

definition line_marking :: "usize \<Rightarrow> address \<Rightarrow> usize \<times> byte_mem \<Rightarrow> (usize \<times> byte_mem) option" where
  "line_marking state line = (\<lambda>(marked_lines, m). do {
     let marked_lines = (if \<not> line_is_marked line state m then marked_lines + 1 else marked_lines);
     m \<leftarrow> line_mark line state m;
     Some (marked_lines, m) })"

definition mark_lines_for_object :: "vm_object_model \<Rightarrow> object_reference \<Rightarrow> usize \<Rightarrow> byte_mem \<Rightarrow> (usize \<times> byte_mem) option" where
  "mark_lines_for_object vm ob state m =
     (let start = ref_to_object_start vm ob;
          end_addr = start + get_current_size vm ob;
          start_line = from_unaligned_address Line_LOG_BYTES start;
          end_line = from_unaligned_address Line_LOG_BYTES end_addr;
          end_line = (if \<not> Line_is_aligned end_addr then region_next Line_LOG_BYTES end_line else end_line)
      in for_regions Line_LOG_BYTES (line_marking state) (region_iterator_new start_line end_line) (0, m))"

section \<open>Alignment\<close>

lemma region_align_unat: "unat (region_align lb a) = unat a div 2 ^ lb * 2 ^ lb"
proof -
  have "unat a div 2 ^ lb * 2 ^ lb < 2 ^ 64" using unat_less_64 [of a] div_times_less_eq_dividend [of "unat a" "2 ^ lb"] by linarith
  from unat_of_nat_64 [OF this] show ?thesis
    unfolding region_align_def region_BYTES_def align_down_def align_down_of_nat .
qed

text \<open>The \<open>i\<close>th region from a region on.\<close>

definition nth_region :: "nat \<Rightarrow> address \<Rightarrow> nat \<Rightarrow> address" where
  "nth_region lb s i = s + of_nat (i * 2 ^ lb)"

lemma nth_region_unat: "unat s + i * 2 ^ lb < 2 ^ 64 \<Longrightarrow> unat (nth_region lb s i) = unat s + i * 2 ^ lb"
  unfolding nth_region_def using unat_add_64 [of s "of_nat (i * 2 ^ lb)"] unat_of_nat_64 [of "i * 2 ^ lb"] by simp

lemma nth_region_step: "nth_region lb s 0 = s" "region_next lb (nth_region lb s i) = nth_region lb s (Suc i)"
  by (simp_all add: nth_region_def region_next_def next_nth_def push_bit_eq_mult algebra_simps)

text \<open>The loop over aligned regions visits each of them once, in order.\<close>

lemma for_regions_foldM:
  assumes "unat s + n * 2 ^ lb < 2 ^ 64" "i \<le> n"
  shows "for_regions lb body \<lparr>iter_current = nth_region lb s i, iter_end = nth_region lb s n\<rparr> st =
    foldM body (map (nth_region lb s) [i..<n]) st"
  using assms(2)
proof (induction "n - i" arbitrary: i st)
  case 0
  then show ?case by (subst for_regions.simps) (simp add: iterator_next_def)
next
  case (Suc k)
  then have "i < n" by simp
  then have less: "unat s + i * 2 ^ lb < unat s + n * 2 ^ lb" by simp
  then have "nth_region lb s i < nth_region lb s n"
    unfolding word_less_nat_alt nth_region_unat [OF assms(1)] nth_region_unat [OF less_trans [OF less assms(1)]] .
  moreover have "k = n - Suc i" "Suc i \<le> n" using Suc(2) \<open>i < n\<close> by simp_all
  then have "for_regions lb body \<lparr>iter_current = nth_region lb s (Suc i), iter_end = nth_region lb s n\<rparr> =
      foldM body (map (nth_region lb s) [Suc i..<n])" using Suc(1) [of "Suc i"] by blast
  ultimately show ?case using \<open>i < n\<close>
    by (subst for_regions.simps) (simp add: iterator_next_def nth_region_step upt_conv_Cons)
qed

lemma for_regions_all:
  "unat s + n * 2 ^ lb < 2 ^ 64 \<Longrightarrow>
   for_regions lb body (region_iterator_new s (nth_region lb s n)) st = foldM body (map (nth_region lb s) [0..<n]) st"
  using for_regions_foldM [of s n lb 0 body st] by (simp add: region_iterator_new_def nth_region_step(1))

section \<open>Marking the lines of an object\<close>

lemma line_marking_step:
  assumes "unat state < 2 ^ 8"
  shows "line_marking state line (k, m) =
    Some (if side_value IX_LINE_MARK m line = state then k else k + 1, side_put IX_LINE_MARK line state m)"
  using side_store_put [of IX_LINE_MARK state line m] assms
  by (simp add: line_marking_def line_mark_def line_is_marked_def side_load_value value_fits_def named_spec_bits)

lemma line_region: "region_index IX_LINE_MARK d = unat d div 2 ^ 8"
  by (simp add: region_index_def named_spec_bits)

lemma line_marking_fold:
  assumes "unat state < 2 ^ 8" "unat s mod 2 ^ 8 = 0" "unat s + n * 2 ^ 8 \<le> 2 ^ 47"
  shows "\<exists>k m'. foldM (line_marking state) (map (nth_region 8 s) [0..<n]) (0, m) = Some (k, m') \<and>
    unat k = card {i. i < n \<and> side_value IX_LINE_MARK m (nth_region 8 s i) \<noteq> state} \<and>
    (\<forall>d. unat d < 2 ^ 47 \<longrightarrow> side_value IX_LINE_MARK m' d =
       (if unat d div 2 ^ 8 \<in> {unat s div 2 ^ 8..<unat s div 2 ^ 8 + n} then state else side_value IX_LINE_MARK m d))"
  using assms(3)
proof (induction n)
  case (Suc n)
  then obtain k m' where ih: "foldM (line_marking state) (map (nth_region 8 s) [0..<n]) (0, m) = Some (k, m')"
    "unat k = card {i. i < n \<and> side_value IX_LINE_MARK m (nth_region 8 s i) \<noteq> state}"
    "\<And>d. unat d < 2 ^ 47 \<Longrightarrow> side_value IX_LINE_MARK m' d =
       (if unat d div 2 ^ 8 \<in> {unat s div 2 ^ 8..<unat s div 2 ^ 8 + n} then state else side_value IX_LINE_MARK m d)"
    by auto
  let ?l = "nth_region 8 s n"
  have l: "unat ?l = unat s + n * 2 ^ 8" by (rule nth_region_unat) (use Suc.prems in simp)
  then have l47: "unat ?l < 2 ^ 47" and ld: "unat ?l div 2 ^ 8 = unat s div 2 ^ 8 + n"
    using Suc.prems by (simp_all add: div_plus_div_distrib_dvd_right)
  have old: "side_value IX_LINE_MARK m' ?l = side_value IX_LINE_MARK m ?l" using ih(3) [OF l47] ld by simp
  let ?k = "if side_value IX_LINE_MARK m ?l = state then k else k + 1"
  let ?S = "\<lambda>n. {i. i < n \<and> side_value IX_LINE_MARK m (nth_region 8 s i) \<noteq> state}"
  have "card (?S n) \<le> n" using card_mono [of "{..<n}" "?S n"] by auto
  then have "unat k + 1 < 2 ^ 64" using ih(2) Suc.prems by simp
  then have "unat (k + 1) = unat k + 1" using unat_add_64 [of k 1] by simp
  moreover have "?S (Suc n) = (if side_value IX_LINE_MARK m ?l = state then ?S n else insert n (?S n))"
    by (auto simp: less_Suc_eq)
  ultimately have card: "unat ?k = card (?S (Suc n))" using ih(2) by simp
  have put: "side_value IX_LINE_MARK (side_put IX_LINE_MARK ?l state m') d =
      (if unat d div 2 ^ 8 \<in> {unat s div 2 ^ 8..<unat s div 2 ^ 8 + Suc n} then state else side_value IX_LINE_MARK m d)"
    if "unat d < 2 ^ 47" for d
    using side_value_put [of IX_LINE_MARK IX_LINE_MARK state ?l d m'] assms(1) l47 that ih(3) [OF that]
    unfolding line_region ld by (auto simp: value_fits_def named_spec_bits)
  have "foldM (line_marking state) (map (nth_region 8 s) [0..<Suc n]) (0, m) = Some (?k, side_put IX_LINE_MARK ?l state m')"
    using ih(1) line_marking_step [OF assms(1), of ?l k m'] by (simp add: foldM_append old)
  with card put show ?case by blast
qed simp

lemma nat_round_up: "0 < d \<Longrightarrow> (x + d - 1) div d = (if x mod d = 0 then x div d else x div d + 1)" for x d :: nat
proof -
  assume d: "0 < d"
  obtain q r where x: "x = q * d + r" "r < d" using d by (metis div_mult_mod_eq mod_less_divisor)
  show ?thesis
  proof (cases "r = 0")
    case True
    then have "x + d - 1 = q * d + (d - 1)" using x d by simp
    moreover have "(q * d + (d - 1)) div d = q" using d by (intro div_nat_eqI) (simp_all add: mult.commute)
    ultimately have "(x + d - 1) div d = q" by simp
    with True x show ?thesis by simp
  next
    case False
    then have "x + d - 1 = (q + 1) * d + (r - 1)" using x by (simp add: algebra_simps)
    moreover have "((q + 1) * d + (r - 1)) div d = q + 1" using x d False by (intro div_nat_eqI) (simp_all add: mult.commute)
    ultimately have "(x + d - 1) div d = q + 1" by simp
    with False x show ?thesis by simp
  qed
qed

lemma mark_lines_bounds:
  assumes "unat start + unat sz + 2 ^ 8 \<le> 2 ^ 47"
  defines "n \<equiv> (unat start + unat sz + 2 ^ 8 - 1) div 2 ^ 8 - unat start div 2 ^ 8"
  shows "(let end_line = from_unaligned_address 8 (start + sz)
          in if \<not> Line_is_aligned (start + sz) then region_next 8 end_line else end_line) = nth_region 8 (region_align 8 start) n"
    "unat (region_align 8 start) + n * 2 ^ 8 \<le> 2 ^ 47" "unat start div 2 ^ 8 + n = (unat start + unat sz + 2 ^ 8 - 1) div 2 ^ 8"
proof -
  let ?e = "unat start + unat sz"
  have e: "unat (start + sz) = ?e" by (rule unat_add_64) (use assms(1) in simp)
  have le: "unat start div 2 ^ 8 \<le> (?e + 2 ^ 8 - 1) div 2 ^ 8" by (intro div_le_mono) simp
  then show n: "unat start div 2 ^ 8 + n = (?e + 2 ^ 8 - 1) div 2 ^ 8" by (simp add: n_def)
  have al: "unat (region_align 8 start) = unat start div 2 ^ 8 * 2 ^ 8" by (rule region_align_unat)
  have sum: "unat (region_align 8 start) + n * 2 ^ 8 = (?e + 2 ^ 8 - 1) div 2 ^ 8 * 2 ^ 8"
    unfolding al n [symmetric] by (simp add: algebra_simps)
  have "(?e + 2 ^ 8 - 1) div 2 ^ 8 * 2 ^ 8 \<le> ?e + 2 ^ 8 - 1" by (rule div_times_less_eq_dividend)
  with sum assms(1) show b: "unat (region_align 8 start) + n * 2 ^ 8 \<le> 2 ^ 47" by linarith
  then have u: "unat (nth_region 8 (region_align 8 start) n) = (?e + 2 ^ 8 - 1) div 2 ^ 8 * 2 ^ 8"
    using nth_region_unat [of "region_align 8 start" n 8] sum by simp
  have ea: "unat (region_align 8 (start + sz)) = ?e div 2 ^ 8 * 2 ^ 8" unfolding region_align_unat e ..
  have "Line_is_aligned (start + sz) \<longleftrightarrow> region_align 8 (start + sz) = start + sz"
    by (simp add: Line_is_aligned_def Line_align_def region_align_def Line_BYTES_def Line_LOG_BYTES_def immix_line_LOG_BYTES_def)
  also have "\<dots> \<longleftrightarrow> ?e div 2 ^ 8 * 2 ^ 8 = ?e" unfolding word_unat_eq_iff ea e ..
  also have "\<dots> \<longleftrightarrow> ?e mod 2 ^ 8 = 0" by (metis add_cancel_right_right div_mult_mod_eq)
  finally have al_iff: "Line_is_aligned (start + sz) \<longleftrightarrow> ?e mod 2 ^ 8 = 0" .
  have nx: "unat (region_next 8 (region_align 8 (start + sz))) = (?e div 2 ^ 8 + 1) * 2 ^ 8"
  proof -
    have le: "?e div 2 ^ 8 * 2 ^ 8 \<le> ?e" by (rule div_times_less_eq_dividend)
    then have "?e div 2 ^ 8 * 2 ^ 8 + 1 * 2 ^ 8 < 2 ^ 64" using assms(1) by simp
    from nth_region_unat [of "region_align 8 (start + sz)" 1 8, unfolded ea, OF this]
    have "unat (nth_region 8 (region_align 8 (start + sz)) 1) = ?e div 2 ^ 8 * 2 ^ 8 + 1 * 2 ^ 8" .
    then show ?thesis using nth_region_step(2) [of 8 "region_align 8 (start + sz)" 0] by (simp add: nth_region_step(1) algebra_simps)
  qed
  show "(let end_line = from_unaligned_address 8 (start + sz)
          in if \<not> Line_is_aligned (start + sz) then region_next 8 end_line else end_line) = nth_region 8 (region_align 8 start) n"
    unfolding Let_def from_unaligned_address_def word_unat_eq_iff u al_iff
    using nx ea nat_round_up [of "2 ^ 8" ?e] by simp
qed

text \<open>
  C10. Marking the lines of an object gives the mark state to exactly the lines that its bytes touch and returns the number
  of those that did not have it before.
\<close>

theorem mark_lines_exact:
  assumes "unat (ref_to_object_start vm ob) + unat (get_current_size vm ob) + 2 ^ 8 \<le> 2 ^ 47" "unat state < 2 ^ 8"
  defines "lines \<equiv> {unat (ref_to_object_start vm ob) div 2 ^ 8..<
    (unat (ref_to_object_start vm ob) + unat (get_current_size vm ob) + 2 ^ 8 - 1) div 2 ^ 8}"
  shows "\<exists>k m'. mark_lines_for_object vm ob state m = Some (k, m') \<and>
    unat k = card {l \<in> lines. sm_load U8 IX_LINE_MARK (of_nat (l * 2 ^ 8)) m \<noteq> state} \<and>
    (\<forall>d. unat d < 2 ^ 47 \<longrightarrow> sm_load U8 IX_LINE_MARK d m' = (if unat d div 2 ^ 8 \<in> lines then state else sm_load U8 IX_LINE_MARK d m))"
proof -
  let ?start = "ref_to_object_start vm ob" and ?sz = "get_current_size vm ob"
  define n where "n = (unat ?start + unat ?sz + 2 ^ 8 - 1) div 2 ^ 8 - unat ?start div 2 ^ 8"
  note b = mark_lines_bounds [OF assms(1), folded n_def]
  let ?s = "region_align 8 ?start"
  have s: "unat ?s = unat ?start div 2 ^ 8 * 2 ^ 8" by (rule region_align_unat)
  have sd: "unat ?s div 2 ^ 8 = unat ?start div 2 ^ 8" unfolding s by simp
  have sm: "unat ?s mod 2 ^ 8 = 0" unfolding s by simp
  have L: "{unat ?s div 2 ^ 8..<unat ?s div 2 ^ 8 + n} = lines" unfolding sd b(3) lines_def ..
  have less: "unat ?s + n * 2 ^ 8 < 2 ^ 64" using b(2) by simp
  have run: "mark_lines_for_object vm ob state m = foldM (line_marking state) (map (nth_region 8 ?s) [0..<n]) (0, m)"
    using for_regions_all [of ?s n 8 "line_marking state" "(0, m)"] b(1) less
    by (simp only: mark_lines_for_object_def Line_LOG_BYTES_def immix_line_LOG_BYTES_def Let_def from_unaligned_address_def)
  obtain k m' where km: "foldM (line_marking state) (map (nth_region 8 ?s) [0..<n]) (0, m) = Some (k, m')"
    "unat k = card {i. i < n \<and> side_value IX_LINE_MARK m (nth_region 8 ?s i) \<noteq> state}"
    "\<forall>d. unat d < 2 ^ 47 \<longrightarrow> side_value IX_LINE_MARK m' d =
       (if unat d div 2 ^ 8 \<in> {unat ?s div 2 ^ 8..<unat ?s div 2 ^ 8 + n} then state else side_value IX_LINE_MARK m d)"
    using line_marking_fold [OF assms(2) sm b(2), of m] by blast
  have nth: "nth_region 8 ?s i = of_nat ((unat ?start div 2 ^ 8 + i) * 2 ^ 8)" for i
  proof -
    have "?s = of_nat (unat ?start div 2 ^ 8 * 2 ^ 8)" 
      by (simp only: region_align_def region_BYTES_def align_down_def align_down_of_nat)
    then show ?thesis by (simp add: nth_region_def algebra_simps)
  qed
  have "bij_betw (\<lambda>i. unat ?start div 2 ^ 8 + i) {i. i < n \<and> side_value IX_LINE_MARK m (nth_region 8 ?s i) \<noteq> state}
      {l \<in> lines. side_value IX_LINE_MARK m (of_nat (l * 2 ^ 8)) \<noteq> state}"
    unfolding L [symmetric] sd nth
    by (rule bij_betw_byWitness [where f' = "\<lambda>l. l - unat ?start div 2 ^ 8"]) auto
  then have "card {i. i < n \<and> side_value IX_LINE_MARK m (nth_region 8 ?s i) \<noteq> state} =
      card {l \<in> lines. side_value IX_LINE_MARK m (of_nat (l * 2 ^ 8)) \<noteq> state}" by (rule bij_betw_same_card)
  with km run show ?thesis unfolding L side_load_value by auto
qed

lemma zero_table: "assert_value_type U8 s \<Longrightarrow> sm_load U8 s d (\<lambda>_. 0) = 0"
  by (simp add: sm_load_def addr_load_def from_u8_def u8_load_def Let_def)

theorem mark_lines_exact_witness:
  "\<exists>k m'. mark_lines_for_object header_vm 0x200000000f8 3 (\<lambda>_. 0) = Some (k, m') \<and> unat k = 2 \<and>
     sm_load U8 IX_LINE_MARK 0x20000000108 m' = 3 \<and> sm_load U8 IX_LINE_MARK 0x20000000200 m' = 0"
proof -
  have z: "sm_load U8 IX_LINE_MARK d (\<lambda>_. 0) = 0" for d
    by (rule zero_table) (simp add: assert_value_type_def named_spec_bits)
  have "{l. 0x200000000 \<le> l \<and> l < 0x200000002} = {0x200000000, 0x200000001 :: nat}" by auto
  then show ?thesis
    using mark_lines_exact [of header_vm "0x200000000f8" 3 "\<lambda>_. 0"]
    by (auto simp: header_vm_def z)
qed

end
