(* ===== verification/RefCount.thy ===== *)
theory RefCount
  imports ImmixLine
begin

text \<open>
  Reference counts (\<open>util/rc.rs\<close>): the operations of \<open>RefCountHelper\<close> on the count table, on the table of strong counts and
  on the straddle marks of the lines an object spans. The counts have eight bits, as the default features select. The
  updates are read-modify-write operations, so a sequence of operations is an interleaving of the
  operations of all threads.
\<close>

section \<open>Operations\<close>

definition STRONG_REF_COUNT_BITS :: nat where "STRONG_REF_COUNT_BITS = 2 ^ LOG_STRONG_REF_COUNT_BITS"
definition MAX_STRONG_REF_COUNT :: usize where "MAX_STRONG_REF_COUNT = (push_bit STRONG_REF_COUNT_BITS 1 - 1) AND 0xff"
definition REF_COUNT_BITS :: nat where "REF_COUNT_BITS = 2 ^ LOG_REF_COUNT_BITS"
definition MAX_REF_COUNT :: usize where "MAX_REF_COUNT = (push_bit REF_COUNT_BITS 1 - 1) AND 0xff"

text \<open>The counter of buffered increments.\<close>

definition increase_inc_buffer_size :: "usize \<Rightarrow> usize \<Rightarrow> usize" where
  "increase_inc_buffer_size delta n = (if unat n + unat delta < 2 ^ 64 then n + delta else - 1)"

definition reset_inc_buffer_size :: "usize \<Rightarrow> usize" where
  "reset_inc_buffer_size n = 0"

definition rc_fetch_update ::
  "object_reference \<Rightarrow> (usize \<Rightarrow> usize option) \<Rightarrow> byte_mem \<Rightarrow> ((usize + usize) \<times> byte_mem) option" where
  "rc_fetch_update ob f m = fetch_update_atomic U8 RC_TABLE (to_raw_address ob) f m"

definition rc_count :: "object_reference \<Rightarrow> byte_mem \<Rightarrow> usize" where
  "rc_count ob m = sm_load_atomic U8 RC_TABLE (to_raw_address ob) m"

definition is_stuck :: "object_reference \<Rightarrow> byte_mem \<Rightarrow> bool" where
  "is_stuck ob m \<longleftrightarrow> rc_count ob m = MAX_REF_COUNT"

definition stick :: "object_reference \<Rightarrow> byte_mem \<Rightarrow> ((usize + usize) \<times> byte_mem) option" where
  "stick ob m = rc_fetch_update ob (\<lambda>x. if x = MAX_REF_COUNT then None else Some MAX_REF_COUNT) m"

definition rc_inc :: "object_reference \<Rightarrow> byte_mem \<Rightarrow> ((usize + usize) \<times> byte_mem) option" where
  "rc_inc ob m = rc_fetch_update ob (\<lambda>x. if x = MAX_REF_COUNT then None else Some (x + 1)) m"

definition rc_dec :: "object_reference \<Rightarrow> byte_mem \<Rightarrow> ((usize + usize) \<times> byte_mem) option" where
  "rc_dec ob m = rc_fetch_update ob (\<lambda>x. if x = 0 \<or> x = MAX_REF_COUNT then None else Some (x - 1)) m"

definition rc_set :: "object_reference \<Rightarrow> usize \<Rightarrow> byte_mem \<Rightarrow> byte_mem option" where
  "rc_set ob count m = sm_store_atomic U8 RC_TABLE (to_raw_address ob) count m"

definition set_relaxed :: "object_reference \<Rightarrow> usize \<Rightarrow> byte_mem \<Rightarrow> byte_mem option" where
  "set_relaxed ob count m = sm_store U8 RC_TABLE (to_raw_address ob) count m"

definition object_or_line_is_dead :: "object_reference \<Rightarrow> byte_mem \<Rightarrow> bool" where
  "object_or_line_is_dead ob m \<longleftrightarrow> sm_load_atomic U8 RC_TABLE (to_raw_address ob) m = 0"

definition rc_is_dead :: "object_reference \<Rightarrow> byte_mem \<Rightarrow> bool" where
  "rc_is_dead ob m \<longleftrightarrow> sm_load_atomic U8 RC_TABLE (to_raw_address ob) m = 0"

definition is_dead_or_stuck :: "object_reference \<Rightarrow> byte_mem \<Rightarrow> bool" where
  "is_dead_or_stuck ob m \<longleftrightarrow> (let v = sm_load_atomic U8 RC_TABLE (to_raw_address ob) m in v = 0 \<or> v = MAX_REF_COUNT)"

definition is_straddle_line :: "address \<Rightarrow> byte_mem \<Rightarrow> bool" where
  "is_straddle_line line m \<longleftrightarrow> sm_load U8 RC_STRADDLE_LINES line m \<noteq> 0"

definition address_is_in_straddle_line :: "address \<Rightarrow> byte_mem \<Rightarrow> bool" where
  "address_is_in_straddle_line a m \<longleftrightarrow> rc_count (from_raw_address_unchecked a) m \<noteq> 0 \<and> is_straddle_line (Line_align a) m"

definition mark_straddle_line :: "address \<Rightarrow> byte_mem \<Rightarrow> byte_mem option" where
  "mark_straddle_line line m = do {
     m \<leftarrow> sm_store U8 RC_STRADDLE_LINES line 1 m;
     set_relaxed (from_raw_address_unchecked line) 1 m }"

definition unmark_straddle_line :: "address \<Rightarrow> byte_mem \<Rightarrow> byte_mem option" where
  "unmark_straddle_line line m = do {
     m \<leftarrow> set_relaxed (from_raw_address_unchecked line) 0 m;
     sm_store U8 RC_STRADDLE_LINES line 0 m }"

text \<open>The loop over the lines up to \<open>end_line\<close>, which both operations on straddling objects share.\<close>

partial_function (option) straddle_loop ::
  "(address \<Rightarrow> byte_mem \<Rightarrow> byte_mem option) \<Rightarrow> address \<Rightarrow> address \<Rightarrow> byte_mem \<Rightarrow> byte_mem option" where
  "straddle_loop body end_line line m =
     (if line = end_line then Some m
      else do { m \<leftarrow> body line m; straddle_loop body end_line (region_next Line_LOG_BYTES line) m })"

definition mark_straddle_object_with_size ::
  "vm_object_model \<Rightarrow> object_reference \<Rightarrow> usize \<Rightarrow> byte_mem \<Rightarrow> byte_mem option" where
  "mark_straddle_object_with_size vm ob sz m =
     (let start_line = region_next Line_LOG_BYTES (Line_containing vm ob);
          end_line = Line_align (to_raw_address ob + sz)
      in straddle_loop mark_straddle_line end_line start_line m)"

definition mark_straddle_object :: "vm_object_model \<Rightarrow> object_reference \<Rightarrow> byte_mem \<Rightarrow> byte_mem option" where
  "mark_straddle_object vm ob m = mark_straddle_object_with_size vm ob (get_current_size vm ob) m"

definition unmark_straddle_object :: "vm_object_model \<Rightarrow> object_reference \<Rightarrow> byte_mem \<Rightarrow> byte_mem option" where
  "unmark_straddle_object vm ob m =
     (let sz = get_current_size vm ob
      in if sz > Line_BYTES
         then (let start_line = region_next Line_LOG_BYTES (Line_containing vm ob);
                   end_line = Line_align (to_raw_address ob + sz)
               in straddle_loop unmark_straddle_line end_line start_line m)
         else Some m)"

definition promote_with_size :: "vm_object_model \<Rightarrow> object_reference \<Rightarrow> usize \<Rightarrow> byte_mem \<Rightarrow> byte_mem option" where
  "promote_with_size vm ob sz m = (if sz > Line_BYTES then mark_straddle_object_with_size vm ob sz m else Some m)"

definition promote :: "vm_object_model \<Rightarrow> object_reference \<Rightarrow> byte_mem \<Rightarrow> byte_mem option" where
  "promote vm ob m =
     (let sz = get_current_size vm ob
      in if sz > Line_BYTES then mark_straddle_object_with_size vm ob sz m else Some m)"

definition strong_rc_inc :: "object_reference \<Rightarrow> byte_mem \<Rightarrow> ((usize + usize) \<times> byte_mem) option" where
  "strong_rc_inc ob m =
     fetch_update_atomic U8 STRONG_RC_TABLE (to_raw_address ob) (\<lambda>x. if x = MAX_STRONG_REF_COUNT then None else Some (x + 1)) m"

definition strong_rc_dec :: "object_reference \<Rightarrow> byte_mem \<Rightarrow> ((usize + usize) \<times> byte_mem) option" where
  "strong_rc_dec ob m =
     fetch_update_atomic U8 STRONG_RC_TABLE (to_raw_address ob) (\<lambda>x. if x = 0 then None else Some (x - 1)) m"

lemmas rc_op_defs = rc_fetch_update_def rc_count_def is_stuck_def stick_def rc_inc_def rc_dec_def rc_set_def set_relaxed_def
  strong_rc_inc_def strong_rc_dec_def to_raw_address_def

lemma rc_limits: "MAX_REF_COUNT = 255" "MAX_STRONG_REF_COUNT = 15"
  by (simp_all add: MAX_REF_COUNT_def REF_COUNT_BITS_def LOG_REF_COUNT_BITS_def MAX_STRONG_REF_COUNT_def STRONG_REF_COUNT_BITS_def
      LOG_STRONG_REF_COUNT_BITS_def)

section \<open>The tables as functions\<close>

text \<open>
  An object reference is word aligned and in the address space; the counts and the colour of an object are the
  values of its word in the tables.
\<close>

definition obj_ok :: "object_reference \<Rightarrow> bool" where
  "obj_ok ob \<longleftrightarrow> unat ob mod 8 = 0 \<and> unat ob < 2 ^ 47"

definition word_table :: "side_metadata_spec \<Rightarrow> byte_mem \<Rightarrow> object_reference \<Rightarrow> nat" where
  "word_table s m ob = (if obj_ok ob then unat (side_value s m ob) else 0)"

abbreviation counts :: "byte_mem \<Rightarrow> object_reference \<Rightarrow> nat" where
  "counts \<equiv> word_table RC_TABLE"

abbreviation strong_counts :: "byte_mem \<Rightarrow> object_reference \<Rightarrow> nat" where
  "strong_counts \<equiv> word_table STRONG_RC_TABLE"

lemma obj_region:
  assumes "obj_ok a" "obj_ok b" "log_bytes_in_region s = 3"
  shows "region_index s a = region_index s b \<longleftrightarrow> a = b"
  by (rule word_region_eq) (use assms in \<open>simp_all add: obj_ok_def\<close>)

lemma obj_ok_small: "obj_ok ob \<Longrightarrow> unat ob < 2 ^ 47"
  by (simp add: obj_ok_def)

lemmas obj_ok_less [simp] = obj_ok_small [simplified]

text \<open>A write to a table with a value per word is an update of its function and of no other.\<close>

lemma word_table_put:
  assumes "u8_spec s" "log_bytes_in_region s = 3" "value_fits s v" "obj_ok x" "u8_spec t"
  shows "word_table t (side_put s x v m) = (if t = s then (word_table t m)(x := unat v) else word_table t m)"
proof
  fix y
  show "word_table t (side_put s x v m) y = (if t = s then (word_table t m)(x := unat v) else word_table t m) y"
  proof (cases "obj_ok y")
    case True
    have "unat x < 2 ^ 47" "unat y < 2 ^ 47" using assms(4) True by (simp_all only: obj_ok_small)
    from side_value_put [OF assms(1,5,3) this, of m] show ?thesis
      using obj_region [OF True assms(4,2)] True by (simp add: word_table_def)
  qed (use assms(4) in \<open>auto simp: word_table_def\<close>)
qed

lemma word_table_bound: "u8_spec s \<Longrightarrow> word_table s m ob < 2 ^ 2 ^ log_num_of_bits s"
  using side_value_fits [of s m ob] by (simp add: word_table_def value_fits_def)

lemma count_bounds: "counts m ob \<le> 255" "strong_counts m ob \<le> 15"
  using word_table_bound [of RC_TABLE m ob] word_table_bound [of STRONG_RC_TABLE m ob] by (simp_all add: named_spec_bits)

definition inc_count :: "nat \<Rightarrow> nat" where
  "inc_count c = (if c = 255 then c else c + 1)"

definition dec_count :: "nat \<Rightarrow> nat" where
  "dec_count c = (if c = 0 \<or> c = 255 then c else c - 1)"

definition inc_strong :: "nat \<Rightarrow> nat" where
  "inc_strong c = (if c = 15 then c else c + 1)"

definition dec_strong :: "nat \<Rightarrow> nat" where
  "dec_strong c = (if c = 0 then c else c - 1)"

lemma unat_succ: "unat (x :: usize) < 2 ^ 64 - 1 \<Longrightarrow> unat (x + 1) = unat x + 1"
  using unat_add_64 [of x 1] by simp

lemma unat_pred: "x \<noteq> 0 \<Longrightarrow> unat (x - 1 :: usize) = unat x - 1"
  by (metis unat_minus_one)

lemma unat_num_eq: "unat (x :: usize) = 255 \<longleftrightarrow> x = 255" "unat x = 15 \<longleftrightarrow> x = 15"
  by (simp_all add: word_unat_eq_iff)

text \<open>A read-modify-write on a word of a table, with what the closure does to the number.\<close>

lemma fetch_update_table:
  assumes "u8_spec s" "log_bytes_in_region s = 3" "obj_ok ob"
    and "\<And>x. unat x < 2 ^ 2 ^ log_num_of_bits s \<Longrightarrow> (case f x of None \<Rightarrow> g (unat x) = unat x | Some v \<Rightarrow> unat v = g (unat x))"
    and "\<And>c. c < 2 ^ 2 ^ log_num_of_bits s \<Longrightarrow> g c < 2 ^ 2 ^ log_num_of_bits s"
  obtains r m' where "fetch_update_atomic U8 s ob f m = Some (r, m')" "word_table s m' = (word_table s m)(ob := g (word_table s m ob))"
    "\<And>t. u8_spec t \<Longrightarrow> t \<noteq> s \<Longrightarrow> word_table t m' = word_table t m"
    "r = (case f (side_value s m ob) of None \<Rightarrow> Inl (side_value s m ob) | Some _ \<Rightarrow> Inr (side_value s m ob))"
proof -
  let ?x = "side_value s m ob"
  have x: "unat ?x < 2 ^ 2 ^ log_num_of_bits s" "word_table s m ob = unat ?x"
    using side_value_fits [OF assms(1), of m ob] assms(3) by (simp_all add: value_fits_def word_table_def)
  note g = assms(4) [OF x(1)] assms(5) [OF x(1)]
  have fits: "value_fits s v" if "f ?x = Some v" for v using g that by (simp add: value_fits_def)
  note run = side_fetch_update [where m = m and d = ob and f = f, OF fits]
  show thesis
  proof (cases "f ?x")
    case None
    then have "(word_table s m)(ob := g (word_table s m ob)) = word_table s m" using g(1) x(2) by (simp add: fun_upd_idem)
    then show thesis using that [of "Inl ?x" m] run None by simp
  next
    case (Some v)
    then have "unat v = g (word_table s m ob)" using g(1) x(2) by simp
    then show thesis
      using that [of "Inr ?x" "side_put s ob v m"] run Some word_table_put [OF assms(1,2) fits [OF Some] assms(3)] assms(1) by simp
  qed
qed

lemma rc_inc_table:
  assumes "obj_ok ob"
  obtains r m' where "rc_inc ob m = Some (r, m')" "counts m' = (counts m)(ob := inc_count (counts m ob))"
    "\<And>t. u8_spec t \<Longrightarrow> t \<noteq> RC_TABLE \<Longrightarrow> word_table t m' = word_table t m"
  unfolding rc_op_defs rc_limits
  by (rule fetch_update_table [OF named_u8_specs(1) named_spec_bits(2) assms, where g = inc_count and m = m and f = "\<lambda>x. if x = 255 then None else Some (x + 1)"];
      (rule that; assumption)?)
    (auto simp: named_spec_bits inc_count_def unat_succ unat_num_eq split: if_splits)

lemma rc_dec_table:
  assumes "obj_ok ob"
  obtains r m' where "rc_dec ob m = Some (r, m')" "counts m' = (counts m)(ob := dec_count (counts m ob))"
    "\<And>t. u8_spec t \<Longrightarrow> t \<noteq> RC_TABLE \<Longrightarrow> word_table t m' = word_table t m"
  unfolding rc_op_defs rc_limits
  by (rule fetch_update_table [OF named_u8_specs(1) named_spec_bits(2) assms, where g = dec_count and m = m and f = "\<lambda>x. if x = 0 \<or> x = 255 then None else Some (x - 1)"];
      (rule that; assumption)?)
    (auto simp: named_spec_bits dec_count_def unat_pred unat_num_eq split: if_splits)

lemma stick_table:
  assumes "obj_ok ob"
  obtains r m' where "stick ob m = Some (r, m')" "counts m' = (counts m)(ob := 255)"
    "\<And>t. u8_spec t \<Longrightarrow> t \<noteq> RC_TABLE \<Longrightarrow> word_table t m' = word_table t m"
  unfolding rc_op_defs rc_limits
  by (rule fetch_update_table [OF named_u8_specs(1) named_spec_bits(2) assms, where g = "\<lambda>_. 255" and m = m and f = "\<lambda>x. if x = 255 then None else Some 255"];
      (rule that; assumption)?)
    (auto simp: named_spec_bits split: if_splits)

lemma strong_rc_inc_table:
  assumes "obj_ok ob"
  obtains r m' where "strong_rc_inc ob m = Some (r, m')" "strong_counts m' = (strong_counts m)(ob := inc_strong (strong_counts m ob))"
    "\<And>t. u8_spec t \<Longrightarrow> t \<noteq> STRONG_RC_TABLE \<Longrightarrow> word_table t m' = word_table t m"
  unfolding rc_op_defs rc_limits
  by (rule fetch_update_table [OF named_u8_specs(3) named_spec_bits(6) assms, where g = inc_strong and m = m and f = "\<lambda>x. if x = 15 then None else Some (x + 1)"];
      (rule that; assumption)?)
    (auto simp: named_spec_bits inc_strong_def unat_succ unat_num_eq split: if_splits)

lemma strong_rc_dec_table:
  assumes "obj_ok ob"
  obtains r m' where "strong_rc_dec ob m = Some (r, m')" "strong_counts m' = (strong_counts m)(ob := dec_strong (strong_counts m ob))"
    "\<And>t. u8_spec t \<Longrightarrow> t \<noteq> STRONG_RC_TABLE \<Longrightarrow> word_table t m' = word_table t m"
  unfolding rc_op_defs rc_limits
  by (rule fetch_update_table [OF named_u8_specs(3) named_spec_bits(6) assms, where g = dec_strong and m = m and f = "\<lambda>x. if x = 0 then None else Some (x - 1)"];
      (rule that; assumption)?)
    (auto simp: named_spec_bits dec_strong_def unat_pred split: if_splits)

lemma table_store:
  assumes "u8_spec s" "log_bytes_in_region s = 3" "obj_ok ob" "unat v < 2 ^ 2 ^ log_num_of_bits s"
  obtains m' where "sm_store U8 s ob v m = Some m'" "sm_store_atomic U8 s ob v m = Some m'"
    "word_table s m' = (word_table s m)(ob := unat v)"
    "\<And>t. u8_spec t \<Longrightarrow> t \<noteq> s \<Longrightarrow> word_table t m' = word_table t m"
  using side_store_put [OF assms(1), of v ob m] word_table_put [OF assms(1,2) _ assms(3), of v] assms
  by (auto simp: value_fits_def)

lemma table_load: "obj_ok ob \<Longrightarrow> unat (sm_load U8 s ob m) = word_table s m ob" "obj_ok ob \<Longrightarrow> unat (sm_load_atomic U8 s ob m) = word_table s m ob"
  by (simp_all add: side_load_value word_table_def)

lemma word_table_other:
  assumes "u8_spec s" "u8_spec t" "t \<noteq> s" "value_fits s v" "unat x < 2 ^ 47"
  shows "word_table t (side_put s x v m) = word_table t m"
proof
  show "word_table t (side_put s x v m) y = word_table t m y" for y
    using side_value_put [OF assms(1,2,4,5), of y m] assms(3) by (simp add: word_table_def obj_ok_def)
qed

section \<open>Lines an object straddles\<close>

text \<open>The lines strictly between the line of the start of an object and the line of its end.\<close>

definition straddle_lines :: "vm_object_model \<Rightarrow> object_reference \<Rightarrow> usize \<Rightarrow> address list" where
  "straddle_lines vm ob sz =
     map (nth_region 8 (region_next 8 (region_align 8 (ref_to_object_start vm ob))))
       [0..<(unat ob + unat sz) div 2 ^ 8 - (unat (ref_to_object_start vm ob) div 2 ^ 8 + 1)]"

text \<open>An object that reaches past its first line, inside the address space.\<close>

definition straddles :: "vm_object_model \<Rightarrow> object_reference \<Rightarrow> usize \<Rightarrow> bool" where
  "straddles vm ob sz \<longleftrightarrow> unat (ref_to_object_start vm ob) + 2 ^ 8 \<le> unat ob + unat sz \<and> unat ob + unat sz < 2 ^ 47"

lemma Line_is_region: "Line_align = region_align 8" "Line_containing vm ob = region_align 8 (ref_to_object_start vm ob)" "Line_BYTES = 2 ^ 8"
  "Line_LOG_BYTES = 8"
  by (simp_all add: fun_eq_iff Line_align_def Line_containing_def region_align_def Line_BYTES_def Line_LOG_BYTES_def immix_line_LOG_BYTES_def
      region_BYTES_def)

lemma straddle_loop_foldM:
  assumes "unat s + n * 2 ^ 8 < 2 ^ 64" "i \<le> n"
  shows "straddle_loop body (nth_region 8 s n) (nth_region 8 s i) m = foldM body (map (nth_region 8 s) [i..<n]) m"
  using assms(2)
proof (induction "n - i" arbitrary: i m)
  case 0
  then show ?case by (subst straddle_loop.simps) simp
next
  case (Suc k)
  then have "i < n" by simp
  then have less: "unat s + i * 2 ^ 8 < unat s + n * 2 ^ 8" by simp
  then have "nth_region 8 s i \<noteq> nth_region 8 s n"
    unfolding word_unat_eq_iff nth_region_unat [OF assms(1)] nth_region_unat [OF less_trans [OF less assms(1)]] by simp
  moreover have "k = n - Suc i" "Suc i \<le> n" using Suc(2) \<open>i < n\<close> by simp_all
  then have "straddle_loop body (nth_region 8 s n) (nth_region 8 s (Suc i)) = foldM body (map (nth_region 8 s) [Suc i..<n])"
    using Suc(1) [of "Suc i"] by blast
  ultimately show ?case using \<open>i < n\<close>
    by (subst straddle_loop.simps) (simp add: Line_is_region nth_region_step upt_conv_Cons)
qed

lemma straddle_lines_loop:
  assumes "straddles vm ob sz"
  shows "straddle_loop body (Line_align (ob + sz)) (region_next Line_LOG_BYTES (Line_containing vm ob)) m = foldM body (straddle_lines vm ob sz) m"
    "l \<in> set (straddle_lines vm ob sz) \<longleftrightarrow> unat l mod 2 ^ 8 = 0 \<and>
       unat (ref_to_object_start vm ob) div 2 ^ 8 < unat l div 2 ^ 8 \<and> unat l div 2 ^ 8 < (unat ob + unat sz) div 2 ^ 8"
proof -
  let ?st = "unat (ref_to_object_start vm ob)" and ?e = "unat ob + unat sz"
  let ?s = "region_next 8 (region_align 8 (ref_to_object_start vm ob))"
  define n where "n = ?e div 2 ^ 8 - (?st div 2 ^ 8 + 1)"
  have "?st + 2 ^ 8 \<le> ?e" using assms by (simp add: straddles_def)
  then have "(?st + 2 ^ 8) div 2 ^ 8 \<le> ?e div 2 ^ 8" by (rule div_le_mono)
  then have n: "?st div 2 ^ 8 + 1 + n = ?e div 2 ^ 8" by (simp add: n_def)
  have e: "unat (ob + sz) = ?e" by (rule unat_add_64) (use assms in \<open>simp add: straddles_def\<close>)
  have le: "?e div 2 ^ 8 * 2 ^ 8 \<le> ?e" by (rule div_times_less_eq_dividend)
  have al: "unat (region_align 8 (ref_to_object_start vm ob)) = ?st div 2 ^ 8 * 2 ^ 8" by (rule region_align_unat)
  have sum: "?st div 2 ^ 8 * 2 ^ 8 + (Suc i) * 2 ^ 8 = (?st div 2 ^ 8 + 1 + i) * 2 ^ 8" for i by (simp add: algebra_simps)
  have b: "(?st div 2 ^ 8 + 1 + i) * 2 ^ 8 \<le> ?e" if "i \<le> n" for i
    using le that mult_le_mono1 [of "?st div 2 ^ 8 + 1 + i" "?e div 2 ^ 8" "2 ^ 8"] n by simp
  have e64: "?e < 2 ^ 64" using assms by (simp add: straddles_def)
  have ns: "nth_region 8 ?s i = nth_region 8 (region_align 8 (ref_to_object_start vm ob)) (Suc i)" for i
    by (simp add: nth_region_def region_next_def next_nth_def push_bit_eq_mult algebra_simps)
  have u: "unat (nth_region 8 ?s i) = (?st div 2 ^ 8 + 1 + i) * 2 ^ 8" if "i \<le> n" for i
    using nth_region_unat [of "region_align 8 (ref_to_object_start vm ob)" "Suc i" 8] b [OF that] e64
    unfolding ns al sum by linarith
  have "unat (nth_region 8 ?s n) = unat (region_align 8 (ob + sz))" unfolding u [OF le_refl] region_align_unat e n ..
  then have last: "Line_align (ob + sz) = nth_region 8 ?s n" by (simp add: Line_is_region word_unat_eq_iff)
  have s0: "unat ?s = (?st div 2 ^ 8 + 1) * 2 ^ 8" using u [of 0] by (simp add: nth_region_step(1))
  have "unat ?s + n * 2 ^ 8 = (?st div 2 ^ 8 + 1 + n) * 2 ^ 8" unfolding s0 by (simp add: algebra_simps)
  then have "unat ?s + n * 2 ^ 8 < 2 ^ 64" using b [OF le_refl] e64 by linarith
  from straddle_loop_foldM [OF this, of 0 body m] show
    "straddle_loop body (Line_align (ob + sz)) (region_next Line_LOG_BYTES (Line_containing vm ob)) m = foldM body (straddle_lines vm ob sz) m"
    unfolding last straddle_lines_def n_def [symmetric] by (simp add: Line_is_region nth_region_step(1))
  show "l \<in> set (straddle_lines vm ob sz) \<longleftrightarrow> unat l mod 2 ^ 8 = 0 \<and> ?st div 2 ^ 8 < unat l div 2 ^ 8 \<and> unat l div 2 ^ 8 < ?e div 2 ^ 8"
  proof
    assume "l \<in> set (straddle_lines vm ob sz)"
    then obtain i where i: "i < n" "l = nth_region 8 ?s i" by (auto simp: straddle_lines_def n_def)
    then have "unat l = (?st div 2 ^ 8 + 1 + i) * 2 ^ 8" using u [of i] by simp
    then show "unat l mod 2 ^ 8 = 0 \<and> ?st div 2 ^ 8 < unat l div 2 ^ 8 \<and> unat l div 2 ^ 8 < ?e div 2 ^ 8" using i(1) n by simp
  next
    assume r: "unat l mod 2 ^ 8 = 0 \<and> ?st div 2 ^ 8 < unat l div 2 ^ 8 \<and> unat l div 2 ^ 8 < ?e div 2 ^ 8"
    let ?i = "unat l div 2 ^ 8 - (?st div 2 ^ 8 + 1)"
    have i: "?i < n" "?st div 2 ^ 8 + 1 + ?i = unat l div 2 ^ 8" using r n by linarith+
    then have "unat (nth_region 8 ?s ?i) = unat l" using u [of ?i] r by (metis less_imp_le mult_div_mod_eq add.right_neutral mult.commute)
    then have "l = nth_region 8 ?s ?i" by (simp add: word_unat_eq_iff)
    then show "l \<in> set (straddle_lines vm ob sz)" using i(1) unfolding straddle_lines_def n_def [symmetric] set_map by auto
  qed
qed

lemma straddle_line_ok: "straddles vm ob sz \<Longrightarrow> l \<in> set (straddle_lines vm ob sz) \<Longrightarrow> obj_ok l"
proof -
  assume s: "straddles vm ob sz" and l: "l \<in> set (straddle_lines vm ob sz)"
  then have r: "unat l mod 2 ^ 8 = 0" "unat l div 2 ^ 8 < (unat ob + unat sz) div 2 ^ 8" using straddle_lines_loop(2) by blast+
  have "unat l = unat l div 2 ^ 8 * 2 ^ 8" using r(1) div_mult_mod_eq [of "unat l" "2 ^ 8"] by simp
  also have "\<dots> \<le> (unat ob + unat sz) div 2 ^ 8 * 2 ^ 8" using r(2) by (intro mult_le_mono1) simp
  also have "\<dots> \<le> unat ob + unat sz" by (rule div_times_less_eq_dividend)
  finally have "unat l < 2 ^ 47" using s by (simp add: straddles_def)
  moreover have "unat l mod 8 = 0" using r(1) mod_mod_cancel [of 8 "2 ^ 8" "unat l"] by simp
  ultimately show ?thesis by (simp add: obj_ok_def)
qed

lemma straddle_line_step:
  assumes "obj_ok l" "v \<in> {0, 1}" "body = (if v = 0 then unmark_straddle_line else mark_straddle_line)"
  obtains m' where "body l m = Some m'" "counts m' = (counts m)(l := unat v)"
    "\<And>t. u8_spec t \<Longrightarrow> t \<noteq> RC_TABLE \<Longrightarrow> t \<noteq> RC_STRADDLE_LINES \<Longrightarrow> word_table t m' = word_table t m"
    "\<And>d. unat d < 2 ^ 47 \<Longrightarrow> side_value RC_STRADDLE_LINES m' d = (if unat d div 2 ^ 8 = unat l div 2 ^ 8 then v else side_value RC_STRADDLE_LINES m d)"
proof -
  let ?S = RC_STRADDLE_LINES and ?R = RC_TABLE
  have f: "value_fits ?S v" "value_fits ?R v" using assms(2) by (auto simp: value_fits_def named_spec_bits)
  have l: "unat l < 2 ^ 47" using assms(1) by (rule obj_ok_small)
  have ne: "?R \<noteq> ?S" using named_specs_distinct by auto
  have ri: "region_index ?S d = unat d div 2 ^ 8" for d by (simp add: region_index_def named_spec_bits)
  note put_s = word_table_other [OF named_u8_specs(6) _ _ f(1) l]
  note put_r = word_table_put [OF named_u8_specs(1) named_spec_bits(2) f(2) assms(1)]
  note val_s = side_value_put [OF named_u8_specs(6,6) f(1) l]
  note val_r = side_value_put [OF named_u8_specs(1,6) f(2) l]
  note st = side_store_put(1) [OF named_u8_specs(6) f(1)] side_store_put(1) [OF named_u8_specs(1) f(2)]
  obtain b where b: "b \<longleftrightarrow> v = 0" by blast
  define m' where "m' = (if b then side_put ?S l v (side_put ?R l v m) else side_put ?R l v (side_put ?S l v m))"
  have "body l m = Some m'"
    using assms(2) st by (auto simp: assms(3) m'_def b mark_straddle_line_def unmark_straddle_line_def set_relaxed_def to_raw_address_def from_raw_address_unchecked_def)
  moreover have "counts m' = (counts m)(l := unat v)" using put_r put_s ne by (simp add: m'_def)
  moreover have "word_table t m' = word_table t m" if "u8_spec t" "t \<noteq> ?R" "t \<noteq> ?S" for t
    using put_r put_s that by (simp add: m'_def)
  moreover have "side_value ?S m' d = (if unat d div 2 ^ 8 = unat l div 2 ^ 8 then v else side_value ?S m d)" if "unat d < 2 ^ 47" for d
    using val_s [OF that] val_r [OF that] ne by (simp add: m'_def ri)
  ultimately show thesis by (rule that)
qed

lemma straddle_fold:
  assumes "\<And>l. l \<in> set ls \<Longrightarrow> obj_ok l" "v \<in> {0, 1}" "body = (if v = 0 then unmark_straddle_line else mark_straddle_line)"
  obtains m' where "foldM body ls m = Some m'" "counts m' = (\<lambda>x. if x \<in> set ls then unat v else counts m x)"
    "\<And>t. u8_spec t \<Longrightarrow> t \<noteq> RC_TABLE \<Longrightarrow> t \<noteq> RC_STRADDLE_LINES \<Longrightarrow> word_table t m' = word_table t m"
    "\<And>d. unat d < 2 ^ 47 \<Longrightarrow> side_value RC_STRADDLE_LINES m' d =
       (if \<exists>l \<in> set ls. unat d div 2 ^ 8 = unat l div 2 ^ 8 then v else side_value RC_STRADDLE_LINES m d)"
  using assms(1)
proof (induction ls arbitrary: m thesis)
  case Nil
  then show ?case by simp
next
  case (Cons l ls)
  obtain m1 where m1: "body l m = Some m1" "counts m1 = (counts m)(l := unat v)"
    "\<And>t. u8_spec t \<Longrightarrow> t \<noteq> RC_TABLE \<Longrightarrow> t \<noteq> RC_STRADDLE_LINES \<Longrightarrow> word_table t m1 = word_table t m"
    "\<And>d. unat d < 2 ^ 47 \<Longrightarrow> side_value RC_STRADDLE_LINES m1 d = (if unat d div 2 ^ 8 = unat l div 2 ^ 8 then v else side_value RC_STRADDLE_LINES m d)"
    by (rule straddle_line_step [OF Cons.prems(2) assms(2,3), of l m]) auto
  obtain m2 where m2: "foldM body ls m1 = Some m2" "counts m2 = (\<lambda>x. if x \<in> set ls then unat v else counts m1 x)"
    "\<And>t. u8_spec t \<Longrightarrow> t \<noteq> RC_TABLE \<Longrightarrow> t \<noteq> RC_STRADDLE_LINES \<Longrightarrow> word_table t m2 = word_table t m1"
    "\<And>d. unat d < 2 ^ 47 \<Longrightarrow> side_value RC_STRADDLE_LINES m2 d =
       (if \<exists>l \<in> set ls. unat d div 2 ^ 8 = unat l div 2 ^ 8 then v else side_value RC_STRADDLE_LINES m1 d)"
    by (rule Cons.IH [of m1]) (use Cons.prems(2) in auto)
  show ?case
    by (rule Cons.prems(1) [of m2]) (use m1 m2 in \<open>auto simp: fun_eq_iff\<close>)
qed

text \<open>The operations on a straddling object, as the tables see them.\<close>

lemma straddle_object:
  assumes "straddles vm ob sz"
  obtains m' where "mark_straddle_object_with_size vm ob sz m = Some m'"
    "counts m' = (\<lambda>x. if x \<in> set (straddle_lines vm ob sz) then 1 else counts m x)"
    "\<And>t. u8_spec t \<Longrightarrow> t \<noteq> RC_TABLE \<Longrightarrow> t \<noteq> RC_STRADDLE_LINES \<Longrightarrow> word_table t m' = word_table t m"
    "\<And>d. unat d < 2 ^ 47 \<Longrightarrow> side_value RC_STRADDLE_LINES m' d =
       (if \<exists>l \<in> set (straddle_lines vm ob sz). unat d div 2 ^ 8 = unat l div 2 ^ 8 then 1 else side_value RC_STRADDLE_LINES m d)"
  by (rule straddle_fold [of "straddle_lines vm ob sz" 1 mark_straddle_line m])
    (use straddle_line_ok [OF assms] in \<open>auto simp: mark_straddle_object_with_size_def to_raw_address_def straddle_lines_loop(1) [OF assms]
      intro: that cong: if_cong\<close>)

lemma unstraddle_object:
  assumes "get_current_size vm ob > Line_BYTES \<Longrightarrow> straddles vm ob (get_current_size vm ob)"
  defines "ls \<equiv> (if get_current_size vm ob > Line_BYTES then straddle_lines vm ob (get_current_size vm ob) else [])"
  obtains m' where "unmark_straddle_object vm ob m = Some m'" "counts m' = (\<lambda>x. if x \<in> set ls then 0 else counts m x)"
    "\<And>t. u8_spec t \<Longrightarrow> t \<noteq> RC_TABLE \<Longrightarrow> t \<noteq> RC_STRADDLE_LINES \<Longrightarrow> word_table t m' = word_table t m"
    "\<And>d. unat d < 2 ^ 47 \<Longrightarrow> side_value RC_STRADDLE_LINES m' d =
       (if \<exists>l \<in> set ls. unat d div 2 ^ 8 = unat l div 2 ^ 8 then 0 else side_value RC_STRADDLE_LINES m d)"
proof (cases "get_current_size vm ob > Line_BYTES")
  case True
  note st = assms(1) [OF True]
  show thesis
    by (rule straddle_fold [of ls 0 unmark_straddle_line m])
      (use True straddle_line_ok [OF st] in \<open>auto simp: ls_def unmark_straddle_object_def Let_def to_raw_address_def
        straddle_lines_loop(1) [OF st] intro: that cong: if_cong\<close>)
next
  case False
  then show thesis using that [of m] by (simp add: ls_def unmark_straddle_object_def)
qed

section \<open>Properties\<close>

datatype rc_op = Inc object_reference | Dec object_reference | Stick object_reference | SetTo object_reference usize

fun op_object :: "rc_op \<Rightarrow> object_reference" where
  "op_object (Inc ob) = ob"
| "op_object (Dec ob) = ob"
| "op_object (Stick ob) = ob"
| "op_object (SetTo ob _) = ob"

text \<open>One operation with what it returns; \<open>set\<close> returns nothing.\<close>

fun rc_step :: "rc_op \<Rightarrow> byte_mem \<Rightarrow> ((usize + usize) option \<times> byte_mem) option" where
  "rc_step (Inc ob) m = map_option (\<lambda>(r, m). (Some r, m)) (rc_inc ob m)"
| "rc_step (Dec ob) m = map_option (\<lambda>(r, m). (Some r, m)) (rc_dec ob m)"
| "rc_step (Stick ob) m = map_option (\<lambda>(r, m). (Some r, m)) (stick ob m)"
| "rc_step (SetTo ob v) m = map_option (\<lambda>m. (None, m)) (rc_set ob v m)"

fun rc_run :: "rc_op list \<Rightarrow> byte_mem \<Rightarrow> ((usize + usize) option list \<times> byte_mem) option" where
  "rc_run [] m = Some ([], m)"
| "rc_run (p # ps) m = do { (r, m) \<leftarrow> rc_step p m; (rs, m) \<leftarrow> rc_run ps m; Some (r # rs, m) }"

text \<open>
  The specification: every object has a counter of its own, which saturates at 255 and does not leave that value. An update
  returns the count that it found, on the right if it changed it and on the left if it did not.
\<close>

fun counter_step :: "rc_op \<Rightarrow> (object_reference \<Rightarrow> nat) \<Rightarrow> (nat + nat) option \<times> (object_reference \<Rightarrow> nat)" where
  "counter_step (Inc ob) c = (Some (if c ob = 255 then Inl (c ob) else Inr (c ob)), c(ob := inc_count (c ob)))"
| "counter_step (Dec ob) c = (Some (if c ob = 0 \<or> c ob = 255 then Inl (c ob) else Inr (c ob)), c(ob := dec_count (c ob)))"
| "counter_step (Stick ob) c = (Some (if c ob = 255 then Inl (c ob) else Inr (c ob)), c(ob := 255))"
| "counter_step (SetTo ob v) c = (None, c(ob := unat v))"

fun counter_run :: "rc_op list \<Rightarrow> (object_reference \<Rightarrow> nat) \<Rightarrow> (nat + nat) option list \<times> (object_reference \<Rightarrow> nat)" where
  "counter_run [] c = ([], c)"
| "counter_run (p # ps) c = (let (r, c) = counter_step p c; (rs, c) = counter_run ps c in (r # rs, c))"

fun rc_op_ok :: "rc_op \<Rightarrow> bool" where
  "rc_op_ok (Inc ob) = obj_ok ob"
| "rc_op_ok (Dec ob) = obj_ok ob"
| "rc_op_ok (Stick ob) = obj_ok ob"
| "rc_op_ok (SetTo ob v) = (obj_ok ob \<and> unat v \<le> 255)"

lemma rc_op_object_ok: "rc_op_ok p \<Longrightarrow> obj_ok (op_object p)"
  by (cases p) auto

text \<open>The count of an object is one byte: a write of the count is a write of that byte.\<close>

lemma count_put: "side_put RC_TABLE ob v m = m(address_to_meta_address RC_TABLE ob := ucast v)"
  by (simp add: side_put_def side_cell_def named_spec_bits addr_store_def)

lemma count_fetch_update:
  assumes "\<And>v. f (side_value RC_TABLE m ob) = Some v \<Longrightarrow> unat v \<le> 255"
  shows "rc_fetch_update ob f m = Some (case f (side_value RC_TABLE m ob) of
      None \<Rightarrow> (Inl (side_value RC_TABLE m ob), m)
    | Some v \<Rightarrow> (Inr (side_value RC_TABLE m ob), side_put RC_TABLE ob v m))"
  unfolding rc_fetch_update_def to_raw_address_def
  by (rule side_fetch_update) (use assms in \<open>auto simp: value_fits_def named_spec_bits intro: le_less_trans\<close>)

lemma rc_step_effect:
  assumes "rc_op_ok p"
  obtains r v m' where "rc_step p m = Some (r, m')" "unat v \<le> 255" "m' = m \<or> m' = side_put RC_TABLE (op_object p) v m"
    "(map_option (map_sum unat unat) r, counts m') = counter_step p (counts m)"
proof -
  note result = that
  let ?ob = "op_object p" and ?x = "side_value RC_TABLE m (op_object p)"
  have ob: "obj_ok ?ob" by (rule rc_op_object_ok [OF assms])
  have c: "counts m ?ob = unat ?x" using ob by (simp add: word_table_def)
  then have x: "unat ?x \<le> 255" using count_bounds(1) [of m ?ob] by simp
  have put: "counts (side_put RC_TABLE ?ob v m) = (counts m)(?ob := unat v)" if "unat v \<le> 255" for v
    using word_table_put [OF named_u8_specs(1) named_spec_bits(2) _ ob named_u8_specs(1), of v m] that
    by (simp add: value_fits_def named_spec_bits)
  have succ: "unat (?x + 1) = unat ?x + 1" using x by (intro unat_succ) simp
  have num: "?x = 255 \<longleftrightarrow> unat ?x = 255" "?x = 0 \<longleftrightarrow> unat ?x = 0" by (simp_all add: unat_num_eq unat_eq_0)
  have upd: thesis if f: "rc_step p m = map_option (\<lambda>(r, m). (Some r, m)) (rc_fetch_update ?ob f m)"
      "\<And>v. f ?x = Some v \<Longrightarrow> unat v \<le> 255"
      "counter_step p (counts m) = (case f ?x of None \<Rightarrow> (Some (Inl (counts m ?ob)), counts m)
         | Some v \<Rightarrow> (Some (Inr (counts m ?ob)), (counts m)(?ob := unat v)))" for f
  proof (cases "f ?x")
    case None
    then show thesis using result [of "Some (Inl ?x)" m 0] f count_fetch_update [of f m ?ob] c by simp
  next
    case (Some v)
    then show thesis using result [of "Some (Inr ?x)" "side_put RC_TABLE ?ob v m" v] f count_fetch_update [of f m ?ob] c put [of v] by simp
  qed
  show thesis
  proof (cases p)
    case (Inc ob)
    then show thesis using x succ num
      by (intro upd [of "\<lambda>x. if x = MAX_REF_COUNT then None else Some (x + 1)"])
        (auto simp: rc_inc_def rc_limits c [unfolded Inc op_object.simps] inc_count_def fun_upd_idem split: if_splits)
  next
    case (Dec ob)
    then show thesis using x unat_pred [of ?x] num
      by (intro upd [of "\<lambda>x. if x = 0 \<or> x = MAX_REF_COUNT then None else Some (x - 1)"])
        (auto simp: rc_dec_def rc_limits c [unfolded Dec op_object.simps] dec_count_def fun_upd_idem split: if_splits)
  next
    case (Stick ob)
    then show thesis using x num
      by (intro upd [of "\<lambda>x. if x = MAX_REF_COUNT then None else Some MAX_REF_COUNT"])
        (auto simp: stick_def rc_limits c [unfolded Stick op_object.simps] fun_upd_idem split: if_splits)
  next
    case (SetTo ob v)
    then have v: "unat v \<le> 255" using assms by simp
    then have "rc_set ob v m = Some (side_put RC_TABLE ob v m)"
      using side_store_put(2) [OF named_u8_specs(1), of v ob m] by (simp add: rc_set_def to_raw_address_def value_fits_def named_spec_bits)
    then show thesis using result [of None "side_put RC_TABLE ob v m" v] SetTo v put [of v] by simp
  qed
qed

text \<open>
  C6. Reference counting implements independent saturating counters: whatever operations the threads make on aligned
  objects and in whatever order they take effect, none of them panics, each returns what the counter of its object returns, success or
  failure with the old count, and changes the count of its object only, as that counter does. No byte of memory changes but the bytes of the counts
  of these objects, and so no value of any other table.
\<close>

theorem rc_run_counters:
  assumes "list_all rc_op_ok ps"
  shows "\<exists>rs m'. rc_run ps m = Some (rs, m') \<and> (map (map_option (map_sum unat unat)) rs, counts m') = counter_run ps (counts m) \<and>
    (\<forall>a. a \<notin> address_to_meta_address RC_TABLE ` op_object ` set ps \<longrightarrow> m' a = m a) \<and>
    (\<forall>t d. u8_spec t \<and> t \<noteq> RC_TABLE \<and> unat d < 2 ^ 47 \<longrightarrow> side_value t m' d = side_value t m d)"
  using assms
proof (induction ps arbitrary: m)
  case (Cons p ps)
  have p: "rc_op_ok p" "unat (op_object p) < 2 ^ 47" using Cons.prems rc_op_object_ok [of p] obj_ok_small by simp_all
  obtain r v m1 where m1: "rc_step p m = Some (r, m1)" "unat v \<le> 255" "m1 = m \<or> m1 = side_put RC_TABLE (op_object p) v m"
      "(map_option (map_sum unat unat) r, counts m1) = counter_step p (counts m)"
    by (rule rc_step_effect [OF p(1), of m])
  have byte: "m1 a = m a" if "a \<noteq> address_to_meta_address RC_TABLE (op_object p)" for a
    using m1(3) that by (auto simp: count_put)
  have tab: "side_value t m1 d = side_value t m d" if "u8_spec t" "t \<noteq> RC_TABLE" "unat d < 2 ^ 47" for t d
    using m1(2,3) side_value_put [OF named_u8_specs(1) that(1) _ p(2) that(3), of v m] that(2)
    by (auto simp: value_fits_def named_spec_bits)
  obtain rs m' where m': "rc_run ps m1 = Some (rs, m')" "(map (map_option (map_sum unat unat)) rs, counts m') = counter_run ps (counts m1)"
      "\<forall>a. a \<notin> address_to_meta_address RC_TABLE ` op_object ` set ps \<longrightarrow> m' a = m1 a"
      "\<forall>t d. u8_spec t \<and> t \<noteq> RC_TABLE \<and> unat d < 2 ^ 47 \<longrightarrow> side_value t m' d = side_value t m1 d"
    using Cons.IH [of m1] Cons.prems by auto
  have "rc_run (p # ps) m = Some (r # rs, m')" using m1(1) m'(1) by simp
  moreover have "(map (map_option (map_sum unat unat)) (r # rs), counts m') = counter_run (p # ps) (counts m)"
    using m'(2) [symmetric] by (simp add: m1(4) [symmetric])
  ultimately show ?case using m'(3,4) byte tab by (intro exI [of _ "r # rs"] exI [of _ m']) auto
qed simp

theorem rc_run_counters_witness:
  "\<exists>m'. rc_run [Inc 0x20000000040, SetTo 0x20000000048 254, Inc 0x20000000048, Dec 0x20000000048, Dec 0x20000000040] (\<lambda>_. 0) =
       Some ([Some (Inr 0), None, Some (Inr 254), Some (Inl 255), Some (Inr 1)], m') \<and>
     counts m' 0x20000000048 = 255 \<and> counts m' 0x20000000040 = 0"
proof -
  let ?ps = "[Inc 0x20000000040, SetTo 0x20000000048 254, Inc 0x20000000048, Dec 0x20000000048, Dec 0x20000000040]"
  have "side_value RC_TABLE (\<lambda>_. 0) d = 0" for d
    using zero_table [of RC_TABLE d] by (simp add: assert_value_type_def named_spec_bits side_load_value)
  then have zero: "counts (\<lambda>_. 0) = (\<lambda>_. 0)" by (simp add: fun_eq_iff word_table_def)
  have "list_all rc_op_ok ?ps" by (simp add: obj_ok_def)
  from rc_run_counters [OF this, of "\<lambda>_. 0"] obtain rs m' where m': "rc_run ?ps (\<lambda>_. 0) = Some (rs, m')"
      "map (map_option (map_sum unat unat)) rs = [Some (Inr 0), None, Some (Inr 254), Some (Inl 255), Some (Inr 1)]"
      "counts m' 0x20000000048 = 255" "counts m' 0x20000000040 = 0"
    unfolding zero by (auto simp: inc_count_def dec_count_def)
  have "inj (unat :: usize \<Rightarrow> nat)" by (rule injI) (simp add: word_unat_eq_iff)
  then have "inj (map (map_option (map_sum (unat :: usize \<Rightarrow> nat) (unat :: usize \<Rightarrow> nat))))"
    by (intro list.inj_map option.inj_map sum.inj_map)
  note inj = injD [OF this]
  have "rs = [Some (Inr 0), None, Some (Inr 254), Some (Inl 255), Some (Inr 1)]" using m'(2) by (intro inj) simp
  then show ?thesis using m' by auto
qed

text \<open>
  C15. Promoting a large object and releasing it cancel out. Promotion marks exactly the lines strictly between the first and the last
  line of the object, in the count table and in the table of straddle marks; releasing it clears exactly these marks. Both loops
  end, and no count outside these lines changes.
\<close>

theorem straddle_roundtrip:
  assumes "straddles vm ob (get_current_size vm ob)" "get_current_size vm ob > Line_BYTES"
  shows "\<exists>m1 m2. promote vm ob m = Some m1 \<and> unmark_straddle_object vm ob m1 = Some m2 \<and>
    (\<forall>l. l \<in> set (straddle_lines vm ob (get_current_size vm ob)) \<longrightarrow>
       is_straddle_line l m1 \<and> \<not> object_or_line_is_dead l m1 \<and> \<not> is_straddle_line l m2 \<and> object_or_line_is_dead l m2) \<and>
    (\<forall>x. x \<notin> set (straddle_lines vm ob (get_current_size vm ob)) \<longrightarrow> counts m1 x = counts m x \<and> counts m2 x = counts m x) \<and>
    (\<forall>d. unat d < 2 ^ 47 \<and> Line_align d \<notin> set (straddle_lines vm ob (get_current_size vm ob)) \<longrightarrow>
       is_straddle_line d m1 = is_straddle_line d m \<and> is_straddle_line d m2 = is_straddle_line d m)"
proof -
  let ?ls = "straddle_lines vm ob (get_current_size vm ob)"
  obtain m1 where m1: "mark_straddle_object_with_size vm ob (get_current_size vm ob) m = Some m1"
    "counts m1 = (\<lambda>x. if x \<in> set ?ls then 1 else counts m x)"
    "\<And>d. unat d < 2 ^ 47 \<Longrightarrow> side_value RC_STRADDLE_LINES m1 d =
       (if \<exists>l \<in> set ?ls. unat d div 2 ^ 8 = unat l div 2 ^ 8 then 1 else side_value RC_STRADDLE_LINES m d)"
    by (rule straddle_object [OF assms(1), of m]) blast
  obtain m2 where m2: "unmark_straddle_object vm ob m1 = Some m2" "counts m2 = (\<lambda>x. if x \<in> set ?ls then 0 else counts m1 x)"
    "\<And>d. unat d < 2 ^ 47 \<Longrightarrow> side_value RC_STRADDLE_LINES m2 d =
       (if \<exists>l \<in> set ?ls. unat d div 2 ^ 8 = unat l div 2 ^ 8 then 0 else side_value RC_STRADDLE_LINES m1 d)"
    by (rule unstraddle_object [OF assms(1), of m1]) (use assms(2) in auto)
  have p: "promote vm ob m = Some m1" using m1(1) assms(2) by (simp add: promote_def)
  have inl: "is_straddle_line l m1 \<and> \<not> object_or_line_is_dead l m1 \<and> \<not> is_straddle_line l m2 \<and> object_or_line_is_dead l m2"
    if "l \<in> set ?ls" for l
  proof -
    note ok = straddle_line_ok [OF assms(1) that]
    have "object_or_line_is_dead l m' \<longleftrightarrow> counts m' l = 0" for m'
      using ok by (simp add: object_or_line_is_dead_def side_load_value to_raw_address_def word_table_def unat_eq_0)
    then show ?thesis using m1(2,3) m2(2,3) ok that by (auto simp: is_straddle_line_def side_load_value)
  qed
  have out: "is_straddle_line d m1 = is_straddle_line d m \<and> is_straddle_line d m2 = is_straddle_line d m"
    if d: "unat d < 2 ^ 47" "Line_align d \<notin> set ?ls" for d
  proof -
    have "unat (Line_align d) = unat d div 2 ^ 8 * 2 ^ 8" unfolding Line_is_region by (rule region_align_unat)
    then have "unat (Line_align d) mod 2 ^ 8 = 0" "unat (Line_align d) div 2 ^ 8 = unat d div 2 ^ 8" by simp_all
    then have "\<not> (\<exists>l \<in> set ?ls. unat d div 2 ^ 8 = unat l div 2 ^ 8)"
      using d(2) straddle_lines_loop(2) [OF assms(1), of "Line_align d"] straddle_lines_loop(2) [OF assms(1)] by metis
    then show ?thesis using m1(3) [OF d(1)] m2(3) [OF d(1)] by (auto simp: is_straddle_line_def side_load_value)
  qed
  show ?thesis using p m1(2) m2(1,2) inl out by auto
qed

theorem straddle_roundtrip_witness:
  "\<exists>m1 m2. promote (header_vm\<lparr>get_current_size := \<lambda>_. 1024\<rparr>) 0x20000000080 (\<lambda>_. 0) = Some m1 \<and>
     unmark_straddle_object (header_vm\<lparr>get_current_size := \<lambda>_. 1024\<rparr>) 0x20000000080 m1 = Some m2 \<and>
     is_straddle_line 0x20000000200 m1 \<and> \<not> is_straddle_line 0x20000000200 m2"
proof -
  let ?vm = "header_vm\<lparr>get_current_size := \<lambda>_. 1024\<rparr>"
  have s: "straddles ?vm 0x20000000080 (get_current_size ?vm 0x20000000080)" by (simp add: straddles_def header_vm_def)
  have b: "get_current_size ?vm 0x20000000080 > Line_BYTES" by (simp add: Line_is_region)
  have "0x20000000200 \<in> set (straddle_lines ?vm 0x20000000080 (get_current_size ?vm 0x20000000080))"
    unfolding straddle_lines_loop(2) [OF s] by (simp add: header_vm_def)
  with straddle_roundtrip [OF s b, of "\<lambda>_. 0"] show ?thesis by blast
qed

text \<open>
  C32. The count of strong references is not sticky: sixteen references to an object are counted as fifteen,
  and when fifteen of them are gone the count is zero although one reference remains.
\<close>

theorem strong_count_not_sticky:
  assumes "obj_ok ob" "strong_counts m ob = 0"
  shows "\<exists>m'. foldM (\<lambda>f m. map_option snd (f ob m)) (replicate 16 strong_rc_inc @ replicate 15 strong_rc_dec) m = Some m' \<and> strong_counts m' ob = 0"
proof -
  have inc: "\<exists>m'. foldM (\<lambda>f m. map_option snd (f ob m)) (replicate n strong_rc_inc) m = Some m' \<and> strong_counts m' ob = (inc_strong ^^ n) (strong_counts m ob)"
    for n m
  proof (induction n arbitrary: m)
    case (Suc n)
    obtain r m1 where "strong_rc_inc ob m = Some (r, m1)" "strong_counts m1 = (strong_counts m)(ob := inc_strong (strong_counts m ob))"
      by (rule strong_rc_inc_table [OF assms(1), of m])
    with Suc.IH [of m1] show ?case by (simp add: funpow_swap1)
  qed simp
  have dec: "\<exists>m'. foldM (\<lambda>f m. map_option snd (f ob m)) (replicate n strong_rc_dec) m = Some m' \<and> strong_counts m' ob = (dec_strong ^^ n) (strong_counts m ob)"
    for n m
  proof (induction n arbitrary: m)
    case (Suc n)
    obtain r m1 where "strong_rc_dec ob m = Some (r, m1)" "strong_counts m1 = (strong_counts m)(ob := dec_strong (strong_counts m ob))"
      by (rule strong_rc_dec_table [OF assms(1), of m])
    with Suc.IH [of m1] show ?case by (simp add: funpow_swap1)
  qed simp
  obtain m1 where m1: "foldM (\<lambda>f m. map_option snd (f ob m)) (replicate 16 strong_rc_inc) m = Some m1" "strong_counts m1 ob = (inc_strong ^^ 16) 0"
    using inc [of 16 m] assms(2) by auto
  have "(dec_strong ^^ 15) ((inc_strong ^^ 16) 0) = 0" by (simp add: numeral_eq_Suc inc_strong_def dec_strong_def)
  with m1 dec [of 15 m1] show ?thesis by (simp only: foldM_append) auto
qed

theorem strong_count_not_sticky_witness:
  "\<exists>m'. foldM (\<lambda>f m. map_option snd (f 0x20000000040 m)) (replicate 16 strong_rc_inc @ replicate 15 strong_rc_dec) (\<lambda>_. 0) = Some m' \<and>
     strong_counts m' 0x20000000040 = 0"
proof (rule strong_count_not_sticky)
  have "side_value STRONG_RC_TABLE (\<lambda>_. 0) 0x20000000040 = 0"
    using zero_table [of STRONG_RC_TABLE] by (simp add: assert_value_type_def named_spec_bits side_load_value)
  then show "strong_counts (\<lambda>_. 0) 0x20000000040 = 0" by (simp add: word_table_def)
qed (simp add: obj_ok_def)

end
