(* ===== verification/LargeObjectSpace.thy ===== *)
theory LargeObjectSpace
  imports RefCount MarkBit
begin

text \<open>
  The large object space (\<open>policy/largeobjectspace.rs\<close>) and its treadmill (\<open>util/treadmill.rs\<close>). The hash sets of
  the treadmill are sets; the order in which one is enumerated is that of the hash table, the parameter \<open>order\<close>. The page resource
  that takes pages back is the parameter \<open>release\<close>, with its state in the record of the space; a call returns the number of pages.
  The space keeps two bits per object, a mark bit and a nursery bit.
\<close>

section \<open>The treadmill\<close>

record treadmill =
  from_space :: "object_reference set"
  to_space :: "object_reference set"
  collect_nursery_set :: "object_reference set"
  alloc_nursery :: "object_reference set"

definition treadmill_new :: treadmill where
  "treadmill_new = \<lparr>from_space = {}, to_space = {}, collect_nursery_set = {}, alloc_nursery = {}\<rparr>"

definition add_to_treadmill :: "object_reference \<Rightarrow> bool \<Rightarrow> treadmill \<Rightarrow> treadmill" where
  "add_to_treadmill ob nursery self =
     (if nursery then self\<lparr>alloc_nursery := insert ob (alloc_nursery self)\<rparr> else self\<lparr>to_space := insert ob (to_space self)\<rparr>)"

definition tm_collect_nursery :: "(object_reference set \<Rightarrow> object_reference list) \<Rightarrow> treadmill \<Rightarrow> object_reference list \<times> treadmill" where
  "tm_collect_nursery order self = (order (collect_nursery_set self), self\<lparr>collect_nursery_set := {}\<rparr>)"

definition tm_collect :: "(object_reference set \<Rightarrow> object_reference list) \<Rightarrow> treadmill \<Rightarrow> object_reference list \<times> treadmill" where
  "tm_collect order self = (order (from_space self), self\<lparr>from_space := {}\<rparr>)"

definition tm_copy :: "object_reference \<Rightarrow> bool \<Rightarrow> treadmill \<Rightarrow> treadmill" where
  "tm_copy ob is_in_nursery self =
     (let self = (if is_in_nursery then self\<lparr>collect_nursery_set := collect_nursery_set self - {ob}\<rparr>
                  else self\<lparr>from_space := from_space self - {ob}\<rparr>)
      in self\<lparr>to_space := insert ob (to_space self)\<rparr>)"

definition is_to_space_empty :: "treadmill \<Rightarrow> bool" where
  "is_to_space_empty self \<longleftrightarrow> to_space self = {}"

definition is_from_space_empty :: "treadmill \<Rightarrow> bool" where
  "is_from_space_empty self \<longleftrightarrow> from_space self = {}"

definition is_nursery_empty :: "treadmill \<Rightarrow> bool" where
  "is_nursery_empty self \<longleftrightarrow> collect_nursery_set self = {}"

definition flip :: "bool \<Rightarrow> treadmill \<Rightarrow> treadmill" where
  "flip full_heap self =
     (let self = self\<lparr>alloc_nursery := collect_nursery_set self, collect_nursery_set := alloc_nursery self\<rparr>
      in if full_heap then self\<lparr>from_space := to_space self, to_space := from_space self\<rparr> else self)"

definition tm_enumerate_objects :: "(object_reference set \<Rightarrow> object_reference list) \<Rightarrow> treadmill \<Rightarrow> object_reference list" where
  "tm_enumerate_objects order self = order (alloc_nursery self) @ order (to_space self)"

section \<open>The space\<close>

definition MARK_BIT :: usize where "MARK_BIT = 1"
definition NURSERY_BIT :: usize where "NURSERY_BIT = 2"
definition LOS_BIT_MASK :: usize where "LOS_BIT_MASK = 3"

record 'pr large_object_space =
  los_pr :: 'pr
  los_mark_state :: usize
  in_nursery_gc :: bool
  los_treadmill :: treadmill
  trace_in_progress :: bool
  rc_nursery_objects :: "object_reference list"
  rc_mature_objects :: "object_reference \<rightharpoonup> usize"
  num_pages_released_lazy :: usize
  los_rc_killed_bytes :: usize
  young_alloc_size :: usize
  rc_enabled :: bool
  is_end_of_satb_or_full_gc :: bool
  los_needs_log_bit :: bool
  los_needs_field_log_bit :: bool

definition los_new :: "'pr \<Rightarrow> bool \<Rightarrow> bool \<Rightarrow> 'pr large_object_space" where
  "los_new pr log_bit field_log_bit =
     \<lparr>los_pr = pr, los_mark_state = 0, in_nursery_gc = False, los_treadmill = treadmill_new, trace_in_progress = False,
      rc_nursery_objects = [], rc_mature_objects = Map.empty, num_pages_released_lazy = 0, los_rc_killed_bytes = 0,
      young_alloc_size = 0, rc_enabled = False, is_end_of_satb_or_full_gc = False,
      los_needs_log_bit = log_bit, los_needs_field_log_bit = field_log_bit\<rparr>"

definition get_super_page :: "address \<Rightarrow> address" where
  "get_super_page cell = align_down cell BYTES_IN_PAGE"

definition los_test_and_mark ::
  "vm_object_model \<Rightarrow> 'pr large_object_space \<Rightarrow> object_reference \<Rightarrow> usize \<Rightarrow> byte_mem \<Rightarrow> (bool \<times> byte_mem) option" where
  "los_test_and_mark vm self ob value m = do {
     let msk = (if rc_enabled self then MARK_BIT else if in_nursery_gc self then LOS_BIT_MASK else MARK_BIT);
     spec \<leftarrow> extract_side_spec (LOCAL_LOS_MARK_NURSERY_SPEC vm);
     (result, m) \<leftarrow> fetch_update_atomic U8 spec (to_raw_address ob)
       (\<lambda>old_value. let mark_bit = old_value AND msk
          in if mark_bit = value then None else Some ((old_value AND NOT LOS_BIT_MASK) OR value)) m;
     Some (case result of Inr _ \<Rightarrow> True | Inl _ \<Rightarrow> False, m) }"

definition test_mark_bit :: "vm_object_model \<Rightarrow> object_reference \<Rightarrow> usize \<Rightarrow> byte_mem \<Rightarrow> bool" where
  "test_mark_bit vm ob value m \<longleftrightarrow> ms_load_atomic vm U8 (LOCAL_LOS_MARK_NURSERY_SPEC vm) ob None m AND MARK_BIT = value"

definition is_in_nursery :: "vm_object_model \<Rightarrow> object_reference \<Rightarrow> byte_mem \<Rightarrow> bool" where
  "is_in_nursery vm ob m \<longleftrightarrow> ms_load_atomic vm U8 (LOCAL_LOS_MARK_NURSERY_SPEC vm) ob None m AND NURSERY_BIT = NURSERY_BIT"

definition los_is_marked :: "vm_object_model \<Rightarrow> 'pr large_object_space \<Rightarrow> object_reference \<Rightarrow> byte_mem \<Rightarrow> bool" where
  "los_is_marked vm self ob m \<longleftrightarrow> test_mark_bit vm ob (los_mark_state self) m"

definition los_is_live :: "vm_object_model \<Rightarrow> 'pr large_object_space \<Rightarrow> object_reference \<Rightarrow> byte_mem \<Rightarrow> bool" where
  "los_is_live vm self ob m \<longleftrightarrow>
     (if rc_enabled self
      then (if is_end_of_satb_or_full_gc self then los_is_marked vm self ob m \<and> rc_count ob m > 0 else rc_count ob m > 0)
      else if trace_in_progress self then True
      else test_mark_bit vm ob (los_mark_state self) m)"

definition los_is_reachable :: "vm_object_model \<Rightarrow> 'pr large_object_space \<Rightarrow> object_reference \<Rightarrow> byte_mem \<Rightarrow> bool" where
  "los_is_reachable vm self ob m \<longleftrightarrow>
     (if rc_enabled self then test_mark_bit vm ob (los_mark_state self) m \<and> rc_count ob m > 0 else los_is_live vm self ob m)"

text \<open>The pages of an object of \<open>bytes\<close> bytes, as offsets.\<close>

definition page_offsets :: "nat \<Rightarrow> nat list" where
  "page_offsets bytes = map (\<lambda>i. i * unat BYTES_IN_PAGE) [0..<(bytes + unat BYTES_IN_PAGE - 1) div unat BYTES_IN_PAGE]"

definition los_initialize_object_metadata ::
  "vm_object_model \<Rightarrow> object_reference \<Rightarrow> usize \<Rightarrow> bool \<Rightarrow> 'pr large_object_space \<times> byte_mem \<Rightarrow> ('pr large_object_space \<times> byte_mem) option" where
  "los_initialize_object_metadata vm ob bytes alloc = (\<lambda>(self, m).
     if rc_enabled self then do {
       let self = self\<lparr>young_alloc_size := young_alloc_size self + bytes, rc_nursery_objects := rc_nursery_objects self @ [ob]\<rparr>;
       (_, m) \<leftarrow> los_test_and_mark vm self ob (los_mark_state self) m;
       m \<leftarrow> foldM (\<lambda>off m. map_option snd (los_test_and_mark vm self (to_raw_address ob + of_nat off) (los_mark_state self) m))
             (page_offsets (unat bytes)) m;
       Some (self, m) }
     else do {
       let old_value = ms_load_atomic vm U8 (LOCAL_LOS_MARK_NURSERY_SPEC vm) ob None m;
       let new_value = (old_value AND NOT LOS_BIT_MASK) OR los_mark_state self;
       let new_value = (if alloc then new_value OR NURSERY_BIT else new_value);
       m \<leftarrow> ms_store_atomic vm U8 (LOCAL_LOS_MARK_NURSERY_SPEC vm) ob new_value None m;
       m \<leftarrow> (if \<not> alloc \<and> los_needs_log_bit self then mark_as_unlogged vm (GLOBAL_LOG_BIT_SPEC vm) ob m else Some m);
       Some (self\<lparr>los_treadmill := add_to_treadmill ob alloc (los_treadmill self)\<rparr>, m) })"

definition release_object ::
  "(bool \<Rightarrow> address \<Rightarrow> 'pr \<times> byte_mem \<Rightarrow> (usize \<times> 'pr \<times> byte_mem) option) \<Rightarrow> address \<Rightarrow>
   'pr large_object_space \<times> byte_mem \<Rightarrow> (usize \<times> 'pr large_object_space \<times> byte_mem) option" where
  "release_object release start = (\<lambda>(self, m).
     if los_needs_log_bit self \<and> los_needs_field_log_bit self then do {
       m \<leftarrow> (if rc_enabled self then rc_set (from_raw_address_unchecked start) 0 m else Some m);
       (pages, pr, m) \<leftarrow> release True start (los_pr self, m);
       Some (pages, self\<lparr>los_pr := pr\<rparr>, m) }
     else do {
       (pages, pr, m) \<leftarrow> release False start (los_pr self, m);
       Some (pages, self\<lparr>los_pr := pr\<rparr>, m) })"

text \<open>The loop over the nursery objects of a reference counting plan, from the head of the queue on.\<close>

fun rc_nursery_loop ::
  "vm_object_model \<Rightarrow> (bool \<Rightarrow> address \<Rightarrow> 'pr \<times> byte_mem \<Rightarrow> (usize \<times> 'pr \<times> byte_mem) option) \<Rightarrow> object_reference list \<Rightarrow>
   'pr large_object_space \<times> byte_mem \<Rightarrow> ('pr large_object_space \<times> byte_mem) option" where
  "rc_nursery_loop vm release [] (self, m) = Some (self, m)"
| "rc_nursery_loop vm release (ob # obs) (self, m) =
     (if rc_count ob m = 0 then do {
        (_, self, m) \<leftarrow> release_object release (to_raw_address ob) (self, m);
        rc_nursery_loop vm release obs (self, m) }
      else rc_nursery_loop vm release obs (self\<lparr>rc_mature_objects := (rc_mature_objects self)(ob \<mapsto> get_current_size vm ob)\<rparr>, m))"

definition release_rc_nursery_objects ::
  "vm_object_model \<Rightarrow> (bool \<Rightarrow> address \<Rightarrow> 'pr \<times> byte_mem \<Rightarrow> (usize \<times> 'pr \<times> byte_mem) option) \<Rightarrow>
   'pr large_object_space \<times> byte_mem \<Rightarrow> ('pr large_object_space \<times> byte_mem) option" where
  "release_rc_nursery_objects vm release = (\<lambda>(self, m).
     rc_nursery_loop vm release (rc_nursery_objects self) (self\<lparr>rc_nursery_objects := []\<rparr>, m))"

definition los_prepare :: "bool \<Rightarrow> 'pr large_object_space \<Rightarrow> 'pr large_object_space" where
  "los_prepare full_heap self =
     (let self = self\<lparr>trace_in_progress := True\<rparr>;
          self = (if full_heap then self\<lparr>los_mark_state := MARK_BIT - los_mark_state self\<rparr> else self);
          self = self\<lparr>num_pages_released_lazy := 0, los_rc_killed_bytes := 0, young_alloc_size := 0\<rparr>
      in if rc_enabled self then self
         else self\<lparr>los_treadmill := flip full_heap (los_treadmill self), in_nursery_gc := \<not> full_heap\<rparr>)"

text \<open>What \<open>sweep_large_pages\<close> does to one dead object; with log bits it reaches \<open>unreachable!()\<close>.\<close>

definition los_sweep ::
  "vm_object_model \<Rightarrow> (bool \<Rightarrow> address \<Rightarrow> 'pr \<times> byte_mem \<Rightarrow> (usize \<times> 'pr \<times> byte_mem) option) \<Rightarrow> object_reference \<Rightarrow>
   'pr large_object_space \<times> byte_mem \<Rightarrow> ('pr large_object_space \<times> byte_mem) option" where
  "los_sweep vm release ob = (\<lambda>(self, m). do {
     if los_needs_log_bit self then do { _ \<leftarrow> log_clear vm (GLOBAL_LOG_BIT_SPEC vm) ob m; None }
     else do {
       (_, self, m) \<leftarrow> release_object release (get_super_page (ref_to_object_start vm ob)) (self, m);
       Some (self, m) } })"

definition sweep_large_pages ::
  "vm_object_model \<Rightarrow> (object_reference set \<Rightarrow> object_reference list) \<Rightarrow>
   (bool \<Rightarrow> address \<Rightarrow> 'pr \<times> byte_mem \<Rightarrow> (usize \<times> 'pr \<times> byte_mem) option) \<Rightarrow> bool \<Rightarrow>
   'pr large_object_space \<times> byte_mem \<Rightarrow> ('pr large_object_space \<times> byte_mem) option" where
  "sweep_large_pages vm order release sweep_nursery = (\<lambda>(self, m).
     let (obs, tm) = (if sweep_nursery then tm_collect_nursery order (los_treadmill self) else tm_collect order (los_treadmill self))
     in foldM (los_sweep vm release) obs (self\<lparr>los_treadmill := tm\<rparr>, m))"

definition los_release ::
  "vm_object_model \<Rightarrow> (object_reference set \<Rightarrow> object_reference list) \<Rightarrow>
   (bool \<Rightarrow> address \<Rightarrow> 'pr \<times> byte_mem \<Rightarrow> (usize \<times> 'pr \<times> byte_mem) option) \<Rightarrow> bool \<Rightarrow>
   'pr large_object_space \<times> byte_mem \<Rightarrow> ('pr large_object_space \<times> byte_mem) option" where
  "los_release vm order release full_heap = (\<lambda>(self, m).
     let self = self\<lparr>trace_in_progress := False\<rparr> in
     if rc_enabled self then release_rc_nursery_objects vm release (self, m)
     else do {
       (self, m) \<leftarrow> sweep_large_pages vm order release True (self, m);
       if full_heap then sweep_large_pages vm order release False (self, m) else Some (self, m) })"

definition los_trace_object ::
  "vm_object_model \<Rightarrow> object_reference \<Rightarrow> object_reference list \<times> 'pr large_object_space \<times> byte_mem \<Rightarrow>
   (object_reference list \<times> 'pr large_object_space \<times> byte_mem) option" where
  "los_trace_object vm ob = (\<lambda>(queue, self, m).
     if rc_enabled self then do {
       (marked, m) \<leftarrow> los_test_and_mark vm self ob (los_mark_state self) m;
       Some (if marked then queue @ [ob] else queue, self, m) }
     else do {
       let nursery_object = is_in_nursery vm ob m;
       if \<not> in_nursery_gc self \<or> nursery_object then do {
         (marked, m) \<leftarrow> los_test_and_mark vm self ob (los_mark_state self) m;
         if marked then do {
           let self = self\<lparr>los_treadmill := tm_copy ob nursery_object (los_treadmill self)\<rparr>;
           m \<leftarrow> (if los_needs_log_bit self
                 then (if los_needs_field_log_bit self
                       then unlog_all vm (GLOBAL_FIELD_UNLOG_BIT_SPEC vm)
                              (map (\<lambda>i. to_raw_address ob + of_nat i)
                                (field_offsets (COMPRESSED_PTR_ENABLED vm) (unat (get_current_size vm ob)))) m
                       else mark_as_unlogged vm (GLOBAL_LOG_BIT_SPEC vm) ob m)
                 else Some m);
           Some (queue @ [ob], self, m) }
         else Some (queue, self, m) }
       else Some (queue, self, m) })"

definition trace_object_rc ::
  "vm_object_model \<Rightarrow> object_reference \<Rightarrow> object_reference list \<times> 'pr large_object_space \<times> byte_mem \<Rightarrow>
   (object_reference list \<times> 'pr large_object_space \<times> byte_mem) option" where
  "trace_object_rc vm ob = (\<lambda>(queue, self, m). do {
     (marked, m) \<leftarrow> los_test_and_mark vm self ob (los_mark_state self) m;
     Some (if marked then queue @ [ob] else queue, self, m) })"

definition attempt_mark ::
  "vm_object_model \<Rightarrow> 'pr large_object_space \<Rightarrow> object_reference \<Rightarrow> byte_mem \<Rightarrow> (bool \<times> byte_mem) option" where
  "attempt_mark vm self ob m = los_test_and_mark vm self ob (los_mark_state self) m"

definition rc_free ::
  "(bool \<Rightarrow> address \<Rightarrow> 'pr \<times> byte_mem \<Rightarrow> (usize \<times> 'pr \<times> byte_mem) option) \<Rightarrow> object_reference \<Rightarrow>
   'pr large_object_space \<times> byte_mem \<Rightarrow> ('pr large_object_space \<times> byte_mem) option" where
  "rc_free release ob = (\<lambda>(self, m).
     case rc_mature_objects self ob of
       None \<Rightarrow> Some (self, m)
     | Some _ \<Rightarrow> do {
         let self = self\<lparr>rc_mature_objects := (rc_mature_objects self)(ob := None)\<rparr>;
         (pages, self, m) \<leftarrow> release_object release (to_raw_address ob) (self, m);
         Some (self\<lparr>num_pages_released_lazy := num_pages_released_lazy self + pages\<rparr>, m) })"

text \<open>The sweep of mature objects after a concurrent trace, over the entries of the table in the order of the hash map.\<close>

definition sweep_mature_object ::
  "(bool \<Rightarrow> address \<Rightarrow> 'pr \<times> byte_mem \<Rightarrow> (usize \<times> 'pr \<times> byte_mem) option) \<Rightarrow> (object_reference \<Rightarrow> byte_mem \<Rightarrow> bool) \<Rightarrow> object_reference \<Rightarrow>
   object_reference list \<times> 'pr large_object_space \<times> byte_mem \<Rightarrow> (object_reference list \<times> 'pr large_object_space \<times> byte_mem) option" where
  "sweep_mature_object release is_live ob = (\<lambda>(released_objects, self, m).
     if \<not> is_live ob m then do {
       m \<leftarrow> rc_set ob 0 m;
       (pages, self, m) \<leftarrow> release_object release (to_raw_address ob) (self, m);
       Some (released_objects @ [ob], self\<lparr>num_pages_released_lazy := num_pages_released_lazy self + pages\<rparr>, m) }
     else Some (released_objects, self, m))"

definition sweep_rc_mature_objects_after_satb ::
  "(object_reference set \<Rightarrow> object_reference list) \<Rightarrow>
   (bool \<Rightarrow> address \<Rightarrow> 'pr \<times> byte_mem \<Rightarrow> (usize \<times> 'pr \<times> byte_mem) option) \<Rightarrow> (object_reference \<Rightarrow> byte_mem \<Rightarrow> bool) \<Rightarrow>
   'pr large_object_space \<times> byte_mem \<Rightarrow> ('pr large_object_space \<times> byte_mem) option" where
  "sweep_rc_mature_objects_after_satb order release is_live = (\<lambda>(self, m). do {
     (released_objects, self, m) \<leftarrow> foldM (sweep_mature_object release is_live) (order (dom (rc_mature_objects self))) ([], self, m);
     Some (self\<lparr>rc_mature_objects := (rc_mature_objects self) |` (- set released_objects)\<rparr>, m) })"

definition RCSweepMatureAfterSATBLOS_do_work ::
  "vm_object_model \<Rightarrow> (object_reference set \<Rightarrow> object_reference list) \<Rightarrow>
   (bool \<Rightarrow> address \<Rightarrow> 'pr \<times> byte_mem \<Rightarrow> (usize \<times> 'pr \<times> byte_mem) option) \<Rightarrow>
   'pr large_object_space \<times> byte_mem \<Rightarrow> ('pr large_object_space \<times> byte_mem) option" where
  "RCSweepMatureAfterSATBLOS_do_work vm order release = (\<lambda>(self, m).
     sweep_rc_mature_objects_after_satb order release (\<lambda>ob m. \<not> (\<not> los_is_marked vm self ob m \<and> rc_count ob m \<noteq> 0)) (self, m))"

section \<open>Mark and nursery bits\<close>

text \<open>The two bits of an object are on the side, where no two objects of the space share them.\<close>

definition los_layout :: "vm_object_model \<Rightarrow> side_metadata_spec \<Rightarrow> bool" where
  "los_layout vm s \<longleftrightarrow> LOCAL_LOS_MARK_NURSERY_SPEC vm = OnSide s \<and> assert_value_type U8 s \<and> spec_ok s \<and> log_num_of_bits s = 1"

lemma los_bits:
  assumes "los_layout vm s"
  shows "ms_load_atomic vm U8 (LOCAL_LOS_MARK_NURSERY_SPEC vm) ob None m = side_value s m ob"
    "extract_side_spec (LOCAL_LOS_MARK_NURSERY_SPEC vm) = Some s" "side_value s m ob \<in> {0, 1, 2, 3}"
proof -
  show "ms_load_atomic vm U8 (LOCAL_LOS_MARK_NURSERY_SPEC vm) ob None m = side_value s m ob"
    "extract_side_spec (LOCAL_LOS_MARK_NURSERY_SPEC vm) = Some s"
    using assms by (simp_all add: los_layout_def ms_load_atomic_def extract_side_spec_def side_load_value to_raw_address_def)
  have "field_ok (side_cell (U8, s, ob))" using side.cell_ok [of "(U8, s, ob)"] assms by (simp add: los_layout_def side_valid_def)
  from field_get_take [OF this] have "take_bit 2 (side_value s m ob) = side_value s m ob"
    using assms side_width [of U8 s ob] by (simp add: side_value_def los_layout_def)
  then have "unat (side_value s m ob) < 4" using value_fits_take [of s "side_value s m ob"] assms by (simp add: value_fits_def los_layout_def)
  then have "unat (side_value s m ob) \<in> {0, 1, 2, 3}" by auto
  then show "side_value s m ob \<in> {0, 1, 2, 3}" by (auto simp: word_unat_eq_iff)
qed

lemma los_value_put:
  assumes "los_layout vm s" "v \<in> {0, 1, 2, 3}"
  shows "side_value s (side_put s d v m) d' = (if region_index s d' = region_index s d then v else side_value s m d')"
  by (rule side_value_put_own) (use assms in \<open>auto simp: los_layout_def value_fits_def\<close>)

lemma bit_cases: "(v :: usize) \<in> {0, 1, 2, 3} \<Longrightarrow> w \<in> {0, 1} \<Longrightarrow> (v AND NOT 3) OR w = w"
  by auto

lemma los_test_and_mark_put:
  assumes "los_layout vm s" "\<not> rc_enabled self" "w \<in> {0, 1}"
  shows "los_test_and_mark vm self ob w m =
    Some (if side_value s m ob AND (if in_nursery_gc self then 3 else 1) = w then (False, m) else (True, side_put s ob w m))"
proof -
  define msk where "msk = (if in_nursery_gc self then LOS_BIT_MASK else MARK_BIT)"
  let ?f = "\<lambda>old_value. if old_value AND msk = w then None else Some ((old_value AND NOT LOS_BIT_MASK) OR w)"
  have w: "(side_value s m ob AND NOT LOS_BIT_MASK) OR w = w"
    unfolding LOS_BIT_MASK_def by (rule bit_cases [OF los_bits(3) [OF assms(1)] assms(3)])
  then have "value_fits s v" if "?f (side_value s m ob) = Some v" for v
    using that assms(1,3) by (auto simp: value_fits_def los_layout_def split: if_splits)
  note run = side_fetch_update [where f = ?f and s = s and m = m and d = ob, OF this]
  have "los_test_and_mark vm self ob w m = Some (if side_value s m ob AND msk = w then (False, m) else (True, side_put s ob w m))"
    using assms(2) w run by (simp add: los_test_and_mark_def los_bits(2) [OF assms(1)] to_raw_address_def Let_def msk_def [symmetric])
  moreover have "msk = (if in_nursery_gc self then 3 else 1)" by (simp add: msk_def LOS_BIT_MASK_def MARK_BIT_def)
  ultimately show ?thesis by simp
qed

section \<open>A collection\<close>

text \<open>
  Between collections: the nursery \<open>N\<close> has the objects allocated since the last one, with the nursery bit set, the to-space \<open>O\<close> all
  others; their mark bits have the value of the mark state.
\<close>

definition los_inv :: "vm_object_model \<Rightarrow> side_metadata_spec \<Rightarrow> object_reference set \<Rightarrow> object_reference set \<Rightarrow>
   'pr large_object_space \<Rightarrow> byte_mem \<Rightarrow> bool" where
  "los_inv vm s N M self m \<longleftrightarrow>
     los_layout vm s \<and> \<not> rc_enabled self \<and> los_mark_state self \<in> {0, 1} \<and> N \<inter> M = {} \<and> inj_on (region_index s) (N \<union> M) \<and>
     los_treadmill self = \<lparr>from_space = {}, to_space = M, collect_nursery_set = {}, alloc_nursery = N\<rparr> \<and>
     (\<forall>ob\<in>N. side_value s m ob = los_mark_state self + 2) \<and> (\<forall>ob\<in>M. side_value s m ob = los_mark_state self)"

text \<open>While a collection traces, after it has reached the objects \<open>X\<close>.\<close>

definition los_tracing :: "bool \<Rightarrow> vm_object_model \<Rightarrow> side_metadata_spec \<Rightarrow> object_reference set \<Rightarrow> object_reference set \<Rightarrow> object_reference set \<Rightarrow>
   'pr large_object_space \<Rightarrow> byte_mem \<Rightarrow> bool" where
  "los_tracing full vm s N M X self m \<longleftrightarrow>
     los_layout vm s \<and> \<not> rc_enabled self \<and> los_mark_state self \<in> {0, 1} \<and> N \<inter> M = {} \<and> inj_on (region_index s) (N \<union> M) \<and>
     in_nursery_gc self = (\<not> full) \<and>
     los_treadmill self = \<lparr>from_space = (if full then M - X else {}), to_space = (if full then X \<inter> (N \<union> M) else M \<union> (X \<inter> N)),
       collect_nursery_set = N - X, alloc_nursery = {}\<rparr> \<and>
     (\<forall>ob \<in> N \<union> M. side_value s m ob =
        (if full then (if ob \<in> X then los_mark_state self else if ob \<in> N then 1 - los_mark_state self + 2 else 1 - los_mark_state self)
         else (if ob \<in> N - X then los_mark_state self + 2 else los_mark_state self)))"

lemma los_prepare_tracing:
  assumes "los_inv vm s N M self m"
  shows "los_tracing full vm s N M {} (los_prepare full self) m" "los_pr (los_prepare full self) = los_pr self"
    "los_needs_log_bit (los_prepare full self) = los_needs_log_bit self"
  using assms by (auto simp: los_inv_def los_tracing_def los_prepare_def flip_def MARK_BIT_def Let_def)

lemma los_trace_object_step:
  assumes "los_tracing full vm s N M X self m" "ob \<in> N \<union> M" "\<not> los_needs_log_bit self"
  obtains self' m' where "los_trace_object vm ob (q, self, m) = Some (if ob \<in> X \<or> \<not> full \<and> ob \<notin> N then q else q @ [ob], self', m')"
    "los_tracing full vm s N M (insert ob X) self' m'" "los_pr self' = los_pr self" "los_needs_log_bit self' = los_needs_log_bit self"
proof -
  let ?w = "los_mark_state self" and ?v = "side_value s m ob"
  have lay: "los_layout vm s" and rc: "\<not> rc_enabled self" and w: "?w \<in> {0, 1}" and dis: "N \<inter> M = {}"
    and inj: "inj_on (region_index s) (N \<union> M)" and gc: "in_nursery_gc self = (\<not> full)"
    and v: "?v = (if full then (if ob \<in> X then ?w else if ob \<in> N then 1 - ?w + 2 else 1 - ?w)
        else (if ob \<in> N - X then ?w + 2 else ?w))"
    using assms(1,2) by (simp_all add: los_tracing_def)
  have nur: "is_in_nursery vm ob m \<longleftrightarrow> ob \<in> N - X"
    using v w by (auto simp: is_in_nursery_def los_bits(1) [OF lay] NURSERY_BIT_def split: if_splits)
  have hit: "?v AND (if in_nursery_gc self then 3 else 1) = ?w \<longleftrightarrow> ob \<in> X \<or> \<not> full \<and> ob \<notin> N"
    using v w gc by (auto split: if_splits)
  note mark = los_test_and_mark_put [OF lay rc w, of ob m, unfolded hit]
  show thesis
  proof (cases "ob \<in> X \<or> \<not> full \<and> ob \<notin> N")
    case True
    then have "los_tracing full vm s N M (insert ob X) self m" using assms(1,2) dis by (auto simp: los_tracing_def insert_absorb)
    moreover have "los_trace_object vm ob (q, self, m) = Some (q, self, m)" using True mark rc by (simp add: los_trace_object_def Let_def)
    ultimately show thesis using that [of self m] True by simp
  next
    case False
    let ?self = "self\<lparr>los_treadmill := tm_copy ob (ob \<in> N - X) (los_treadmill self)\<rparr>" and ?m = "side_put s ob ?w m"
    have put: "side_value s ?m y = (if y = ob then ?w else side_value s m y)" if "y \<in> N \<union> M" for y
      using los_value_put [OF lay, of ?w ob m y] w inj assms(2) that by (auto dest: inj_onD)
    have "los_trace_object vm ob (q, self, m) = Some (q @ [ob], ?self, ?m)"
      using False mark rc assms(2,3) gc nur by (auto simp: los_trace_object_def Let_def)
    moreover have "los_tracing full vm s N M (insert ob X) ?self ?m"
      using assms(1,2) False dis put by (auto simp: los_tracing_def tm_copy_def Let_def)
    ultimately show thesis using that [of ?self ?m] False by simp
  qed
qed

lemma los_trace_all:
  assumes "los_tracing full vm s N M {} self m" "set obs \<subseteq> N \<union> M" "\<not> los_needs_log_bit self"
  obtains self' m' where "foldM (los_trace_object vm) obs ([], self, m) = Some (first_occurrences (filter (\<lambda>ob. full \<or> ob \<in> N) obs), self', m')"
    "los_tracing full vm s N M (set obs) self' m'" "los_pr self' = los_pr self" "\<not> los_needs_log_bit self'"
  using assms(2)
proof (induction obs arbitrary: thesis rule: rev_induct)
  case Nil
  then show ?case using assms(1,3) by (simp add: first_occurrences_def)
next
  case (snoc ob obs)
  obtain self1 m1 where one: "foldM (los_trace_object vm) obs ([], self, m) = Some (first_occurrences (filter (\<lambda>ob. full \<or> ob \<in> N) obs), self1, m1)"
    "los_tracing full vm s N M (set obs) self1 m1" "los_pr self1 = los_pr self" "\<not> los_needs_log_bit self1"
    by (rule snoc.IH) (use snoc.prems(2) in auto)
  obtain self2 m2 where "los_trace_object vm ob (first_occurrences (filter (\<lambda>ob. full \<or> ob \<in> N) obs), self1, m1) =
      Some (if ob \<in> set obs \<or> \<not> full \<and> ob \<notin> N then first_occurrences (filter (\<lambda>ob. full \<or> ob \<in> N) obs)
        else first_occurrences (filter (\<lambda>ob. full \<or> ob \<in> N) obs) @ [ob], self2, m2)"
    "los_tracing full vm s N M (insert ob (set obs)) self2 m2" "los_pr self2 = los_pr self1" "los_needs_log_bit self2 = los_needs_log_bit self1"
    by (rule los_trace_object_step [OF one(2) _ one(4), of ob]) (use snoc.prems(2) in auto)
  with one show ?case
    by (intro snoc.prems(1) [of self2 m2]) (auto simp: foldM_append first_occurrences_snoc)
qed

text \<open>The page resource takes the pages of an address back and leaves the metadata of the space alone.\<close>

definition releases :: "(bool \<Rightarrow> address \<Rightarrow> 'pr \<times> byte_mem \<Rightarrow> (usize \<times> 'pr \<times> byte_mem) option) \<Rightarrow> (address \<Rightarrow> 'pr \<Rightarrow> 'pr) \<Rightarrow> bool" where
  "releases release give \<longleftrightarrow> (\<forall>a pr m. \<exists>n. release False a (pr, m) = Some (n, give a pr, m))"

lemma los_sweep_all:
  assumes "releases release give" "\<not> los_needs_log_bit self"
  shows "foldM (los_sweep vm release) obs (self, m) =
    Some (self\<lparr>los_pr := fold give (map (\<lambda>ob. get_super_page (ref_to_object_start vm ob)) obs) (los_pr self)\<rparr>, m)"
  using assms(2)
proof (induction obs arbitrary: self)
  case (Cons ob obs)
  let ?a = "get_super_page (ref_to_object_start vm ob)"
  obtain n where "release False ?a (los_pr self, m) = Some (n, give ?a (los_pr self), m)" using assms(1) unfolding releases_def by blast
  with Cons show ?case by (simp add: los_sweep_def release_object_def)
qed simp

text \<open>The addresses of the pages that a collection gives back.\<close>

definition dead_pages :: "vm_object_model \<Rightarrow> (object_reference set \<Rightarrow> object_reference list) \<Rightarrow> bool \<Rightarrow> object_reference set \<Rightarrow>
   object_reference set \<Rightarrow> object_reference set \<Rightarrow> address list" where
  "dead_pages vm order full N M X =
     map (\<lambda>ob. get_super_page (ref_to_object_start vm ob)) (order (N - X) @ (if full then order (M - X) else []))"

definition los_collect ::
  "vm_object_model \<Rightarrow> (object_reference set \<Rightarrow> object_reference list) \<Rightarrow>
   (bool \<Rightarrow> address \<Rightarrow> 'pr \<times> byte_mem \<Rightarrow> (usize \<times> 'pr \<times> byte_mem) option) \<Rightarrow> bool \<Rightarrow> object_reference list \<Rightarrow>
   'pr large_object_space \<times> byte_mem \<Rightarrow> (object_reference list \<times> 'pr large_object_space \<times> byte_mem) option" where
  "los_collect vm order release full obs = (\<lambda>(self, m). do {
     (q, self, m) \<leftarrow> foldM (los_trace_object vm) obs ([], los_prepare full self, m);
     (self, m) \<leftarrow> los_release vm order release full (self, m);
     Some (q, self, m) })"

text \<open>
  C7. A collection of the large object space, without reference counting and without log bits. Whatever objects of the space a full collection reaches, in any order and any number
  of times, it enqueues each of them once, keeps exactly these in the to-space and gives the pages of all others back,
  each once; a nursery collection enqueues and promotes the young objects it reaches, gives the pages of the other young
  objects back and keeps every old object. Afterwards the space is as before a collection, with an empty nursery.
\<close>

theorem los_collect_exact:
  assumes "los_inv vm s N M self m" "set obs \<subseteq> N \<union> M" "\<not> los_needs_log_bit self" "releases release give"
  shows "\<exists>self' m'. los_collect vm order release full obs (self, m) =
      Some (first_occurrences (filter (\<lambda>ob. full \<or> ob \<in> N) obs), self', m') \<and>
    los_inv vm s {} (if full then set obs else M \<union> (N \<inter> set obs)) self' m' \<and>
    los_pr self' = fold give (dead_pages vm order full N M (set obs)) (los_pr self)"
proof -
  note prep = los_prepare_tracing [OF assms(1), of full]
  obtain self1 m1 where one: "foldM (los_trace_object vm) obs ([], los_prepare full self, m) =
      Some (first_occurrences (filter (\<lambda>ob. full \<or> ob \<in> N) obs), self1, m1)"
    "los_tracing full vm s N M (set obs) self1 m1" "los_pr self1 = los_pr self" "\<not> los_needs_log_bit self1"
    by (rule los_trace_all [OF prep(1) assms(2)]) (use assms(3) prep in auto)
  let ?tm = "\<lparr>from_space = {}, to_space = (if full then set obs \<inter> (N \<union> M) else M \<union> (set obs \<inter> N)), collect_nursery_set = {}, alloc_nursery = {}\<rparr>"
  let ?self = "self1\<lparr>trace_in_progress := False, los_treadmill := ?tm, los_pr := fold give (dead_pages vm order full N M (set obs)) (los_pr self)\<rparr>"
  have "los_release vm order release full (self1, m1) = Some (?self, m1)"
    using one(2-4)
    by (auto simp: los_release_def sweep_large_pages_def tm_collect_nursery_def tm_collect_def los_sweep_all [OF assms(4)] los_tracing_def
        dead_pages_def Let_def)
  moreover have "los_inv vm s {} (if full then set obs else M \<union> (N \<inter> set obs)) ?self m1"
    using one(2) assms(2) by (auto simp: los_tracing_def los_inv_def intro: inj_on_subset)
  ultimately show ?thesis using one(1) by (auto simp: los_collect_def)
qed

text \<open>A space with an object in the nursery and an old one.\<close>

definition los_vm :: vm_object_model where
  "los_vm = header_vm\<lparr>LOCAL_LOS_MARK_NURSERY_SPEC := vm_side_first VMLocalLOSMarkNurserySpec\<rparr>"

definition los_spec :: side_metadata_spec where
  "los_spec = spec_at False LOCAL_SIDE_METADATA_VM_BASE_OFFSET (''VMLocalLOSMarkNurserySpec'', 1, 12)"

definition los_example :: "address list large_object_space" where
  "los_example = (los_new [] False False)\<lparr>los_treadmill :=
     \<lparr>from_space = {}, to_space = {0x20000003000}, collect_nursery_set = {}, alloc_nursery = {0x20000001000}\<rparr>\<rparr>"

lemma los_example_layout: "los_layout los_vm los_spec"
  by (simp add: los_layout_def los_vm_def los_spec_def vm_side_first_def VMLocalLOSMarkNurserySpec_def spec_at_def spec_ok_def
      assert_value_type_def log_data_meta_ratio_def LOG_ARCH_ADDRESS_SPACE_def)

lemma los_example_inv:
  "los_inv los_vm los_spec {0x20000001000} {0x20000003000} los_example (side_put los_spec 0x20000001000 2 (\<lambda>_. 0))"
proof -
  have "sm_load U8 los_spec d (\<lambda>_. 0) = 0" for d
    using zero_table los_example_layout unfolding los_layout_def by blast
  then have z: "side_value los_spec (\<lambda>_. 0) d = 0" for d by (simp add: side_load_value)
  have r: "region_index los_spec d = unat d div 4096" for d by (simp add: region_index_def los_spec_def spec_at_def)
  show ?thesis
    using los_value_put [OF los_example_layout, of 2 "0x20000001000" "\<lambda>_. 0"] los_example_layout
    by (simp add: los_inv_def los_example_def los_new_def r z)
qed

theorem los_collect_exact_witness:
  "\<exists>self' m'. los_collect los_vm sorted_list_of_set (\<lambda>_ a (pr, m). Some (1, a # pr, m)) True [0x20000001000, 0x20000001000]
       (los_example, side_put los_spec 0x20000001000 2 (\<lambda>_. 0)) = Some ([0x20000001000], self', m') \<and>
     los_inv los_vm los_spec {} {0x20000001000} self' m' \<and> los_pr self' = [0x20000003000]"
proof -
  have "releases (\<lambda>_ a (pr, m). Some (1, a # pr, m)) (#)" by (simp add: releases_def)
  from los_collect_exact [OF los_example_inv _ _ this, of "[0x20000001000, 0x20000001000]" sorted_list_of_set True]
  show ?thesis
    by (simp add: los_example_def los_new_def dead_pages_def first_occurrences_def los_vm_def header_vm_def get_super_page_def
        align_down_def raw_align_down_def BYTES_IN_PAGE_def)
qed

text \<open>Tracing takes no object out of the sets to sweep but those it visits, whatever the metadata holds.\<close>

lemma los_trace_object_keeps:
  assumes "los_trace_object vm ob (q, self, m) = Some (q', self', m')"
  shows "rc_enabled self' = rc_enabled self" "los_needs_log_bit self' = los_needs_log_bit self"
    "collect_nursery_set (los_treadmill self) - {ob} \<subseteq> collect_nursery_set (los_treadmill self')"
    "from_space (los_treadmill self) - {ob} \<subseteq> from_space (los_treadmill self')"
  using assms by (auto simp: los_trace_object_def tm_copy_def Let_def split: Option.bind_splits if_splits)

lemma los_trace_keeps:
  assumes "foldM (los_trace_object vm) obs (q, self, m) = Some (q', self', m')"
  shows "rc_enabled self' = rc_enabled self \<and> los_needs_log_bit self' = los_needs_log_bit self \<and>
    collect_nursery_set (los_treadmill self) - set obs \<subseteq> collect_nursery_set (los_treadmill self') \<and>
    from_space (los_treadmill self) - set obs \<subseteq> from_space (los_treadmill self')"
  using assms
proof (induction obs arbitrary: q self m)
  case (Cons ob obs)
  then obtain q1 self1 m1 where one: "los_trace_object vm ob (q, self, m) = Some (q1, self1, m1)"
    "foldM (los_trace_object vm) obs (q1, self1, m1) = Some (q', self', m')"
    by (auto split: Option.bind_splits)
  show ?case using Cons.IH [OF one(2)] los_trace_object_keeps [OF one(1)] by auto
qed simp

lemma los_sweep_log_bit:
  assumes "los_needs_log_bit self" "obs \<noteq> []"
  shows "foldM (los_sweep vm release) obs (self, m) = None"
  using assms by (cases obs) (simp_all add: los_sweep_def split: Option.bind_split)

lemma los_release_log_bit:
  assumes "\<not> rc_enabled self" "los_needs_log_bit self" "\<forall>S. set (order S) = S"
    and "collect_nursery_set (los_treadmill self) \<union> (if full then from_space (los_treadmill self) else {}) \<noteq> {}"
  shows "los_release vm order release full (self, m) = None"
proof -
  have order: "order S = [] \<longleftrightarrow> S = {}" for S using assms(3) by (metis set_empty)
  show ?thesis
  proof (cases "collect_nursery_set (los_treadmill self) = {}")
    case False
    then show ?thesis using assms(1,2) order
      by (simp add: los_release_def sweep_large_pages_def tm_collect_nursery_def los_sweep_log_bit)
  next
    case True
    moreover have "order {} = []" using order by simp
    moreover have "order (from_space (los_treadmill self)) \<noteq> []" "full" using assms(4) order True by (auto split: if_splits)
    ultimately show ?thesis using assms(1,2)
      by (simp add: los_release_def sweep_large_pages_def tm_collect_nursery_def tm_collect_def los_sweep_log_bit)
  qed
qed

text \<open>
  C33. With log bits and without reference counting the large object space cannot drop an object: a collection that does not visit
  some object it is to sweep (a young one, or in a full collection any object of the space) panics, because the sweep of a dead
  object reaches the \<open>unreachable!()\<close> after clearing its log bit. This holds whatever the metadata, the page resource and
  the enumeration order of the hash sets are.
\<close>

theorem los_collect_log_bit_panics:
  assumes "\<not> rc_enabled self" "los_needs_log_bit self" "\<forall>S. set (order S) = S"
    and "\<not> alloc_nursery (los_treadmill self) \<union> (if full then to_space (los_treadmill self) else {}) \<subseteq> set obs"
  shows "los_collect vm order release full obs (self, m) = None"
proof (cases "foldM (los_trace_object vm) obs ([], los_prepare full self, m)")
  case None
  then show ?thesis by (simp add: los_collect_def)
next
  case (Some s)
  obtain q self1 m1 where s: "s = (q, self1, m1)" by (cases s)
  have "los_release vm order release full (self1, m1) = None"
    by (rule los_release_log_bit)
      (use los_trace_keeps [OF Some [unfolded s]] assms in \<open>auto simp: los_prepare_def flip_def Let_def split: if_splits\<close>)
  then show ?thesis using Some s by (simp add: los_collect_def)
qed

theorem los_collect_log_bit_panics_witness:
  "los_collect los_vm sorted_list_of_set (\<lambda>_ a (pr, m). Some (1, a # pr, m)) True [0x20000001000]
     (los_example\<lparr>los_needs_log_bit := True\<rparr>, \<lambda>_. 0) = None"
  by (rule los_collect_log_bit_panics) (simp_all add: los_example_def los_new_def)

end
