(* ===== verification/ChunkedStack.thy ===== *)
theory ChunkedStack
  imports Mmtk_Prelude
begin

text \<open>
  The stack of the cycle collector (\<open>plan/lxr/stack.rs\<close>): a vector of chunks of fixed capacity, all of which but the
  last are full. It implements the contract \<open>lifo_stack\<close>, which the loops of the cycle collector rely on. An
  \<open>unwrap\<close> of an empty vector of chunks is \<open>None\<close>.
\<close>

record 'a chunked_stack =
  chunks :: "'a list list"
  chunk_cap :: nat

definition cs_with_chunk_cap :: "nat \<Rightarrow> 'a chunked_stack" where
  "cs_with_chunk_cap cap = \<lparr>chunks = [[]], chunk_cap = cap\<rparr>"

definition cs_new :: "'a chunked_stack" where
  "cs_new = cs_with_chunk_cap 2048"

text \<open>The last element of a vector, for \<open>last().unwrap()\<close>.\<close>

definition vec_last :: "'a list \<Rightarrow> 'a option" where
  "vec_last xs = (if xs = [] then None else Some (last xs))"

definition cs_len :: "'a chunked_stack \<Rightarrow> nat option" where
  "cs_len self = do { l \<leftarrow> vec_last (chunks self); Some ((length (chunks self) - 1) * chunk_cap self + length l) }"

definition cs_is_empty :: "'a chunked_stack \<Rightarrow> bool option" where
  "cs_is_empty self = do { n \<leftarrow> cs_len self; Some (n = 0) }"

definition cs_push :: "'a \<Rightarrow> 'a chunked_stack \<Rightarrow> 'a chunked_stack option" where
  "cs_push value self = do {
     l \<leftarrow> vec_last (chunks self);
     let self = (if length l = chunk_cap self then self\<lparr>chunks := chunks self @ [[]]\<rparr> else self);
     l \<leftarrow> vec_last (chunks self);
     Some (self\<lparr>chunks := butlast (chunks self) @ [l @ [value]]\<rparr>) }"

definition cs_pop :: "'a chunked_stack \<Rightarrow> ('a option \<times> 'a chunked_stack) option" where
  "cs_pop self = do {
     n \<leftarrow> cs_len self;
     if n = 0 then Some (None, self)
     else do {
       l \<leftarrow> vec_last (chunks self);
       let self = (if l = [] then self\<lparr>chunks := butlast (chunks self)\<rparr> else self);
       top_chunk \<leftarrow> vec_last (chunks self);
       Some (vec_last top_chunk, self\<lparr>chunks := butlast (chunks self) @ [butlast top_chunk]\<rparr>) } }"

definition cs_last :: "'a chunked_stack \<Rightarrow> ('a option \<times> 'a chunked_stack) option" where
  "cs_last self = do {
     n \<leftarrow> cs_len self;
     if n = 0 then Some (None, self)
     else do {
       l \<leftarrow> vec_last (chunks self);
       let self = (if l = [] then self\<lparr>chunks := butlast (chunks self)\<rparr> else self);
       top_chunk \<leftarrow> vec_last (chunks self);
       Some (vec_last top_chunk, self) } }"

section \<open>The contract\<close>

text \<open>A stack of values of which \<open>items\<close> lists the contents, the top first.\<close>

locale lifo_stack =
  fixes ok :: "'s \<Rightarrow> bool"
    and items :: "'s \<Rightarrow> 'a list"
    and fresh :: 's
    and push :: "'a \<Rightarrow> 's \<Rightarrow> 's option"
    and pop :: "'s \<Rightarrow> ('a option \<times> 's) option"
    and top :: "'s \<Rightarrow> ('a option \<times> 's) option"
  assumes fresh_ok: "ok fresh" "items fresh = []"
    and push_ok: "ok s \<Longrightarrow> \<exists>s'. push x s = Some s' \<and> ok s' \<and> items s' = x # items s"
    and pop_ok: "ok s \<Longrightarrow> \<exists>s'. pop s = Some (case items s of [] \<Rightarrow> None | x # _ \<Rightarrow> Some x, s') \<and> ok s' \<and> items s' = tl (items s)"
    and top_ok: "ok s \<Longrightarrow> \<exists>s'. top s = Some (case items s of [] \<Rightarrow> None | x # _ \<Rightarrow> Some x, s') \<and> ok s' \<and> items s' = items s"
begin

lemma push_some: "ok s \<Longrightarrow> (\<And>s'. push x s = Some s' \<Longrightarrow> ok s' \<Longrightarrow> items s' = x # items s \<Longrightarrow> thesis) \<Longrightarrow> thesis"
  using push_ok [of s x] by blast

lemma pop_empty: "ok s \<Longrightarrow> items s = [] \<Longrightarrow> \<exists>s'. pop s = Some (None, s')"
  using pop_ok [of s] by auto

lemma pop_item:
  assumes "ok s" "items s = x # xs"
  obtains s' where "pop s = Some (Some x, s')" "ok s'" "items s' = xs"
  using pop_ok [of s] assms by auto

lemma top_empty: "ok s \<Longrightarrow> items s = [] \<Longrightarrow> \<exists>s'. top s = Some (None, s')"
  using top_ok [of s] by auto

lemma top_item:
  assumes "ok s" "items s = x # xs"
  obtains s' where "top s = Some (Some x, s')" "ok s'" "items s' = x # xs"
  using top_ok [of s] assms by auto

lemma one_item: "\<exists>s. push x fresh = Some s \<and> ok s \<and> items s = [x]"
  using push_ok [OF fresh_ok(1), of x] fresh_ok(2) by simp

end

section \<open>The chunked stack satisfies it\<close>

definition cs_ok :: "'a chunked_stack \<Rightarrow> bool" where
  "cs_ok s \<longleftrightarrow> 0 < chunk_cap s \<and> chunks s \<noteq> [] \<and> (\<forall>c \<in> set (butlast (chunks s)). length c = chunk_cap s) \<and>
     length (last (chunks s)) \<le> chunk_cap s"

definition cs_items :: "'a chunked_stack \<Rightarrow> 'a list" where
  "cs_items s = rev (concat (chunks s))"

lemma concat_full: "(\<forall>c \<in> set cs. length c = n) \<Longrightarrow> length (concat cs) = length cs * n"
  by (induction cs) auto

lemma chunks_split: "chunks s \<noteq> [] \<Longrightarrow> concat (chunks s) = concat (butlast (chunks s)) @ last (chunks s)"
  by (metis append_butlast_last_id concat.simps concat_append append_Nil2)

lemma cs_len_items: "cs_ok s \<Longrightarrow> cs_len s = Some (length (cs_items s))"
  using concat_full [of "butlast (chunks s)" "chunk_cap s"]
  by (simp add: cs_ok_def cs_len_def vec_last_def cs_items_def chunks_split)

lemma cs_push_items:
  assumes "cs_ok s"
  shows "\<exists>s'. cs_push x s = Some s' \<and> cs_ok s' \<and> cs_items s' = x # cs_items s"
proof (cases "length (last (chunks s)) = chunk_cap s")
  case True
  have "\<forall>c \<in> set (chunks s). length c = chunk_cap s"
    using assms True append_butlast_last_id [of "chunks s"] by (metis Un_iff cs_ok_def empty_iff empty_set set_ConsD set_append)
  with assms True show ?thesis by (auto simp: cs_push_def vec_last_def cs_ok_def cs_items_def)
next
  case False
  with assms show ?thesis by (auto simp: cs_push_def vec_last_def cs_ok_def cs_items_def chunks_split)
qed

text \<open>Dropping an empty last chunk changes neither the contents nor the invariant.\<close>

lemma cs_trim:
  assumes "cs_ok s" "cs_items s \<noteq> []"
  obtains cs c where "chunks (if last (chunks s) = [] then s\<lparr>chunks := butlast (chunks s)\<rparr> else s) = cs @ [c]" "c \<noteq> []"
    "cs_items s = rev (concat cs @ c)" "\<forall>d \<in> set cs. length d = chunk_cap s" "length c \<le> chunk_cap s" "0 < chunk_cap s"
proof (cases "last (chunks s) = []")
  case True
  let ?b = "butlast (chunks s)"
  have b: "?b \<noteq> []" "concat (chunks s) = concat ?b" using assms True by (auto simp: cs_ok_def cs_items_def chunks_split)
  have f: "\<forall>d \<in> set ?b. length d = chunk_cap s" "0 < chunk_cap s" using assms(1) by (simp_all add: cs_ok_def)
  have l: "last ?b \<in> set ?b" using b(1) by simp
  with f have "length (last ?b) = chunk_cap s" "last ?b \<noteq> []" by auto
  moreover have "concat ?b = concat (butlast ?b) @ last ?b"
    using b(1) by (metis append_butlast_last_id concat.simps concat_append append_Nil2)
  ultimately show thesis
    using that [of "butlast ?b" "last ?b"] True b f by (auto simp: cs_items_def dest: in_set_butlastD)
next
  case False
  then show thesis using that [of "butlast (chunks s)" "last (chunks s)"] assms by (auto simp: cs_ok_def cs_items_def chunks_split)
qed

lemma cs_pop_items:
  assumes "cs_ok s"
  shows "\<exists>s'. cs_pop s = Some (case cs_items s of [] \<Rightarrow> None | x # _ \<Rightarrow> Some x, s') \<and> cs_ok s' \<and> cs_items s' = tl (cs_items s)"
proof (cases "cs_items s = []")
  case True
  with assms cs_len_items [OF assms] show ?thesis by (simp add: cs_pop_def)
next
  case False
  obtain cs c where t: "chunks (if last (chunks s) = [] then s\<lparr>chunks := butlast (chunks s)\<rparr> else s) = cs @ [c]" "c \<noteq> []"
    "cs_items s = rev (concat cs @ c)" "\<forall>d \<in> set cs. length d = chunk_cap s" "length c \<le> chunk_cap s" "0 < chunk_cap s"
    by (rule cs_trim [OF assms False])
  have cap: "chunk_cap (if last (chunks s) = [] then s\<lparr>chunks := butlast (chunks s)\<rparr> else s) = chunk_cap s" by simp
  let ?s' = "(if last (chunks s) = [] then s\<lparr>chunks := butlast (chunks s)\<rparr> else s)\<lparr>chunks := cs @ [butlast c]\<rparr>"
  have c: "chunks s \<noteq> []" using assms by (simp add: cs_ok_def)
  have "cs_pop s = Some (Some (last c), ?s')"
    using False c t(1,2) by (simp add: cs_pop_def cs_len_items [OF assms] vec_last_def Let_def)
  moreover have "cs_items s = last c # rev (butlast c) @ rev (concat cs)"
    using t(2,3) by (metis append_butlast_last_id rev.simps(2) rev_append rev_rev_ident append_Cons append_Nil singleton_rev_conv)
  moreover have "cs_ok ?s'" "cs_items ?s' = rev (butlast c) @ rev (concat cs)"
    using t(4-6) cap by (auto simp: cs_ok_def cs_items_def)
  ultimately show ?thesis by simp
qed

lemma cs_last_items:
  assumes "cs_ok s"
  shows "\<exists>s'. cs_last s = Some (case cs_items s of [] \<Rightarrow> None | x # _ \<Rightarrow> Some x, s') \<and> cs_ok s' \<and> cs_items s' = cs_items s"
proof (cases "cs_items s = []")
  case True
  with assms cs_len_items [OF assms] show ?thesis by (simp add: cs_last_def)
next
  case False
  obtain cs c where t: "chunks (if last (chunks s) = [] then s\<lparr>chunks := butlast (chunks s)\<rparr> else s) = cs @ [c]" "c \<noteq> []"
    "cs_items s = rev (concat cs @ c)" "\<forall>d \<in> set cs. length d = chunk_cap s" "length c \<le> chunk_cap s" "0 < chunk_cap s"
    by (rule cs_trim [OF assms False])
  let ?s' = "if last (chunks s) = [] then s\<lparr>chunks := butlast (chunks s)\<rparr> else s"
  have c: "chunks s \<noteq> []" using assms by (simp add: cs_ok_def)
  have "cs_last s = Some (Some (last c), ?s')"
    using False c t(1,2) by (simp add: cs_last_def cs_len_items [OF assms] vec_last_def Let_def)
  moreover have "cs_items s = last c # rev (butlast c) @ rev (concat cs)"
    using t(2,3) by (metis append_butlast_last_id rev.simps(2) rev_append rev_rev_ident append_Cons append_Nil singleton_rev_conv)
  moreover have "chunk_cap ?s' = chunk_cap s" by simp
  then have "cs_ok ?s'" "cs_items ?s' = cs_items s" using t unfolding cs_ok_def cs_items_def by simp_all
  ultimately show ?thesis by simp
qed

interpretation chunked: lifo_stack cs_ok cs_items cs_new cs_push cs_pop cs_last
proof
  show "cs_ok cs_new" "cs_items cs_new = []" by (simp_all add: cs_ok_def cs_items_def cs_new_def cs_with_chunk_cap_def)
qed (rule cs_push_items cs_pop_items cs_last_items; assumption)+

section \<open>Runs\<close>

datatype 'a stack_op = Push 'a | Pop | Top | Length

text \<open>An operation of the stack, with the value it returns.\<close>

fun cs_step :: "'a stack_op \<Rightarrow> 'a chunked_stack \<Rightarrow> (('a option + nat) \<times> 'a chunked_stack) option" where
  "cs_step (Push x) s = do { s \<leftarrow> cs_push x s; Some (Inl None, s) }"
| "cs_step Pop s = do { (r, s) \<leftarrow> cs_pop s; Some (Inl r, s) }"
| "cs_step Top s = do { (r, s) \<leftarrow> cs_last s; Some (Inl r, s) }"
| "cs_step Length s = do { n \<leftarrow> cs_len s; Some (Inr n, s) }"

fun cs_run :: "'a stack_op list \<Rightarrow> 'a chunked_stack \<Rightarrow> ('a option + nat) list option" where
  "cs_run [] s = Some []"
| "cs_run (p # ps) s = do { (r, s) \<leftarrow> cs_step p s; rs \<leftarrow> cs_run ps s; Some (r # rs) }"

text \<open>The same on a list.\<close>

definition head :: "'a list \<Rightarrow> 'a option" where
  "head xs = (case xs of [] \<Rightarrow> None | x # _ \<Rightarrow> Some x)"

fun list_run :: "'a stack_op list \<Rightarrow> 'a list \<Rightarrow> ('a option + nat) list" where
  "list_run [] xs = []"
| "list_run (Push x # ps) xs = Inl None # list_run ps (x # xs)"
| "list_run (Pop # ps) xs = Inl (head xs) # list_run ps (tl xs)"
| "list_run (Top # ps) xs = Inl (head xs) # list_run ps xs"
| "list_run (Length # ps) xs = Inr (length xs) # list_run ps xs"

lemma cs_run_items: "cs_ok s \<Longrightarrow> cs_run ps s = Some (list_run ps (cs_items s))"
proof (induction ps arbitrary: s)
  case (Cons p ps)
  show ?case
  proof (cases p)
    case (Push x)
    then show ?thesis using chunked.push_ok [OF Cons.prems, of x] Cons.IH by auto
  next
    case Pop
    then show ?thesis using chunked.pop_ok [OF Cons.prems] Cons.IH by (auto simp: head_def)
  next
    case Top
    then show ?thesis using chunked.top_ok [OF Cons.prems] Cons.IH by (auto simp: head_def)
  next
    case Length
    then show ?thesis using cs_len_items [OF Cons.prems] Cons by simp
  qed
qed simp

text \<open>
  C17. A chunked stack is a stack: whatever pushes, pops, peeks and length queries are made on a new stack of any positive chunk
  capacity, they return what they return on a list, and none of them fails.
\<close>

theorem chunked_stack_run:
  assumes "0 < cap"
  shows "cs_run ps (cs_with_chunk_cap cap) = Some (list_run ps [])"
  using cs_run_items [of "cs_with_chunk_cap cap" ps] assms by (simp add: cs_ok_def cs_items_def cs_with_chunk_cap_def)

theorem chunked_stack_run_witness:
  "cs_run [Push (1 :: nat), Push 2, Push 3, Pop, Length, Pop, Top, Pop, Pop] (cs_with_chunk_cap 2) =
     Some [Inl None, Inl None, Inl None, Inl (Some 3), Inr 2, Inl (Some 2), Inl (Some 1), Inl (Some 1), Inl None]"
  using chunked_stack_run [of 2 "[Push (1 :: nat), Push 2, Push 3, Pop, Length, Pop, Top, Pop, Pop]"] by (simp add: head_def)

end
