(* ===== verification/CycleCollector.thy ===== *)
theory CycleCollector
  imports LargeObjectSpace ChunkedStack
begin

text \<open>
  The backup cycle collector of LXR (\<open>plan/lxr/gc_work.rs\<close>): trial deletion from the candidates whose strong count
  dropped to zero. \<open>mark\<close> colours what a candidate reaches grey and takes the counts of its references
  away, \<open>scan\<close> colours white what has no count left and gives the counts of everything reachable from
  the rest back, \<open>collect_whites\<close> frees the white objects. The model works on the side tables of counts, strong
  counts and colours; the reference fields of an object are the parameter \<open>refs\<close>, the targets of its non-null slots
  in the order \<open>iterate_fields\<close> visits them, which the collector does not write. Membership in the immix space is the parameter
  \<open>in_ix\<close>, and the page resource of the large object space the parameter \<open>release\<close> of \<open>LargeObjectSpace\<close>.
\<close>

section \<open>Colours\<close>

definition BLACK_OUT_OF_STACK :: usize where "BLACK_OUT_OF_STACK = 0"
definition BLACK_IN_STACK :: usize where "BLACK_IN_STACK = 1"
definition GREY :: usize where "GREY = 2"
definition WHITE :: usize where "WHITE = 3"

definition in_stack :: "object_reference \<Rightarrow> byte_mem \<Rightarrow> bool" where
  "in_stack ob m \<longleftrightarrow> sm_load U8 OBJ_COLOR_TABLE (to_raw_address ob) m = BLACK_IN_STACK"

definition is_black :: "object_reference \<Rightarrow> byte_mem \<Rightarrow> bool" where
  "is_black ob m \<longleftrightarrow> sm_load U8 OBJ_COLOR_TABLE (to_raw_address ob) m \<le> BLACK_IN_STACK"

definition set_color :: "object_reference \<Rightarrow> usize \<Rightarrow> byte_mem \<Rightarrow> byte_mem option" where
  "set_color ob c m = sm_store U8 OBJ_COLOR_TABLE (to_raw_address ob) c m"

definition has_color :: "object_reference \<Rightarrow> usize \<Rightarrow> byte_mem \<Rightarrow> bool" where
  "has_color ob c m \<longleftrightarrow> sm_load U8 OBJ_COLOR_TABLE (to_raw_address ob) m = c"

section \<open>Marking\<close>

type_synonym dfs = "object_reference chunked_stack"

definition mark_visitor :: "object_reference \<Rightarrow> dfs \<times> byte_mem \<Rightarrow> (dfs \<times> byte_mem) option" where
  "mark_visitor x = (\<lambda>(dfs_stack, m). do {
     (_, m) \<leftarrow> rc_dec x m;
     dfs_stack \<leftarrow> cs_push x dfs_stack;
     Some (dfs_stack, m) })"

partial_function (option) mark_loop ::
  "(object_reference \<Rightarrow> object_reference list) \<Rightarrow> dfs \<Rightarrow> byte_mem \<Rightarrow> byte_mem option" where
  "mark_loop refs dfs_stack m = do {
     (r, dfs_stack) \<leftarrow> cs_pop dfs_stack;
     case r of
       None \<Rightarrow> Some m
     | Some obj \<Rightarrow>
         (if has_color obj BLACK_OUT_OF_STACK m then do {
            m \<leftarrow> set_color obj GREY m;
            (dfs_stack, m) \<leftarrow> foldM mark_visitor (refs obj) (dfs_stack, m);
            mark_loop refs dfs_stack m }
          else mark_loop refs dfs_stack m) }"

definition cc_mark :: "(object_reference \<Rightarrow> object_reference list) \<Rightarrow> object_reference \<Rightarrow> byte_mem \<Rightarrow> byte_mem option" where
  "cc_mark refs ob m = do {
     dfs_stack \<leftarrow> cs_push ob cs_new;
     mark_loop refs dfs_stack m }"

definition should_mark :: "object_reference \<Rightarrow> byte_mem \<Rightarrow> bool" where
  "should_mark ob m \<longleftrightarrow> rc_count ob m > 0 \<and> \<not> has_color ob GREY m"

section \<open>Scanning\<close>

definition scan_black_visitor :: "object_reference \<Rightarrow> dfs \<times> byte_mem \<Rightarrow> (dfs \<times> byte_mem) option" where
  "scan_black_visitor x = (\<lambda>(dfs_stack, m). do {
     (_, m) \<leftarrow> rc_inc x m;
     if \<not> in_stack x m then do {
       (_, m) \<leftarrow> strong_rc_inc x m;
       dfs_stack \<leftarrow> cs_push x dfs_stack;
       Some (dfs_stack, m) }
     else Some (dfs_stack, m) })"

partial_function (option) scan_black_loop ::
  "(object_reference \<Rightarrow> object_reference list) \<Rightarrow> dfs \<Rightarrow> byte_mem \<Rightarrow> byte_mem option" where
  "scan_black_loop refs dfs_stack m = do {
     (r, dfs_stack) \<leftarrow> cs_last dfs_stack;
     case r of
       None \<Rightarrow> Some m
     | Some obj \<Rightarrow>
         (if \<not> is_black obj m then do {
            m \<leftarrow> set_color obj BLACK_IN_STACK m;
            let s_rc = rc_count obj m;
            m \<leftarrow> (if s_rc > MAX_STRONG_REF_COUNT
                  then sm_store U8 STRONG_RC_TABLE (to_raw_address obj) MAX_STRONG_REF_COUNT m
                  else sm_store U8 STRONG_RC_TABLE (to_raw_address obj) s_rc m);
            (dfs_stack, m) \<leftarrow> foldM scan_black_visitor (refs obj) (dfs_stack, m);
            scan_black_loop refs dfs_stack m }
          else do {
            m \<leftarrow> set_color obj BLACK_OUT_OF_STACK m;
            (_, dfs_stack) \<leftarrow> cs_pop dfs_stack;
            scan_black_loop refs dfs_stack m }) }"

definition scan_black :: "(object_reference \<Rightarrow> object_reference list) \<Rightarrow> object_reference \<Rightarrow> byte_mem \<Rightarrow> byte_mem option" where
  "scan_black refs ob m = do {
     dfs_stack \<leftarrow> cs_push ob cs_new;
     scan_black_loop refs dfs_stack m }"

partial_function (option) scan_loop ::
  "(object_reference \<Rightarrow> object_reference list) \<Rightarrow> dfs \<Rightarrow> byte_mem \<Rightarrow> byte_mem option" where
  "scan_loop refs dfs_stack m = do {
     (r, dfs_stack) \<leftarrow> cs_pop dfs_stack;
     case r of
       None \<Rightarrow> Some m
     | Some obj \<Rightarrow>
         (if has_color obj GREY m
          then (if rc_count obj m > 0 then do {
                  m \<leftarrow> scan_black refs obj m;
                  scan_loop refs dfs_stack m }
                else do {
                  m \<leftarrow> set_color obj WHITE m;
                  dfs_stack \<leftarrow> foldM cs_push (refs obj) dfs_stack;
                  scan_loop refs dfs_stack m })
          else scan_loop refs dfs_stack m) }"

definition cc_scan :: "(object_reference \<Rightarrow> object_reference list) \<Rightarrow> object_reference \<Rightarrow> byte_mem \<Rightarrow> byte_mem option" where
  "cc_scan refs ob m = do {
     dfs_stack \<leftarrow> cs_push ob cs_new;
     scan_loop refs dfs_stack m }"

section \<open>Freeing\<close>

text \<open>The part of the plan that freeing works on.\<close>

record 'pr lxr_state =
  lxr_mem :: byte_mem
  possibly_dead_mature_blocks :: "(address \<times> bool) list"
  lxr_los :: "'pr large_object_space"

text \<open>\<open>Block::log\<close>: whether this call is the one that set the log bit of the block.\<close>

partial_function (option) block_log :: "address \<Rightarrow> byte_mem \<Rightarrow> (bool \<times> byte_mem) option" where
  "block_log self m =
     (let old_value = sm_load_atomic U8 IX_BLOCK_LOG self m in
      if old_value = 1 then Some (False, m)
      else do {
        (r, m) \<leftarrow> compare_exchange_atomic U8 IX_BLOCK_LOG self 0 1 m m;
        case r of Inr _ \<Rightarrow> Some (True, m) | Inl _ \<Rightarrow> block_log self m })"

definition add_to_possibly_dead_mature_blocks :: "address \<Rightarrow> bool \<Rightarrow> 'pr lxr_state \<Rightarrow> 'pr lxr_state option" where
  "add_to_possibly_dead_mature_blocks block is_defrag_source lxr = do {
     (first, m) \<leftarrow> block_log block (lxr_mem lxr);
     let lxr = lxr\<lparr>lxr_mem := m\<rparr>;
     Some (if first then lxr\<lparr>possibly_dead_mature_blocks := possibly_dead_mature_blocks lxr @ [(block, is_defrag_source)]\<rparr> else lxr) }"

definition Block_containing :: "object_reference \<Rightarrow> address" where
  "Block_containing ob = region_align immix_block_LOG_BYTES (to_raw_address ob)"

definition cc_process_dead_object ::
  "vm_object_model \<Rightarrow> (object_reference \<Rightarrow> bool) \<Rightarrow> (bool \<Rightarrow> address \<Rightarrow> 'pr \<times> byte_mem \<Rightarrow> (usize \<times> 'pr \<times> byte_mem) option) \<Rightarrow>
   object_reference \<Rightarrow> 'pr lxr_state \<Rightarrow> (bool \<times> 'pr lxr_state) option" where
  "cc_process_dead_object vm in_ix release ob lxr = do {
     let in_ix_space = in_ix ob;
     lxr \<leftarrow> (if in_ix_space then do { m \<leftarrow> unmark_straddle_object vm ob (lxr_mem lxr); Some (lxr\<lparr>lxr_mem := m\<rparr>) } else Some lxr);
     if in_ix_space then do {
       let block = Block_containing ob;
       lxr \<leftarrow> add_to_possibly_dead_mature_blocks block False lxr;
       Some (False, lxr) }
     else do {
       (los, m) \<leftarrow> rc_free release ob (lxr_los lxr, lxr_mem lxr);
       Some (True, lxr\<lparr>lxr_los := los, lxr_mem := m\<rparr>) } }"

partial_function (option) collect_whites_loop ::
  "vm_object_model \<Rightarrow> (object_reference \<Rightarrow> bool) \<Rightarrow> (bool \<Rightarrow> address \<Rightarrow> 'pr \<times> byte_mem \<Rightarrow> (usize \<times> 'pr \<times> byte_mem) option) \<Rightarrow>
   (object_reference \<Rightarrow> object_reference list) \<Rightarrow> dfs \<Rightarrow> 'pr lxr_state \<Rightarrow> 'pr lxr_state option" where
  "collect_whites_loop vm in_ix release refs dfs_stack lxr = do {
     (r, dfs_stack) \<leftarrow> cs_pop dfs_stack;
     case r of
       None \<Rightarrow> Some lxr
     | Some obj \<Rightarrow>
         (if has_color obj WHITE (lxr_mem lxr) then do {
            m \<leftarrow> sm_store U8 STRONG_RC_TABLE (to_raw_address obj) 0 (lxr_mem lxr);
            m \<leftarrow> set_color obj BLACK_OUT_OF_STACK m;
            dfs_stack \<leftarrow> foldM cs_push (refs obj) dfs_stack;
            (_, lxr) \<leftarrow> cc_process_dead_object vm in_ix release obj (lxr\<lparr>lxr_mem := m\<rparr>);
            collect_whites_loop vm in_ix release refs dfs_stack lxr }
          else collect_whites_loop vm in_ix release refs dfs_stack lxr) }"

definition collect_whites ::
  "vm_object_model \<Rightarrow> (object_reference \<Rightarrow> bool) \<Rightarrow> (bool \<Rightarrow> address \<Rightarrow> 'pr \<times> byte_mem \<Rightarrow> (usize \<times> 'pr \<times> byte_mem) option) \<Rightarrow>
   (object_reference \<Rightarrow> object_reference list) \<Rightarrow> object_reference \<Rightarrow> 'pr lxr_state \<Rightarrow> 'pr lxr_state option" where
  "collect_whites vm in_ix release refs ob lxr = do {
     dfs_stack \<leftarrow> cs_push ob cs_new;
     collect_whites_loop vm in_ix release refs dfs_stack lxr }"

section \<open>The work packet\<close>

definition swap_remove :: "nat \<Rightarrow> 'a list \<Rightarrow> 'a list" where
  "swap_remove i xs = (if i = length xs - 1 then butlast xs else butlast (xs[i := last xs]))"

lemma length_swap_remove [simp]: "length (swap_remove i xs) = length xs - 1"
  by (simp add: swap_remove_def)

function candidate_loop ::
  "(object_reference \<Rightarrow> object_reference list) \<Rightarrow> nat \<Rightarrow> object_reference list \<Rightarrow> byte_mem \<Rightarrow> (object_reference list \<times> byte_mem) option" where
  "candidate_loop refs i s_candidates m =
     (if i < length s_candidates
      then (if should_mark (s_candidates ! i) m
            then do { m \<leftarrow> cc_mark refs (s_candidates ! i) m; candidate_loop refs (i + 1) s_candidates m }
            else candidate_loop refs i (swap_remove i s_candidates) m)
      else Some (s_candidates, m))"
  by pat_completeness auto

termination
  by (relation "measure (\<lambda>(refs, i, cs, m). length cs - i)") auto

declare candidate_loop.simps [simp del]

text \<open>\<open>do_work\<close> returns the plan and the emptied list of candidates.\<close>

definition cc_do_work ::
  "vm_object_model \<Rightarrow> (object_reference \<Rightarrow> bool) \<Rightarrow> (bool \<Rightarrow> address \<Rightarrow> 'pr \<times> byte_mem \<Rightarrow> (usize \<times> 'pr \<times> byte_mem) option) \<Rightarrow>
   (object_reference \<Rightarrow> object_reference list) \<Rightarrow> object_reference list \<Rightarrow> 'pr lxr_state \<Rightarrow> ('pr lxr_state \<times> object_reference list) option" where
  "cc_do_work vm in_ix release refs s_candidates lxr = do {
     (s_candidates, m) \<leftarrow> candidate_loop refs 0 s_candidates (lxr_mem lxr);
     m \<leftarrow> foldM (cc_scan refs) s_candidates m;
     lxr \<leftarrow> foldM (collect_whites vm in_ix release refs) s_candidates (lxr\<lparr>lxr_mem := m\<rparr>);
     Some (lxr, []) }"

end
