(* ===== verification/CycleCollector_Graph.thy ===== *)
theory CycleCollector_Graph
  imports CycleCollector
begin

text \<open>
  The object graph as the cycle collector sees it: reachability through reference fields, the number of references from
  a set of objects, and the trial count of an object, which is its count without the references from such a set. The steps
  of the collector change the tables from one trial count and colouring to the next.
\<close>

section \<open>Reachability\<close>

definition edge :: "(object_reference \<Rightarrow> object_reference list) \<Rightarrow> (object_reference \<times> object_reference) set" where
  "edge refs = {(x, y). y \<in> set (refs x)}"

definition reach :: "(object_reference \<Rightarrow> object_reference list) \<Rightarrow> object_reference set \<Rightarrow> object_reference set" where
  "reach refs A = (edge refs)\<^sup>* `` A"

definition closed :: "(object_reference \<Rightarrow> object_reference list) \<Rightarrow> object_reference set \<Rightarrow> bool" where
  "closed refs A \<longleftrightarrow> (\<forall>x \<in> A. set (refs x) \<subseteq> A)"

lemma reach_base: "A \<subseteq> reach refs A"
  by (auto simp: reach_def)

lemma reach_closed: "closed refs (reach refs A)"
  by (auto simp: closed_def reach_def edge_def intro: rtrancl_into_rtrancl)

lemma reach_least: "closed refs B \<Longrightarrow> A \<subseteq> B \<Longrightarrow> reach refs A \<subseteq> B"
proof -
  assume c: "closed refs B" and "A \<subseteq> B"
  have "(x, y) \<in> (edge refs)\<^sup>* \<Longrightarrow> x \<in> B \<Longrightarrow> y \<in> B" for x y
    by (induction rule: rtrancl_induct) (use c in \<open>auto simp: edge_def closed_def\<close>)
  with \<open>A \<subseteq> B\<close> show ?thesis by (auto simp: reach_def)
qed

lemma reach_mono: "A \<subseteq> reach refs B \<Longrightarrow> reach refs A \<subseteq> reach refs B"
  by (rule reach_least [OF reach_closed])

lemma reach_step: "x \<in> reach refs A \<Longrightarrow> y \<in> set (refs x) \<Longrightarrow> y \<in> reach refs A"
  using reach_closed [of refs A] by (auto simp: closed_def)

lemma reach_closed_eq: "closed refs A \<Longrightarrow> reach refs A = A"
  using reach_least [of refs A A] reach_base [of A refs] by blast

lemma reach_Un: "reach refs (A \<union> B) = reach refs A \<union> reach refs B"
  by (auto simp: reach_def)

text \<open>A set that a path enters is entered by one of its edges.\<close>

lemma reach_avoid:
  assumes "x \<in> reach refs A" "x \<notin> B" "\<And>y z. y \<in> B \<Longrightarrow> z \<in> set (refs y) \<Longrightarrow> z \<in> B" "\<And>y z. y \<in> C \<Longrightarrow> y \<notin> B \<Longrightarrow> z \<in> set (refs y) \<Longrightarrow> z \<in> B \<union> C"
    and "A \<subseteq> B \<union> C"
  shows "x \<in> C"
proof -
  have "closed refs (B \<union> C)" using assms(3,4) by (auto simp: closed_def)
  from reach_least [OF this assms(5)] assms(1,2) show ?thesis by auto
qed

section \<open>Trial counts\<close>

definition edges :: "(object_reference \<Rightarrow> object_reference list) \<Rightarrow> object_reference set \<Rightarrow> object_reference \<Rightarrow> nat" where
  "edges refs S x = (\<Sum>y \<in> S. count_list (refs y) x)"

definition trial :: "(object_reference \<Rightarrow> object_reference list) \<Rightarrow> (object_reference \<Rightarrow> nat) \<Rightarrow> object_reference set \<Rightarrow> object_reference \<Rightarrow> nat" where
  "trial refs c S x = (if c x = 255 then 255 else c x - edges refs S x)"

lemma edges_insert: "x \<notin> S \<Longrightarrow> edges refs (insert x S) y = count_list (refs x) y + edges refs S y"
  by (simp add: edges_def)

lemma edges_remove: "x \<in> S \<Longrightarrow> edges refs S y = count_list (refs x) y + edges refs (S - {x}) y"
  by (simp add: edges_def sum.remove)

lemma edges_mono: "S \<subseteq> T \<Longrightarrow> edges refs S y \<le> edges refs T y"
  by (simp add: edges_def sum_mono2)

lemma edges_Un: "S \<inter> T = {} \<Longrightarrow> edges refs (S \<union> T) y = edges refs S y + edges refs T y"
  by (simp add: edges_def sum.union_disjoint)

lemma edges_zero: "edges refs S y = 0 \<longleftrightarrow> (\<forall>x \<in> S. y \<notin> set (refs x))"
  by (simp add: edges_def count_list_0_iff)

lemma trial_empty: "(\<And>x. c x \<le> 255) \<Longrightarrow> trial refs c {} = c"
  by (auto simp: trial_def edges_def fun_eq_iff)

text \<open>The counts after a decrement or an increment for each object of a list.\<close>

definition dec_all :: "object_reference list \<Rightarrow> (object_reference \<Rightarrow> nat) \<Rightarrow> object_reference \<Rightarrow> nat" where
  "dec_all ys = fold (\<lambda>y c. c(y := dec_count (c y))) ys"

definition inc_all :: "object_reference list \<Rightarrow> (object_reference \<Rightarrow> nat) \<Rightarrow> object_reference \<Rightarrow> nat" where
  "inc_all ys = fold (\<lambda>y c. c(y := inc_count (c y))) ys"

lemma all_simps [simp]:
  "dec_all [] c = c" "dec_all (y # ys) c = dec_all ys (c(y := dec_count (c y)))"
  "inc_all [] c = c" "inc_all (y # ys) c = inc_all ys (c(y := inc_count (c y)))"
  by (simp_all only: dec_all_def inc_all_def fold_simps)

lemma fold_dec:
  assumes "\<And>x. c x \<le> 255"
  shows "dec_all ys c x = (if c x = 255 then 255 else c x - count_list ys x)"
  using assms
proof (induction ys arbitrary: c)
  case (Cons y ys)
  let ?c = "c(y := dec_count (c y))"
  have "dec_all ys ?c x = (if ?c x = 255 then 255 else ?c x - count_list ys x)"
    by (rule Cons.IH) (use Cons.prems le_trans [OF diff_le_self Cons.prems] in \<open>simp add: dec_count_def\<close>)
  moreover have "(if ?c x = 255 then 255 else ?c x - count_list ys x) = (if c x = 255 then 255 else c x - count_list (y # ys) x)"
    using Cons.prems [of x] by (auto simp: dec_count_def)
  ultimately show ?case by (simp only: all_simps)
qed simp

lemma fold_inc:
  assumes "\<And>x. c x \<le> 255"
  shows "inc_all ys c x = min 255 (c x + count_list ys x)"
  using assms
proof (induction ys arbitrary: c)
  case (Cons y ys)
  let ?c = "c(y := inc_count (c y))"
  have "?c z \<le> 255" for z using Cons.prems [of z] by (auto simp: inc_count_def)
  then have "inc_all ys ?c x = min 255 (?c x + count_list ys x)" by (rule Cons.IH)
  moreover have "min 255 (?c x + count_list ys x) = min 255 (c x + count_list (y # ys) x)"
    using Cons.prems [of x] by (auto simp: inc_count_def)
  ultimately show ?case by (simp only: all_simps)
qed simp

lemma trial_le: "(\<And>x. c x \<le> 255) \<Longrightarrow> trial refs c S x \<le> 255"
  by (auto simp: trial_def intro: le_trans [OF diff_le_self])

lemma trial_insert:
  assumes "x \<notin> S" "\<And>x. c x \<le> 255"
  shows "dec_all (refs x) (trial refs c S) = trial refs c (insert x S)"
proof
  fix y
  have "trial refs c S y = 255 \<longleftrightarrow> c y = 255" using assms(2) [of y] by (auto simp: trial_def)
  then show "dec_all (refs x) (trial refs c S) y = trial refs c (insert x S) y"
    using fold_dec [of "trial refs c S", OF trial_le [OF assms(2)]] by (simp add: trial_def edges_insert [OF assms(1)] add.commute)
qed

text \<open>The counts are at least the numbers of references from objects.\<close>

definition consistent :: "(object_reference \<Rightarrow> object_reference list) \<Rightarrow> (object_reference \<Rightarrow> nat) \<Rightarrow> object_reference set \<Rightarrow> bool" where
  "consistent refs c A \<longleftrightarrow> (\<forall>x. c x \<le> 255 \<and> (c x \<noteq> 255 \<longrightarrow> edges refs A x \<le> c x))"

lemma trial_remove:
  assumes "consistent refs c A" "S \<subseteq> A" "x \<in> S"
  shows "inc_all (refs x) (trial refs c S) = trial refs c (S - {x})"
proof
  fix y
  have "c y \<le> 255" "c y \<noteq> 255 \<Longrightarrow> edges refs A y \<le> c y" using assms(1) by (auto simp: consistent_def)
  moreover have "edges refs S y \<le> edges refs A y" by (rule edges_mono [OF assms(2)])
  moreover have "trial refs c S z \<le> 255" for z by (rule trial_le) (use assms(1) in \<open>simp add: consistent_def\<close>)
  ultimately show "inc_all (refs x) (trial refs c S) y = trial refs c (S - {x}) y"
    by (subst fold_inc) (auto simp: trial_def edges_remove [OF assms(3)])
qed

lemma trial_anti: "consistent refs c A \<Longrightarrow> S \<subseteq> T \<Longrightarrow> trial refs c T x \<le> trial refs c S x"
  using edges_mono [of S T refs x] by (auto simp: trial_def)

section \<open>Tables\<close>

abbreviation colours :: "byte_mem \<Rightarrow> object_reference \<Rightarrow> nat" where
  "colours \<equiv> word_table OBJ_COLOR_TABLE"

text \<open>The grey objects, the white objects and those that are black and on the stack.\<close>

definition colouring :: "object_reference set \<Rightarrow> object_reference set \<Rightarrow> object_reference set \<Rightarrow> object_reference \<Rightarrow> nat" where
  "colouring Gr W S x = (if x \<in> Gr then 2 else if x \<in> W then 3 else if x \<in> S then 1 else 0)"

definition cc_tables :: "(object_reference \<Rightarrow> object_reference list) \<Rightarrow> (object_reference \<Rightarrow> nat) \<Rightarrow> byte_mem \<Rightarrow>
   object_reference set \<Rightarrow> object_reference set \<Rightarrow> object_reference set \<Rightarrow> bool" where
  "cc_tables refs c m Gr W S \<longleftrightarrow> counts m = trial refs c (Gr \<union> W) \<and> colours m = colouring Gr W S"

text \<open>The tables of other modules.\<close>

definition same_tables :: "side_metadata_spec set \<Rightarrow> byte_mem \<Rightarrow> byte_mem \<Rightarrow> bool" where
  "same_tables X m m' \<longleftrightarrow> (\<forall>t. u8_spec t \<longrightarrow> t \<notin> X \<longrightarrow> word_table t m' = word_table t m)"

lemma same_tables_refl: "same_tables X m m"
  by (simp add: same_tables_def)

lemma same_tables_trans: "same_tables X m1 m2 \<Longrightarrow> same_tables Y m2 m3 \<Longrightarrow> same_tables (X \<union> Y) m1 m3"
  by (simp add: same_tables_def)

lemma same_tables_mono: "same_tables X m m' \<Longrightarrow> X \<subseteq> Y \<Longrightarrow> same_tables Y m m'"
  by (auto simp: same_tables_def)

lemma color_load:
  assumes "obj_ok x"
  shows "has_color x BLACK_OUT_OF_STACK m \<longleftrightarrow> colours m x = 0" "has_color x GREY m \<longleftrightarrow> colours m x = 2"
    "has_color x WHITE m \<longleftrightarrow> colours m x = 3" "in_stack x m \<longleftrightarrow> colours m x = 1" "is_black x m \<longleftrightarrow> colours m x \<le> 1"
    "rc_count x m > 0 \<longleftrightarrow> counts m x > 0" "unat (rc_count x m) = counts m x"
  using table_load [OF assms, of OBJ_COLOR_TABLE m] table_load [OF assms, of RC_TABLE m]
  by (simp_all add: has_color_def in_stack_def is_black_def rc_count_def to_raw_address_def BLACK_OUT_OF_STACK_def BLACK_IN_STACK_def
      GREY_def WHITE_def word_unat_eq_iff word_less_nat_alt word_le_nat_alt)

lemma set_color_table:
  assumes "obj_ok x" "c \<in> {BLACK_OUT_OF_STACK, BLACK_IN_STACK, GREY, WHITE}"
  obtains m' where "set_color x c m = Some m'" "colours m' = (colours m)(x := unat c)" "same_tables {OBJ_COLOR_TABLE} m m'"
proof -
  have "unat c < 2 ^ 2 ^ log_num_of_bits OBJ_COLOR_TABLE"
    using assms(2) by (auto simp: named_spec_bits BLACK_OUT_OF_STACK_def BLACK_IN_STACK_def GREY_def WHITE_def)
  from table_store [OF named_u8_specs(2) named_spec_bits(4) assms(1) this, of m]
  obtain m' where "sm_store U8 OBJ_COLOR_TABLE x c m = Some m'" "colours m' = (colours m)(x := unat c)"
    "\<And>t. u8_spec t \<Longrightarrow> t \<noteq> OBJ_COLOR_TABLE \<Longrightarrow> word_table t m' = word_table t m" by blast
  then show thesis using that [of m'] by (simp add: set_color_def to_raw_address_def same_tables_def)
qed

lemma table_names [simp]: "RC_TABLE \<noteq> OBJ_COLOR_TABLE" "RC_TABLE \<noteq> STRONG_RC_TABLE" "OBJ_COLOR_TABLE \<noteq> STRONG_RC_TABLE"
  "OBJ_COLOR_TABLE \<noteq> RC_TABLE" "STRONG_RC_TABLE \<noteq> RC_TABLE" "STRONG_RC_TABLE \<noteq> OBJ_COLOR_TABLE"
  "IX_BLOCK_LOG \<noteq> RC_TABLE" "IX_BLOCK_LOG \<noteq> OBJ_COLOR_TABLE" "IX_BLOCK_LOG \<noteq> STRONG_RC_TABLE" "IX_BLOCK_LOG \<noteq> RC_STRADDLE_LINES"
  "RC_STRADDLE_LINES \<noteq> RC_TABLE" "RC_STRADDLE_LINES \<noteq> OBJ_COLOR_TABLE" "RC_STRADDLE_LINES \<noteq> STRONG_RC_TABLE"
  "RC_TABLE \<noteq> IX_BLOCK_LOG" "OBJ_COLOR_TABLE \<noteq> IX_BLOCK_LOG" "STRONG_RC_TABLE \<noteq> IX_BLOCK_LOG"
  "RC_TABLE \<noteq> RC_STRADDLE_LINES" "OBJ_COLOR_TABLE \<noteq> RC_STRADDLE_LINES" "STRONG_RC_TABLE \<noteq> RC_STRADDLE_LINES"
  using named_specs_distinct by auto

end
