(* ===== verification/CycleCollector_Phases.thy ===== *)
theory CycleCollector_Phases
  imports CycleCollector_Graph
begin

text \<open>
  The phases of the cycle collector, each with its invariant: marking, scanning with the restoration of counts, and
  freeing. Every loop returns: the number of objects that can still change colour decreases, or the stack does.
\<close>

section \<open>Visiting the fields of an object\<close>

lemma push_all:
  assumes "cs_ok st"
  obtains st' where "foldM cs_push ys st = Some st'" "cs_ok st'" "cs_items st' = rev ys @ cs_items st"
  using assms
proof (induction ys arbitrary: st thesis)
  case (Cons y ys)
  obtain st1 where st1: "cs_push y st = Some st1" "cs_ok st1" "cs_items st1 = y # cs_items st" by (rule chunked.push_some [OF Cons.prems(2)])
  obtain st2 where "foldM cs_push ys st1 = Some st2" "cs_ok st2" "cs_items st2 = rev ys @ cs_items st1" by (rule Cons.IH [OF _ st1(2)])
  with st1 show ?case by (intro Cons.prems(1) [of st2]) simp_all
qed simp

lemma mark_visits:
  assumes "\<And>y. y \<in> set ys \<Longrightarrow> obj_ok y" "cs_ok st"
  obtains st' m' where "foldM mark_visitor ys (st, m) = Some (st', m')" "cs_ok st'" "cs_items st' = rev ys @ cs_items st"
    "counts m' = dec_all ys (counts m)" "same_tables {RC_TABLE} m m'"
  using assms
proof (induction ys arbitrary: st m thesis)
  case Nil
  then show ?case by (simp add: same_tables_refl)
next
  case (Cons y ys)
  obtain r m1 where m1: "rc_dec y m = Some (r, m1)" "counts m1 = (counts m)(y := dec_count (counts m y))"
    "\<And>t. u8_spec t \<Longrightarrow> t \<noteq> RC_TABLE \<Longrightarrow> word_table t m1 = word_table t m"
    by (rule rc_dec_table [of y m]) (use Cons.prems(2) in auto)
  obtain st1 where st1: "cs_push y st = Some st1" "cs_ok st1" "cs_items st1 = y # cs_items st" by (rule chunked.push_some [OF Cons.prems(3)])
  obtain st2 m2 where two: "foldM mark_visitor ys (st1, m1) = Some (st2, m2)" "cs_ok st2" "cs_items st2 = rev ys @ cs_items st1"
    "counts m2 = dec_all ys (counts m1)" "same_tables {RC_TABLE} m1 m2"
    by (rule Cons.IH [of st1 m1]) (use Cons.prems(2) st1(2) in auto)
  have "same_tables {RC_TABLE} m m2" using two(5) m1(3) by (simp add: same_tables_def)
  moreover have "mark_visitor y (st, m) = Some (st1, m1)" using m1(1) st1(1) by (simp add: mark_visitor_def)
  ultimately show ?case using two m1(2) st1(3) by (intro Cons.prems(1) [of st2 m2]) simp_all
qed

lemma scan_black_visits:
  assumes "\<And>y. y \<in> set ys \<Longrightarrow> obj_ok y" "cs_ok st"
  obtains st' m' where "foldM scan_black_visitor ys (st, m) = Some (st', m')" "cs_ok st'"
    "cs_items st' = rev (filter (\<lambda>x. colours m x \<noteq> 1) ys) @ cs_items st"
    "counts m' = inc_all ys (counts m)" "same_tables {RC_TABLE, STRONG_RC_TABLE} m m'"
    "\<And>x. strong_counts m x \<le> strong_counts m' x"
  using assms
proof (induction ys arbitrary: st m thesis)
  case Nil
  then show ?case by (simp add: same_tables_refl)
next
  case (Cons y ys)
  have y: "obj_ok y" using Cons.prems(2) by simp
  obtain r m1 where m1: "rc_inc y m = Some (r, m1)" "counts m1 = (counts m)(y := inc_count (counts m y))"
    "\<And>t. u8_spec t \<Longrightarrow> t \<noteq> RC_TABLE \<Longrightarrow> word_table t m1 = word_table t m"
    by (rule rc_inc_table [OF y, of m]) blast
  then have c1: "colours m1 = colours m" "strong_counts m1 = strong_counts m" by simp_all
  obtain st2 m2 where one: "scan_black_visitor y (st, m) = Some (st2, m2)" "cs_ok st2"
    "cs_items st2 = (if colours m y \<noteq> 1 then [y] else []) @ cs_items st" "counts m2 = counts m1"
    "same_tables {RC_TABLE, STRONG_RC_TABLE} m m2" "\<And>x. strong_counts m x \<le> strong_counts m2 x"
  proof (cases "colours m y = 1")
    case True
    then have "scan_black_visitor y (st, m) = Some (st, m1)" using m1(1) c1 y by (simp add: scan_black_visitor_def color_load)
    then show thesis using that [of st m1] True Cons.prems(3) m1 c1 by (simp add: same_tables_def)
  next
    case False
    obtain r' m' where m': "strong_rc_inc y m1 = Some (r', m')" "strong_counts m' = (strong_counts m1)(y := inc_strong (strong_counts m1 y))"
      "\<And>t. u8_spec t \<Longrightarrow> t \<noteq> STRONG_RC_TABLE \<Longrightarrow> word_table t m' = word_table t m1"
      by (rule strong_rc_inc_table [OF y, of m1]) blast
    obtain st1 where st1: "cs_push y st = Some st1" "cs_ok st1" "cs_items st1 = y # cs_items st" by (rule chunked.push_some [OF Cons.prems(3)])
    have "scan_black_visitor y (st, m) = Some (st1, m')" using False m1(1) m'(1) st1(1) c1 y by (simp add: scan_black_visitor_def color_load)
    then show thesis using that [of st1 m'] False st1 m1 m' c1 by (auto simp: same_tables_def inc_strong_def)
  qed
  then have c2: "colours m2 = colours m" by (simp add: same_tables_def)
  obtain st3 m3 where two: "foldM scan_black_visitor ys (st2, m2) = Some (st3, m3)" "cs_ok st3"
    "cs_items st3 = rev (filter (\<lambda>x. colours m2 x \<noteq> 1) ys) @ cs_items st2"
    "counts m3 = inc_all ys (counts m2)" "same_tables {RC_TABLE, STRONG_RC_TABLE} m2 m3"
    "\<And>x. strong_counts m2 x \<le> strong_counts m3 x"
    by (rule Cons.IH [of st2 m2]) (use Cons.prems(2) one(2) in auto)
  show ?case
  proof (rule Cons.prems(1) [of st3 m3])
    show "same_tables {RC_TABLE, STRONG_RC_TABLE} m m3" using same_tables_trans [OF one(5) two(5)] by simp
    show "strong_counts m x \<le> strong_counts m3 x" for x using one(6) two(6) le_trans by blast
  qed (use one two m1(2) c2 in simp_all)
qed

section \<open>Marking\<close>

definition refs_ok :: "(object_reference \<Rightarrow> object_reference list) \<Rightarrow> bool" where
  "refs_ok refs \<longleftrightarrow> (\<forall>x y. y \<in> set (refs x) \<longrightarrow> obj_ok y)"

lemma mark_loop_ok:
  assumes "refs_ok refs" "\<And>x. c x \<le> 255"
    and "cs_ok st" "\<And>x. x \<in> set (cs_items st) \<Longrightarrow> obj_ok x" "cc_tables refs c m G {} {}"
    and "\<And>x. x \<in> G \<Longrightarrow> set (refs x) \<subseteq> G \<union> set (cs_items st)"
  shows "\<exists>m' G'. mark_loop refs st m = Some m' \<and> cc_tables refs c m' G' {} {} \<and> same_tables {RC_TABLE, OBJ_COLOR_TABLE} m m' \<and>
    G \<subseteq> G' \<and> set (cs_items st) \<subseteq> G' \<and> closed refs G' \<and> G' \<subseteq> G \<union> reach refs (set (cs_items st))"
  using assms(3-)
proof (induction "(card (- G), length (cs_items st))" arbitrary: G st m rule: wf_induct_rule [OF wf_lex_prod [OF wf_less_than wf_less_than]])
  case 1
  note st = 1(2) and ok = 1(3) and tab = 1(4) and cl = 1(5)
  show ?case
  proof (cases "cs_items st")
    case Nil
    then obtain st' where "cs_pop st = Some (None, st')" using chunked.pop_empty [OF st] by blast
    then have "mark_loop refs st m = Some m" by (subst mark_loop.simps) simp
    moreover have "closed refs G" using cl Nil by (auto simp: closed_def)
    ultimately show ?thesis using tab Nil same_tables_refl by (intro exI [of _ m] exI [of _ G]) simp
  next
    case (Cons x xs)
    obtain st' where pop: "cs_pop st = Some (Some x, st')" "cs_ok st'" "cs_items st' = xs" by (rule chunked.pop_item [OF st Cons])
    have x: "obj_ok x" using ok Cons by simp
    have col: "has_color x BLACK_OUT_OF_STACK m \<longleftrightarrow> x \<notin> G" using tab x by (simp add: color_load cc_tables_def colouring_def)
    show ?thesis
    proof (cases "x \<in> G")
      case True
      have run: "mark_loop refs st m = mark_loop refs st' m" using pop(1) col True by (subst mark_loop.simps) simp
      have "\<exists>m' G'. mark_loop refs st' m = Some m' \<and> cc_tables refs c m' G' {} {} \<and> same_tables {RC_TABLE, OBJ_COLOR_TABLE} m m' \<and>
        G \<subseteq> G' \<and> set (cs_items st') \<subseteq> G' \<and> closed refs G' \<and> G' \<subseteq> G \<union> reach refs (set (cs_items st'))"
        by (rule 1(1)) (use pop tab ok cl Cons True in auto)
      then obtain m' G' where fin: "mark_loop refs st' m = Some m'" "cc_tables refs c m' G' {} {}" "same_tables {RC_TABLE, OBJ_COLOR_TABLE} m m'"
        "G \<subseteq> G'" "set (cs_items st') \<subseteq> G'" "closed refs G'" "G' \<subseteq> G \<union> reach refs (set (cs_items st'))" by blast
      have "reach refs (set xs) \<subseteq> reach refs (set (x # xs))" using reach_base by (intro reach_mono) fastforce
      then have "G' \<subseteq> G \<union> reach refs (set (cs_items st))" using fin(7) pop(3) Cons by auto
      moreover have "set (cs_items st) \<subseteq> G'" using fin(4,5) pop(3) Cons True by auto
      ultimately show ?thesis using run fin(1-4,6) by (intro exI [of _ m'] exI [of _ G']) simp
    next
      case False
      obtain m1 where m1: "set_color x GREY m = Some m1" "colours m1 = (colours m)(x := unat GREY)" "same_tables {OBJ_COLOR_TABLE} m m1"
        by (rule set_color_table [OF x, of GREY m]) simp
      obtain st2 m2 where m2: "foldM mark_visitor (refs x) (st', m1) = Some (st2, m2)" "cs_ok st2" "cs_items st2 = rev (refs x) @ cs_items st'"
        "counts m2 = dec_all (refs x) (counts m1)" "same_tables {RC_TABLE} m1 m2"
        by (rule mark_visits [of "refs x" st' m1]) (use assms(1) pop(2) in \<open>auto simp: refs_ok_def\<close>)
      have same: "same_tables {RC_TABLE, OBJ_COLOR_TABLE} m m2" using same_tables_trans [OF m1(3) m2(5)] by (rule same_tables_mono) auto
      have "counts m1 = trial refs c G" "colours m2 = (colours m)(x := 2)"
        using m1 m2(5) tab by (simp_all add: same_tables_def cc_tables_def GREY_def)
      moreover have "colouring (insert x G) {} {} = (colouring G {} {})(x := 2)" by (auto simp: colouring_def fun_eq_iff)
      ultimately have tab2: "cc_tables refs c m2 (insert x G) {} {}"
        using m2(4) tab trial_insert [OF False, of c refs] assms(2) by (simp add: cc_tables_def)
      have run: "mark_loop refs st m = mark_loop refs st2 m2" using pop(1) col False m1(1) m2(1) by (subst mark_loop.simps) simp
      have "card (- insert x G) < card (- G)" by (rule psubset_card_mono) (use False in auto)
      then have "\<exists>m' G'. mark_loop refs st2 m2 = Some m' \<and> cc_tables refs c m' G' {} {} \<and> same_tables {RC_TABLE, OBJ_COLOR_TABLE} m2 m' \<and>
        insert x G \<subseteq> G' \<and> set (cs_items st2) \<subseteq> G' \<and> closed refs G' \<and> G' \<subseteq> insert x G \<union> reach refs (set (cs_items st2))"
        by (intro 1(1)) (use m2 tab2 ok cl Cons pop(3) assms(1) in \<open>auto simp: refs_ok_def\<close>)
      then obtain m' G' where fin: "mark_loop refs st2 m2 = Some m'" "cc_tables refs c m' G' {} {}" "same_tables {RC_TABLE, OBJ_COLOR_TABLE} m2 m'"
        "insert x G \<subseteq> G'" "set (cs_items st2) \<subseteq> G'" "closed refs G'" "G' \<subseteq> insert x G \<union> reach refs (set (cs_items st2))" by blast
      have "set (cs_items st2) \<subseteq> reach refs (set (x # xs))"
        using m2(3) pop(3) reach_step [of x refs "set (x # xs)"] reach_base [of "set (x # xs)" refs] by auto
      then have "reach refs (set (cs_items st2)) \<subseteq> reach refs (set (x # xs))" by (rule reach_mono)
      moreover have "x \<in> reach refs (set (x # xs))" using reach_base [of "set (x # xs)" refs] by auto
      ultimately have "G' \<subseteq> G \<union> reach refs (set (cs_items st))" using fin(7) Cons by auto
      moreover have "set (cs_items st) \<subseteq> G'" using fin(4,5) m2(3) pop(3) Cons by auto
      moreover have "same_tables {RC_TABLE, OBJ_COLOR_TABLE} m m'" using same_tables_trans [OF same fin(3)] by simp
      ultimately show ?thesis using run fin by (intro exI [of _ m'] exI [of _ G']) auto
    qed
  qed
qed

lemma cc_mark_ok:
  assumes "refs_ok refs" "\<And>x. c x \<le> 255" "obj_ok ob" "cc_tables refs c m G {} {}" "closed refs G"
  shows "\<exists>m'. cc_mark refs ob m = Some m' \<and> cc_tables refs c m' (G \<union> reach refs {ob}) {} {} \<and> same_tables {RC_TABLE, OBJ_COLOR_TABLE} m m'"
proof -
  obtain st where st: "cs_push ob cs_new = Some st" "cs_ok st" "cs_items st = [ob]" using chunked.one_item [of ob] by blast
  obtain m' G' where "mark_loop refs st m = Some m'" "cc_tables refs c m' G' {} {}" "same_tables {RC_TABLE, OBJ_COLOR_TABLE} m m'"
    "G \<subseteq> G'" "ob \<in> G'" "closed refs G'" "G' \<subseteq> G \<union> reach refs {ob}"
    using mark_loop_ok [OF assms(1,2) st(2) _ assms(4)] st(3) assms(3,5) unfolding closed_def by fastforce
  moreover from this have "G' = G \<union> reach refs {ob}" using reach_least [of refs G' "{ob}"] by blast
  ultimately show ?thesis using st(1) by (auto simp: cc_mark_def)
qed

lemma swap_remove_parts:
  assumes "i < length xs"
  shows "take i (swap_remove i xs) = take i xs" "set (drop i (swap_remove i xs)) = set (drop (Suc i) xs)"
proof -
  obtain ys z where xs: "xs = ys @ [z]" using assms by (cases xs rule: rev_cases) auto
  show "take i (swap_remove i xs) = take i xs" using assms by (auto simp: xs swap_remove_def butlast_append list_update_append)
  show "set (drop i (swap_remove i xs)) = set (drop (Suc i) xs)"
  proof (cases "i = length ys")
    case False
    then have "i < length ys" using assms by (simp add: xs)
    then have "drop i (ys[i := z]) = z # drop (Suc i) ys" by (simp add: drop_update_swap upd_conv_take_nth_drop)
    with False \<open>i < length ys\<close> show ?thesis by (simp add: xs swap_remove_def list_update_append)
  qed (simp add: xs swap_remove_def)
qed

lemma candidate_loop_ok:
  assumes "refs_ok refs" "\<And>x. c x \<le> 255"
    and "\<And>x. x \<in> set cs \<Longrightarrow> obj_ok x" "cc_tables refs c m (reach refs (set (take i cs))) {} {}" "i \<le> length cs"
    and "\<And>x. x \<in> set (take i cs) \<Longrightarrow> 0 < c x"
  shows "\<exists>cs' m'. candidate_loop refs i cs m = Some (cs', m') \<and> cc_tables refs c m' (reach refs (set cs')) {} {} \<and>
    same_tables {RC_TABLE, OBJ_COLOR_TABLE} m m' \<and> set cs' \<subseteq> {x \<in> set cs. 0 < c x} \<and> {x \<in> set cs. 0 < c x} \<subseteq> reach refs (set cs')"
  using assms(3-)
proof (induction "length cs - i" arbitrary: i cs m rule: less_induct)
  case less
  note ok = less.prems(1) and tab = less.prems(2) and len = less.prems(3) and pos = less.prems(4)
  let ?G = "reach refs (set (take i cs))"
  show ?case
  proof (cases "i < length cs")
    case False
    then have "take i cs = cs" by simp
    then show ?thesis using False tab pos same_tables_refl reach_base [of "set cs" refs]
      by (intro exI [of _ cs] exI [of _ m]) (auto simp: candidate_loop.simps [of refs i])
  next
    case True
    let ?x = "cs ! i"
    have x: "obj_ok ?x" using ok True by simp
    have "trial refs c ?G ?x = c ?x" if "?x \<notin> ?G"
    proof -
      have "edges refs ?G ?x = 0" using that reach_closed [of refs "set (take i cs)"] by (auto simp: edges_zero closed_def)
      then show ?thesis by (simp add: trial_def)
    qed
    then have should: "should_mark ?x m \<longleftrightarrow> 0 < c ?x \<and> ?x \<notin> ?G"
      using tab x by (auto simp: should_mark_def color_load cc_tables_def colouring_def)
    show ?thesis
    proof (cases "should_mark ?x m")
      case True
      obtain m1 where m1: "cc_mark refs ?x m = Some m1" "cc_tables refs c m1 (?G \<union> reach refs {?x}) {} {}" "same_tables {RC_TABLE, OBJ_COLOR_TABLE} m m1"
        using cc_mark_ok [OF assms(1,2) x tab reach_closed] by blast
      have "\<exists>cs' m'. candidate_loop refs (i + 1) cs m1 = Some (cs', m') \<and> cc_tables refs c m' (reach refs (set cs')) {} {} \<and>
        same_tables {RC_TABLE, OBJ_COLOR_TABLE} m1 m' \<and> set cs' \<subseteq> {x \<in> set cs. 0 < c x} \<and> {x \<in> set cs. 0 < c x} \<subseteq> reach refs (set cs')"
        by (rule less.hyps) (use \<open>i < length cs\<close> ok m1(2) pos should True in \<open>auto simp: take_Suc_conv_app_nth reach_Un [symmetric]\<close>)
      then obtain cs' m' where fin: "candidate_loop refs (i + 1) cs m1 = Some (cs', m')" "cc_tables refs c m' (reach refs (set cs')) {} {}"
        "same_tables {RC_TABLE, OBJ_COLOR_TABLE} m1 m'" "set cs' \<subseteq> {x \<in> set cs. 0 < c x}" "{x \<in> set cs. 0 < c x} \<subseteq> reach refs (set cs')" by blast
      have "candidate_loop refs i cs m = Some (cs', m')" using \<open>i < length cs\<close> True m1(1) fin(1) by (subst candidate_loop.simps) simp
      moreover have "same_tables {RC_TABLE, OBJ_COLOR_TABLE} m m'" using same_tables_trans [OF m1(3) fin(3)] by simp
      ultimately show ?thesis using fin by blast
    next
      case False
      let ?cs = "swap_remove i cs"
      note sr = swap_remove_parts [OF \<open>i < length cs\<close>]
      have sub: "set ?cs = set (take i cs) \<union> set (drop (Suc i) cs)" using sr by (metis append_take_drop_id set_append)
      have all: "set cs = set (take i cs) \<union> {?x} \<union> set (drop (Suc i) cs)" 
        using arg_cong [of _ _ set, OF id_take_nth_drop [OF \<open>i < length cs\<close>]] by simp
      have "\<exists>cs' m'. candidate_loop refs i ?cs m = Some (cs', m') \<and> cc_tables refs c m' (reach refs (set cs')) {} {} \<and>
        same_tables {RC_TABLE, OBJ_COLOR_TABLE} m m' \<and> set cs' \<subseteq> {x \<in> set ?cs. 0 < c x} \<and> {x \<in> set ?cs. 0 < c x} \<subseteq> reach refs (set cs')"
        by (rule less.hyps) (use \<open>i < length cs\<close> ok tab pos sr all sub in auto)
      then obtain cs' m' where fin: "candidate_loop refs i ?cs m = Some (cs', m')" "cc_tables refs c m' (reach refs (set cs')) {} {}"
        "same_tables {RC_TABLE, OBJ_COLOR_TABLE} m m'" "set cs' \<subseteq> {x \<in> set ?cs. 0 < c x}" "{x \<in> set ?cs. 0 < c x} \<subseteq> reach refs (set cs')" by blast
      have run: "candidate_loop refs i cs m = Some (cs', m')" using \<open>i < length cs\<close> False fin(1) by (subst candidate_loop.simps) simp
      have "set (take i cs) \<subseteq> reach refs (set cs')" using fin(5) pos sub by blast
      then have "?G \<subseteq> reach refs (set cs')" by (rule reach_mono)
      then have "{x \<in> set cs. 0 < c x} \<subseteq> reach refs (set cs')" using fin(5) False should unfolding all sub by blast
      moreover have "set cs' \<subseteq> {x \<in> set cs. 0 < c x}" using fin(4) sub all by auto
      ultimately show ?thesis using run fin(2,3) by blast
    qed
  qed
qed

section \<open>Restoring counts\<close>

text \<open>Setting the strong count of an object to its count, at most fifteen.\<close>

lemma strong_store:
  assumes "obj_ok x"
  obtains m' where "(if rc_count x m > MAX_STRONG_REF_COUNT then sm_store U8 STRONG_RC_TABLE x MAX_STRONG_REF_COUNT m
      else sm_store U8 STRONG_RC_TABLE x (rc_count x m) m) = Some m'"
    "strong_counts m' = (strong_counts m)(x := min 15 (counts m x))" "same_tables {STRONG_RC_TABLE} m m'"
proof -
  let ?v = "if rc_count x m > MAX_STRONG_REF_COUNT then MAX_STRONG_REF_COUNT else rc_count x m"
  have v: "unat ?v = min 15 (counts m x)" using color_load(7) [OF assms, of m] by (auto simp: rc_limits word_less_nat_alt)
  then have "unat ?v < 2 ^ 2 ^ log_num_of_bits STRONG_RC_TABLE" by (simp add: named_spec_bits)
  from table_store [OF named_u8_specs(3) named_spec_bits(6) assms this, of m]
  obtain m' where "sm_store U8 STRONG_RC_TABLE x ?v m = Some m'" "strong_counts m' = (strong_counts m)(x := unat ?v)"
    "\<And>t. u8_spec t \<Longrightarrow> t \<noteq> STRONG_RC_TABLE \<Longrightarrow> word_table t m' = word_table t m" by blast
  then show thesis using that [of m'] unfolding v by (auto simp: same_tables_def split: if_splits)
qed

text \<open>What holds while the counts of what is reachable from an object with a count are restored.\<close>

definition restoring :: "(object_reference \<Rightarrow> object_reference list) \<Rightarrow> (object_reference \<Rightarrow> nat) \<Rightarrow> object_reference set \<Rightarrow> byte_mem \<Rightarrow>
   object_reference set \<Rightarrow> object_reference set \<Rightarrow> object_reference set \<Rightarrow> object_reference set \<Rightarrow> bool" where
  "restoring refs c G m Gr W S Q \<longleftrightarrow>
     cc_tables refs c m Gr W S \<and> Gr \<union> W \<subseteq> G \<and> S \<inter> (Gr \<union> W) = {} \<and> Q \<subseteq> G \<and> S \<subseteq> Q \<and>
     (\<forall>x \<in> G - (Gr \<union> W). set (refs x) \<inter> (Gr \<union> W) \<subseteq> Q) \<and> (\<forall>w \<in> W. 0 < counts m w \<longrightarrow> w \<in> Q) \<and>
     (\<forall>x \<in> Q. 0 < counts m x) \<and> (\<forall>x \<in> G - (Gr \<union> W). 0 < strong_counts m x)"

lemma restoring_pop:
  assumes "restoring refs c G m Gr W S (insert x Q)" "x \<notin> Gr \<union> W"
    and "colours m' = (colours m)(x := 0)" "same_tables {OBJ_COLOR_TABLE} m m'"
  shows "restoring refs c G m' Gr W (S - {x}) Q"
proof -
  let ?N = "Gr \<union> W"
  have eq: "counts m' = counts m" "strong_counts m' = strong_counts m" using assms(4) by (simp_all add: same_tables_def)
  have r: "cc_tables refs c m Gr W S" "?N \<subseteq> G" "S \<inter> ?N = {}" "insert x Q \<subseteq> G" "S \<subseteq> insert x Q"
    and b: "\<And>y. y \<in> G - ?N \<Longrightarrow> set (refs y) \<inter> ?N \<subseteq> insert x Q" and z: "\<And>w. w \<in> W \<Longrightarrow> 0 < counts m w \<Longrightarrow> w \<in> insert x Q"
    and p: "\<And>y. y \<in> insert x Q \<Longrightarrow> 0 < counts m y" and g: "\<And>y. y \<in> G - ?N \<Longrightarrow> 0 < strong_counts m y"
    using assms(1) unfolding restoring_def by blast+
  have "colouring Gr W (S - {x}) = (colouring Gr W S)(x := 0)" using assms(2) by (auto simp: colouring_def fun_eq_iff)
  then have "cc_tables refs c m' Gr W (S - {x})" using r(1) eq assms(3) by (simp add: cc_tables_def)
  moreover have "w \<in> Q" if "w \<in> W" "0 < counts m w" for w using z [OF that] that(1) assms(2) by auto
  moreover have "set (refs y) \<inter> ?N \<subseteq> Q" if "y \<in> G - ?N" for y using b [OF that] assms(2) by auto
  ultimately show ?thesis unfolding restoring_def eq using r(2-5) p g by blast
qed

lemma restoring_step:
  assumes "consistent refs c G" "closed refs G" "restoring refs c G m Gr W S Q" "x \<in> Gr \<union> W" "x \<in> Q"
    and "counts m' = inc_all (refs x) (counts m)" "colours m' = (colours m)(x := 1)"
    and "\<And>y. ((strong_counts m)(x := min 15 (counts m x))) y \<le> strong_counts m' y"
    and "\<And>y. y \<in> Q' \<longleftrightarrow> y \<in> Q \<or> y \<in> set (refs x) \<and> colours m' y \<noteq> 1"
  shows "restoring refs c G m' (Gr - {x}) (W - {x}) (insert x S) Q'"
proof -
  let ?N = "Gr \<union> W"
  have r: "counts m = trial refs c ?N" "colours m = colouring Gr W S" "?N \<subseteq> G" "S \<inter> ?N = {}" "Q \<subseteq> G" "S \<subseteq> Q"
    and b: "\<And>y. y \<in> G - ?N \<Longrightarrow> set (refs y) \<inter> ?N \<subseteq> Q" and z: "\<And>w. w \<in> W \<Longrightarrow> 0 < counts m w \<Longrightarrow> w \<in> Q"
    and p: "\<And>y. y \<in> Q \<Longrightarrow> 0 < counts m y" and g: "\<And>y. y \<in> G - ?N \<Longrightarrow> 0 < strong_counts m y"
    using assms(3) by (auto simp: restoring_def cc_tables_def)
  have N: "?N - {x} = (Gr - {x}) \<union> (W - {x})" by auto
  have cm': "counts m' = trial refs c (?N - {x})" using assms(6) trial_remove [OF assms(1) r(3) assms(4)] r(1) by simp
  have col: "colours m' = colouring (Gr - {x}) (W - {x}) (insert x S)"
    using assms(4,7) r(2,4) by (auto simp: colouring_def fun_eq_iff)
  have le: "counts m y \<le> counts m' y" for y unfolding cm' r(1) by (rule trial_anti [OF assms(1)]) auto
  have inc: "counts m' y = min 255 (counts m y + count_list (refs x) y)" for y
    unfolding assms(6) by (rule fold_inc) (simp add: r(1) trial_le assms(1) [unfolded consistent_def])
  have eq: "counts m' y = counts m y" if "y \<notin> set (refs x)" for y
    using inc [of y] that count_bounds(1) [of m y] by (simp add: count_list_0_iff [THEN iffD2])
  have new: "0 < counts m' y" if "y \<in> set (refs x)" for y
    using inc [of y] that count_list_0_iff [of "refs x" y] by simp
  have pushed: "y \<in> Q'" if "y \<in> set (refs x)" "y \<in> ?N - {x}" for y
    using assms(9) that col by (auto simp: colouring_def)
  have QQ: "Q \<subseteq> Q'" using assms(9) by auto
  show ?thesis unfolding restoring_def N [symmetric]
  proof (intro conjI ballI impI)
    show "cc_tables refs c m' (Gr - {x}) (W - {x}) (insert x S)" using cm' col by (simp add: cc_tables_def N)
    have "set (refs x) \<subseteq> G" using assms(2,4) r(3) by (auto simp: closed_def)
    then show "Q' \<subseteq> G" using assms(9) r(5) by blast
    show "insert x S \<subseteq> Q'" using QQ r(6) assms(5) by auto
    show "w \<in> Q'" if "w \<in> W - {x}" "0 < counts m' w" for w
      using that z [of w] eq [of w] pushed [of w] QQ by (cases "w \<in> set (refs x)") auto
    show "0 < counts m' y" if "y \<in> Q'" for y using that assms(9) [of y] p [of y] le [of y] new [of y] by auto
    show "set (refs y) \<inter> (?N - {x}) \<subseteq> Q'" if "y \<in> G - (?N - {x})" for y
      using that b [of y] pushed QQ by (cases "y = x") auto
    show "0 < strong_counts m' y" if "y \<in> G - (?N - {x})" for y
    proof (cases "y = x")
      case True
      then show ?thesis using assms(8) [of x] p [OF assms(5)] by simp
    next
      case False
      then show ?thesis using assms(8) [of y] g [of y] that by simp
    qed
  qed (use r(3,4) in auto)
qed

lemma scan_black_loop_ok:
  assumes "refs_ok refs" "consistent refs c G" "closed refs G" "\<And>x. x \<in> G \<Longrightarrow> obj_ok x"
    and "cs_ok st" "restoring refs c G m Gr W S (set (cs_items st))"
  shows "\<exists>m' Gr' W'. scan_black_loop refs st m = Some m' \<and> restoring refs c G m' Gr' W' {} {} \<and>
    same_tables {RC_TABLE, OBJ_COLOR_TABLE, STRONG_RC_TABLE} m m' \<and> Gr' \<subseteq> Gr \<and> W' \<subseteq> W \<and>
    set (cs_items st) \<inter> (Gr' \<union> W') = {} \<and> (Gr \<union> W) - (Gr' \<union> W') \<subseteq> reach refs (set (cs_items st))"
  using assms(5,6)
proof (induction "(card (Gr \<union> W), length (cs_items st))" arbitrary: Gr W S st m rule: wf_induct_rule [OF wf_lex_prod [OF wf_less_than wf_less_than]])
  case 1
  note st = 1(2) and inv = 1(3)
  have tab: "cc_tables refs c m Gr W S" "set (cs_items st) \<subseteq> G" "S \<subseteq> set (cs_items st)" using inv by (auto simp: restoring_def)
  show ?case
  proof (cases "cs_items st")
    case Nil
    then obtain st' where "cs_last st = Some (None, st')" using chunked.top_empty [OF st] by blast
    then have "scan_black_loop refs st m = Some m" by (subst scan_black_loop.simps) simp
    moreover have "S = {}" using tab(3) Nil by simp
    ultimately show ?thesis using inv Nil same_tables_refl by (intro exI [of _ m] exI [of _ Gr] exI [of _ W]) simp
  next
    case (Cons x xs)
    obtain st1 where top: "cs_last st = Some (Some x, st1)" "cs_ok st1" "cs_items st1 = x # xs" by (rule chunked.top_item [OF st Cons])
    have x: "obj_ok x" using assms(4) tab(2) Cons by auto
    have black: "is_black x m \<longleftrightarrow> x \<notin> Gr \<union> W" using tab(1) x by (auto simp: color_load cc_tables_def colouring_def)
    show ?thesis
    proof (cases "x \<in> Gr \<union> W")
      case False
      obtain m1 where m1: "set_color x BLACK_OUT_OF_STACK m = Some m1" "colours m1 = (colours m)(x := unat BLACK_OUT_OF_STACK)"
        "same_tables {OBJ_COLOR_TABLE} m m1" by (rule set_color_table [OF x, of BLACK_OUT_OF_STACK m]) simp
      obtain st2 where pop: "cs_pop st1 = Some (Some x, st2)" "cs_ok st2" "cs_items st2 = xs" by (rule chunked.pop_item [OF top(2,3)])
      have run: "scan_black_loop refs st m = scan_black_loop refs st2 m1" using top(1) black False m1(1) pop(1) by (subst scan_black_loop.simps) simp
      have "restoring refs c G m1 Gr W (S - {x}) (set (cs_items st2))"
        by (rule restoring_pop [OF _ False _ m1(3)]) (use inv m1(2) Cons pop(3) in \<open>simp_all add: BLACK_OUT_OF_STACK_def\<close>)
      then have "\<exists>m' Gr' W'. scan_black_loop refs st2 m1 = Some m' \<and> restoring refs c G m' Gr' W' {} {} \<and>
        same_tables {RC_TABLE, OBJ_COLOR_TABLE, STRONG_RC_TABLE} m1 m' \<and> Gr' \<subseteq> Gr \<and> W' \<subseteq> W \<and>
        set (cs_items st2) \<inter> (Gr' \<union> W') = {} \<and> (Gr \<union> W) - (Gr' \<union> W') \<subseteq> reach refs (set (cs_items st2))"
        by (intro 1(1)) (use pop(2,3) Cons in auto)
      then obtain m' Gr' W' where fin: "scan_black_loop refs st2 m1 = Some m'" "restoring refs c G m' Gr' W' {} {}"
        "same_tables {RC_TABLE, OBJ_COLOR_TABLE, STRONG_RC_TABLE} m1 m'" "Gr' \<subseteq> Gr" "W' \<subseteq> W"
        "set (cs_items st2) \<inter> (Gr' \<union> W') = {}" "(Gr \<union> W) - (Gr' \<union> W') \<subseteq> reach refs (set (cs_items st2))" by blast
      have "reach refs (set xs) \<subseteq> reach refs (set (x # xs))" using reach_base by (intro reach_mono) fastforce
      then have "(Gr \<union> W) - (Gr' \<union> W') \<subseteq> reach refs (set (cs_items st))" using fin(7) pop(3) Cons by auto
      moreover have "set (cs_items st) \<inter> (Gr' \<union> W') = {}" using fin(4-6) pop(3) Cons False by auto
      moreover have "same_tables {RC_TABLE, OBJ_COLOR_TABLE, STRONG_RC_TABLE} m m'"
        by (rule same_tables_mono [OF same_tables_trans [OF m1(3) fin(3)]]) auto
      ultimately show ?thesis using run fin(1,2,4,5) by (intro exI [of _ m'] exI [of _ Gr'] exI [of _ W']) simp
    next
      case True
      obtain m1 where m1: "set_color x BLACK_IN_STACK m = Some m1" "colours m1 = (colours m)(x := unat BLACK_IN_STACK)"
        "same_tables {OBJ_COLOR_TABLE} m m1" by (rule set_color_table [OF x, of BLACK_IN_STACK m]) simp
      obtain m2 where m2: "(if rc_count x m1 > MAX_STRONG_REF_COUNT then sm_store U8 STRONG_RC_TABLE x MAX_STRONG_REF_COUNT m1
          else sm_store U8 STRONG_RC_TABLE x (rc_count x m1) m1) = Some m2"
        "strong_counts m2 = (strong_counts m1)(x := min 15 (counts m1 x))" "same_tables {STRONG_RC_TABLE} m1 m2" by (rule strong_store [OF x])
      obtain st3 m3 where m3: "foldM scan_black_visitor (refs x) (st1, m2) = Some (st3, m3)" "cs_ok st3"
        "cs_items st3 = rev (filter (\<lambda>x. colours m2 x \<noteq> 1) (refs x)) @ cs_items st1" "counts m3 = inc_all (refs x) (counts m2)"
        "same_tables {RC_TABLE, STRONG_RC_TABLE} m2 m3" "\<And>x. strong_counts m2 x \<le> strong_counts m3 x"
        by (rule scan_black_visits [of "refs x" st1 m2]) (use assms(1) top(2) in \<open>auto simp: refs_ok_def\<close>)
      have eqs: "counts m2 = counts m" "colours m3 = (colours m)(x := 1)" "colours m2 = (colours m)(x := 1)" "strong_counts m1 = strong_counts m"
        "counts m1 = counts m"
        using m1(2,3) m2(3) m3(5) by (simp_all add: same_tables_def BLACK_IN_STACK_def)
      have run: "scan_black_loop refs st m = scan_black_loop refs st3 m3"
        using top(1) black True m1(1) m2(1) m3(1) by (subst scan_black_loop.simps) (auto simp: to_raw_address_def Let_def split: if_splits)
      have "restoring refs c G m3 (Gr - {x}) (W - {x}) (insert x S) (set (cs_items st3))"
      proof (rule restoring_step [OF assms(2,3) inv True])
        show "counts m3 = inc_all (refs x) (counts m)" using m3(4) eqs by simp
        show "colours m3 = (colours m)(x := 1)" by (rule eqs)
        show "((strong_counts m)(x := min 15 (counts m x))) y \<le> strong_counts m3 y" for y using m3(6) [of y] m2(2) eqs by simp
        show "y \<in> set (cs_items st3) \<longleftrightarrow> y \<in> set (cs_items st) \<or> y \<in> set (refs x) \<and> colours m3 y \<noteq> 1" for y
          using m3(3) top(3) Cons eqs(2,3) by auto
      qed (use Cons in simp)
      moreover have "card ((Gr - {x}) \<union> (W - {x})) < card (Gr \<union> W)" by (rule psubset_card_mono) (use True in auto)
      ultimately have "\<exists>m' Gr' W'. scan_black_loop refs st3 m3 = Some m' \<and> restoring refs c G m' Gr' W' {} {} \<and>
        same_tables {RC_TABLE, OBJ_COLOR_TABLE, STRONG_RC_TABLE} m3 m' \<and> Gr' \<subseteq> Gr - {x} \<and> W' \<subseteq> W - {x} \<and>
        set (cs_items st3) \<inter> (Gr' \<union> W') = {} \<and> (Gr - {x} \<union> (W - {x})) - (Gr' \<union> W') \<subseteq> reach refs (set (cs_items st3))"
        by (intro 1(1)) (use m3(2) in auto)
      then obtain m' Gr' W' where fin: "scan_black_loop refs st3 m3 = Some m'" "restoring refs c G m' Gr' W' {} {}"
        "same_tables {RC_TABLE, OBJ_COLOR_TABLE, STRONG_RC_TABLE} m3 m'" "Gr' \<subseteq> Gr - {x}" "W' \<subseteq> W - {x}"
        "set (cs_items st3) \<inter> (Gr' \<union> W') = {}" "(Gr - {x} \<union> (W - {x})) - (Gr' \<union> W') \<subseteq> reach refs (set (cs_items st3))" by blast
      have "set (cs_items st3) \<subseteq> reach refs (set (x # xs))"
        using m3(3) top(3) reach_step [of x refs "set (x # xs)"] reach_base [of "set (x # xs)" refs] by auto
      then have "reach refs (set (cs_items st3)) \<subseteq> reach refs (set (x # xs))" by (rule reach_mono)
      moreover have "x \<in> reach refs (set (x # xs))" using reach_base [of "set (x # xs)" refs] by auto
      ultimately have "(Gr \<union> W) - (Gr' \<union> W') \<subseteq> reach refs (set (cs_items st))" using fin(7) Cons by auto
      moreover have "set (cs_items st) \<inter> (Gr' \<union> W') = {}" using fin(6) m3(3) top(3) Cons by auto
      moreover have "same_tables {RC_TABLE, OBJ_COLOR_TABLE, STRONG_RC_TABLE} m m'"
        by (rule same_tables_mono [OF same_tables_trans [OF m1(3) same_tables_trans [OF m2(3) same_tables_trans [OF m3(5) fin(3)]]]]) auto
      ultimately show ?thesis using run fin(1,2,4,5) by (intro exI [of _ m'] exI [of _ Gr'] exI [of _ W']) auto
    qed
  qed
qed

lemma scan_black_ok:
  assumes "refs_ok refs" "consistent refs c G" "closed refs G" "\<And>x. x \<in> G \<Longrightarrow> obj_ok x"
    and "restoring refs c G m Gr W {} {x}"
  obtains m' Gr' W' where "scan_black refs x m = Some m'" "restoring refs c G m' Gr' W' {} {}"
    "same_tables {RC_TABLE, OBJ_COLOR_TABLE, STRONG_RC_TABLE} m m'" "Gr' \<subseteq> Gr" "W' \<subseteq> W" "x \<notin> Gr' \<union> W'"
    "(Gr \<union> W) - (Gr' \<union> W') \<subseteq> reach refs {x}"
proof -
  obtain st where st: "cs_push x cs_new = Some st" "cs_ok st" "cs_items st = [x]" using chunked.one_item [of x] by blast
  have "restoring refs c G m Gr W {} (set (cs_items st))" using assms(5) st(3) by simp
  from scan_black_loop_ok [OF assms(1-4) st(2) this] that st(1,3) show thesis by (auto simp: scan_black_def)
qed

section \<open>Scanning\<close>

lemma reach_obj_ok:
  assumes "refs_ok refs" "\<And>x. x \<in> A \<Longrightarrow> obj_ok x" "x \<in> reach refs A"
  shows "obj_ok x"
proof -
  have "closed refs {x. obj_ok x}" using assms(1) by (auto simp: closed_def refs_ok_def)
  then have "reach refs A \<subseteq> {x. obj_ok x}" by (rule reach_least) (use assms(2) in auto)
  with assms(3) show ?thesis by auto
qed

text \<open>The objects that keep a count when the references from the marked objects are taken away, and what they reach.\<close>

definition cc_live :: "(object_reference \<Rightarrow> object_reference list) \<Rightarrow> (object_reference \<Rightarrow> nat) \<Rightarrow> object_reference set \<Rightarrow> object_reference set" where
  "cc_live refs c G = reach refs {x \<in> G. 0 < trial refs c G x}"

definition scanning :: "(object_reference \<Rightarrow> object_reference list) \<Rightarrow> (object_reference \<Rightarrow> nat) \<Rightarrow> object_reference set \<Rightarrow> byte_mem \<Rightarrow>
   object_reference set \<Rightarrow> object_reference set \<Rightarrow> object_reference set \<Rightarrow> bool" where
  "scanning refs c G m Gr W Q \<longleftrightarrow> restoring refs c G m Gr W {} {} \<and> Q \<subseteq> G \<and> (\<forall>w \<in> W. set (refs w) \<inter> Gr \<subseteq> Q) \<and>
     G - (Gr \<union> W) \<subseteq> cc_live refs c G"

lemma trial_from_outside:
  assumes "N \<subseteq> G" "\<And>y. y \<in> G - N \<Longrightarrow> x \<notin> set (refs y)"
  shows "trial refs c N x = trial refs c G x"
proof -
  have "edges refs G x = edges refs N x + edges refs (G - N) x" using edges_Un [of N "G - N"] assms(1) by (simp add: Un_absorb1)
  moreover have "edges refs (G - N) x = 0" using assms(2) by (simp add: edges_zero)
  ultimately show ?thesis by (simp add: trial_def)
qed

lemma scanning_skip: "scanning refs c G m Gr W (insert x Q) \<Longrightarrow> x \<notin> Gr \<Longrightarrow> scanning refs c G m Gr W Q"
  unfolding scanning_def by blast

lemma scanning_white:
  assumes "scanning refs c G m Gr W Q" "x \<in> Gr" "counts m x = 0" "closed refs G"
    and "colours m' = (colours m)(x := 3)" "same_tables {OBJ_COLOR_TABLE} m m'"
  shows "scanning refs c G m' (Gr - {x}) (insert x W) (set (refs x) \<union> Q)"
proof -
  have eq: "counts m' = counts m" "strong_counts m' = strong_counts m" using assms(6) by (simp_all add: same_tables_def)
  have N: "Gr - {x} \<union> insert x W = Gr \<union> W" using assms(2) by auto
  have r: "cc_tables refs c m Gr W {}" using assms(1) by (simp add: scanning_def restoring_def)
  have "colouring (Gr - {x}) (insert x W) {} = (colouring Gr W {})(x := 3)" by (auto simp: colouring_def fun_eq_iff)
  then have "cc_tables refs c m' (Gr - {x}) (insert x W) {}" using r eq assms(5) by (simp add: cc_tables_def N del: Un_insert_right)
  moreover have "set (refs x) \<subseteq> G" using assms(1,2,4) by (auto simp: scanning_def restoring_def closed_def)
  moreover have "0 < counts m w \<longrightarrow> w \<in> {}" if "w \<in> insert x W" for w
    using assms(1,3) that by (auto simp: scanning_def restoring_def)
  ultimately show ?thesis using assms(1) unfolding scanning_def restoring_def eq N by blast
qed

lemma scanning_black:
  assumes "refs_ok refs" "consistent refs c G" "closed refs G" "\<And>x. x \<in> G \<Longrightarrow> obj_ok x"
    and "scanning refs c G m Gr W (insert x Q)" "x \<in> Gr" "0 < counts m x"
  obtains m' Gr' W' where "scan_black refs x m = Some m'" "scanning refs c G m' Gr' W' Q"
    "same_tables {RC_TABLE, OBJ_COLOR_TABLE, STRONG_RC_TABLE} m m'" "Gr' \<subseteq> Gr" "x \<notin> Gr'"
proof -
  have r: "restoring refs c G m Gr W {} {}" "Gr \<union> W \<subseteq> G" and h: "\<And>w. w \<in> W \<Longrightarrow> set (refs w) \<inter> Gr \<subseteq> insert x Q" and "Q \<subseteq> G"
    and l: "G - (Gr \<union> W) \<subseteq> cc_live refs c G"
    using assms(5) by (auto simp: scanning_def restoring_def)
  then have start: "restoring refs c G m Gr W {} {x}" using assms(6,7) unfolding restoring_def by blast
  obtain m' Gr' W' where fin: "scan_black refs x m = Some m'" "restoring refs c G m' Gr' W' {} {}"
    "same_tables {RC_TABLE, OBJ_COLOR_TABLE, STRONG_RC_TABLE} m m'" "Gr' \<subseteq> Gr" "W' \<subseteq> W" "x \<notin> Gr' \<union> W'"
    "(Gr \<union> W) - (Gr' \<union> W') \<subseteq> reach refs {x}" by (rule scan_black_ok [OF assms(1-4) start])
  have "trial refs c (Gr \<union> W) x = trial refs c G x"
    by (rule trial_from_outside [OF r(2)]) (use r(1) assms(6) in \<open>unfold restoring_def, blast\<close>)
  then have "x \<in> {x \<in> G. 0 < trial refs c G x}" using r assms(6,7) by (auto simp: restoring_def cc_tables_def)
  then have "x \<in> cc_live refs c G" unfolding cc_live_def by (rule subsetD [OF reach_base])
  then have "{x} \<subseteq> cc_live refs c G" by simp
  then have "reach refs {x} \<subseteq> cc_live refs c G" unfolding cc_live_def by (rule reach_mono)
  then have "G - (Gr' \<union> W') \<subseteq> cc_live refs c G" using fin(7) l by blast
  moreover have "set (refs w) \<inter> Gr' \<subseteq> Q" if "w \<in> W'" for w using h [of w] that fin(4-6) by blast
  ultimately have "scanning refs c G m' Gr' W' Q" using fin(2) \<open>Q \<subseteq> G\<close> by (simp add: scanning_def)
  then show thesis using that fin by blast
qed

lemma scan_loop_ok:
  assumes "refs_ok refs" "consistent refs c G" "closed refs G" "\<And>x. x \<in> G \<Longrightarrow> obj_ok x"
    and "cs_ok st" "scanning refs c G m Gr W (set (cs_items st))"
  shows "\<exists>m' Gr' W'. scan_loop refs st m = Some m' \<and> scanning refs c G m' Gr' W' {} \<and>
    same_tables {RC_TABLE, OBJ_COLOR_TABLE, STRONG_RC_TABLE} m m' \<and> Gr' \<subseteq> Gr - set (cs_items st)"
  using assms(5,6)
proof (induction "(card Gr, length (cs_items st))" arbitrary: Gr W st m rule: wf_induct_rule [OF wf_lex_prod [OF wf_less_than wf_less_than]])
  case 1
  note st = 1(2) and inv = 1(3)
  have tab: "cc_tables refs c m Gr W {}" "set (cs_items st) \<subseteq> G" using inv by (auto simp: scanning_def restoring_def)
  show ?case
  proof (cases "cs_items st")
    case Nil
    then obtain st' where "cs_pop st = Some (None, st')" using chunked.pop_empty [OF st] by blast
    then have "scan_loop refs st m = Some m" by (subst scan_loop.simps) simp
    then show ?thesis using inv Nil same_tables_refl by (intro exI [of _ m] exI [of _ Gr] exI [of _ W]) simp
  next
    case (Cons x xs)
    obtain st' where pop: "cs_pop st = Some (Some x, st')" "cs_ok st'" "cs_items st' = xs" by (rule chunked.pop_item [OF st Cons])
    have x: "obj_ok x" using assms(4) tab(2) Cons by auto
    have inv': "scanning refs c G m Gr W (insert x (set xs))" using inv Cons by simp
    have grey: "has_color x GREY m \<longleftrightarrow> x \<in> Gr" using tab(1) x by (auto simp: color_load cc_tables_def colouring_def)
    consider "x \<notin> Gr" | "x \<in> Gr" "0 < counts m x" | "x \<in> Gr" "counts m x = 0" by blast
    then obtain m1 Gr1 W1 st1 where go: "scan_loop refs st m = scan_loop refs st1 m1" "scanning refs c G m1 Gr1 W1 (set (cs_items st1))"
      "cs_ok st1" "same_tables {RC_TABLE, OBJ_COLOR_TABLE, STRONG_RC_TABLE} m m1" "Gr1 \<subseteq> Gr" "x \<notin> Gr1" "set xs \<subseteq> set (cs_items st1)"
      "card Gr1 < card Gr \<or> card Gr1 = card Gr \<and> st1 = st'"
    proof cases
      case 1
      then have "scan_loop refs st m = scan_loop refs st' m" using pop(1) grey by (subst scan_loop.simps) simp
      then show thesis using that [of st' m Gr W] scanning_skip [OF inv' 1] pop(2,3) same_tables_refl 1 by simp
    next
      case 2
      obtain m1 Gr1 W1 where sb: "scan_black refs x m = Some m1" "scanning refs c G m1 Gr1 W1 (set xs)"
        "same_tables {RC_TABLE, OBJ_COLOR_TABLE, STRONG_RC_TABLE} m m1" "Gr1 \<subseteq> Gr" "x \<notin> Gr1"
        by (rule scanning_black [OF assms(1-4) inv' 2])
      have "scan_loop refs st m = scan_loop refs st' m1" using pop(1) grey 2 sb(1) color_load(6) [OF x, of m] by (subst scan_loop.simps) simp
      moreover have "card Gr1 < card Gr" by (rule psubset_card_mono) (use sb(4,5) 2 in auto)
      ultimately show thesis using that [of st' m1 Gr1 W1] sb pop(2,3) by simp
    next
      case 3
      obtain m1 where m1: "set_color x WHITE m = Some m1" "colours m1 = (colours m)(x := unat WHITE)" "same_tables {OBJ_COLOR_TABLE} m m1"
        by (rule set_color_table [OF x, of WHITE m]) simp
      obtain st1 where st1: "foldM cs_push (refs x) st' = Some st1" "cs_ok st1" "cs_items st1 = rev (refs x) @ cs_items st'"
        using push_all [OF pop(2), of "refs x"] by blast
      have "scan_loop refs st m = scan_loop refs st1 m1"
        using pop(1) grey 3 m1(1) st1(1) color_load(6) [OF x, of m] by (subst scan_loop.simps) simp
      moreover have "card (Gr - {x}) < card Gr" by (rule psubset_card_mono) (use 3 in auto)
      moreover have "scanning refs c G m1 (Gr - {x}) (insert x W) (set (refs x) \<union> insert x (set xs))"
        by (rule scanning_white [OF inv' 3 assms(3)]) (use m1 in \<open>simp_all add: WHITE_def\<close>)
      then have "scanning refs c G m1 (Gr - {x}) (insert x W) (set (refs x) \<union> set xs)" using scanning_skip by (metis DiffD2 Un_insert_right singletonI)
      moreover have "same_tables {RC_TABLE, OBJ_COLOR_TABLE, STRONG_RC_TABLE} m m1" using m1(3) by (rule same_tables_mono) simp
      ultimately show thesis using that [of st1 m1 "Gr - {x}" "insert x W"] st1(2,3) pop(3) by simp
    qed
    have "\<exists>m' Gr' W'. scan_loop refs st1 m1 = Some m' \<and> scanning refs c G m' Gr' W' {} \<and>
      same_tables {RC_TABLE, OBJ_COLOR_TABLE, STRONG_RC_TABLE} m1 m' \<and> Gr' \<subseteq> Gr1 - set (cs_items st1)"
      by (rule 1(1)) (use go pop(3) Cons in auto)
    then obtain m' Gr' W' where fin: "scan_loop refs st1 m1 = Some m'" "scanning refs c G m' Gr' W' {}"
      "same_tables {RC_TABLE, OBJ_COLOR_TABLE, STRONG_RC_TABLE} m1 m'" "Gr' \<subseteq> Gr1 - set (cs_items st1)" by blast
    have "Gr' \<subseteq> Gr - set (cs_items st)" using fin(4) go(5-7) Cons by auto
    moreover have "same_tables {RC_TABLE, OBJ_COLOR_TABLE, STRONG_RC_TABLE} m m'" using same_tables_trans [OF go(4) fin(3)] by simp
    ultimately show ?thesis using go(1) fin(1,2) by (intro exI [of _ m'] exI [of _ Gr'] exI [of _ W']) simp
  qed
qed

lemma cc_scan_ok:
  assumes "refs_ok refs" "consistent refs c G" "closed refs G" "\<And>x. x \<in> G \<Longrightarrow> obj_ok x"
    and "x \<in> G" "scanning refs c G m Gr W {}"
  obtains m' Gr' W' where "cc_scan refs x m = Some m'" "scanning refs c G m' Gr' W' {}"
    "same_tables {RC_TABLE, OBJ_COLOR_TABLE, STRONG_RC_TABLE} m m'" "Gr' \<subseteq> Gr - {x}"
proof -
  obtain st where st: "cs_push x cs_new = Some st" "cs_ok st" "cs_items st = [x]" using chunked.one_item [of x] by blast
  have "scanning refs c G m Gr W (set (cs_items st))" using assms(5,6) st(3) unfolding scanning_def by auto
  from scan_loop_ok [OF assms(1-4) st(2) this] that st(1,3) show thesis by (auto simp: cc_scan_def)
qed

lemma scan_all_ok:
  assumes "refs_ok refs" "consistent refs c G" "closed refs G" "\<And>x. x \<in> G \<Longrightarrow> obj_ok x"
    and "set cs \<subseteq> G" "scanning refs c G m Gr W {}"
  shows "\<exists>m' Gr' W'. foldM (cc_scan refs) cs m = Some m' \<and> scanning refs c G m' Gr' W' {} \<and>
    same_tables {RC_TABLE, OBJ_COLOR_TABLE, STRONG_RC_TABLE} m m' \<and> Gr' \<subseteq> Gr - set cs"
  using assms(5,6)
proof (induction cs arbitrary: m Gr W)
  case Nil
  then show ?case using same_tables_refl by auto
next
  case (Cons x cs)
  obtain m1 Gr1 W1 where one: "cc_scan refs x m = Some m1" "scanning refs c G m1 Gr1 W1 {}"
    "same_tables {RC_TABLE, OBJ_COLOR_TABLE, STRONG_RC_TABLE} m m1" "Gr1 \<subseteq> Gr - {x}"
    by (rule cc_scan_ok [OF assms(1-4) _ Cons.prems(2), of x]) (use Cons.prems(1) in auto)
  obtain m' Gr' W' where fin: "foldM (cc_scan refs) cs m1 = Some m'" "scanning refs c G m' Gr' W' {}"
    "same_tables {RC_TABLE, OBJ_COLOR_TABLE, STRONG_RC_TABLE} m1 m'" "Gr' \<subseteq> Gr1 - set cs"
    using Cons.IH [OF _ one(2)] Cons.prems(1) by auto
  have "same_tables {RC_TABLE, OBJ_COLOR_TABLE, STRONG_RC_TABLE} m m'" using same_tables_trans [OF one(3) fin(3)] by simp
  moreover have "Gr' \<subseteq> Gr - set (x # cs)" using one(4) fin(4) by auto
  ultimately show ?case using one(1) fin(1,2) by auto
qed

text \<open>After marking and scanning from a set of candidates, the white objects are the marked ones that nothing keeps alive.\<close>

lemma scan_candidates_ok:
  assumes "refs_ok refs" "consistent refs c (reach refs (set cs))" "\<And>x. x \<in> set cs \<Longrightarrow> obj_ok x"
    and "cc_tables refs c m (reach refs (set cs)) {} {}"
  defines "W \<equiv> reach refs (set cs) - cc_live refs c (reach refs (set cs))"
  shows "\<exists>m'. foldM (cc_scan refs) cs m = Some m' \<and> cc_tables refs c m' {} W {} \<and> same_tables {RC_TABLE, OBJ_COLOR_TABLE, STRONG_RC_TABLE} m m' \<and>
    (\<forall>x \<in> reach refs (set cs) - W. 0 < strong_counts m' x \<and> set (refs x) \<inter> W = {}) \<and> (\<forall>w \<in> W. counts m' w = 0)"
proof -
  let ?G = "reach refs (set cs)"
  have cl: "closed refs ?G" by (rule reach_closed)
  have ok: "x \<in> ?G \<Longrightarrow> obj_ok x" for x using reach_obj_ok [OF assms(1,3)] .
  have "scanning refs c ?G m ?G {} {}" using assms(4) by (auto simp: scanning_def restoring_def)
  then obtain m' Gr' W' where fin: "foldM (cc_scan refs) cs m = Some m'" "scanning refs c ?G m' Gr' W' {}"
    "same_tables {RC_TABLE, OBJ_COLOR_TABLE, STRONG_RC_TABLE} m m'" "Gr' \<subseteq> ?G - set cs"
    using scan_all_ok [OF assms(1,2) cl ok reach_base, of m ?G "{}"] by blast
  have r: "cc_tables refs c m' Gr' W' {}" "Gr' \<union> W' \<subseteq> ?G" and e: "\<And>x. x \<in> ?G - (Gr' \<union> W') \<Longrightarrow> set (refs x) \<inter> (Gr' \<union> W') = {}"
    and w: "\<And>x. x \<in> W' \<Longrightarrow> set (refs x) \<inter> Gr' = {}" "\<And>x. x \<in> W' \<Longrightarrow> counts m' x = 0" and l: "?G - (Gr' \<union> W') \<subseteq> cc_live refs c ?G"
    and g: "\<And>x. x \<in> ?G - (Gr' \<union> W') \<Longrightarrow> 0 < strong_counts m' x"
    using fin(2) unfolding scanning_def restoring_def by (blast, blast, blast, blast, fastforce, blast, blast)
  have "closed refs (?G - Gr')" using cl e w(1) unfolding closed_def by blast
  then have "?G \<subseteq> ?G - Gr'" by (rule reach_least) (use fin(4) reach_base in blast)
  then have Gr': "Gr' = {}" using r(2) by blast
  have "closed refs (?G - W')" using cl e unfolding closed_def Gr' by blast
  moreover have "{x \<in> ?G. 0 < trial refs c ?G x} \<subseteq> ?G - W'"
  proof -
    have "trial refs c ?G x = 0" if "x \<in> W'" for x
      using w(2) [OF that] r(1) trial_anti [OF assms(2) r(2), of x] by (simp add: Gr' cc_tables_def)
    then show ?thesis by auto
  qed
  ultimately have "cc_live refs c ?G \<subseteq> ?G - W'" unfolding cc_live_def by (rule reach_least)
  then have W': "W' = W" using l r(2) unfolding Gr' W_def by blast
  show ?thesis using fin(1,3) r(1) e g w(2) unfolding Gr' W' by auto
qed

end
