(* ===== verification/CycleCollector_Correct.thy ===== *)
theory CycleCollector_Correct
  imports CycleCollector_Phases
begin

text \<open>
  The last phase of the cycle collector, which frees the white objects, and the correctness of the whole work packet: it
  returns, it frees exactly the marked objects that are not reachable from an object with a reference from outside of the
  marked objects, and it takes exactly the references from the freed objects off the counts.
\<close>

section \<open>The log bits of blocks\<close>

lemma Block_containing_unat: "unat (Block_containing x) = unat x div 2 ^ 15 * 2 ^ 15"
  by (simp add: Block_containing_def region_align_unat immix_block_LOG_BYTES_def to_raw_address_def)

lemma Block_containing_ok:
  assumes "obj_ok x"
  shows "obj_ok (Block_containing x)" "Block_containing (Block_containing x) = Block_containing x"
    "region_index IX_BLOCK_LOG y = region_index IX_BLOCK_LOG x \<longleftrightarrow> Block_containing y = Block_containing x"
proof -
  have "unat x div 2 ^ 15 * 2 ^ 15 < 2 ^ 47" using obj_ok_small [OF assms] div_times_less_eq_dividend [of "unat x" "2 ^ 15"] by linarith
  moreover have "unat x div 2 ^ 15 * 2 ^ 15 mod (8 :: nat) = 0"
    using mod_mult_right_eq [of "unat x div 2 ^ 15" "2 ^ 15" "8 :: nat"] by simp
  ultimately show "obj_ok (Block_containing x)" unfolding obj_ok_def Block_containing_unat by blast
  show "Block_containing (Block_containing x) = Block_containing x" by (simp add: word_unat_eq_iff Block_containing_unat)
  show "region_index IX_BLOCK_LOG y = region_index IX_BLOCK_LOG x \<longleftrightarrow> Block_containing y = Block_containing x"
    by (simp add: word_unat_eq_iff Block_containing_unat region_index_def named_spec_bits)
qed

lemma block_log_table:
  assumes "obj_ok x"
  defines "b \<equiv> Block_containing x"
  obtains m' where "block_log b m = Some (word_table IX_BLOCK_LOG m b \<noteq> 1, m')"
    "word_table IX_BLOCK_LOG m' = (\<lambda>y. if obj_ok y \<and> Block_containing y = b then 1 else word_table IX_BLOCK_LOG m y)"
    "same_tables {IX_BLOCK_LOG} m m'"
proof -
  have b: "obj_ok b" "Block_containing b = b" using Block_containing_ok [OF assms(1)] by (simp_all add: b_def)
  have v: "word_table IX_BLOCK_LOG m b < 2" using word_table_bound [OF named_u8_specs(7), of m b] by (simp add: named_spec_bits)
  have val: "word_table IX_BLOCK_LOG m b = unat (side_value IX_BLOCK_LOG m b)" using b by (simp add: word_table_def)
  show thesis
  proof (cases "side_value IX_BLOCK_LOG m b = 1")
    case True
    have "block_log b m = Some (word_table IX_BLOCK_LOG m b \<noteq> 1, m)" by (subst block_log.simps) (simp add: side_load_value True val)
    moreover have "word_table IX_BLOCK_LOG m y = 1" if "obj_ok y" "Block_containing y = b" for y
    proof -
      have "region_index IX_BLOCK_LOG y = region_index IX_BLOCK_LOG b" using Block_containing_ok(3) [OF b(1), of y] that b(2) by simp
      then have "side_value IX_BLOCK_LOG m y = side_value IX_BLOCK_LOG m b" using side_cell_region [of IX_BLOCK_LOG y b U8] by (simp add: side_value_def)
      then show ?thesis using that True by (simp add: word_table_def)
    qed
    then have "word_table IX_BLOCK_LOG m = (\<lambda>y. if obj_ok y \<and> Block_containing y = b then 1 else word_table IX_BLOCK_LOG m y)" by auto
    ultimately show thesis using that [of m] same_tables_refl by blast
  next
    case False
    then have zero: "side_value IX_BLOCK_LOG m b = 0" using v val by (simp add: word_unat_eq_iff)
    have fits: "value_fits IX_BLOCK_LOG 0" "value_fits IX_BLOCK_LOG 1" by (simp_all add: value_fits_def named_spec_bits)
    have w: "field_width (side_cell (U8, IX_BLOCK_LOG, b)) = 1" using u8_spec_ok(5) [OF named_u8_specs(7), of b] by (simp add: named_spec_bits)
    have "compare_exchange_atomic U8 IX_BLOCK_LOG b 0 1 m m = Some (Inr 0, side_put IX_BLOCK_LOG b 1 m)"
      using side_cas_field [of U8 IX_BLOCK_LOG b 0 1 m m] zero fits by (simp add: w value_fits_take side_value_def side_put_def named_spec_bits)
    then have "block_log b m = Some (word_table IX_BLOCK_LOG m b \<noteq> 1, side_put IX_BLOCK_LOG b 1 m)"
      by (subst block_log.simps) (simp add: side_load_value zero val)
    moreover have "word_table IX_BLOCK_LOG (side_put IX_BLOCK_LOG b 1 m) y = (if obj_ok y \<and> Block_containing y = b then 1 else word_table IX_BLOCK_LOG m y)" for y
      using side_value_put [OF named_u8_specs(7,7) fits(2) obj_ok_small [OF b(1)], of y m] Block_containing_ok(3) [OF b(1), of y] b(2)
        obj_ok_small [of y] by (simp add: word_table_def)
    moreover have "same_tables {IX_BLOCK_LOG} m (side_put IX_BLOCK_LOG b 1 m)"
      using word_table_other [OF named_u8_specs(7) _ _ fits(2) obj_ok_small [OF b(1)]] by (simp add: same_tables_def)
    ultimately show thesis using that by blast
  qed
qed

section \<open>Freeing\<close>

text \<open>The page resource gives pages back and writes no side table of the core.\<close>

definition releases_pages :: "(bool \<Rightarrow> address \<Rightarrow> 'pr \<times> byte_mem \<Rightarrow> (usize \<times> 'pr \<times> byte_mem) option) \<Rightarrow> bool" where
  "releases_pages release \<longleftrightarrow> (\<forall>reset a pr m. \<exists>n pr' m'. release reset a (pr, m) = Some (n, pr', m') \<and> same_tables {} m m')"

definition object_lines :: "vm_object_model \<Rightarrow> object_reference \<Rightarrow> address set" where
  "object_lines vm ob = (if get_current_size vm ob > Line_BYTES then set (straddle_lines vm ob (get_current_size vm ob)) else {})"

text \<open>The sizes of objects of the immix space are those of objects inside the address space.\<close>

definition sizes_ok :: "vm_object_model \<Rightarrow> object_reference set \<Rightarrow> bool" where
  "sizes_ok vm A \<longleftrightarrow> (\<forall>x \<in> A. get_current_size vm x > Line_BYTES \<longrightarrow> straddles vm x (get_current_size vm x))"

text \<open>The blocks of a set that were not logged before are queued once each.\<close>

definition queued :: "byte_mem \<Rightarrow> address set \<Rightarrow> (address \<times> bool) list \<Rightarrow> (address \<times> bool) list \<Rightarrow> bool" where
  "queued m0 B bs0 bs \<longleftrightarrow>
     (\<exists>new. bs = bs0 @ map (\<lambda>b. (b, False)) new \<and> distinct new \<and> set new = {b \<in> B. word_table IX_BLOCK_LOG m0 b \<noteq> 1})"

lemma queued_add:
  assumes "queued m0 B bs0 bs"
  shows "queued m0 (insert b B) bs0 (bs @ (if b \<notin> B \<and> word_table IX_BLOCK_LOG m0 b \<noteq> 1 then [(b, False)] else []))"
proof -
  from assms obtain new where n: "bs = bs0 @ map (\<lambda>b. (b, False)) new" "distinct new" "set new = {b \<in> B. word_table IX_BLOCK_LOG m0 b \<noteq> 1}"
    unfolding queued_def by blast
  show ?thesis
  proof (cases "b \<notin> B \<and> word_table IX_BLOCK_LOG m0 b \<noteq> 1")
    case True
    then show ?thesis using n unfolding queued_def by (intro exI [of _ "new @ [b]"]) auto
  next
    case False
    then have "{c \<in> insert b B. word_table IX_BLOCK_LOG m0 c \<noteq> 1} = {c \<in> B. word_table IX_BLOCK_LOG m0 c \<noteq> 1}" by auto
    then show ?thesis using False n unfolding queued_def by (intro exI [of _ new]) auto
  qed
qed

text \<open>What has happened to the plan when the objects of \<open>D\<close> have been freed, of the white objects \<open>W\<close>.\<close>

definition freed :: "vm_object_model \<Rightarrow> (object_reference \<Rightarrow> bool) \<Rightarrow> object_reference set \<Rightarrow> 'pr lxr_state \<Rightarrow> object_reference set \<Rightarrow> 'pr lxr_state \<Rightarrow> bool" where
  "freed vm in_ix W lxr0 D lxr \<longleftrightarrow> (let m0 = lxr_mem lxr0; m = lxr_mem lxr; ix = {x \<in> D. in_ix x} in
     colours m = colouring {} (W - D) {} \<and>
     counts m = (\<lambda>x. if x \<in> (\<Union>y \<in> ix. object_lines vm y) then 0 else counts m0 x) \<and>
     strong_counts m = (\<lambda>x. if x \<in> D then 0 else strong_counts m0 x) \<and>
     word_table IX_BLOCK_LOG m = (\<lambda>y. if obj_ok y \<and> Block_containing y \<in> Block_containing ` ix then 1 else word_table IX_BLOCK_LOG m0 y) \<and>
     queued m0 (Block_containing ` ix) (possibly_dead_mature_blocks lxr0) (possibly_dead_mature_blocks lxr) \<and>
     rc_mature_objects (lxr_los lxr) = rc_mature_objects (lxr_los lxr0) |` (- (D - ix)) \<and>
     same_tables {RC_TABLE, OBJ_COLOR_TABLE, STRONG_RC_TABLE, RC_STRADDLE_LINES, IX_BLOCK_LOG} m0 m)"

text \<open>The two steps on the tables that precede the freeing of an object.\<close>

lemma unwhiten:
  assumes "obj_ok x"
  obtains m1 m2 where "sm_store U8 STRONG_RC_TABLE x 0 m = Some m1" "set_color x BLACK_OUT_OF_STACK m1 = Some m2"
    "strong_counts m2 = (strong_counts m)(x := 0)" "colours m2 = (colours m)(x := 0)" "same_tables {STRONG_RC_TABLE, OBJ_COLOR_TABLE} m m2"
proof -
  obtain m1 where m1: "sm_store U8 STRONG_RC_TABLE x 0 m = Some m1" "strong_counts m1 = (strong_counts m)(x := unat (0 :: usize))"
    "\<And>t. u8_spec t \<Longrightarrow> t \<noteq> STRONG_RC_TABLE \<Longrightarrow> word_table t m1 = word_table t m"
    by (rule table_store [OF named_u8_specs(3) named_spec_bits(6) assms, of 0 m]) (simp, blast)
  obtain m2 where m2: "set_color x BLACK_OUT_OF_STACK m1 = Some m2" "colours m2 = (colours m1)(x := unat BLACK_OUT_OF_STACK)"
    "same_tables {OBJ_COLOR_TABLE} m1 m2" by (rule set_color_table [OF assms, of BLACK_OUT_OF_STACK m1]) simp
  show thesis using that [OF m1(1) m2(1)] m1(2,3) m2(2,3) by (simp add: same_tables_def BLACK_OUT_OF_STACK_def)
qed

lemma free_ix:
  assumes "obj_ok x" "in_ix x" "sizes_ok vm {x}"
  obtains m' where "cc_process_dead_object vm in_ix release x lxr = Some (False, lxr\<lparr>lxr_mem := m',
      possibly_dead_mature_blocks := possibly_dead_mature_blocks lxr @
        (if word_table IX_BLOCK_LOG (lxr_mem lxr) (Block_containing x) \<noteq> 1 then [(Block_containing x, False)] else [])\<rparr>)"
    "counts m' = (\<lambda>y. if y \<in> object_lines vm x then 0 else counts (lxr_mem lxr) y)"
    "word_table IX_BLOCK_LOG m' = (\<lambda>y. if obj_ok y \<and> Block_containing y = Block_containing x then 1 else word_table IX_BLOCK_LOG (lxr_mem lxr) y)"
    "same_tables {RC_TABLE, RC_STRADDLE_LINES, IX_BLOCK_LOG} (lxr_mem lxr) m'"
proof -
  let ?m = "lxr_mem lxr" and ?b = "Block_containing x"
  have ls: "set (if get_current_size vm x > Line_BYTES then straddle_lines vm x (get_current_size vm x) else []) = object_lines vm x"
    unfolding object_lines_def if_distrib [of set] by simp
  have st: "get_current_size vm x > Line_BYTES \<Longrightarrow> straddles vm x (get_current_size vm x)" using assms(3) by (simp add: sizes_ok_def)
  obtain m1 where m1: "unmark_straddle_object vm x ?m = Some m1" "counts m1 = (\<lambda>y. if y \<in> object_lines vm x then 0 else counts ?m y)"
    "\<And>t. u8_spec t \<Longrightarrow> t \<noteq> RC_TABLE \<Longrightarrow> t \<noteq> RC_STRADDLE_LINES \<Longrightarrow> word_table t m1 = word_table t ?m"
    by (rule unstraddle_object [OF st, of ?m, unfolded ls]) blast+
  obtain m2 where m2: "block_log ?b m1 = Some (word_table IX_BLOCK_LOG m1 ?b \<noteq> 1, m2)"
    "word_table IX_BLOCK_LOG m2 = (\<lambda>y. if obj_ok y \<and> Block_containing y = ?b then 1 else word_table IX_BLOCK_LOG m1 y)"
    "same_tables {IX_BLOCK_LOG} m1 m2" by (rule block_log_table [OF assms(1), of m1])
  have eq: "word_table IX_BLOCK_LOG m1 = word_table IX_BLOCK_LOG ?m" "counts m2 = counts m1" using m1(3) m2(3) by (simp_all add: same_tables_def)
  have s1: "same_tables {RC_TABLE, RC_STRADDLE_LINES} ?m m1" using m1(3) by (simp add: same_tables_def)
  show thesis
  proof (rule that [of m2])
    show "same_tables {RC_TABLE, RC_STRADDLE_LINES, IX_BLOCK_LOG} ?m m2" by (rule same_tables_mono [OF same_tables_trans [OF s1 m2(3)]]) auto
    show "word_table IX_BLOCK_LOG m2 = (\<lambda>y. if obj_ok y \<and> Block_containing y = ?b then 1 else word_table IX_BLOCK_LOG ?m y)"
      using m2(2) unfolding eq(1) .
  qed (use m1(1,2) m2(1) assms(2) eq in \<open>simp_all add: cc_process_dead_object_def add_to_possibly_dead_mature_blocks_def Let_def\<close>)
qed

lemma free_los:
  assumes "obj_ok x" "\<not> in_ix x" "releases_pages release" "counts (lxr_mem lxr) x = 0"
  obtains m' los where "cc_process_dead_object vm in_ix release x lxr = Some (True, lxr\<lparr>lxr_los := los, lxr_mem := m'\<rparr>)"
    "rc_mature_objects los = (rc_mature_objects (lxr_los lxr))(x := None)" "same_tables {} (lxr_mem lxr) m'"
proof (cases "rc_mature_objects (lxr_los lxr) x")
  case None
  then show thesis using that [of "lxr_mem lxr" "lxr_los lxr"] assms(2) same_tables_refl
    by (simp add: cc_process_dead_object_def rc_free_def fun_upd_idem)
next
  case (Some n)
  let ?m = "lxr_mem lxr" and ?los = "lxr_los lxr"
  let ?reset = "los_needs_log_bit ?los \<and> los_needs_field_log_bit ?los"
  obtain m1 where m1: "rc_set x 0 ?m = Some m1" "counts m1 = (counts ?m)(x := unat (0 :: usize))"
    "\<And>t. u8_spec t \<Longrightarrow> t \<noteq> RC_TABLE \<Longrightarrow> word_table t m1 = word_table t ?m"
    by (rule table_store [OF named_u8_specs(1) named_spec_bits(2) assms(1), of 0 ?m]) (auto simp: rc_set_def to_raw_address_def)
  then have same: "same_tables {} ?m m1" using assms(4) by (auto simp: same_tables_def fun_upd_idem)
  define m2 where "m2 = (if ?reset \<and> rc_enabled ?los then m1 else ?m)"
  then have m2: "same_tables {} ?m m2" using same same_tables_refl by simp
  obtain k pr m3 where m3: "release ?reset x (los_pr ?los, m2) = Some (k, pr, m3)" "same_tables {} m2 m3"
    using assms(3) unfolding releases_pages_def by blast
  let ?los1 = "?los\<lparr>rc_mature_objects := (rc_mature_objects ?los)(x := None)\<rparr>"
  have "release_object release x (?los1, ?m) = Some (k, ?los1\<lparr>los_pr := pr\<rparr>, m3)"
  proof (cases ?reset)
    case True
    then show ?thesis using m3(1) m1(1)
      by (cases "rc_enabled ?los") (simp_all add: release_object_def m2_def from_raw_address_unchecked_def)
  next
    case False
    then have "release_object release x (?los1, ?m) = (release False x (los_pr ?los, ?m) \<bind> (\<lambda>(pages, pr, m). Some (pages, ?los1\<lparr>los_pr := pr\<rparr>, m)))"
      unfolding release_object_def by auto
    moreover have "release False x (los_pr ?los, ?m) = Some (k, pr, m3)" using m3(1) False m2_def by (auto split: if_splits)
    ultimately show ?thesis by simp
  qed
  then have "cc_process_dead_object vm in_ix release x lxr = Some (True, lxr\<lparr>lxr_los := ?los1\<lparr>los_pr := pr,
      num_pages_released_lazy := num_pages_released_lazy ?los + k\<rparr>, lxr_mem := m3\<rparr>)"
    using assms(2) Some by (simp add: cc_process_dead_object_def rc_free_def to_raw_address_def Let_def)
  moreover have "same_tables {} ?m m3" using same_tables_trans [OF m2 m3(2)] by simp
  ultimately show thesis using that by simp
qed

lemma freed_step:
  assumes "freed vm in_ix W lxr0 D lxr" "x \<in> W - D" "obj_ok x" "counts (lxr_mem lxr0) x = 0" "in_ix x \<Longrightarrow> sizes_ok vm {x}" "releases_pages release"
  obtains m1 m2 lxr' where "sm_store U8 STRONG_RC_TABLE x 0 (lxr_mem lxr) = Some m1" "set_color x BLACK_OUT_OF_STACK m1 = Some m2"
    "cc_process_dead_object vm in_ix release x (lxr\<lparr>lxr_mem := m2\<rparr>) = Some (\<not> in_ix x, lxr')" "freed vm in_ix W lxr0 (insert x D) lxr'"
proof -
  let ?mz = "lxr_mem lxr0" and ?m = "lxr_mem lxr" and ?b = "Block_containing x" and ?ix = "{x \<in> D. in_ix x}"
  note f = assms(1) [unfolded freed_def Let_def]
  obtain m1 m2 where m2: "sm_store U8 STRONG_RC_TABLE x 0 ?m = Some m1" "set_color x BLACK_OUT_OF_STACK m1 = Some m2"
    "strong_counts m2 = (strong_counts ?m)(x := 0)" "colours m2 = (colours ?m)(x := 0)" "same_tables {STRONG_RC_TABLE, OBJ_COLOR_TABLE} ?m m2"
    by (rule unwhiten [OF assms(3)])
  have eq2: "counts m2 = counts ?m" "word_table IX_BLOCK_LOG m2 = word_table IX_BLOCK_LOG ?m" using m2(5) by (simp_all add: same_tables_def)
  have col: "colours m2 = colouring {} (W - insert x D) {}" using f m2(4) by (auto simp: colouring_def fun_eq_iff)
  have str: "strong_counts m2 = (\<lambda>y. if y \<in> insert x D then 0 else strong_counts ?mz y)" using f m2(3) by (auto simp: fun_eq_iff)
  let ?T = "{RC_TABLE, OBJ_COLOR_TABLE, STRONG_RC_TABLE, RC_STRADDLE_LINES, IX_BLOCK_LOG}"
  have same: "same_tables ?T ?mz m'" if "same_tables {RC_TABLE, RC_STRADDLE_LINES, IX_BLOCK_LOG} m2 m'" for m'
  proof -
    have "same_tables ?T ?mz ?m" using f by simp
    from same_tables_trans [OF this same_tables_trans [OF m2(5) that]] show ?thesis by (rule same_tables_mono) auto
  qed
  show thesis
  proof (cases "in_ix x")
    case True
    obtain m' where p: "cc_process_dead_object vm in_ix release x (lxr\<lparr>lxr_mem := m2\<rparr>) = Some (False, lxr\<lparr>lxr_mem := m2\<rparr>\<lparr>lxr_mem := m',
        possibly_dead_mature_blocks := possibly_dead_mature_blocks (lxr\<lparr>lxr_mem := m2\<rparr>) @
        (if word_table IX_BLOCK_LOG (lxr_mem (lxr\<lparr>lxr_mem := m2\<rparr>)) ?b \<noteq> 1 then [(?b, False)] else [])\<rparr>)"
      "counts m' = (\<lambda>y. if y \<in> object_lines vm x then 0 else counts (lxr_mem (lxr\<lparr>lxr_mem := m2\<rparr>)) y)"
      "word_table IX_BLOCK_LOG m' = (\<lambda>y. if obj_ok y \<and> Block_containing y = ?b then 1 else word_table IX_BLOCK_LOG (lxr_mem (lxr\<lparr>lxr_mem := m2\<rparr>)) y)"
      "same_tables {RC_TABLE, RC_STRADDLE_LINES, IX_BLOCK_LOG} (lxr_mem (lxr\<lparr>lxr_mem := m2\<rparr>)) m'"
      by (rule free_ix [of x in_ix vm release "lxr\<lparr>lxr_mem := m2\<rparr>"]) (use assms(3,5) True in auto)
    have ix: "{y \<in> insert x D. in_ix y} = insert x ?ix" using True by auto
    have b: "obj_ok ?b" "Block_containing ?b = ?b" using Block_containing_ok [OF assms(3)] by simp_all
    have log: "word_table IX_BLOCK_LOG ?m ?b \<noteq> 1 \<longleftrightarrow> ?b \<notin> Block_containing ` ?ix \<and> word_table IX_BLOCK_LOG ?mz ?b \<noteq> 1" using f b by auto
    have "freed vm in_ix W lxr0 (insert x D) (lxr\<lparr>lxr_mem := m', possibly_dead_mature_blocks := possibly_dead_mature_blocks lxr @
        (if word_table IX_BLOCK_LOG ?m ?b \<noteq> 1 then [(?b, False)] else [])\<rparr>)"
      unfolding freed_def Let_def ix
    proof (intro conjI, goal_cases)
      case 5
      have "queued ?mz (Block_containing ` ?ix) (possibly_dead_mature_blocks lxr0) (possibly_dead_mature_blocks lxr)" using f by simp
      from queued_add [OF this, of ?b] show ?case unfolding log image_insert by simp
    next
      case 3
      then show ?case using p(4) str by (simp add: same_tables_def)
    next
      case 1
      then show ?case using p(4) col by (simp add: same_tables_def)
    next
      case 6
      have "insert x D - insert x ?ix = D - ?ix" using assms(2) by auto
      with f show ?case by simp
    qed (use f p eq2 same [OF p(4) [simplified]] in \<open>auto simp: fun_eq_iff\<close>)
    then show thesis using that [OF m2(1,2)] p(1) eq2 True by simp
  next
    case False
    have zero: "counts m2 x = 0" using f eq2 assms(4) by simp
    obtain m' los where p: "cc_process_dead_object vm in_ix release x (lxr\<lparr>lxr_mem := m2\<rparr>) = Some (True, lxr\<lparr>lxr_mem := m2\<rparr>\<lparr>lxr_los := los, lxr_mem := m'\<rparr>)"
      "rc_mature_objects los = (rc_mature_objects (lxr_los lxr))(x := None)" "same_tables {} m2 m'"
      by (rule free_los [of x in_ix release "lxr\<lparr>lxr_mem := m2\<rparr>" vm]) (use assms(3,6) False zero in auto)
    have ix: "{y \<in> insert x D. in_ix y} = ?ix" "insert x D - ?ix = insert x (D - ?ix)" using False by auto
    have "rc_mature_objects los = rc_mature_objects (lxr_los lxr0) |` (- insert x (D - ?ix))" using f p(2) by (auto simp: restrict_map_def fun_eq_iff)
    moreover have "same_tables ?T ?mz m'" by (rule same [OF same_tables_mono [OF p(3)]]) simp
    ultimately have "freed vm in_ix W lxr0 (insert x D) (lxr\<lparr>lxr_los := los, lxr_mem := m'\<rparr>)"
      using f p(3) eq2 col str unfolding freed_def Let_def ix by (auto simp: same_tables_def)
    then show thesis using that [OF m2(1,2)] p(1) False by simp
  qed
qed

lemma collect_whites_loop_ok:
  assumes "refs_ok refs" "\<And>x. x \<in> W \<Longrightarrow> obj_ok x \<and> counts (lxr_mem lxr0) x = 0" "sizes_ok vm {x \<in> W. in_ix x}" "releases_pages release"
    and "cs_ok st" "\<And>x. x \<in> set (cs_items st) \<Longrightarrow> obj_ok x" "freed vm in_ix W lxr0 D lxr" "D \<subseteq> W"
    and "\<And>x. x \<in> D \<Longrightarrow> set (refs x) \<inter> (W - D) \<subseteq> set (cs_items st)"
  shows "\<exists>lxr' D'. collect_whites_loop vm in_ix release refs st lxr = Some lxr' \<and> freed vm in_ix W lxr0 D' lxr' \<and> D \<subseteq> D' \<and> D' \<subseteq> W \<and>
    set (cs_items st) \<inter> (W - D') = {} \<and> (\<forall>x \<in> D'. set (refs x) \<inter> (W - D') = {})"
  using assms(5-)
proof (induction "(card (W - D), length (cs_items st))" arbitrary: D st lxr rule: wf_induct_rule [OF wf_lex_prod [OF wf_less_than wf_less_than]])
  case 1
  note st = 1(2) and ok = 1(3) and inv = 1(4,5) and cl = 1(6)
  show ?case
  proof (cases "cs_items st")
    case Nil
    then obtain st' where "cs_pop st = Some (None, st')" using chunked.pop_empty [OF st] by blast
    then have "collect_whites_loop vm in_ix release refs st lxr = Some lxr" by (subst collect_whites_loop.simps) simp
    then show ?thesis using inv cl Nil by (intro exI [of _ lxr] exI [of _ D]) auto
  next
    case (Cons x xs)
    obtain st' where pop: "cs_pop st = Some (Some x, st')" "cs_ok st'" "cs_items st' = xs" by (rule chunked.pop_item [OF st Cons])
    have x: "obj_ok x" using ok Cons by simp
    have white: "has_color x WHITE (lxr_mem lxr) \<longleftrightarrow> x \<in> W - D" using inv x by (auto simp: color_load freed_def Let_def colouring_def)
    obtain st1 lxr1 D1 where go: "collect_whites_loop vm in_ix release refs st lxr = collect_whites_loop vm in_ix release refs st1 lxr1"
      "freed vm in_ix W lxr0 D1 lxr1" "D \<subseteq> D1" "D1 \<subseteq> W" "x \<notin> W - D1" "cs_ok st1" "set xs \<subseteq> set (cs_items st1)"
      "\<And>x. x \<in> set (cs_items st1) \<Longrightarrow> obj_ok x" "\<And>x. x \<in> D1 \<Longrightarrow> set (refs x) \<inter> (W - D1) \<subseteq> set (cs_items st1)"
      "card (W - D1) < card (W - D) \<or> card (W - D1) = card (W - D) \<and> st1 = st'"
    proof (cases "x \<in> W - D")
      case False
      then have "collect_whites_loop vm in_ix release refs st lxr = collect_whites_loop vm in_ix release refs st' lxr"
        using pop(1) white by (subst collect_whites_loop.simps) auto
      moreover have "set (refs y) \<inter> (W - D) \<subseteq> set (cs_items st')" if "y \<in> D" for y using cl [OF that] False Cons pop(3) by auto
      ultimately show thesis using that [of st' lxr D] inv pop(2,3) ok Cons False by auto
    next
      case True
      obtain m1 m2 lxr1 where f: "sm_store U8 STRONG_RC_TABLE x 0 (lxr_mem lxr) = Some m1" "set_color x BLACK_OUT_OF_STACK m1 = Some m2"
        "cc_process_dead_object vm in_ix release x (lxr\<lparr>lxr_mem := m2\<rparr>) = Some (\<not> in_ix x, lxr1)" "freed vm in_ix W lxr0 (insert x D) lxr1"
        by (rule freed_step [OF inv(1) True x _ _ assms(4)]) (use True assms(2,3) in \<open>auto simp: sizes_ok_def\<close>)
      obtain st1 where st1: "foldM cs_push (refs x) st' = Some st1" "cs_ok st1" "cs_items st1 = rev (refs x) @ cs_items st'"
        using push_all [OF pop(2), of "refs x"] by blast
      have run: "collect_whites_loop vm in_ix release refs st lxr = collect_whites_loop vm in_ix release refs st1 lxr1"
        using pop(1) white True f(1-3) st1(1) by (subst collect_whites_loop.simps) (simp add: to_raw_address_def)
      have "card (W - insert x D) < card (W - D)" by (rule psubset_card_mono) (use True in auto)
      moreover have "set (refs y) \<inter> (W - insert x D) \<subseteq> set (cs_items st1)" if "y \<in> insert x D" for y
        using that cl [of y] st1(3) pop(3) Cons by auto
      moreover have "obj_ok y" if "y \<in> set (cs_items st1)" for y using that ok st1(3) pop(3) Cons assms(1) by (auto simp: refs_ok_def)
      ultimately show thesis using that [OF run f(4)] inv(2) True st1 pop(3) by auto
    qed
    have "\<exists>lxr' D'. collect_whites_loop vm in_ix release refs st1 lxr1 = Some lxr' \<and> freed vm in_ix W lxr0 D' lxr' \<and> D1 \<subseteq> D' \<and> D' \<subseteq> W \<and>
      set (cs_items st1) \<inter> (W - D') = {} \<and> (\<forall>x \<in> D'. set (refs x) \<inter> (W - D') = {})"
      by (rule 1(1)) (use go pop(3) Cons in auto)
    then obtain lxr' D' where fin: "collect_whites_loop vm in_ix release refs st1 lxr1 = Some lxr'" "freed vm in_ix W lxr0 D' lxr'" "D1 \<subseteq> D'" "D' \<subseteq> W"
      "set (cs_items st1) \<inter> (W - D') = {}" "\<forall>x \<in> D'. set (refs x) \<inter> (W - D') = {}" by blast
    have "set (cs_items st) \<inter> (W - D') = {}" using fin(3,5) go(5,7) Cons by auto
    then show ?thesis using go(1,3) fin by (intro exI [of _ lxr'] exI [of _ D']) auto
  qed
qed

lemma collect_all_ok:
  assumes "refs_ok refs" "\<And>x. x \<in> W \<Longrightarrow> obj_ok x \<and> counts (lxr_mem lxr0) x = 0" "sizes_ok vm {x \<in> W. in_ix x}" "releases_pages release"
    and "\<And>x. x \<in> set cs \<Longrightarrow> obj_ok x" "freed vm in_ix W lxr0 D lxr" "D \<subseteq> W" "\<And>x. x \<in> D \<Longrightarrow> set (refs x) \<inter> (W - D) = {}"
  shows "\<exists>lxr' D'. foldM (collect_whites vm in_ix release refs) cs lxr = Some lxr' \<and> freed vm in_ix W lxr0 D' lxr' \<and> D' \<subseteq> W \<and> D \<subseteq> D' \<and>
    set cs \<inter> (W - D') = {} \<and> (\<forall>x \<in> D'. set (refs x) \<inter> (W - D') = {})"
  using assms(5-)
proof (induction cs arbitrary: lxr D)
  case Nil
  then show ?case by auto
next
  case (Cons y cs)
  obtain st where st: "cs_push y cs_new = Some st" "cs_ok st" "cs_items st = [y]" using chunked.one_item [of y] by blast
  obtain lxr1 D1 where one: "collect_whites vm in_ix release refs y lxr = Some lxr1" "freed vm in_ix W lxr0 D1 lxr1" "D \<subseteq> D1" "D1 \<subseteq> W"
    "y \<notin> W - D1" "\<And>x. x \<in> D1 \<Longrightarrow> set (refs x) \<inter> (W - D1) = {}"
    using collect_whites_loop_ok [OF assms(1-4) st(2) _ Cons.prems(2,3)] Cons.prems(1,4) st(1,3) by (auto simp: collect_whites_def)
  obtain lxr' D' where two: "foldM (collect_whites vm in_ix release refs) cs lxr1 = Some lxr'" "freed vm in_ix W lxr0 D' lxr'" "D' \<subseteq> W" "D1 \<subseteq> D'"
    "set cs \<inter> (W - D') = {}" "\<forall>x \<in> D'. set (refs x) \<inter> (W - D') = {}"
    using Cons.IH [OF _ one(2,4,6)] Cons.prems(1) by auto
  have "set (y # cs) \<inter> (W - D') = {}" using two(4,5) one(5) by auto
  with one two show ?case by (intro exI [of _ lxr'] exI [of _ D']) auto
qed

section \<open>The work packet\<close>

text \<open>What the collector marks, and the marked objects that no reference from outside keeps alive.\<close>

definition cc_marked :: "(object_reference \<Rightarrow> object_reference list) \<Rightarrow> (object_reference \<Rightarrow> nat) \<Rightarrow> object_reference list \<Rightarrow> object_reference set" where
  "cc_marked refs c cs = reach refs {x \<in> set cs. 0 < c x}"

definition cc_garbage :: "(object_reference \<Rightarrow> object_reference list) \<Rightarrow> (object_reference \<Rightarrow> nat) \<Rightarrow> object_reference list \<Rightarrow> object_reference set" where
  "cc_garbage refs c cs = (let G = cc_marked refs c cs in G - reach refs {x \<in> G. c x = 255 \<or> edges refs G x < c x})"

lemma cc_garbage_live:
  assumes "\<And>x. c x \<le> 255"
  shows "cc_garbage refs c cs = cc_marked refs c cs - cc_live refs c (cc_marked refs c cs)"
proof -
  let ?G = "cc_marked refs c cs"
  have "{x \<in> ?G. c x = 255 \<or> edges refs ?G x < c x} = {x \<in> ?G. 0 < trial refs c ?G x}" by (auto simp: trial_def)
  then show ?thesis by (simp add: cc_garbage_def cc_live_def Let_def)
qed

lemma collect_candidates_ok:
  assumes "refs_ok refs" "\<And>x. x \<in> set cs \<Longrightarrow> obj_ok x" "W \<subseteq> reach refs (set cs)" "\<And>x. x \<in> reach refs (set cs) - W \<Longrightarrow> set (refs x) \<inter> W = {}"
    and "\<And>w. w \<in> W \<Longrightarrow> counts (lxr_mem lxr) w = 0" "sizes_ok vm {x \<in> W. in_ix x}" "releases_pages release"
    and "colours (lxr_mem lxr) = colouring {} W {}"
  shows "\<exists>lxr'. foldM (collect_whites vm in_ix release refs) cs lxr = Some lxr' \<and> freed vm in_ix W lxr W lxr'"
proof -
  have "freed vm in_ix W lxr {} lxr" using assms(8) by (simp add: freed_def queued_def same_tables_refl restrict_map_def)
  moreover have "obj_ok x \<and> counts (lxr_mem lxr) x = 0" if "x \<in> W" for x
    using that assms(3,5) reach_obj_ok [OF assms(1,2)] by blast
  ultimately obtain lxr' D where d: "foldM (collect_whites vm in_ix release refs) cs lxr = Some lxr'" "freed vm in_ix W lxr D lxr'" "D \<subseteq> W"
    "set cs \<inter> (W - D) = {}" "\<And>x. x \<in> D \<Longrightarrow> set (refs x) \<inter> (W - D) = {}"
    using collect_all_ok [OF assms(1) _ assms(6,7,2), of lxr cs "{}" lxr] by blast
  have "closed refs (reach refs (set cs) - (W - D))"
    using reach_closed [of refs "set cs"] assms(4) d(5) unfolding closed_def by blast
  then have "reach refs (set cs) \<subseteq> reach refs (set cs) - (W - D)" by (rule reach_least) (use d(4) reach_base [of "set cs" refs] in blast)
  then have "D = W" using d(3) assms(3) by blast
  then show ?thesis using d(1,2) by blast
qed

text \<open>
  C1. The cycle collector is exact. Let the objects reachable from the candidates with a non-zero count be marked, with counts that
  are at least the numbers of references from marked objects, and all colours black. Then the work packet returns with an empty
  list of candidates and all colours black again; the garbage is every marked object that cannot be reached from
  an object whose count is stuck or larger than the number of references from marked objects; the count of each object has lost exactly the
  references from garbage, except that the lines inside garbage objects are cleared; the strong counts of garbage are zero and those of
  the other marked objects are not; each block of the immix space with garbage in it that was not logged is queued once and
  logged, and the garbage outside of the immix space is no longer an object of the large object space. Every reference to a
  garbage object was counted, and comes from garbage.
\<close>

theorem cycle_collector_exact:
  assumes "refs_ok refs" "\<And>x. x \<in> set cs \<Longrightarrow> obj_ok x" "releases_pages release"
    and "consistent refs (counts (lxr_mem lxr)) (cc_marked refs (counts (lxr_mem lxr)) cs)" "colours (lxr_mem lxr) = (\<lambda>_. 0)"
    and "sizes_ok vm {x \<in> cc_garbage refs (counts (lxr_mem lxr)) cs. in_ix x}"
  shows "\<exists>lxr'. cc_do_work vm in_ix release refs cs lxr = Some (lxr', []) \<and>
    (let c = counts (lxr_mem lxr); G = cc_marked refs c cs; D = cc_garbage refs c cs; ix = {x \<in> D. in_ix x}; m = lxr_mem lxr' in
       colours m = (\<lambda>_. 0) \<and>
       counts m = (\<lambda>x. if x \<in> (\<Union>y \<in> ix. object_lines vm y) then 0 else if c x = 255 then 255 else c x - edges refs D x) \<and>
       (\<forall>x. x \<in> D \<longrightarrow> strong_counts m x = 0 \<and> c x < 255 \<and> c x = edges refs D x) \<and> (\<forall>x. x \<in> G - D \<longrightarrow> 0 < strong_counts m x) \<and>
       word_table IX_BLOCK_LOG m =
         (\<lambda>y. if obj_ok y \<and> Block_containing y \<in> Block_containing ` ix then 1 else word_table IX_BLOCK_LOG (lxr_mem lxr) y) \<and>
       queued (lxr_mem lxr) (Block_containing ` ix) (possibly_dead_mature_blocks lxr) (possibly_dead_mature_blocks lxr') \<and>
       rc_mature_objects (lxr_los lxr') = rc_mature_objects (lxr_los lxr) |` (- (D - ix)) \<and>
       same_tables {RC_TABLE, OBJ_COLOR_TABLE, STRONG_RC_TABLE, RC_STRADDLE_LINES, IX_BLOCK_LOG} (lxr_mem lxr) m)"
proof -
  let ?m = "lxr_mem lxr"
  let ?c = "counts ?m"
  let ?G = "cc_marked refs ?c cs" and ?D = "cc_garbage refs ?c cs"
  have c: "?c x \<le> 255" for x by (rule count_bounds)
  have "cc_tables refs ?c ?m (reach refs (set (take 0 cs))) {} {}"
    using assms(5) trial_empty [of ?c refs, OF c] by (simp add: cc_tables_def colouring_def [abs_def] reach_def)
  then obtain cs' m1 where one: "candidate_loop refs 0 cs ?m = Some (cs', m1)" "cc_tables refs ?c m1 (reach refs (set cs')) {} {}"
    "same_tables {RC_TABLE, OBJ_COLOR_TABLE} ?m m1" "set cs' \<subseteq> {x \<in> set cs. 0 < ?c x}" "{x \<in> set cs. 0 < ?c x} \<subseteq> reach refs (set cs')"
    using candidate_loop_ok [where refs = refs and c = ?c and cs = cs and m = ?m and i = 0] assms(1,2) c by auto
  have "{x \<in> set cs. 0 < ?c x} \<subseteq> reach refs {x \<in> set cs. 0 < ?c x}" by (rule reach_base)
  then have G: "reach refs (set cs') = ?G" unfolding cc_marked_def using one(4) reach_mono [OF one(5)] reach_mono [of "set cs'" refs] by blast
  have ok: "x \<in> set cs' \<Longrightarrow> obj_ok x" for x using one(4) assms(2) by blast
  have D: "?D = ?G - cc_live refs ?c ?G" by (rule cc_garbage_live [OF c])
  obtain m2 where two: "foldM (cc_scan refs) cs' m1 = Some m2" "cc_tables refs ?c m2 {} ?D {}"
    "same_tables {RC_TABLE, OBJ_COLOR_TABLE, STRONG_RC_TABLE} m1 m2" "\<And>x. x \<in> ?G - ?D \<Longrightarrow> 0 < strong_counts m2 x"
    "\<And>x. x \<in> ?G - ?D \<Longrightarrow> set (refs x) \<inter> ?D = {}" "\<And>x. x \<in> ?D \<Longrightarrow> counts m2 x = 0"
    using scan_candidates_ok [OF assms(1) _ ok one(2), unfolded G, folded D] assms(4) by blast
  have DG: "?D \<subseteq> ?G" using D by blast
  have "\<exists>lxr'. foldM (collect_whites vm in_ix release refs) cs' (lxr\<lparr>lxr_mem := m2\<rparr>) = Some lxr' \<and> freed vm in_ix ?D (lxr\<lparr>lxr_mem := m2\<rparr>) ?D lxr'"
    by (rule collect_candidates_ok [OF assms(1) ok]) (use two(2,5,6) assms(3,6) DG in \<open>simp_all add: G cc_tables_def\<close>)
  then obtain lxr' where three: "foldM (collect_whites vm in_ix release refs) cs' (lxr\<lparr>lxr_mem := m2\<rparr>) = Some lxr'"
    "freed vm in_ix ?D (lxr\<lparr>lxr_mem := m2\<rparr>) ?D lxr'" by blast
  have mem: "lxr_mem (lxr\<lparr>lxr_mem := m2\<rparr>) = m2" by simp
  note f = three(2) [unfolded freed_def Let_def mem]
  have eq: "word_table IX_BLOCK_LOG m2 = word_table IX_BLOCK_LOG ?m" "counts m2 = trial refs ?c ?D"
    using one(3) two(2,3) by (simp_all add: same_tables_def cc_tables_def)
  then have q: "queued m2 = queued ?m" by (simp add: queued_def fun_eq_iff)
  have same: "same_tables {RC_TABLE, OBJ_COLOR_TABLE, STRONG_RC_TABLE, RC_STRADDLE_LINES, IX_BLOCK_LOG} ?m (lxr_mem lxr')"
  proof -
    have "same_tables {RC_TABLE, OBJ_COLOR_TABLE, STRONG_RC_TABLE, RC_STRADDLE_LINES, IX_BLOCK_LOG} m2 (lxr_mem lxr')" using f by simp
    from same_tables_trans [OF one(3) same_tables_trans [OF two(3) this]] show ?thesis by (rule same_tables_mono) auto
  qed
  have dead: "?c x < 255 \<and> ?c x = edges refs ?D x" if "x \<in> ?D" for x
  proof -
    have "trial refs ?c ?D x = 0" using two(6) [OF that] eq(2) by simp
    then have "?c x \<noteq> 255" "?c x \<le> edges refs ?D x" by (auto simp: trial_def split: if_splits)
    moreover have "edges refs ?D x \<le> edges refs ?G x" by (rule edges_mono [OF DG])
    ultimately show ?thesis using c [of x] assms(4) unfolding consistent_def by (metis le_antisym le_neq_implies_less le_trans)
  qed
  have "cc_do_work vm in_ix release refs cs lxr = Some (lxr', [])" using one(1) two(1) three(1) by (simp add: cc_do_work_def)
  moreover have "colours (lxr_mem lxr') = (\<lambda>_. 0)" using f by (simp add: colouring_def [abs_def])
  moreover have "counts (lxr_mem lxr') = (\<lambda>x. if x \<in> (\<Union>y \<in> {x \<in> ?D. in_ix x}. object_lines vm y) then 0
      else if ?c x = 255 then 255 else ?c x - edges refs ?D x)"
    using f eq(2) by (simp add: trial_def cong: if_cong)
  moreover have "0 < strong_counts (lxr_mem lxr') x" if "x \<in> ?G - ?D" for x using f two(4) [OF that] that by simp
  moreover have "word_table IX_BLOCK_LOG (lxr_mem lxr') =
      (\<lambda>y. if obj_ok y \<and> Block_containing y \<in> Block_containing ` {x \<in> ?D. in_ix x} then 1 else word_table IX_BLOCK_LOG ?m y)"
    using f unfolding eq(1) by blast
  moreover have "strong_counts (lxr_mem lxr') x = 0" if "x \<in> ?D" for x using f that by simp
  moreover have "queued ?m (Block_containing ` {x \<in> ?D. in_ix x}) (possibly_dead_mature_blocks lxr) (possibly_dead_mature_blocks lxr')"
    using f q by simp
  moreover have "rc_mature_objects (lxr_los lxr') = rc_mature_objects (lxr_los lxr) |` (- (?D - {x \<in> ?D. in_ix x}))" using f by simp
  ultimately show ?thesis using same dead unfolding Let_def by (intro exI [of _ lxr'] conjI allI impI) blast+
qed

text \<open>Two objects that refer to each other, one of which also refers to a third object with another reference to it.\<close>

definition cc_example_refs :: "object_reference \<Rightarrow> object_reference list" where
  "cc_example_refs x = (if x = 0x20000000040 then [0x20000000048, 0x20000000050] else if x = 0x20000000048 then [0x20000000040] else [])"

definition cc_example_lxr :: "unit lxr_state" where
  "cc_example_lxr = \<lparr>lxr_mem = side_put RC_TABLE 0x20000000050 2 (side_put RC_TABLE 0x20000000048 1 (side_put RC_TABLE 0x20000000040 1 (\<lambda>_. 0))),
     possibly_dead_mature_blocks = [], lxr_los = los_new () False False\<rparr>"

lemma cc_example_tables:
  "counts (lxr_mem cc_example_lxr) = (\<lambda>_. 0)(0x20000000040 := 1, 0x20000000048 := 1, 0x20000000050 := 2)" "colours (lxr_mem cc_example_lxr) = (\<lambda>_. 0)"
proof -
  have "sm_load U8 t d (\<lambda>_. 0) = 0" if "t = RC_TABLE \<or> t = OBJ_COLOR_TABLE" for t d
    using that zero_table [of t d] by (auto simp: assert_value_type_def named_spec_bits)
  then have z: "counts (\<lambda>_. 0) = (\<lambda>_. 0)" "colours (\<lambda>_. 0) = (\<lambda>_. 0)" by (simp_all add: fun_eq_iff word_table_def side_load_value)
  note put = word_table_put [OF named_u8_specs(1) named_spec_bits(2)]
  show "counts (lxr_mem cc_example_lxr) = (\<lambda>_. 0)(0x20000000040 := 1, 0x20000000048 := 1, 0x20000000050 := 2)" "colours (lxr_mem cc_example_lxr) = (\<lambda>_. 0)"
    by (simp_all add: cc_example_lxr_def put z value_fits_def named_spec_bits obj_ok_def)
qed

lemma cc_example_sets:
  defines "c \<equiv> counts (lxr_mem cc_example_lxr)"
  shows "cc_marked cc_example_refs c [0x20000000040] = {0x20000000040, 0x20000000048, 0x20000000050}"
    "edges cc_example_refs {0x20000000040, 0x20000000048, 0x20000000050} x = (if x \<in> {0x20000000040, 0x20000000048, 0x20000000050} then 1 else 0)"
    "cc_garbage cc_example_refs c [0x20000000040] = {0x20000000040, 0x20000000048}"
proof -
  let ?G = "{0x20000000040, 0x20000000048, 0x20000000050} :: object_reference set"
  have "{x \<in> set [0x20000000040]. 0 < c x} = {0x20000000040}" by (auto simp: c_def cc_example_tables)
  moreover have "reach cc_example_refs {0x20000000040} \<subseteq> ?G" by (rule reach_least) (simp_all add: closed_def cc_example_refs_def)
  moreover have "0x20000000040 \<in> reach cc_example_refs {0x20000000040}" using reach_base [of "{0x20000000040}" cc_example_refs] by simp
  moreover from this have "0x20000000048 \<in> reach cc_example_refs {0x20000000040}" "0x20000000050 \<in> reach cc_example_refs {0x20000000040}"
    by (auto intro: reach_step simp: cc_example_refs_def)
  ultimately show marked: "cc_marked cc_example_refs c [0x20000000040] = ?G" by (auto simp: cc_marked_def)
  show ed: "edges cc_example_refs ?G x = (if x \<in> ?G then 1 else 0)" for x by (auto simp: edges_def cc_example_refs_def)
  have "{x \<in> ?G. c x = 255 \<or> edges cc_example_refs ?G x < c x} = {0x20000000050}" by (auto simp: ed c_def cc_example_tables)
  moreover have "reach cc_example_refs {0x20000000050} = {0x20000000050}" by (rule reach_closed_eq) (simp add: closed_def cc_example_refs_def)
  ultimately show "cc_garbage cc_example_refs c [0x20000000040] = {0x20000000040, 0x20000000048}"
    by (simp only: cc_garbage_def marked Let_def) auto
qed

theorem cycle_collector_exact_witness:
  "\<exists>lxr'. cc_do_work header_vm (\<lambda>_. True) (\<lambda>_ _ (pr, m). Some (0, pr, m)) cc_example_refs [0x20000000040] cc_example_lxr = Some (lxr', []) \<and>
     counts (lxr_mem lxr') 0x20000000040 = 0 \<and> counts (lxr_mem lxr') 0x20000000048 = 0 \<and> counts (lxr_mem lxr') 0x20000000050 = 1 \<and>
     0 < strong_counts (lxr_mem lxr') 0x20000000050"
proof -
  let ?c = "counts (lxr_mem cc_example_lxr)"
  have r: "refs_ok cc_example_refs" by (auto simp: refs_ok_def cc_example_refs_def obj_ok_def)
  have rel: "releases_pages (\<lambda>_ _ (pr :: unit, m). Some (0, pr, m))" by (auto simp: releases_pages_def same_tables_refl)
  have con: "consistent cc_example_refs ?c (cc_marked cc_example_refs ?c [0x20000000040])"
    unfolding cc_example_sets(1) by (simp add: consistent_def cc_example_sets(2) cc_example_tables)
  have sz: "get_current_size header_vm x \<le> Line_BYTES" for x by (simp add: header_vm_def Line_is_region)
  then have "object_lines header_vm x = {}" for x by (simp add: object_lines_def not_less [symmetric])
  moreover have "sizes_ok header_vm A" for A using sz by (auto simp: sizes_ok_def not_less [symmetric])
  moreover have "edges cc_example_refs {0x20000000040, 0x20000000048} 0x20000000050 = 1" by (simp add: edges_def cc_example_refs_def)
  ultimately show ?thesis
    using cycle_collector_exact [OF r _ rel con cc_example_tables(2), of header_vm "\<lambda>_. True", unfolded cc_example_sets Let_def]
    by (auto simp: cc_example_tables obj_ok_def edges_def cc_example_refs_def)
qed

end
