(* ===== verification/WorkBucket.thy ===== *)
theory WorkBucket
  imports Mmtk_Prelude "HOL-Library.Monad_Syntax"
begin

text \<open>
  Work buckets and the part of the scheduler that opens and closes them (\<open>scheduler/work_bucket.rs\<close>, \<open>scheduler/scheduler.rs\<close>).
  A work packet is an element of the type \<open>'w\<close>. The two queues of a bucket are lists, from which packets are taken at the head.
  The closure of an open condition is the list of stages that it captures. A notification of the workers is recorded in
  \<open>signals\<close>, with the argument of \<open>notify_work_available\<close>; \<open>WorkerMonitor\<close> says which workers it wakes.
\<close>

section \<open>Stages\<close>

datatype work_bucket_stage = Unconstrained | FinishConcurrentWork | Initial | Prepare | TPinningClosure | PinningRootsTrace | Closure
  | SoftRefClosure | WeakRefClosure | FinalRefClosure | PhantomRefClosure | VMRefClosure | CalculateForwarding | SecondRoots
  | RefForwarding | FinalizableForwarding | VMRefForwarding | Compact | Release | STWRCDecsAndSweep | CycleCollection | Final

definition stages :: "work_bucket_stage list" where
  "stages = [Unconstrained, FinishConcurrentWork, Initial, Prepare, TPinningClosure, PinningRootsTrace, Closure,
     SoftRefClosure, WeakRefClosure, FinalRefClosure, PhantomRefClosure, VMRefClosure, CalculateForwarding, SecondRoots,
     RefForwarding, FinalizableForwarding, VMRefForwarding, Compact, Release, STWRCDecsAndSweep, CycleCollection, Final]"

definition stage_LENGTH :: nat where "stage_LENGTH = 22"

text \<open>The position of a stage and the stage at a position, as the derived \<open>Enum\<close> instance has them.\<close>

definition from_usize :: "nat \<Rightarrow> work_bucket_stage" where
  "from_usize i = stages ! i"

fun into_usize :: "work_bucket_stage \<Rightarrow> nat" where
  "into_usize Unconstrained = 0" | "into_usize FinishConcurrentWork = 1" | "into_usize Initial = 2" | "into_usize Prepare = 3"
| "into_usize TPinningClosure = 4" | "into_usize PinningRootsTrace = 5" | "into_usize Closure = 6" | "into_usize SoftRefClosure = 7"
| "into_usize WeakRefClosure = 8" | "into_usize FinalRefClosure = 9" | "into_usize PhantomRefClosure = 10" | "into_usize VMRefClosure = 11"
| "into_usize CalculateForwarding = 12" | "into_usize SecondRoots = 13" | "into_usize RefForwarding = 14" | "into_usize FinalizableForwarding = 15"
| "into_usize VMRefForwarding = 16" | "into_usize Compact = 17" | "into_usize Release = 18" | "into_usize STWRCDecsAndSweep = 19"
| "into_usize CycleCollection = 20" | "into_usize Final = 21"

definition first_stw_stage :: work_bucket_stage where
  "first_stw_stage = from_usize 1"

section \<open>Buckets\<close>

record 'w work_bucket =
  wb_disable :: bool
  wb_active :: bool
  wb_queue :: "'w list"
  wb_prioritized_queue :: "'w list option"
  wb_can_open :: "work_bucket_stage list option"
  wb_sentinel :: "'w option"
  wb_in_concurrent :: bool

definition wb_new :: "bool \<Rightarrow> 'w work_bucket" where
  "wb_new active = \<lparr>wb_disable = False, wb_active = active, wb_queue = [], wb_prioritized_queue = None, wb_can_open = None,
     wb_sentinel = None, wb_in_concurrent = True\<rparr>"

definition set_in_concurrent :: "bool \<Rightarrow> 'w work_bucket \<Rightarrow> 'w work_bucket" where
  "set_in_concurrent in_concurrent self = self\<lparr>wb_in_concurrent := in_concurrent\<rparr>"

definition set_as_enabled :: "'w work_bucket \<Rightarrow> 'w work_bucket" where
  "set_as_enabled self = self\<lparr>wb_disable := False\<rparr>"

definition set_as_disabled :: "'w work_bucket \<Rightarrow> 'w work_bucket" where
  "set_as_disabled self = self\<lparr>wb_disable := True\<rparr>"

definition disabled :: "'w work_bucket \<Rightarrow> bool" where
  "disabled self = wb_disable self"

definition enable_prioritized_queue :: "'w work_bucket \<Rightarrow> 'w work_bucket" where
  "enable_prioritized_queue self = self\<lparr>wb_prioritized_queue := Some []\<rparr>"

definition swap_queue :: "'w list \<Rightarrow> 'w work_bucket \<Rightarrow> 'w list \<times> 'w work_bucket" where
  "swap_queue new_queue self = (wb_queue self, self\<lparr>wb_queue := new_queue\<rparr>)"

definition swap_queue_prioritized :: "'w list \<Rightarrow> 'w work_bucket \<Rightarrow> ('w list \<times> 'w work_bucket) option" where
  "swap_queue_prioritized new_queue self = do {
     q \<leftarrow> wb_prioritized_queue self;
     Some (q, self\<lparr>wb_prioritized_queue := Some new_queue\<rparr>) }"

definition is_activated :: "'w work_bucket \<Rightarrow> bool" where
  "is_activated self = wb_active self"

definition activate :: "'w work_bucket \<Rightarrow> 'w work_bucket" where
  "activate self = self\<lparr>wb_active := True\<rparr>"

definition wb_is_empty :: "'w work_bucket \<Rightarrow> bool" where
  "wb_is_empty self = (if disabled self then True
     else wb_queue self = [] \<and> (case wb_prioritized_queue self of None \<Rightarrow> True | Some q \<Rightarrow> q = []))"

definition is_drained :: "'w work_bucket \<Rightarrow> bool" where
  "is_drained self \<longleftrightarrow> is_activated self \<and> wb_is_empty self"

definition deactivate :: "'w work_bucket \<Rightarrow> 'w work_bucket" where
  "deactivate self = self\<lparr>wb_active := False\<rparr>"

definition add_boxed_no_notify :: "'w \<Rightarrow> 'w work_bucket \<Rightarrow> 'w work_bucket" where
  "add_boxed_no_notify work self = self\<lparr>wb_queue := wb_queue self @ [work]\<rparr>"

definition set_open_condition :: "work_bucket_stage list \<Rightarrow> 'w work_bucket \<Rightarrow> 'w work_bucket" where
  "set_open_condition pred self = self\<lparr>wb_can_open := Some pred\<rparr>"

definition wb_set_sentinel :: "'w \<Rightarrow> 'w work_bucket \<Rightarrow> 'w work_bucket" where
  "wb_set_sentinel new_sentinel self = self\<lparr>wb_sentinel := Some new_sentinel\<rparr>"

definition has_sentinel :: "'w work_bucket \<Rightarrow> bool" where
  "has_sentinel self \<longleftrightarrow> wb_sentinel self \<noteq> None"

definition maybe_schedule_sentinel :: "'w work_bucket \<Rightarrow> bool \<times> 'w work_bucket" where
  "maybe_schedule_sentinel self =
     (let maybe_sentinel = wb_sentinel self; self = self\<lparr>wb_sentinel := None\<rparr> in
      case maybe_sentinel of Some work \<Rightarrow> (True, add_boxed_no_notify work self) | None \<Rightarrow> (False, self))"

text \<open>
  Taking a packet from a queue moves a batch of further packets to the local buffer of the worker. How many is a choice of
  the queue, the parameter \<open>batch\<close>.
\<close>

definition steal_batch_and_pop :: "nat \<Rightarrow> 'w list \<Rightarrow> ('w \<times> 'w list \<times> 'w list) option" where
  "steal_batch_and_pop batch q = (case q of [] \<Rightarrow> None | w # ws \<Rightarrow> Some (w, take batch ws, drop batch ws))"

definition wb_poll :: "nat \<Rightarrow> 'w work_bucket \<Rightarrow> ('w \<times> 'w list \<times> 'w work_bucket) option" where
  "wb_poll batch self =
     (if disabled self \<or> \<not> is_activated self \<or> wb_is_empty self then None
      else case wb_prioritized_queue self of
        Some q \<Rightarrow> (case steal_batch_and_pop batch q of
            Some (w, ws, q) \<Rightarrow> Some (w, ws, self\<lparr>wb_prioritized_queue := Some q\<rparr>)
          | None \<Rightarrow> (case steal_batch_and_pop batch (wb_queue self) of
                Some (w, ws, q) \<Rightarrow> Some (w, ws, self\<lparr>wb_queue := q\<rparr>) | None \<Rightarrow> None))
      | None \<Rightarrow> (case steal_batch_and_pop batch (wb_queue self) of
            Some (w, ws, q) \<Rightarrow> Some (w, ws, self\<lparr>wb_queue := q\<rparr>) | None \<Rightarrow> None))"

section \<open>The scheduler\<close>

text \<open>Of the data that workers share the scheduler uses the queues of designated work.\<close>

record 'w gc_work_scheduler =
  work_buckets :: "work_bucket_stage \<Rightarrow> 'w work_bucket"
  designated_work :: "'w list list"
  postponed_concurrent_work :: "'w list"
  postponed_concurrent_work_prioritized :: "'w list"
  in_gc_pause :: bool
  bucket_update_progress :: nat
  PAUSE_CONCURRENT_MARKING :: bool
  MOVE_CONCURRENT_MARKING_TO_STW :: bool
  signals :: "bool list"

definition on_bucket :: "work_bucket_stage \<Rightarrow> ('w work_bucket \<Rightarrow> 'w work_bucket) \<Rightarrow> 'w gc_work_scheduler \<Rightarrow> 'w gc_work_scheduler" where
  "on_bucket b f s = s\<lparr>work_buckets := (work_buckets s)(b := f (work_buckets s b))\<rparr>"

definition notify_work_available :: "bool \<Rightarrow> 'w gc_work_scheduler \<Rightarrow> 'w gc_work_scheduler" where
  "notify_work_available all s = s\<lparr>signals := signals s @ [all]\<rparr>"

definition worker_count :: "'w gc_work_scheduler \<Rightarrow> nat" where
  "worker_count s = length (designated_work s)"

definition has_designated_work :: "'w gc_work_scheduler \<Rightarrow> bool" where
  "has_designated_work s \<longleftrightarrow> (\<exists>q \<in> set (designated_work s). q \<noteq> [])"

text \<open>The loop that sets the open conditions, over the stages from a position on.\<close>

fun open_condition_loop :: "work_bucket_stage list \<Rightarrow> work_bucket_stage list \<Rightarrow> (work_bucket_stage \<Rightarrow> 'w work_bucket) \<Rightarrow> work_bucket_stage \<Rightarrow> 'w work_bucket" where
  "open_condition_loop [] open_stages bs = bs"
| "open_condition_loop (stage # ss) open_stages bs =
     (if stage \<noteq> Unconstrained \<and> stage \<noteq> first_stw_stage
      then open_condition_loop ss (open_stages @ [stage]) (bs(stage := set_open_condition open_stages (bs stage)))
      else open_condition_loop ss open_stages bs)"

definition scheduler_new :: "nat \<Rightarrow> nat \<Rightarrow> 'w gc_work_scheduler option" where
  "scheduler_new num_workers num_conc_workers =
     (if num_conc_workers > 0 \<and> num_conc_workers \<le> num_workers \<and> num_workers > 0
      then (let bs = (\<lambda>stage. wb_new (stage = Unconstrained));
                bs = bs(Unconstrained := enable_prioritized_queue (bs Unconstrained));
                bs = open_condition_loop (map from_usize [0..<stage_LENGTH]) [first_stw_stage] bs
            in Some \<lparr>work_buckets = bs, designated_work = replicate num_workers [], postponed_concurrent_work = [],
                 postponed_concurrent_work_prioritized = [], in_gc_pause = False, bucket_update_progress = 0,
                 PAUSE_CONCURRENT_MARKING = False, MOVE_CONCURRENT_MARKING_TO_STW = False, signals = []\<rparr>)
      else None)"

definition are_buckets_drained :: "work_bucket_stage list \<Rightarrow> 'w gc_work_scheduler \<Rightarrow> bool" where
  "are_buckets_drained buckets s \<longleftrightarrow> (\<forall>b \<in> set buckets. is_drained (work_buckets s b) \<or> disabled (work_buckets s b))"

definition all_buckets_empty :: "'w gc_work_scheduler \<Rightarrow> bool" where
  "all_buckets_empty s \<longleftrightarrow> (\<forall>b \<in> set stages. wb_is_empty (work_buckets s b))"

definition notify_one_worker :: "work_bucket_stage \<Rightarrow> 'w gc_work_scheduler \<Rightarrow> 'w gc_work_scheduler" where
  "notify_one_worker b s = (if \<not> is_activated (work_buckets s b) then s else notify_work_available False s)"

definition notify_all_workers :: "work_bucket_stage \<Rightarrow> 'w gc_work_scheduler \<Rightarrow> 'w gc_work_scheduler" where
  "notify_all_workers b s = (if \<not> is_activated (work_buckets s b) then s else notify_work_available True s)"

definition wb_add_prioritized :: "work_bucket_stage \<Rightarrow> 'w \<Rightarrow> 'w gc_work_scheduler \<Rightarrow> 'w gc_work_scheduler option" where
  "wb_add_prioritized b work s = do {
     q \<leftarrow> wb_prioritized_queue (work_buckets s b);
     Some (notify_one_worker b (on_bucket b (\<lambda>self. self\<lparr>wb_prioritized_queue := Some (q @ [work])\<rparr>) s)) }"

definition wb_add :: "work_bucket_stage \<Rightarrow> 'w \<Rightarrow> 'w gc_work_scheduler \<Rightarrow> 'w gc_work_scheduler" where
  "wb_add b work s = notify_one_worker b (on_bucket b (\<lambda>self. self\<lparr>wb_queue := wb_queue self @ [work]\<rparr>) s)"

definition bulk_add_prioritized :: "work_bucket_stage \<Rightarrow> 'w list \<Rightarrow> 'w gc_work_scheduler \<Rightarrow> 'w gc_work_scheduler option" where
  "bulk_add_prioritized b work_vec s = do {
     q \<leftarrow> wb_prioritized_queue (work_buckets s b);
     let s = on_bucket b (\<lambda>self. self\<lparr>wb_prioritized_queue := Some (q @ work_vec)\<rparr>) s;
     Some (if is_activated (work_buckets s b) then notify_all_workers b s else s) }"

definition bulk_add :: "work_bucket_stage \<Rightarrow> 'w list \<Rightarrow> 'w gc_work_scheduler \<Rightarrow> 'w gc_work_scheduler" where
  "bulk_add b work_vec s =
     (if work_vec = [] then s
      else let len = length work_vec; s = on_bucket b (\<lambda>self. self\<lparr>wb_queue := wb_queue self @ work_vec\<rparr>) s in
        if is_activated (work_buckets s b) then (if len = 1 then notify_one_worker b s else notify_all_workers b s) else s)"

definition wb_update :: "work_bucket_stage \<Rightarrow> 'w gc_work_scheduler \<Rightarrow> bool \<times> 'w gc_work_scheduler" where
  "wb_update b s = (case wb_can_open (work_buckets s b) of
       Some can_open \<Rightarrow>
         (if \<not> is_activated (work_buckets s b) \<and> are_buckets_drained can_open s then (True, on_bucket b activate s) else (False, s))
     | None \<Rightarrow> (False, s))"

definition schedule_sentinel :: "work_bucket_stage \<Rightarrow> 'w gc_work_scheduler \<Rightarrow> bool \<times> 'w gc_work_scheduler" where
  "schedule_sentinel b s = (let (r, self) = maybe_schedule_sentinel (work_buckets s b) in (r, on_bucket b (\<lambda>_. self) s))"

fun sentinels_loop :: "work_bucket_stage list \<Rightarrow> bool \<Rightarrow> 'w gc_work_scheduler \<Rightarrow> bool \<times> 'w gc_work_scheduler" where
  "sentinels_loop [] new_packets s = (new_packets, s)"
| "sentinels_loop (b # bs) new_packets s =
     (if is_activated (work_buckets s b)
      then (let (r, s) = schedule_sentinel b s in sentinels_loop bs (new_packets \<or> r) s)
      else sentinels_loop bs new_packets s)"

definition schedule_sentinels :: "'w gc_work_scheduler \<Rightarrow> bool \<times> 'w gc_work_scheduler" where
  "schedule_sentinels s = sentinels_loop stages False s"

text \<open>The loop over the stages from a position on returns \<open>buckets_updated\<close>, \<open>new_packets\<close>, \<open>new_progress\<close> and the scheduler.\<close>

function update_loop :: "nat \<Rightarrow> bool \<Rightarrow> 'w gc_work_scheduler \<Rightarrow> bool \<times> bool \<times> nat \<times> 'w gc_work_scheduler" where
  "update_loop i buckets_updated s =
     (if i < stage_LENGTH
      then (let id = from_usize i in
            if id = Unconstrained then update_loop (i + 1) buckets_updated s
            else if disabled (work_buckets s id) \<or> is_activated (work_buckets s id) then update_loop (i + 1) buckets_updated s
            else let (bucket_opened, s) = wb_update id s; buckets_updated = (buckets_updated \<or> bucket_opened) in
              if bucket_opened
              then (let new_packets = (\<not> is_drained (work_buckets s id));
                        (new_packets, s) = (if new_packets then (True, s) else schedule_sentinel id s)
                    in if new_packets then (buckets_updated, True, i, s) else update_loop (i + 1) buckets_updated s)
              else update_loop (i + 1) buckets_updated s)
      else (buckets_updated, False, stage_LENGTH, s))"
  by pat_completeness auto

termination
  by (relation "measure (\<lambda>(i, u, s). stage_LENGTH - i)") auto

declare update_loop.simps [simp del]

definition update_buckets :: "'w gc_work_scheduler \<Rightarrow> bool \<times> 'w gc_work_scheduler" where
  "update_buckets s =
     (let start_index = bucket_update_progress s + 1;
          (buckets_updated, new_packets, new_progress, s) = update_loop start_index False s;
          s = (if buckets_updated \<and> new_packets then s\<lparr>bucket_update_progress := new_progress\<rparr> else s\<lparr>bucket_update_progress := 0\<rparr>)
      in (buckets_updated \<and> new_packets, s))"

definition deactivate_all :: "'w gc_work_scheduler \<Rightarrow> 'w gc_work_scheduler" where
  "deactivate_all s = s\<lparr>work_buckets := (\<lambda>b. if b \<noteq> Unconstrained then set_as_enabled (deactivate (work_buckets s b)) else work_buckets s b),
     bucket_update_progress := 0\<rparr>"

definition reset_state :: "'w gc_work_scheduler \<Rightarrow> 'w gc_work_scheduler" where
  "reset_state s = s\<lparr>work_buckets := (\<lambda>b. if b \<noteq> Unconstrained \<and> b \<noteq> first_stw_stage then set_as_enabled (deactivate (work_buckets s b))
       else work_buckets s b), bucket_update_progress := 0\<rparr>"

definition assert_all_activated_buckets_are_empty :: "'w gc_work_scheduler \<Rightarrow> unit option" where
  "assert_all_activated_buckets_are_empty s =
     (if \<exists>b \<in> set stages. is_activated (work_buckets s b) \<and> \<not> wb_is_empty (work_buckets s b) then None else Some ())"

definition set_in_gc_pause :: "bool \<Rightarrow> 'w gc_work_scheduler \<Rightarrow> 'w gc_work_scheduler" where
  "set_in_gc_pause pause s = s\<lparr>in_gc_pause := pause, work_buckets := (\<lambda>b. set_in_concurrent (\<not> pause) (work_buckets s b))\<rparr>"

definition in_concurrent :: "'w gc_work_scheduler \<Rightarrow> bool" where
  "in_concurrent s \<longleftrightarrow> \<not> in_gc_pause s"

definition find_more_work_for_workers :: "'w gc_work_scheduler \<Rightarrow> bool \<times> 'w gc_work_scheduler" where
  "find_more_work_for_workers s =
     (if has_designated_work s then (True, s)
      else let (r, s) = schedule_sentinels s in
        if r then (True, s) else update_buckets s)"

section \<open>Concurrent work\<close>

definition pause_concurrent_marking_work_packets_during_gc :: "'w gc_work_scheduler \<Rightarrow> 'w gc_work_scheduler" where
  "pause_concurrent_marking_work_packets_during_gc s =
     (let (unconstrained_queue, b) = swap_queue [] (work_buckets s Unconstrained); s = on_bucket Unconstrained (\<lambda>_. b) s
      in s\<lparr>postponed_concurrent_work := postponed_concurrent_work s @ unconstrained_queue, PAUSE_CONCURRENT_MARKING := True\<rparr>)"

definition process_lazy_decrement_packets :: "('w \<Rightarrow> bool) \<Rightarrow> 'w gc_work_scheduler \<Rightarrow> 'w gc_work_scheduler" where
  "process_lazy_decrement_packets is_concurrent_marking_work s =
     (let q = postponed_concurrent_work_prioritized s;
          no_postpone = filter (\<lambda>w. \<not> is_concurrent_marking_work w) q;
          cm_packets = filter is_concurrent_marking_work q;
          s = s\<lparr>postponed_concurrent_work_prioritized := cm_packets\<rparr>
      in if no_postpone \<noteq> [] then bulk_add STWRCDecsAndSweep no_postpone s else s)"

definition postpone :: "'w \<Rightarrow> 'w gc_work_scheduler \<Rightarrow> 'w gc_work_scheduler" where
  "postpone w s = s\<lparr>postponed_concurrent_work := postponed_concurrent_work s @ [w]\<rparr>"

definition postpone_prioritized :: "'w \<Rightarrow> 'w gc_work_scheduler \<Rightarrow> 'w gc_work_scheduler" where
  "postpone_prioritized w s = s\<lparr>postponed_concurrent_work_prioritized := postponed_concurrent_work_prioritized s @ [w]\<rparr>"

definition postpone_all :: "'w list \<Rightarrow> 'w gc_work_scheduler \<Rightarrow> 'w gc_work_scheduler" where
  "postpone_all ws s = s\<lparr>postponed_concurrent_work := postponed_concurrent_work s @ ws\<rparr>"

definition postpone_all_prioritized :: "'w list \<Rightarrow> 'w gc_work_scheduler \<Rightarrow> 'w gc_work_scheduler" where
  "postpone_all_prioritized ws s = s\<lparr>postponed_concurrent_work_prioritized := postponed_concurrent_work_prioritized s @ ws\<rparr>"

definition schedule_postponed_concurrent_packets :: "'w gc_work_scheduler \<Rightarrow> ('w list \<times> 'w list) \<times> 'w gc_work_scheduler" where
  "schedule_postponed_concurrent_packets s =
     ((postponed_concurrent_work s, postponed_concurrent_work_prioritized s),
      s\<lparr>postponed_concurrent_work := [], postponed_concurrent_work_prioritized := []\<rparr>)"

definition wakeup_all_conc_workers :: "'w gc_work_scheduler \<Rightarrow> 'w gc_work_scheduler" where
  "wakeup_all_conc_workers s = notify_work_available True s"

definition schedule_concurrent_packets :: "'w list \<Rightarrow> 'w list \<Rightarrow> 'w gc_work_scheduler \<Rightarrow> 'w gc_work_scheduler option" where
  "schedule_concurrent_packets queue pqueue s = do {
     let s = s\<lparr>MOVE_CONCURRENT_MARKING_TO_STW := False, PAUSE_CONCURRENT_MARKING := False\<rparr>;
     let s = (if queue \<noteq> [] then on_bucket Unconstrained (\<lambda>b. snd (swap_queue queue b)) s else s);
     s \<leftarrow> (if pqueue \<noteq> [] then do {
              (_, b) \<leftarrow> swap_queue_prioritized pqueue (work_buckets s Unconstrained);
              Some (on_bucket Unconstrained (\<lambda>_. b) s) }
            else Some s);
     Some (if queue \<noteq> [] \<or> pqueue \<noteq> [] then wakeup_all_conc_workers s else s) }"

section \<open>Opening buckets\<close>

lemma stage_index [simp]:
  "i < stage_LENGTH \<Longrightarrow> into_usize (from_usize i) = i" "from_usize (into_usize b) = b" "into_usize b < stage_LENGTH" "b \<in> set stages"
proof -
  have "map into_usize stages = [0..<22]" by (simp add: stages_def upt_rec)
  moreover have "length stages = 22" by (simp add: stages_def)
  ultimately show "i < stage_LENGTH \<Longrightarrow> into_usize (from_usize i) = i"
    using nth_map [of i stages into_usize] by (simp add: from_usize_def stage_LENGTH_def)
qed (cases b; simp add: from_usize_def stages_def stage_LENGTH_def)+

lemma stage_eq_iff: "i < stage_LENGTH \<Longrightarrow> b = from_usize i \<longleftrightarrow> into_usize b = i"
  by auto

lemma into_usize_0 [simp]: "into_usize b = 0 \<longleftrightarrow> b = Unconstrained" "0 < into_usize b \<longleftrightarrow> b \<noteq> Unconstrained" "Suc 0 \<le> into_usize b \<longleftrightarrow> b \<noteq> Unconstrained"
  by (cases b; simp)+

lemmas bucket_defs = disabled_def is_activated_def wb_is_empty_def is_drained_def activate_def deactivate_def set_as_enabled_def set_as_disabled_def
  set_in_concurrent_def has_sentinel_def

text \<open>
  The invariant of the scheduler: the first bucket is open and is the one with a prioritized queue, a stage is opened under the condition
  that all stages before it are drained, and the open stages come before the closed ones, disabled stages apart.
\<close>

definition passed :: "'w gc_work_scheduler \<Rightarrow> work_bucket_stage \<Rightarrow> bool" where
  "passed s b \<longleftrightarrow> is_activated (work_buckets s b) \<or> disabled (work_buckets s b)"

definition sched_ok :: "'w gc_work_scheduler \<Rightarrow> bool" where
  "sched_ok s \<longleftrightarrow>
     (\<forall>b. wb_can_open (work_buckets s b) = (if into_usize b \<le> 1 then None else Some (map from_usize [1..<into_usize b]))) \<and>
     (\<forall>b. wb_prioritized_queue (work_buckets s b) = None \<longleftrightarrow> b \<noteq> Unconstrained) \<and>
     is_activated (work_buckets s Unconstrained) \<and> \<not> disabled (work_buckets s Unconstrained) \<and>
     (\<forall>a b. is_activated (work_buckets s b) \<longrightarrow> 0 < into_usize a \<longrightarrow> into_usize a < into_usize b \<longrightarrow> passed s a) \<and>
     (\<forall>a. 0 < into_usize a \<longrightarrow> into_usize a \<le> bucket_update_progress s \<longrightarrow> passed s a) \<and> bucket_update_progress s < stage_LENGTH"

text \<open>A closed stage that has work for the workers when it is opened.\<close>

definition wb_pending :: "'w gc_work_scheduler \<Rightarrow> work_bucket_stage \<Rightarrow> bool" where
  "wb_pending s b \<longleftrightarrow> \<not> passed s b \<and> (\<not> wb_is_empty (work_buckets s b) \<or> has_sentinel (work_buckets s b))"

definition open_range :: "nat \<Rightarrow> nat \<Rightarrow> 'w gc_work_scheduler \<Rightarrow> 'w gc_work_scheduler" where
  "open_range i j s = s\<lparr>work_buckets := (\<lambda>b. if i \<le> into_usize b \<and> into_usize b < j \<and> \<not> disabled (work_buckets s b)
     then activate (work_buckets s b) else work_buckets s b)\<rparr>"

definition start_stage :: "work_bucket_stage \<Rightarrow> 'w gc_work_scheduler \<Rightarrow> 'w gc_work_scheduler" where
  "start_stage b s = (if wb_is_empty (work_buckets s b) then snd (schedule_sentinel b s) else s)"

lemma sched_eqI:
  assumes "\<And>b. work_buckets s b = work_buckets t b" "s\<lparr>work_buckets := f\<rparr> = t\<lparr>work_buckets := f\<rparr>"
  shows "s = t"
  using assms by (cases s; cases t) auto

lemma open_range_skip:
  assumes "i < stage_LENGTH" "passed s (from_usize i)"
  shows "open_range (Suc i) j s = open_range i j s"
proof -
  have "(if Suc i \<le> into_usize b \<and> into_usize b < j \<and> \<not> disabled (work_buckets s b) then activate (work_buckets s b) else work_buckets s b) =
    (if i \<le> into_usize b \<and> into_usize b < j \<and> \<not> disabled (work_buckets s b) then activate (work_buckets s b) else work_buckets s b)" for b
  proof (cases "into_usize b = i")
    case True
    then have "b = from_usize i" using assms(1) by (simp add: stage_eq_iff)
    with assms(2) show ?thesis by (auto simp: passed_def bucket_defs)
  qed (auto simp: le_less)
  then show ?thesis by (simp add: open_range_def)
qed

lemma open_range_step:
  assumes "i < stage_LENGTH" "\<not> disabled (work_buckets s (from_usize i))" "i < j"
  shows "open_range (Suc i) j (on_bucket (from_usize i) activate s) = open_range i j s"
  by (rule sched_eqI [where f = "work_buckets s"]) (use assms in \<open>auto simp: open_range_def on_bucket_def bucket_defs stage_eq_iff\<close>)

lemma open_range_empty [simp]: "open_range i i s = s"
  by (rule sched_eqI [where f = "work_buckets s"]) (auto simp: open_range_def)

lemma wb_update_opens:
  assumes "sched_ok s" "i < stage_LENGTH" "2 \<le> i" "\<not> passed s (from_usize i)"
    and "\<And>b. 0 < into_usize b \<Longrightarrow> into_usize b < i \<Longrightarrow> passed s b" "\<And>b. is_activated (work_buckets s b) \<Longrightarrow> wb_is_empty (work_buckets s b)"
  shows "wb_update (from_usize i) s = (True, on_bucket (from_usize i) activate s)"
proof -
  have "wb_can_open (work_buckets s (from_usize i)) = Some (map from_usize [1..<i])" using assms(1-3) by (simp add: sched_ok_def)
  moreover have "is_drained (work_buckets s (from_usize k)) \<or> disabled (work_buckets s (from_usize k))" if "1 \<le> k" "k < i" for k
    using assms(5) [of "from_usize k"] assms(6) [of "from_usize k"] that assms(2) by (auto simp: passed_def is_drained_def)
  ultimately show ?thesis using assms(4) by (auto simp: wb_update_def are_buckets_drained_def passed_def)
qed

lemma update_loop_ok:
  assumes "sched_ok s" "passed s first_stw_stage" "1 \<le> i" "i \<le> stage_LENGTH"
    and "\<And>b. 0 < into_usize b \<Longrightarrow> into_usize b < i \<Longrightarrow> passed s b" "\<And>b. is_activated (work_buckets s b) \<Longrightarrow> wb_is_empty (work_buckets s b)"
  shows "(\<exists>j. i \<le> j \<and> j < stage_LENGTH \<and> wb_pending s (from_usize j) \<and> (\<forall>k. i \<le> k \<longrightarrow> k < j \<longrightarrow> \<not> wb_pending s (from_usize k)) \<and>
      update_loop i u s = (True, True, j, start_stage (from_usize j) (open_range i (Suc j) s))) \<or>
    (\<exists>u'. (\<forall>k. i \<le> k \<longrightarrow> k < stage_LENGTH \<longrightarrow> \<not> wb_pending s (from_usize k)) \<and>
      update_loop i u s = (u', False, stage_LENGTH, open_range i stage_LENGTH s))" (is "?found i u s \<or> ?none i u s")
  using assms
proof (induction "stage_LENGTH - i" arbitrary: i u s)
  case 0
  then have "i = stage_LENGTH" by simp
  then show ?case by (simp add: update_loop.simps)
next
  case (Suc n)
  let ?b = "from_usize i"
  have i: "i < stage_LENGTH" using Suc.hyps(2) by simp
  then have nu: "?b \<noteq> Unconstrained" using Suc.prems(3) by (metis into_usize_0(1) not_one_le_zero stage_index(1))
  have extend: "?found i u s \<or> ?none i u s"
    if same: "\<And>v. update_loop i v s = update_loop (Suc i) (v \<or> o') t" and ih: "?found (Suc i) (u \<or> o') t \<or> ?none (Suc i) (u \<or> o') t"
      and np: "\<not> wb_pending s ?b" and pend: "\<And>k. Suc i \<le> k \<Longrightarrow> k < stage_LENGTH \<Longrightarrow> wb_pending t (from_usize k) = wb_pending s (from_usize k)"
      and rng: "\<And>j. i < j \<Longrightarrow> open_range (Suc i) j t = open_range i j s" for t o'
    using ih
  proof
    assume "?found (Suc i) (u \<or> o') t"
    then obtain j where j: "Suc i \<le> j" "j < stage_LENGTH" "wb_pending t (from_usize j)" "\<forall>k. Suc i \<le> k \<longrightarrow> k < j \<longrightarrow> \<not> wb_pending t (from_usize k)"
      "update_loop (Suc i) (u \<or> o') t = (True, True, j, start_stage (from_usize j) (open_range (Suc i) (Suc j) t))" by blast
    have "\<not> wb_pending s (from_usize k)" if "i \<le> k" "k < j" for k
      using that np pend [of k] j(2,4) by (cases "k = i") auto
    then have "?found i u s" using same rng pend [of j] j by (intro exI [of _ j]) auto
    then show ?thesis ..
  next
    assume "?none (Suc i) (u \<or> o') t"
    then obtain u' where none: "\<forall>k. Suc i \<le> k \<longrightarrow> k < stage_LENGTH \<longrightarrow> \<not> wb_pending t (from_usize k)"
      "update_loop (Suc i) (u \<or> o') t = (u', False, stage_LENGTH, open_range (Suc i) stage_LENGTH t)" by blast
    have "\<not> wb_pending s (from_usize k)" if "i \<le> k" "k < stage_LENGTH" for k
      using that np pend [of k] none(1) by (cases "k = i") auto
    then have "?none i u s" using same rng [OF i] none(2) by auto
    then show ?thesis ..
  qed
  show ?case
  proof (cases "passed s ?b")
    case True
    then have "\<not> wb_pending s ?b" by (simp add: wb_pending_def)
    moreover have "update_loop i v s = update_loop (Suc i) (v \<or> False) s" for v using i nu True by (subst update_loop.simps) (auto simp: passed_def Let_def)
    moreover have "?found (Suc i) (u \<or> False) s \<or> ?none (Suc i) (u \<or> False) s"
      by (rule Suc.hyps(1)) (use Suc.hyps(2) Suc.prems True i in \<open>auto simp: less_Suc_eq dest: stage_eq_iff [THEN iffD2]\<close>)
    ultimately show ?thesis by (intro extend [of False s]) (use open_range_skip [OF i True] in auto)
  next
    case False
    then have "i \<noteq> 1" using Suc.prems(2) by (auto simp: first_stw_stage_def)
    then have opens: "wb_update ?b s = (True, on_bucket ?b activate s)" using Suc.prems(3) by (intro wb_update_opens Suc.prems i False) auto
    let ?t = "on_bucket ?b activate s"
    have dr: "is_drained (work_buckets ?t ?b) \<longleftrightarrow> wb_is_empty (work_buckets s ?b)" "wb_is_empty (work_buckets ?t ?b) \<longleftrightarrow> wb_is_empty (work_buckets s ?b)"
      by (simp_all add: on_bucket_def bucket_defs)
    have rng1: "open_range i (Suc i) s = ?t" using open_range_step [OF i, of s "Suc i"] False by (simp add: passed_def)
    have run: "update_loop i u s = (if \<not> wb_is_empty (work_buckets s ?b) then (True, True, i, ?t)
        else if has_sentinel (work_buckets s ?b) then (True, True, i, snd (schedule_sentinel ?b ?t)) else update_loop (Suc i) True (snd (schedule_sentinel ?b ?t)))" for u
      using i nu False opens dr
      by (subst update_loop.simps)
        (auto simp: passed_def Let_def schedule_sentinel_def maybe_schedule_sentinel_def has_sentinel_def on_bucket_def activate_def split: option.splits)
    show ?thesis
    proof (cases "wb_pending s ?b")
      case True
      have "update_loop i u s = (True, True, i, start_stage ?b (open_range i (Suc i) s))"
        using run [of u] True rng1 dr by (auto simp: start_stage_def wb_pending_def)
      then show ?thesis using i True by auto
    next
      case np: False
      then have e: "wb_is_empty (work_buckets s ?b)" "wb_sentinel (work_buckets s ?b) = None" using False by (auto simp: wb_pending_def has_sentinel_def)
      have "snd (schedule_sentinel ?b ?t) = ?t"
        by (rule sched_eqI [where f = "work_buckets s"]) (use e in \<open>auto simp: schedule_sentinel_def maybe_schedule_sentinel_def on_bucket_def activate_def\<close>)
      then have same: "update_loop i v s = update_loop (Suc i) (v \<or> True) ?t" for v using run [of v] e by (simp add: has_sentinel_def)
      have bk: "work_buckets ?t b = (if b = ?b then activate (work_buckets s b) else work_buckets s b)" for b by (simp add: on_bucket_def)
      have act: "is_activated (work_buckets ?t b) \<longleftrightarrow> b = ?b \<or> is_activated (work_buckets s b)" "passed ?t b \<longleftrightarrow> b = ?b \<or> passed s b" for b
        by (auto simp: bk passed_def bucket_defs)
      have "?found (Suc i) (u \<or> True) ?t \<or> ?none (Suc i) (u \<or> True) ?t"
      proof (rule Suc.hyps(1))
        have "bucket_update_progress ?t = bucket_update_progress s" by (simp add: on_bucket_def)
        then show "sched_ok ?t" using Suc.prems(1,5) i nu
          unfolding sched_ok_def act by (auto simp: bk bucket_defs passed_def [of s])
        show "passed ?t first_stw_stage" using Suc.prems(2) act by simp
        show "passed ?t b" if "0 < into_usize b" "into_usize b < Suc i" for b using that Suc.prems(5) [of b] i by (auto simp: act less_Suc_eq stage_eq_iff)
        show "wb_is_empty (work_buckets ?t b)" if "is_activated (work_buckets ?t b)" for b
          using that Suc.prems(6) [of b] e by (auto simp: bk bucket_defs split: if_splits)
      qed (use Suc.hyps(2) i in auto)
      moreover have "wb_pending ?t (from_usize k) = wb_pending s (from_usize k)" if "Suc i \<le> k" "k < stage_LENGTH" for k
        using that i by (auto simp: wb_pending_def act bk stage_eq_iff)
      ultimately show ?thesis by (intro extend [OF same _ np]) (use open_range_step [OF i] False in \<open>auto simp: passed_def\<close>)
    qed
  qed
qed

definition open_drained :: "'w gc_work_scheduler \<Rightarrow> bool" where
  "open_drained s \<longleftrightarrow> (\<forall>b. is_activated (work_buckets s b) \<longrightarrow> wb_is_empty (work_buckets s b))"

lemma open_range_passed:
  assumes "\<And>b. i \<le> into_usize b \<Longrightarrow> into_usize b < i' \<Longrightarrow> passed s b" "i \<le> i'"
  shows "open_range i j s = open_range i' j s"
proof (rule sched_eqI [where f = "work_buckets s"])
  show "work_buckets (open_range i j s) b = work_buckets (open_range i' j s) b" for b
    using assms(1) [of b] assms(2) by (cases "into_usize b < i'") (auto simp: open_range_def passed_def bucket_defs)
qed (simp add: open_range_def)

lemma open_range_progress [simp]:
  "open_range i j (s\<lparr>bucket_update_progress := p\<rparr>) = (open_range i j s)\<lparr>bucket_update_progress := p\<rparr>"
  "start_stage b (s\<lparr>bucket_update_progress := p\<rparr>) = (start_stage b s)\<lparr>bucket_update_progress := p\<rparr>"
  by (simp_all add: open_range_def start_stage_def schedule_sentinel_def on_bucket_def Let_def case_prod_beta cong: if_cong)

lemma wb_sentinel_fields [simp]:
  "wb_active (snd (maybe_schedule_sentinel b)) = wb_active b" "wb_disable (snd (maybe_schedule_sentinel b)) = wb_disable b"
  "wb_can_open (snd (maybe_schedule_sentinel b)) = wb_can_open b"
  "wb_prioritized_queue (snd (maybe_schedule_sentinel b)) = wb_prioritized_queue b"
  "wb_queue (snd (maybe_schedule_sentinel b)) = wb_queue b @ (case wb_sentinel b of None \<Rightarrow> [] | Some w \<Rightarrow> [w])"
  "fst (maybe_schedule_sentinel b) = has_sentinel b"
  by (simp_all add: maybe_schedule_sentinel_def add_boxed_no_notify_def has_sentinel_def Let_def split: option.splits)

lemma start_stage_bucket:
  "work_buckets (start_stage b s) c =
     (if c = b \<and> wb_is_empty (work_buckets s b) then snd (maybe_schedule_sentinel (work_buckets s b)) else work_buckets s c)"
  "is_activated (work_buckets (start_stage b s) c) \<longleftrightarrow> is_activated (work_buckets s c)"
  "disabled (work_buckets (start_stage b s) c) \<longleftrightarrow> disabled (work_buckets s c)"
  "wb_can_open (work_buckets (start_stage b s) c) = wb_can_open (work_buckets s c)"
  "wb_prioritized_queue (work_buckets (start_stage b s) c) = wb_prioritized_queue (work_buckets s c)"
  "bucket_update_progress (start_stage b s) = bucket_update_progress s"
  by (auto simp: start_stage_def schedule_sentinel_def on_bucket_def case_prod_beta disabled_def is_activated_def)

lemma start_stage_other: "c \<noteq> b \<Longrightarrow> work_buckets (start_stage b s) c = work_buckets s c"
  by (simp add: start_stage_bucket(1))

lemma open_range_bucket:
  "is_activated (work_buckets (open_range i j s) b) \<longleftrightarrow>
     is_activated (work_buckets s b) \<or> i \<le> into_usize b \<and> into_usize b < j \<and> \<not> disabled (work_buckets s b)"
  "disabled (work_buckets (open_range i j s) b) \<longleftrightarrow> disabled (work_buckets s b)"
  "wb_is_empty (work_buckets (open_range i j s) b) \<longleftrightarrow> wb_is_empty (work_buckets s b)"
  "wb_sentinel (work_buckets (open_range i j s) b) = wb_sentinel (work_buckets s b)"
  "wb_can_open (work_buckets (open_range i j s) b) = wb_can_open (work_buckets s b)"
  "wb_prioritized_queue (work_buckets (open_range i j s) b) = wb_prioritized_queue (work_buckets s b)"
  "bucket_update_progress (open_range i j s) = bucket_update_progress s"
  by (auto simp: open_range_def bucket_defs)

lemma update_buckets_cases:
  assumes "sched_ok s" "passed s first_stw_stage" "open_drained s"
  obtains (found) b where "wb_pending s b" "\<And>a. wb_pending s a \<Longrightarrow> into_usize b \<le> into_usize a"
      "update_buckets s = (True, (start_stage b (open_range 1 (Suc (into_usize b)) s))\<lparr>bucket_update_progress := into_usize b\<rparr>)"
  | (none) "\<And>b. \<not> wb_pending s b" "update_buckets s = (False, (open_range 1 stage_LENGTH s)\<lparr>bucket_update_progress := 0\<rparr>)"
proof -
  let ?p = "bucket_update_progress s"
  have p: "?p < stage_LENGTH" "\<And>b. 0 < into_usize b \<Longrightarrow> into_usize b \<le> ?p \<Longrightarrow> passed s b" "passed s Unconstrained"
    using assms(1) by (auto simp: sched_ok_def passed_def)
  have np: "\<not> wb_pending s b" if "into_usize b \<le> ?p" for b using p(2,3) that by (cases "into_usize b = 0") (auto simp: wb_pending_def)
  have rng: "open_range 1 j s = open_range (Suc ?p) j s" for j by (rule open_range_passed) (use p(2) in auto)
  have "(\<exists>j. Suc ?p \<le> j \<and> j < stage_LENGTH \<and> wb_pending s (from_usize j) \<and> (\<forall>k. Suc ?p \<le> k \<longrightarrow> k < j \<longrightarrow> \<not> wb_pending s (from_usize k)) \<and>
      update_loop (Suc ?p) False s = (True, True, j, start_stage (from_usize j) (open_range (Suc ?p) (Suc j) s))) \<or>
    (\<exists>u'. (\<forall>k. Suc ?p \<le> k \<longrightarrow> k < stage_LENGTH \<longrightarrow> \<not> wb_pending s (from_usize k)) \<and>
      update_loop (Suc ?p) False s = (u', False, stage_LENGTH, open_range (Suc ?p) stage_LENGTH s))"
    by (rule update_loop_ok) (use assms p in \<open>auto simp: open_drained_def\<close>)
  then show thesis
  proof (elim disjE exE conjE)
    fix j assume j: "Suc ?p \<le> j" "j < stage_LENGTH" "wb_pending s (from_usize j)" "\<forall>k. Suc ?p \<le> k \<longrightarrow> k < j \<longrightarrow> \<not> wb_pending s (from_usize k)"
      "update_loop (Suc ?p) False s = (True, True, j, start_stage (from_usize j) (open_range (Suc ?p) (Suc j) s))"
    have "j \<le> into_usize a" if "wb_pending s a" for a
      using j(4) [rule_format, of "into_usize a"] np [of a] that by (metis Suc_leI not_less stage_index(2))
    then show thesis using j rng by (intro found [of "from_usize j"]) (simp_all add: update_buckets_def)
  next
    fix u' assume n: "\<forall>k. Suc ?p \<le> k \<longrightarrow> k < stage_LENGTH \<longrightarrow> \<not> wb_pending s (from_usize k)"
      "update_loop (Suc ?p) False s = (u', False, stage_LENGTH, open_range (Suc ?p) stage_LENGTH s)"
    have "\<not> wb_pending s b" for b
      using n(1) [rule_format, of "into_usize b"] np [of b] by (metis Suc_leI not_less stage_index(2,3))
    then show thesis using n(2) rng by (intro none) (simp_all add: update_buckets_def)
  qed
qed

lemma update_buckets_ok:
  assumes "sched_ok s" "passed s first_stw_stage" "open_drained s"
  shows "sched_ok (snd (update_buckets s))"
proof (rule update_buckets_cases [OF assms], goal_cases)
  case found: (1 b)
  have "passed s Unconstrained" using assms(1) by (simp add: sched_ok_def passed_def)
  then have "b \<noteq> Unconstrained" using found(1) by (auto simp: wb_pending_def)
  then show ?thesis using assms(1) unfolding found(3)
    by (auto simp: sched_ok_def passed_def start_stage_bucket(2-) open_range_bucket)
next
  case 2
  then show ?thesis using assms(1) by (auto simp: sched_ok_def passed_def open_range_bucket stage_LENGTH_def)
qed

lemma started_nonempty:
  assumes "wb_pending s b"
  shows "\<not> wb_is_empty (work_buckets (start_stage b (open_range 1 (Suc (into_usize b)) s)) b)"
  using assms
  by (auto simp: start_stage_bucket(1) wb_pending_def open_range_bucket has_sentinel_def passed_def)
    (auto simp: wb_is_empty_def disabled_def open_range_def activate_def split: if_splits)

lemma open_condition_loop_result:
  "distinct ss \<Longrightarrow> open_condition_loop ss op bs b =
     (if b \<in> set ss \<and> b \<noteq> Unconstrained \<and> b \<noteq> first_stw_stage
      then set_open_condition (op @ filter (\<lambda>a. a \<noteq> Unconstrained \<and> a \<noteq> first_stw_stage) (takeWhile (\<lambda>a. a \<noteq> b) ss)) (bs b) else bs b)"
proof (induction ss arbitrary: op bs)
  case (Cons a ss)
  then show ?case by (cases "a = b") auto
qed simp

lemma scheduler_new_ok:
  assumes "scheduler_new n c = Some s"
  shows "sched_ok s" "worker_count s = n" "open_drained s"
    and "wb_active (work_buckets s b) \<longleftrightarrow> b = Unconstrained" "wb_disable (work_buckets s b) = False" "wb_queue (work_buckets s b) = []"
    "wb_sentinel (work_buckets s b) = None" "wb_prioritized_queue (work_buckets s b) = (if b = Unconstrained then Some [] else None)"
    and "designated_work s = replicate n []" "signals s = []"
proof -
  let ?bs = "\<lambda>stage. wb_new (stage = Unconstrained)"
  let ?bs1 = "?bs(Unconstrained := enable_prioritized_queue (?bs Unconstrained))"
  let ?st = "map from_usize [0..<stage_LENGTH]"
  have st: "?st = stages" by (simp add: stage_LENGTH_def from_usize_def stages_def upt_rec)
  have "distinct stages" by (simp add: stages_def)
  then have bk: "work_buckets s b = (if b \<noteq> Unconstrained \<and> b \<noteq> first_stw_stage
      then set_open_condition ([first_stw_stage] @ filter (\<lambda>a. a \<noteq> Unconstrained \<and> a \<noteq> first_stw_stage) (takeWhile (\<lambda>a. a \<noteq> b) stages)) (?bs1 b) else ?bs1 b)" for b
    using assms open_condition_loop_result [of stages "[first_stw_stage]" ?bs1 b] unfolding scheduler_new_def st Let_def by (auto split: if_splits)
  have first: "first_stw_stage = FinishConcurrentWork" by (simp add: first_stw_stage_def from_usize_def stages_def)
  have "wb_can_open (work_buckets s b) = (if into_usize b \<le> 1 then None else Some (map from_usize [1..<into_usize b]))" for b
    by (cases b) (simp_all add: bk first stages_def from_usize_def set_open_condition_def wb_new_def enable_prioritized_queue_def upt_rec)
  moreover have f: "wb_active (work_buckets s b) \<longleftrightarrow> b = Unconstrained" "wb_disable (work_buckets s b) = False" "wb_queue (work_buckets s b) = []"
    "wb_sentinel (work_buckets s b) = None" "wb_prioritized_queue (work_buckets s b) = (if b = Unconstrained then Some [] else None)" for b
    by (auto simp: bk set_open_condition_def wb_new_def enable_prioritized_queue_def first)
  moreover have "bucket_update_progress s = 0" using assms by (auto simp: scheduler_new_def Let_def split: if_splits)
  ultimately show "sched_ok s" "open_drained s" by (auto simp: sched_ok_def open_drained_def bucket_defs passed_def stage_LENGTH_def)
  show "worker_count s = n" "designated_work s = replicate n []" "signals s = []"
    using assms by (auto simp: scheduler_new_def Let_def worker_count_def split: if_splits)
  show "wb_active (work_buckets s b) \<longleftrightarrow> b = Unconstrained" "wb_disable (work_buckets s b) = False" "wb_queue (work_buckets s b) = []"
    "wb_sentinel (work_buckets s b) = None" "wb_prioritized_queue (work_buckets s b) = (if b = Unconstrained then Some [] else None)"
    using f by auto
qed

lemma sched_ok_mono:
  assumes "sched_ok s" "\<And>b. wb_can_open (work_buckets t b) = wb_can_open (work_buckets s b)"
    and "\<And>b. wb_prioritized_queue (work_buckets t b) = None \<longleftrightarrow> wb_prioritized_queue (work_buckets s b) = None"
    and "\<And>b. passed s b \<Longrightarrow> passed t b" "is_activated (work_buckets t Unconstrained)" "\<not> disabled (work_buckets t Unconstrained)"
    and "\<And>a b. is_activated (work_buckets t b) \<Longrightarrow> \<not> is_activated (work_buckets s b) \<Longrightarrow> 0 < into_usize a \<Longrightarrow> into_usize a < into_usize b \<Longrightarrow> passed t a"
    and "bucket_update_progress t = bucket_update_progress s"
  shows "sched_ok t"
  unfolding sched_ok_def assms(2,3,8)
proof (intro conjI allI impI)
  note s = assms(1) [unfolded sched_ok_def]
  fix a b assume "is_activated (work_buckets t b)" "0 < into_usize a" "into_usize a < into_usize b"
  then show "passed t a" using s assms(4,7) by (cases "is_activated (work_buckets s b)") blast+
qed (use assms(1,4-6) in \<open>auto simp: sched_ok_def\<close>)

lemma sched_ok_bucket:
  assumes "sched_ok s" "wb_can_open (f (work_buckets s b)) = wb_can_open (work_buckets s b)"
    and "wb_prioritized_queue (f (work_buckets s b)) = None \<longleftrightarrow> wb_prioritized_queue (work_buckets s b) = None"
    and "wb_active (f (work_buckets s b)) = wb_active (work_buckets s b)"
    and "wb_disable (f (work_buckets s b)) = wb_disable (work_buckets s b) \<or> b \<noteq> Unconstrained \<and> wb_disable (f (work_buckets s b))"
  shows "sched_ok (on_bucket b f s)"
proof (rule sched_ok_mono [OF assms(1)])
  have act: "is_activated (work_buckets (on_bucket b f s) c) = is_activated (work_buckets s c)" for c
    using assms(4) by (simp add: on_bucket_def is_activated_def)
  then show "is_activated (work_buckets (on_bucket b f s) Unconstrained)" using assms(1) by (simp add: sched_ok_def)
  show "passed (on_bucket b f s) c" if "passed s c" for c using that act [of c] assms(5) by (auto simp: passed_def on_bucket_def disabled_def)
  show "\<not> disabled (work_buckets (on_bucket b f s) Unconstrained)" using assms(1,5) by (auto simp: sched_ok_def on_bucket_def disabled_def)
  show "passed (on_bucket b f s) a" if "is_activated (work_buckets (on_bucket b f s) c)" "\<not> is_activated (work_buckets s c)" for a c
    using that act by simp
qed (use assms(2,3) in \<open>simp_all add: on_bucket_def\<close>)

lemma first_stw_index [simp]: "first_stw_stage = FinishConcurrentWork" "from_usize 0 = Unconstrained" "from_usize 2 = Initial"
  by (simp_all add: first_stw_stage_def from_usize_def stages_def)

lemma sched_ok_first_stw: "sched_ok s \<Longrightarrow> sched_ok (on_bucket FinishConcurrentWork activate s)"
  by (rule sched_ok_mono [of s]) (auto simp: on_bucket_def passed_def is_activated_def disabled_def activate_def sched_ok_def split: if_splits)

text \<open>
  C34. Opening buckets. When every open bucket is drained and the first stage of the pause is open or disabled, \<open>update_buckets\<close> finds
  work exactly when a closed stage has a packet or a sentinel. It then opens the enabled stages up to the first
  such stage, and no other, and that stage has a packet afterwards; otherwise it opens every enabled stage. Starting behind the stages
  of the last update gives the same result as starting at the first stage.
\<close>

theorem update_buckets_exact:
  assumes "sched_ok s" "passed s first_stw_stage" "open_drained s"
  shows "update_buckets (s\<lparr>bucket_update_progress := 0\<rparr>) = update_buckets s \<and>
    (case update_buckets s of (found, s') \<Rightarrow>
       (found \<longleftrightarrow> (\<exists>b. wb_pending s b)) \<and> sched_ok s' \<and>
       (\<forall>b. is_activated (work_buckets s' b) \<longleftrightarrow> is_activated (work_buckets s b) \<or> \<not> disabled (work_buckets s b) \<and>
          (\<forall>a. wb_pending s a \<longrightarrow> into_usize b \<le> into_usize a)) \<and>
       (\<forall>b. is_activated (work_buckets s' b) \<longrightarrow> wb_pending s b \<longrightarrow> \<not> wb_is_empty (work_buckets s' b)) \<and>
       (\<forall>b. is_activated (work_buckets s' b) \<longrightarrow> \<not> wb_pending s b \<longrightarrow> wb_is_empty (work_buckets s' b)))"
proof -
  let ?s0 = "s\<lparr>bucket_update_progress := 0\<rparr>"
  have e: "is_activated (work_buckets s b) \<Longrightarrow> wb_is_empty (work_buckets s b)" for b using assms(3) by (simp add: open_drained_def)
  have s0: "sched_ok ?s0" "passed ?s0 first_stw_stage" "open_drained ?s0" "\<And>b. wb_pending ?s0 b = wb_pending s b"
    using assms by (auto simp: sched_ok_def passed_def wb_pending_def stage_LENGTH_def open_drained_def)
  have un: "is_activated (work_buckets s Unconstrained)" using assms(1) by (simp add: sched_ok_def)
  have eq: "update_buckets ?s0 = update_buckets s"
  proof (rule update_buckets_cases [OF assms], goal_cases)
    case found: (1 b)
    show ?case
    proof (rule update_buckets_cases [OF s0(1-3)], goal_cases)
      case (1 b')
      then have "b' = b" using found(1,2) unfolding s0(4) by (metis le_antisym stage_index(2))
      with 1 found show ?case by simp
    qed (use found s0(4) in auto)
  next
    case none: 2
    show ?case by (rule update_buckets_cases [OF s0(1-3)]) (use none s0(4) in auto)
  qed
  have "case update_buckets s of (found, s') \<Rightarrow>
       (found \<longleftrightarrow> (\<exists>b. wb_pending s b)) \<and> sched_ok s' \<and>
       (\<forall>b. is_activated (work_buckets s' b) \<longleftrightarrow> is_activated (work_buckets s b) \<or> \<not> disabled (work_buckets s b) \<and>
          (\<forall>a. wb_pending s a \<longrightarrow> into_usize b \<le> into_usize a)) \<and>
       (\<forall>b. is_activated (work_buckets s' b) \<longrightarrow> wb_pending s b \<longrightarrow> \<not> wb_is_empty (work_buckets s' b)) \<and>
       (\<forall>b. is_activated (work_buckets s' b) \<longrightarrow> \<not> wb_pending s b \<longrightarrow> wb_is_empty (work_buckets s' b))"
  proof (rule update_buckets_cases [OF assms], goal_cases)
    case found: (1 b)
    let ?t = "start_stage b (open_range 1 (Suc (into_usize b)) s)"
    have act: "is_activated (work_buckets ?t c) \<longleftrightarrow> is_activated (work_buckets s c) \<or>
        \<not> disabled (work_buckets s c) \<and> (\<forall>a. wb_pending s a \<longrightarrow> into_usize c \<le> into_usize a)" for c
      using found(1,2) un by (cases "c = Unconstrained") (auto simp: start_stage_bucket(2-) open_range_bucket passed_def less_Suc_eq_le intro: order_trans)
    moreover have "wb_is_empty (work_buckets ?t c)" if "is_activated (work_buckets ?t c)" "\<not> wb_pending s c" for c
      using that found(1) e [of c] by (cases "c = b") (auto simp: start_stage_bucket(2-) start_stage_other open_range_bucket wb_pending_def passed_def)
    moreover have "\<not> wb_is_empty (work_buckets ?t c)" if "is_activated (work_buckets ?t c)" "wb_pending s c" for c
    proof -
      have "into_usize c \<le> into_usize b" using that act [of c] found(1) by (auto simp: wb_pending_def passed_def)
      then have "c = b" using found(2) [OF that(2)] by (metis le_antisym stage_index(2))
      then show ?thesis using started_nonempty [OF found(1)] by simp
    qed
    ultimately show ?case using found(1,3) update_buckets_ok [OF assms] by auto
  next
    case none: 2
    then show ?case using e un update_buckets_ok [OF assms] by (auto simp: open_range_bucket passed_def wb_pending_def)
  qed
  with eq show ?thesis by simp
qed

text \<open>Two workers, the first stage of the pause open, and a packet for the closure stage.\<close>

definition example_scheduler :: "nat gc_work_scheduler" where
  "example_scheduler = on_bucket Closure (add_boxed_no_notify 7) (on_bucket first_stw_stage activate (the (scheduler_new 2 1)))"

theorem update_buckets_exact_witness:
  "fst (update_buckets example_scheduler) \<and> is_activated (work_buckets (snd (update_buckets example_scheduler)) Closure) \<and>
   is_activated (work_buckets (snd (update_buckets example_scheduler)) Prepare) \<and>
   \<not> is_activated (work_buckets (snd (update_buckets example_scheduler)) Release)"
proof -
  obtain s0 :: "nat gc_work_scheduler" where s0: "scheduler_new 2 1 = Some s0" by (simp add: scheduler_new_def Let_def)
  note ok = scheduler_new_ok [OF s0] and f = scheduler_new_ok(4-8) [OF s0]
  let ?s = example_scheduler
  have bs: "work_buckets ?s b = (if b = Closure then add_boxed_no_notify 7 (work_buckets s0 b) else if b = FinishConcurrentWork
      then activate (work_buckets s0 b) else work_buckets s0 b)" for b
    unfolding example_scheduler_def s0 option.sel by (simp add: on_bucket_def)
  have sok: "sched_ok ?s" unfolding example_scheduler_def first_stw_index s0 option.sel
    by (rule sched_ok_bucket [OF sched_ok_first_stw [OF ok(1)]]) (simp_all add: add_boxed_no_notify_def)
  have dr: "open_drained ?s" "passed ?s first_stw_stage" by (auto simp: open_drained_def passed_def bs bucket_defs f add_boxed_no_notify_def)
  have pend: "wb_pending ?s b \<longleftrightarrow> b = Closure" for b
    by (auto simp: wb_pending_def passed_def bs bucket_defs f add_boxed_no_notify_def)
  show ?thesis using update_buckets_exact [OF sok dr(2,1)]
    by (auto simp: pend bs bucket_defs f add_boxed_no_notify_def split: prod.splits)
qed

end
