(* ===== verification/WorkerMonitor.thy ===== *)
theory WorkerMonitor
  imports WorkBucket
begin

text \<open>
  The workers of the scheduler: the goals they work towards (\<open>scheduler/worker_goals.rs\<close>), the monitor they park on
  (\<open>scheduler/worker_monitor.rs\<close>), the loop in which they take work packets (\<open>scheduler/worker.rs\<close>, \<open>scheduler/scheduler.rs\<close>), what the last
  worker to park does, and the requests of mutators (\<open>plan/gc_requester.rs\<close>). The threads are a step relation. A step is what
  happens under the mutex of the monitor, one poll of one queue, or one call of a work packet on the scheduler; a packet may make any
  sequence of such calls. Waiting on the condition variable may end at any time. The steps of mutators are also those of other threads
  of the virtual machine, which may add packets through \<open>memory_manager::add_work_packet\<close> and are not stopped in a
  collection, so these steps do not require that the mutators run. What the last worker does at the end of a collection is one
  step, from closing the buckets to scheduling the postponed packets, and the panics of the plan in the calls at this point are left out.
\<close>

section \<open>Goals\<close>

datatype worker_goal = Gc | StopForFork

record worker_goals =
  current_goal :: "worker_goal option"
  requests :: "worker_goal \<Rightarrow> bool"

definition goals_new :: worker_goals where
  "goals_new = \<lparr>current_goal = None, requests = (\<lambda>_. False)\<rparr>"

definition set_request :: "worker_goal \<Rightarrow> worker_goals \<Rightarrow> bool \<times> worker_goals" where
  "set_request goal self =
     (if \<not> requests self goal then (True, self\<lparr>requests := (requests self)(goal := True)\<rparr>) else (False, self))"

fun poll_goal_loop :: "worker_goal list \<Rightarrow> worker_goals \<Rightarrow> worker_goal option \<times> worker_goals" where
  "poll_goal_loop [] self = (None, self)"
| "poll_goal_loop (goal # gs) self =
     (if requests self goal then (Some goal, self\<lparr>requests := (requests self)(goal := False), current_goal := Some goal\<rparr>)
      else poll_goal_loop gs self)"

definition poll_next_goal :: "worker_goals \<Rightarrow> worker_goal option \<times> worker_goals" where
  "poll_next_goal self = poll_goal_loop [Gc, StopForFork] self"

definition on_current_goal_completed :: "worker_goals \<Rightarrow> worker_goals" where
  "on_current_goal_completed self = self\<lparr>current_goal := None\<rparr>"

definition debug_is_requested :: "worker_goal \<Rightarrow> worker_goals \<Rightarrow> bool" where
  "debug_is_requested goal self = requests self goal"

section \<open>Workers\<close>

record worker_parker =
  parker_worker_count :: nat
  parked_workers :: nat

definition parker_new :: "nat \<Rightarrow> worker_parker" where
  "parker_new n = \<lparr>parker_worker_count = n, parked_workers = 0\<rparr>"

definition inc_parked_workers :: "worker_parker \<Rightarrow> bool \<times> worker_parker" where
  "inc_parked_workers self =
     (let new = parked_workers self + 1 in (new = parker_worker_count self, self\<lparr>parked_workers := new\<rparr>))"

definition dec_parked_workers :: "worker_parker \<Rightarrow> worker_parker" where
  "dec_parked_workers self = self\<lparr>parked_workers := parked_workers self - 1\<rparr>"

datatype last_parked_result = ParkSelf | WakeSelf | WakeAll

text \<open>
  Where a worker is: at the head of its loop, before its local buffer, in \<open>poll_schedulable_work_once\<close> before a source of packets,
  executing a packet, waiting, woken but still without the mutex, returned from its loop, or surrendered. The sources of a
  scan are the designated work of the worker, the buckets and the buffers of the other workers. The flags of a scan say
  whether it is one of \<open>poll_slow\<close> and whether a queue has asked for a retry.
\<close>

datatype 'w phase = Start | Local | Scan bool bool nat | Executing 'w | Waiting | Woken | Exited | Gone

text \<open>\<open>WorkerCreationState\<close>, with the number of surrendered workers; \<open>Initial\<close> is the name of a stage.\<close>

datatype worker_creation_state = InitialState | Spawned | Surrendered nat

text \<open>Calls on other components at the end of a collection.\<close>

datatype gc_event = DoClassUnloading | DumpGcStats | OnGcEnd | PlanEndOfGc | GcPauseEnd | ResetCollectionTrigger | SetNotInGC | ResumeMutators

record 'w gc_system =
  sched :: "'w gc_work_scheduler"
  goals :: worker_goals
  parker :: worker_parker
  parked :: nat
  phase :: "nat \<Rightarrow> 'w phase"
  local_work_buffer :: "nat \<Rightarrow> 'w list"
  gc_start_time :: bool
  request_flag :: bool
  requesting :: bool
  mutators_paused :: bool
  creation_state :: worker_creation_state
  events :: "gc_event list"

definition LOCALLY_CACHED_WORK_PACKETS :: nat where "LOCALLY_CACHED_WORK_PACKETS = 16"

definition add_work :: "nat \<Rightarrow> work_bucket_stage \<Rightarrow> 'w \<Rightarrow> 'w gc_system \<Rightarrow> 'w gc_system" where
  "add_work i bucket work s =
     (if \<not> is_activated (work_buckets (sched s) bucket) \<or> length (local_work_buffer s i) \<ge> LOCALLY_CACHED_WORK_PACKETS
      then s\<lparr>sched := wb_add bucket work (sched s)\<rparr>
      else s\<lparr>local_work_buffer := (local_work_buffer s)(i := local_work_buffer s i @ [work])\<rparr>)"

definition add_work_prioritized :: "nat \<Rightarrow> work_bucket_stage \<Rightarrow> 'w \<Rightarrow> 'w gc_system \<Rightarrow> 'w gc_system option" where
  "add_work_prioritized i bucket work s =
     (if \<not> is_activated (work_buckets (sched s) bucket) \<or> length (local_work_buffer s i) \<ge> LOCALLY_CACHED_WORK_PACKETS
      then map_option (\<lambda>t. s\<lparr>sched := t\<rparr>) (wb_add_prioritized bucket work (sched s))
      else Some (s\<lparr>local_work_buffer := (local_work_buffer s)(i := local_work_buffer s i @ [work])\<rparr>))"

section \<open>The last parked worker\<close>

definition add_schedule_collection_packet :: "'w \<Rightarrow> 'w gc_system \<Rightarrow> 'w gc_system" where
  "add_schedule_collection_packet ScheduleCollection s =
     s\<lparr>sched := on_bucket Unconstrained (add_boxed_no_notify ScheduleCollection) (sched s)\<rparr>"

definition respond_to_requests :: "'w \<Rightarrow> 'w gc_system \<Rightarrow> (last_parked_result \<times> 'w gc_system) option" where
  "respond_to_requests sc s =
     (if current_goal (goals s) \<noteq> None then None
      else let (r, g) = poll_next_goal (goals s); s = s\<lparr>goals := g\<rparr> in
        case r of
          None \<Rightarrow> Some (ParkSelf, s)
        | Some Gc \<Rightarrow>
            (if gc_start_time s then None
             else Some (WakeSelf, add_schedule_collection_packet sc (s\<lparr>gc_start_time := True\<rparr>)))
        | Some StopForFork \<Rightarrow> Some (WakeAll, s))"

definition on_gc_finished :: "'w gc_system \<Rightarrow> 'w gc_system option" where
  "on_gc_finished s = do {
     let s = s\<lparr>sched := deactivate_all (sched s), events := events s @ [DoClassUnloading, DumpGcStats]\<rparr>;
     let ((queue, pqueue), t) = schedule_postponed_concurrent_packets (sched s);
     let s = s\<lparr>sched := t, events := events s @ [OnGcEnd, PlanEndOfGc]\<rparr>;
     s \<leftarrow> (if gc_start_time s then Some (s\<lparr>gc_start_time := False\<rparr>) else None);
     let s = s\<lparr>events := events s @ [GcPauseEnd, ResetCollectionTrigger, SetNotInGC, ResumeMutators], mutators_paused := False\<rparr>;
     t \<leftarrow> schedule_concurrent_packets queue pqueue (set_in_gc_pause False (sched s));
     Some (s\<lparr>sched := t\<rparr>) }"

definition on_last_parked :: "'w \<Rightarrow> 'w gc_system \<Rightarrow> (last_parked_result \<times> 'w gc_system) option" where
  "on_last_parked sc s = (case current_goal (goals s) of
       None \<Rightarrow> respond_to_requests sc s
     | Some Gc \<Rightarrow>
         (if debug_is_requested Gc (goals s) then None
          else let (found_more_work, t) = find_more_work_for_workers (sched s); s = s\<lparr>sched := t\<rparr> in
            if found_more_work then Some (WakeAll, s)
            else do {
              s \<leftarrow> on_gc_finished s;
              respond_to_requests sc (s\<lparr>goals := on_current_goal_completed (goals s)\<rparr>) })
     | Some StopForFork \<Rightarrow> None)"

text \<open>\<open>park_and_wait\<close> up to the wait, with the result whether the worker waits, and from the wait on.\<close>

definition park :: "'w \<Rightarrow> 'w gc_system \<Rightarrow> (bool \<times> 'w gc_system) option" where
  "park sc s =
     (let (all_parked, p) = inc_parked_workers (parker s); s = s\<lparr>parker := p, parked := parked s + 1\<rparr> in
      if all_parked then do {
        (result, s) \<leftarrow> on_last_parked sc s;
        Some (case result of ParkSelf \<Rightarrow> (True, s) | WakeSelf \<Rightarrow> (False, s)
          | WakeAll \<Rightarrow> (False, s\<lparr>sched := notify_work_available True (sched s)\<rparr>)) }
      else Some (True, s))"

definition unpark :: "nat \<Rightarrow> 'w gc_system \<Rightarrow> 'w gc_system" where
  "unpark i s =
     (let s = s\<lparr>parker := dec_parked_workers (parker s), parked := parked s - 1\<rparr> in
      if current_goal (goals s) = Some StopForFork then s\<lparr>phase := (phase s)(i := Exited)\<rparr>
      else s\<lparr>phase := (phase s)(i := Scan True False 0)\<rparr>)"

section \<open>Requests\<close>

definition make_request :: "worker_goal \<Rightarrow> 'w gc_system \<Rightarrow> 'w gc_system" where
  "make_request goal s =
     (let (newly_requested, g) = set_request goal (goals s); s = s\<lparr>goals := g\<rparr> in
      if newly_requested then s\<lparr>sched := notify_work_available False (sched s)\<rparr> else s)"

text \<open>\<open>request\<close> up to the exchange of the flag, with the result whether a request is to be sent.\<close>

definition gc_requester_request :: "'w gc_system \<Rightarrow> bool \<times> 'w gc_system" where
  "gc_requester_request s = (if request_flag s then (False, s) else (True, s\<lparr>request_flag := True\<rparr>))"

definition clear_request :: "'w gc_system \<Rightarrow> 'w gc_system" where
  "clear_request s = s\<lparr>request_flag := False\<rparr>"

text \<open>The parameter says whether the concurrent marking packets are drained and the lazy sweeping jobs finished.\<close>

definition notify_mutators_paused :: "bool \<Rightarrow> 'w gc_system \<Rightarrow> 'w gc_system" where
  "notify_mutators_paused concurrent_done s =
     (let s = clear_request s;
          t = on_bucket first_stw_stage activate (sched s);
          t = (if wb_is_empty (work_buckets t first_stw_stage) \<and> parked s + 1 = worker_count t \<and> concurrent_done
               then on_bucket (from_usize 2) activate t else t)
      in s\<lparr>sched := notify_work_available True t\<rparr>)"

section \<open>Forking\<close>

definition prepare_surrender_buffer :: "'w gc_system \<Rightarrow> 'w gc_system option" where
  "prepare_surrender_buffer s = (if creation_state s = Spawned then Some (s\<lparr>creation_state := Surrendered 0\<rparr>) else None)"

definition stop_gc_threads_for_forking :: "'w gc_system \<Rightarrow> 'w gc_system option" where
  "stop_gc_threads_for_forking s = do {
     s \<leftarrow> prepare_surrender_buffer s;
     Some (make_request StopForFork s) }"

text \<open>
  The mutex is free here, since what happens under it is one step of another thread. The panic of \<open>try_lock().unwrap()\<close> when a
  mutator is inside \<open>make_request\<close> at this moment is left out.
\<close>

definition on_all_workers_exited :: "'w gc_system \<Rightarrow> 'w gc_system" where
  "on_all_workers_exited s = s\<lparr>goals := on_current_goal_completed (goals s)\<rparr>"

definition surrender_gc_worker :: "'w gc_system \<Rightarrow> 'w gc_system option" where
  "surrender_gc_worker s = (case creation_state s of
       Surrendered k \<Rightarrow>
         (let s = s\<lparr>creation_state := Surrendered (k + 1)\<rparr> in
          Some (if k + 1 = worker_count (sched s) then on_all_workers_exited s else s))
     | _ \<Rightarrow> None)"

definition initial_spawn :: "'w gc_system \<Rightarrow> 'w gc_system option" where
  "initial_spawn s = (if creation_state s = InitialState then Some (s\<lparr>creation_state := Spawned, phase := (\<lambda>_. Start)\<rparr>) else None)"

definition respawn :: "'w gc_system \<Rightarrow> 'w gc_system option" where
  "respawn s = (case creation_state s of Surrendered _ \<Rightarrow> Some (s\<lparr>creation_state := Spawned, phase := (\<lambda>_. Start)\<rparr>) | _ \<Rightarrow> None)"

section \<open>Steps\<close>

text \<open>Calls of an executing work packet on the scheduler.\<close>

datatype 'w exec_op = AddWork work_bucket_stage 'w | AddWorkPrioritized work_bucket_stage 'w | Add work_bucket_stage 'w
  | AddPrioritized work_bucket_stage 'w | BulkAdd work_bucket_stage "'w list" | BulkAddPrioritized work_bucket_stage "'w list"
  | SetSentinel work_bucket_stage 'w | PushDesignated nat 'w | SetDisabled work_bucket_stage | SetInGcPause
  | NotifyMutatorsPaused bool | Postpone 'w | PostponePrioritized 'w | PauseConcurrent | ProcessLazyDecrements "'w \<Rightarrow> bool"

definition on_sched :: "('w gc_work_scheduler \<Rightarrow> 'w gc_work_scheduler) \<Rightarrow> 'w gc_system \<Rightarrow> 'w gc_system" where
  "on_sched f s = s\<lparr>sched := f (sched s)\<rparr>"

definition designate :: "nat \<Rightarrow> 'w \<Rightarrow> 'w gc_work_scheduler \<Rightarrow> 'w gc_work_scheduler" where
  "designate k w t = t\<lparr>designated_work := (designated_work t)[k := designated_work t ! k @ [w]]\<rparr>"

text \<open>
  The queue of designated work of a worker has room for sixteen packets and is used by the packets of a collection. The first bucket is
  not disabled. The mutators are paused once in a collection.
\<close>

fun exec :: "nat \<Rightarrow> 'w exec_op \<Rightarrow> 'w gc_system \<Rightarrow> 'w gc_system option" where
  "exec i (AddWork b w) s = Some (add_work i b w s)"
| "exec i (AddWorkPrioritized b w) s = add_work_prioritized i b w s"
| "exec i (Add b w) s = Some (on_sched (wb_add b w) s)"
| "exec i (AddPrioritized b w) s = map_option (\<lambda>t. s\<lparr>sched := t\<rparr>) (wb_add_prioritized b w (sched s))"
| "exec i (BulkAdd b ws) s = Some (on_sched (bulk_add b ws) s)"
| "exec i (BulkAddPrioritized b ws) s = map_option (\<lambda>t. s\<lparr>sched := t\<rparr>) (bulk_add_prioritized b ws (sched s))"
| "exec i (SetSentinel b w) s = Some (on_sched (on_bucket b (wb_set_sentinel w)) s)"
| "exec i (PushDesignated k w) s =
     (if current_goal (goals s) = Some Gc \<and> k < worker_count (sched s) \<and> length (designated_work (sched s) ! k) < 16 then Some (on_sched (designate k w) s) else None)"
| "exec i (SetDisabled b) s = (if b = Unconstrained then None else Some (on_sched (on_bucket b set_as_disabled) s))"
| "exec i SetInGcPause s = Some (on_sched (set_in_gc_pause True) s)"
| "exec i (NotifyMutatorsPaused d) s =
     (if current_goal (goals s) = Some Gc \<and> \<not> mutators_paused s
      then Some ((notify_mutators_paused d s)\<lparr>mutators_paused := True\<rparr>) else None)"
| "exec i (Postpone w) s = Some (on_sched (postpone w) s)"
| "exec i (PostponePrioritized w) s = Some (on_sched (postpone_prioritized w) s)"
| "exec i PauseConcurrent s = Some (on_sched pause_concurrent_marking_work_packets_during_gc s)"
| "exec i (ProcessLazyDecrements c) s = Some (on_sched (process_lazy_decrement_packets c) s)"

text \<open>
  The effect of notifications on waiting workers: \<open>notify_all\<close> wakes every one, \<open>notify_one\<close> one of them if there is one.
\<close>

inductive delivered :: "nat \<Rightarrow> bool list \<Rightarrow> (nat \<Rightarrow> 'w phase) \<Rightarrow> (nat \<Rightarrow> 'w phase) \<Rightarrow> bool" for n where
  delivered_none: "delivered n [] p p"
| delivered_all: "delivered n ss (\<lambda>i. if i < n \<and> p i = Waiting then Woken else p i) p' \<Longrightarrow> delivered n (True # ss) p p'"
| delivered_one: "i < n \<Longrightarrow> p i = Waiting \<Longrightarrow> delivered n ss (p(i := Woken)) p' \<Longrightarrow> delivered n (False # ss) p p'"
| delivered_lost: "(\<And>i. i < n \<Longrightarrow> p i \<noteq> Waiting) \<Longrightarrow> delivered n ss p p' \<Longrightarrow> delivered n (False # ss) p p'"

definition settled :: "(nat \<Rightarrow> 'w phase) \<Rightarrow> 'w gc_system \<Rightarrow> 'w gc_system" where
  "settled p s = s\<lparr>phase := p, sched := sched s\<lparr>signals := []\<rparr>\<rparr>"

abbreviation workers :: "'w gc_system \<Rightarrow> nat" where
  "workers s \<equiv> worker_count (sched s)"

abbreviation at :: "'w gc_system \<Rightarrow> nat \<Rightarrow> 'w phase \<Rightarrow> 'w gc_system" where
  "at s i p \<equiv> s\<lparr>phase := (phase s)(i := p)\<rparr>"

text \<open>
  The parameters are the packet \<open>ScheduleCollection\<close> and whether mutators add packets to closed buckets only, as the barriers of the
  stop-the-world plans do; the barrier of LXR also adds packets to the bucket that is always open.
\<close>

inductive gc_step :: "'w \<Rightarrow> bool \<Rightarrow> 'w gc_system \<Rightarrow> 'w gc_system \<Rightarrow> bool" for sc quiet where
  start_designated: "i < workers s \<Longrightarrow> phase s i = Start \<or> phase s i = Scan sl r 0 \<Longrightarrow> designated_work (sched s) ! i = w # ws \<Longrightarrow>
    gc_step sc quiet s (at (on_sched (\<lambda>t. t\<lparr>designated_work := (designated_work t)[i := ws]\<rparr>) s) i (Executing w))"
| start_none: "i < workers s \<Longrightarrow> phase s i = Start \<Longrightarrow> designated_work (sched s) ! i = [] \<Longrightarrow> gc_step sc quiet s (at s i Local)"
| local_pop: "i < workers s \<Longrightarrow> phase s i = Local \<Longrightarrow> local_work_buffer s i = w # ws \<Longrightarrow>
    gc_step sc quiet s (at (s\<lparr>local_work_buffer := (local_work_buffer s)(i := ws)\<rparr>) i (Executing w))"
| local_none: "i < workers s \<Longrightarrow> phase s i = Local \<Longrightarrow> local_work_buffer s i = [] \<Longrightarrow> gc_step sc quiet s (at s i (Scan False False 0))"
| scan_designated_none: "i < workers s \<Longrightarrow> phase s i = Scan sl r 0 \<Longrightarrow> designated_work (sched s) ! i = [] \<Longrightarrow>
    gc_step sc quiet s (at s i (Scan sl r 1))"
| scan_bucket: "i < workers s \<Longrightarrow> phase s i = Scan sl r (Suc k) \<Longrightarrow> k < stage_LENGTH \<Longrightarrow>
    wb_poll batch (work_buckets (sched s) (from_usize k)) = Some (w, ws, b) \<Longrightarrow>
    gc_step sc quiet s (at ((on_sched (on_bucket (from_usize k) (\<lambda>_. b)) s)
      \<lparr>local_work_buffer := (local_work_buffer s)(i := local_work_buffer s i @ ws)\<rparr>) i (Executing w))"
| scan_bucket_none: "i < workers s \<Longrightarrow> phase s i = Scan sl r (Suc k) \<Longrightarrow> k < stage_LENGTH \<Longrightarrow>
    wb_poll batch (work_buckets (sched s) (from_usize k)) = None \<Longrightarrow> gc_step sc quiet s (at s i (Scan sl r (Suc (Suc k))))"
| scan_steal: "i < workers s \<Longrightarrow> phase s i = Scan sl r (Suc (stage_LENGTH + j)) \<Longrightarrow> j < workers s \<Longrightarrow> j \<noteq> i \<Longrightarrow>
    local_work_buffer s j = w # ws \<Longrightarrow>
    gc_step sc quiet s (at (s\<lparr>local_work_buffer := (local_work_buffer s)(j := ws)\<rparr>) i (Executing w))"
| scan_steal_none: "i < workers s \<Longrightarrow> phase s i = Scan sl r (Suc (stage_LENGTH + j)) \<Longrightarrow> j < workers s \<Longrightarrow>
    j = i \<or> local_work_buffer s j = [] \<Longrightarrow> gc_step sc quiet s (at s i (Scan sl r (Suc (Suc (stage_LENGTH + j)))))"
| scan_retry: "i < workers s \<Longrightarrow> phase s i = Scan sl r (Suc k) \<Longrightarrow> k < stage_LENGTH + workers s \<Longrightarrow> k \<noteq> stage_LENGTH + i \<Longrightarrow>
    gc_step sc quiet s (at s i (Scan sl True (Suc (Suc k))))"
| scan_again: "i < workers s \<Longrightarrow> phase s i = Scan sl True (Suc (stage_LENGTH + workers s)) \<Longrightarrow> gc_step sc quiet s (at s i (Scan sl False 0))"
| scan_slow: "i < workers s \<Longrightarrow> phase s i = Scan False False (Suc (stage_LENGTH + workers s)) \<Longrightarrow> gc_step sc quiet s (at s i (Scan True False 0))"
| parks: "i < workers s \<Longrightarrow> phase s i = Scan True False (Suc (stage_LENGTH + workers s)) \<Longrightarrow> park sc s = Some (waits, s1) \<Longrightarrow>
    delivered (workers s) (signals (sched s1)) (phase s1) p \<Longrightarrow>
    gc_step sc quiet s (if waits then at (settled p s1) i Waiting else unpark i (settled p s1))"
| wakes_spuriously: "i < workers s \<Longrightarrow> phase s i = Waiting \<Longrightarrow> gc_step sc quiet s (at s i Woken)"
| unparks: "i < workers s \<Longrightarrow> phase s i = Woken \<Longrightarrow> gc_step sc quiet s (unpark i s)"
| executes: "i < workers s \<Longrightarrow> phase s i = Executing w \<Longrightarrow> exec i op s = Some s1 \<Longrightarrow>
    delivered (workers s) (signals (sched s1)) (phase s1) p \<Longrightarrow> gc_step sc quiet s (settled p s1)"
| finishes: "i < workers s \<Longrightarrow> phase s i = Executing w \<Longrightarrow> gc_step sc quiet s (at s i Start)"
| surrenders: "i < workers s \<Longrightarrow> phase s i = Exited \<Longrightarrow> surrender_gc_worker s = Some s1 \<Longrightarrow> gc_step sc quiet s (at s1 i Gone)"
| mutator_requests: "\<not> mutators_paused s \<Longrightarrow> gc_requester_request s = (True, s1) \<Longrightarrow> gc_step sc quiet s (s1\<lparr>requesting := True\<rparr>)"
| mutator_sends: "requesting s \<Longrightarrow> make_request Gc s = s1 \<Longrightarrow> delivered (workers s) (signals (sched s1)) (phase s1) p \<Longrightarrow>
    gc_step sc quiet s ((settled p s1)\<lparr>requesting := False\<rparr>)"
| mutator_adds: "quiet \<longrightarrow> \<not> is_activated (work_buckets (sched s) b) \<Longrightarrow> on_sched (bulk_add b ws) s = s1 \<Longrightarrow>
    delivered (workers s) (signals (sched s1)) (phase s1) p \<Longrightarrow> gc_step sc quiet s (settled p s1)"
| mutator_postpones: "gc_step sc quiet s (on_sched (postpone_all ws) s)"
| mutator_forks: "stop_gc_threads_for_forking s = Some s1 \<Longrightarrow> delivered (workers s) (signals (sched s1)) (phase s1) p \<Longrightarrow>
    gc_step sc quiet s (settled p s1)"
| mutator_respawns: "(\<And>i. i < workers s \<Longrightarrow> phase s i = Gone) \<Longrightarrow> respawn s = Some s1 \<Longrightarrow> gc_step sc quiet s s1"

definition gc_system_new :: "nat \<Rightarrow> nat \<Rightarrow> 'w gc_system option" where
  "gc_system_new num_workers num_conc_workers = do {
     t \<leftarrow> scheduler_new num_workers num_conc_workers;
     initial_spawn \<lparr>sched = t, goals = goals_new, parker = parker_new num_workers, parked = 0, phase = (\<lambda>_. Gone), local_work_buffer = (\<lambda>_. []),
       gc_start_time = False, request_flag = False, requesting = False, mutators_paused = False, creation_state = InitialState, events = []\<rparr> }"

text \<open>The states that the threads can reach after the workers have been spawned.\<close>

definition gc_reachable :: "'w \<Rightarrow> bool \<Rightarrow> nat \<Rightarrow> 'w gc_system \<Rightarrow> bool" where
  "gc_reachable sc quiet n s \<longleftrightarrow> (\<exists>c s0. gc_system_new n c = Some s0 \<and> (gc_step sc quiet)\<^sup>*\<^sup>* s0 s)"

end
