(* ===== verification/WorkerMonitor_Inv.thy ===== *)
theory WorkerMonitor_Inv
  imports WorkerMonitor
begin

text \<open>
  The invariant of the workers and of the scheduler they share. It relates the count of parked workers to where the workers are, the
  goals to the requests of mutators and to forking, and says that every packet of an open bucket will be seen by
  a worker that has not yet polled that bucket.
\<close>

section \<open>Operations on the scheduler\<close>

lemma sched_ok_fields [simp]:
  "sched_ok (s\<lparr>designated_work := d\<rparr>) = sched_ok s" "sched_ok (s\<lparr>signals := x\<rparr>) = sched_ok s"
  "sched_ok (s\<lparr>postponed_concurrent_work := q\<rparr>) = sched_ok s" "sched_ok (s\<lparr>postponed_concurrent_work_prioritized := q\<rparr>) = sched_ok s"
  "sched_ok (s\<lparr>in_gc_pause := p\<rparr>) = sched_ok s" "sched_ok (s\<lparr>PAUSE_CONCURRENT_MARKING := p\<rparr>) = sched_ok s"
  "sched_ok (s\<lparr>MOVE_CONCURRENT_MARKING_TO_STW := p\<rparr>) = sched_ok s" "sched_ok (notify_work_available a s) = sched_ok s"
  "sched_ok (notify_one_worker b s) = sched_ok s" "sched_ok (notify_all_workers b s) = sched_ok s"
  by (simp_all add: sched_ok_def passed_def notify_work_available_def notify_one_worker_def notify_all_workers_def)

lemma notify_fields [simp]:
  "work_buckets (notify_work_available a s) = work_buckets s" "designated_work (notify_work_available a s) = designated_work s"
  "work_buckets (notify_one_worker b s) = work_buckets s" "designated_work (notify_one_worker b s) = designated_work s"
  "work_buckets (notify_all_workers b s) = work_buckets s" "designated_work (notify_all_workers b s) = designated_work s"
  "bucket_update_progress (notify_work_available a s) = bucket_update_progress s"
  "bucket_update_progress (notify_one_worker b s) = bucket_update_progress s" "bucket_update_progress (notify_all_workers b s) = bucket_update_progress s"
  by (simp_all add: notify_work_available_def notify_one_worker_def notify_all_workers_def)

lemma on_bucket_fields [simp]:
  "designated_work (on_bucket b f s) = designated_work s" "signals (on_bucket b f s) = signals s"
  "work_buckets (on_bucket b f s) c = (if c = b then f (work_buckets s b) else work_buckets s c)"
  "bucket_update_progress (on_bucket b f s) = bucket_update_progress s"
  by (simp_all add: on_bucket_def)

lemma sched_ok_Unconstrained: "sched_ok s \<Longrightarrow> is_activated (work_buckets s Unconstrained) \<and> \<not> disabled (work_buckets s Unconstrained) \<and>
    (wb_prioritized_queue (work_buckets s b) = None \<longleftrightarrow> b \<noteq> Unconstrained)"
  by (simp add: sched_ok_def)

text \<open>What every operation keeps of the scheduler.\<close>

definition sched_keeps :: "'w gc_work_scheduler \<Rightarrow> 'w gc_work_scheduler \<Rightarrow> bool" where
  "sched_keeps s t \<longleftrightarrow> sched_ok t \<and> worker_count t = worker_count s \<and>
     (\<forall>b. is_activated (work_buckets s b) \<longrightarrow> is_activated (work_buckets t b)) \<and> (has_designated_work t \<longrightarrow> has_designated_work s)"

lemma sched_keeps_simple:
  assumes "sched_ok s" "\<And>b. wb_can_open (work_buckets t b) = wb_can_open (work_buckets s b)"
    and "\<And>b. wb_prioritized_queue (work_buckets t b) = None \<longleftrightarrow> wb_prioritized_queue (work_buckets s b) = None"
    and "\<And>b. wb_active (work_buckets t b) = wb_active (work_buckets s b)"
    and "\<And>b. wb_disable (work_buckets t b) = wb_disable (work_buckets s b) \<or> b \<noteq> Unconstrained \<and> wb_disable (work_buckets t b)"
    and "designated_work t = designated_work s" "bucket_update_progress t = bucket_update_progress s"
  shows "sched_keeps s t"
proof -
  have "sched_ok t"
  proof (rule sched_ok_mono [OF assms(1-3)])
    show "passed t b" if "passed s b" for b using that assms(4,5) [of b] by (auto simp: passed_def disabled_def is_activated_def)
    show "\<not> disabled (work_buckets t Unconstrained)" using assms(1) assms(5) [of Unconstrained] by (auto simp: sched_ok_def disabled_def)
    show "is_activated (work_buckets t Unconstrained)" using assms(1,4) by (simp add: sched_ok_def is_activated_def)
  qed (use assms(4,7) in \<open>auto simp: is_activated_def\<close>)
  then show ?thesis using assms(4,6) by (simp add: sched_keeps_def worker_count_def has_designated_work_def is_activated_def)
qed

lemma sched_keeps_trans: "sched_keeps s t \<Longrightarrow> sched_keeps t u \<Longrightarrow> sched_keeps s u"
  by (auto simp: sched_keeps_def)

lemma sched_keeps_refl: "sched_ok s \<Longrightarrow> sched_keeps s s"
  by (simp add: sched_keeps_def)

lemma bulk_add_keeps: "sched_ok s \<Longrightarrow> sched_keeps s (bulk_add b ws s)"
  by (rule sched_keeps_simple)
    (auto simp: bulk_add_def Let_def)

lemma wb_add_keeps: "sched_ok s \<Longrightarrow> sched_keeps s (wb_add b w s)"
  by (rule sched_keeps_simple) (auto simp: wb_add_def)

lemma wb_add_prioritized_keeps: "sched_ok s \<Longrightarrow> wb_add_prioritized b w s = Some t \<Longrightarrow> sched_keeps s t"
  by (rule sched_keeps_simple)
    (auto simp: wb_add_prioritized_def bind_eq_Some_conv split: if_splits)

lemma bulk_add_prioritized_keeps: "sched_ok s \<Longrightarrow> bulk_add_prioritized b ws s = Some t \<Longrightarrow> sched_keeps s t"
  by (rule sched_keeps_simple)
    (auto simp: bulk_add_prioritized_def Let_def bind_eq_Some_conv split: if_splits)

lemma set_in_gc_pause_keeps: "sched_ok s \<Longrightarrow> sched_keeps s (set_in_gc_pause p s)"
  by (rule sched_keeps_simple) (auto simp: set_in_gc_pause_def set_in_concurrent_def)

lemma pause_concurrent_keeps: "sched_ok s \<Longrightarrow> sched_keeps s (pause_concurrent_marking_work_packets_during_gc s)"
  by (rule sched_keeps_simple) (auto simp: pause_concurrent_marking_work_packets_during_gc_def swap_queue_def Let_def)

lemma process_lazy_keeps: "sched_ok s \<Longrightarrow> sched_keeps s (process_lazy_decrement_packets c s)"
  by (rule sched_keeps_simple)
    (auto simp: process_lazy_decrement_packets_def bulk_add_def Let_def)

lemma schedule_sentinel_keeps:
  assumes "sched_ok s"
  shows "sched_keeps s (snd (schedule_sentinel b s))"
  by (rule sched_keeps_simple [OF assms]) (auto simp: schedule_sentinel_def case_prod_beta)

lemma sentinels_loop_keeps: "sched_ok s \<Longrightarrow> sched_keeps s (snd (sentinels_loop bs r s)) \<and> signals (snd (sentinels_loop bs r s)) = signals s"
proof (induction bs r s rule: sentinels_loop.induct)
  case (2 b bs r s)
  have sig: "signals (snd (schedule_sentinel b s)) = signals s" by (simp add: schedule_sentinel_def case_prod_beta)
  show ?case
  proof (cases "is_activated (work_buckets s b)")
    case True
    have ok: "sched_keeps s (snd (schedule_sentinel b s))" by (rule schedule_sentinel_keeps [OF 2(3)])
    then have "sched_ok (snd (schedule_sentinel b s))" by (simp add: sched_keeps_def)
    then show ?thesis using 2(1) [OF True prod.collapse] True sched_keeps_trans [OF ok] sig by (simp add: case_prod_beta)
  qed (use 2 in simp)
qed (simp add: sched_keeps_refl)

text \<open>Opening a bucket under its condition keeps the order of the open stages.\<close>

lemma wb_update_keeps:
  assumes "sched_ok s" "i < stage_LENGTH" "wb_update (from_usize i) s = (True, t)"
  shows "sched_keeps s t" "signals t = signals s" "\<And>a. 0 < into_usize a \<Longrightarrow> into_usize a \<le> i \<Longrightarrow> passed t a"
proof -
  let ?b = "from_usize i"
  obtain c where c: "wb_can_open (work_buckets s ?b) = Some c" "are_buckets_drained c s" and t: "t = on_bucket ?b activate s"
    using assms(3) by (auto simp: wb_update_def split: option.splits if_splits)
  have "c = map from_usize [1..<i]" using assms(1,2) c(1) by (auto simp: sched_ok_def split: if_splits)
  then have prior: "passed s a" if "0 < into_usize a" "into_usize a < i" for a
  proof -
    have "into_usize a \<in> {1..<i}" using that by (simp add: Suc_le_eq)
    then have "from_usize (into_usize a) \<in> from_usize ` {1..<i}" by (rule imageI)
    then have "a \<in> set c" using \<open>c = map from_usize [1..<i]\<close> by simp
    then show ?thesis using c(2) by (auto simp: are_buckets_drained_def passed_def is_drained_def)
  qed
  then show before: "passed t a" if "0 < into_usize a" "into_usize a \<le> i" for a
    using that assms(2) by (cases "into_usize a = i") (auto simp: t passed_def bucket_defs)
  have "sched_ok t"
  proof (rule sched_ok_mono [OF assms(1)])
    show "passed t a" if "is_activated (work_buckets t b)" "\<not> is_activated (work_buckets s b)" "0 < into_usize a" "into_usize a < into_usize b" for a b
      using that assms(2) before [of a] by (auto simp: t split: if_splits)
  qed (use assms(1) in \<open>auto simp: t passed_def is_activated_def disabled_def activate_def sched_ok_def split: if_splits\<close>)
  then show "sched_keeps s t" by (auto simp: sched_keeps_def t worker_count_def has_designated_work_def bucket_defs)
  show "signals t = signals s" by (simp add: t)
qed

lemma update_loop_keeps:
  "sched_ok s \<Longrightarrow> update_loop i u s = (u', np, j, t) \<Longrightarrow>
   sched_keeps s t \<and> signals t = signals s \<and> (np \<longrightarrow> j < stage_LENGTH \<and> (\<forall>a. 0 < into_usize a \<longrightarrow> into_usize a \<le> j \<longrightarrow> passed t a))"
proof (induction "stage_LENGTH - i" arbitrary: i u s)
  case 0
  then show ?case by (auto simp: update_loop.simps [of i] sched_keeps_refl)
next
  case (Suc k)
  let ?b = "from_usize i"
  have i: "i < stage_LENGTH" using Suc.hyps(2) by simp
  have next_ok: "sched_keeps s t \<and> signals t = signals s \<and> (np \<longrightarrow> j < stage_LENGTH \<and> (\<forall>a. 0 < into_usize a \<longrightarrow> into_usize a \<le> j \<longrightarrow> passed t a))"
    if "sched_keeps s s1" "signals s1 = signals s" "update_loop (i + 1) u1 s1 = (u', np, j, t)" for u1 s1
    using Suc.hyps(1) [of "i + 1" s1 u1] Suc.hyps(2) that by (auto simp: sched_keeps_def)
  show ?case
  proof (cases "?b = Unconstrained \<or> passed s ?b")
    case True
    then have "update_loop (i + 1) u s = (u', np, j, t)" using Suc.prems(2) i by (simp add: update_loop.simps [of i] passed_def Let_def split: if_splits)
    then show ?thesis by (rule next_ok [OF sched_keeps_refl [OF Suc.prems(1)] refl])
  next
    case False
    obtain o1 s1 where up: "wb_update ?b s = (o1, s1)" by fastforce
    show ?thesis
    proof (cases o1)
      case False
      then have s1: "s1 = s" using up by (auto simp: wb_update_def split: option.splits if_splits)
      have "update_loop (i + 1) u s = (u', np, j, t)" using Suc.prems(2) i \<open>\<not> (?b = Unconstrained \<or> passed s ?b)\<close> up False s1
        by (subst (asm) update_loop.simps) (auto simp: passed_def)
      then show ?thesis by (rule next_ok [OF sched_keeps_refl [OF Suc.prems(1)] refl])
    next
      case True
      then have up': "wb_update ?b s = (True, s1)" using up by simp
      note up1 = wb_update_keeps [OF Suc.prems(1) i up']
      have ok1: "sched_ok s1" using up1(1) by (simp add: sched_keeps_def)
      obtain r s2 where s2: "schedule_sentinel ?b s1 = (r, s2)" by fastforce
      have k2: "sched_keeps s s2" using sched_keeps_trans [OF up1(1)] schedule_sentinel_keeps [OF ok1, of ?b] s2 by simp
      have g2: "signals s2 = signals s" "\<And>a. passed s1 a \<Longrightarrow> passed s2 a"
        using s2 up1(2) by (auto simp: schedule_sentinel_def case_prod_beta passed_def is_activated_def disabled_def)
      have run: "(if \<not> is_drained (work_buckets s1 ?b) then (True, True, i, s1) else if r then (True, True, i, s2) else update_loop (i + 1) True s2) = (u', np, j, t)"
        using Suc.prems(2) i \<open>\<not> (?b = Unconstrained \<or> passed s ?b)\<close> up True s2
        by (subst (asm) update_loop.simps) (auto simp: passed_def split: if_splits)
      show ?thesis
      proof (cases "is_drained (work_buckets s1 ?b) \<and> \<not> r")
        case True
        then show ?thesis using run by (intro next_ok [OF k2 g2(1)]) simp
      next
        case False
        then show ?thesis using run k2 g2 up1 i by (auto split: if_splits)
      qed
    qed
  qed
qed

lemma update_buckets_keeps:
  assumes "sched_ok s"
  shows "sched_keeps s (snd (update_buckets s))" "signals (snd (update_buckets s)) = signals s"
proof -
  obtain u np j t where run: "update_loop (Suc (bucket_update_progress s)) False s = (u, np, j, t)" by (metis prod_cases4)
  note k = update_loop_keeps [OF assms run]
  have t: "snd (update_buckets s) = t\<lparr>bucket_update_progress := (if u \<and> np then j else 0)\<rparr>" using run by (simp add: update_buckets_def)
  have "sched_ok (t\<lparr>bucket_update_progress := (if u \<and> np then j else 0)\<rparr>)"
    using k by (auto simp: sched_keeps_def sched_ok_def passed_def stage_LENGTH_def)
  then show "sched_keeps s (snd (update_buckets s))" "signals (snd (update_buckets s)) = signals s"
    unfolding t using k by (simp_all add: sched_keeps_def worker_count_def has_designated_work_def)
qed

lemma find_more_work_keeps:
  assumes "sched_ok s" "find_more_work_for_workers s = (r, t)"
  shows "sched_keeps s t" "signals t = signals s" "\<not> r \<Longrightarrow> \<not> has_designated_work t"
proof -
  obtain r1 s1 where s1: "schedule_sentinels s = (r1, s1)" by fastforce
  have k1: "sched_keeps s s1" "signals s1 = signals s"
    using sentinels_loop_keeps [OF assms(1), of stages False] s1 by (simp_all add: schedule_sentinels_def)
  then have k2: "sched_keeps s (snd (update_buckets s1))" "signals (snd (update_buckets s1)) = signals s"
    using update_buckets_keeps [of s1] sched_keeps_trans by (auto simp: sched_keeps_def)
  have t: "(r, t) = (if has_designated_work s then (True, s) else if r1 then (True, s1) else update_buckets s1)"
    using assms(2) s1 by (auto simp: find_more_work_for_workers_def)
  then show k: "sched_keeps s t" "signals t = signals s"
    using k1 k2 sched_keeps_refl [OF assms(1)] by (metis prod.sel(2))+
  show "\<not> has_designated_work t" if "\<not> r" using that t k by (auto simp: sched_keeps_def split: if_splits)
qed

text \<open>If no work is found, the open buckets stay drained.\<close>

lemma schedule_sentinel_none:
  "\<not> fst (schedule_sentinel b s) \<Longrightarrow> work_buckets (snd (schedule_sentinel b s)) c = work_buckets s c \<and> \<not> has_sentinel (work_buckets s b)"
  by (cases "wb_sentinel (work_buckets s b)")
    (auto simp: schedule_sentinel_def maybe_schedule_sentinel_def has_sentinel_def Let_def intro!: work_bucket.equality)

lemma sentinels_loop_none:
  "\<not> fst (sentinels_loop bs r s) \<Longrightarrow>
   (\<forall>c. work_buckets (snd (sentinels_loop bs r s)) c = work_buckets s c) \<and> (\<forall>b \<in> set bs. is_activated (work_buckets s b) \<longrightarrow> \<not> has_sentinel (work_buckets s b)) \<and> \<not> r"
proof (induction bs r s rule: sentinels_loop.induct)
  case (2 b bs r s)
  show ?case
  proof (cases "is_activated (work_buckets s b)")
    case True
    have rec: "sentinels_loop (b # bs) r s = sentinels_loop bs (r \<or> fst (schedule_sentinel b s)) (snd (schedule_sentinel b s))"
      using True by (simp add: case_prod_beta)
    have ih: "(\<forall>c. work_buckets (snd (sentinels_loop (b # bs) r s)) c = work_buckets (snd (schedule_sentinel b s)) c) \<and>
        (\<forall>c \<in> set bs. is_activated (work_buckets (snd (schedule_sentinel b s)) c) \<longrightarrow> \<not> has_sentinel (work_buckets (snd (schedule_sentinel b s)) c)) \<and>
        \<not> (r \<or> fst (schedule_sentinel b s))"
      unfolding rec by (rule 2(1) [OF True refl prod.collapse]) (use 2(3) rec in simp)
    then show ?thesis using schedule_sentinel_none [of b s] by auto
  next
    case False
    then have "sentinels_loop (b # bs) r s = sentinels_loop bs r s" by simp
    then show ?thesis using 2(2) [OF False] 2(3) False by (metis list.set_intros set_ConsD)
  qed
qed simp

lemma update_loop_drained:
  "open_drained s \<Longrightarrow> update_loop i u s = (u', np, j, t) \<Longrightarrow> (u \<or> np \<longrightarrow> u') \<and> (\<not> np \<longrightarrow> open_drained t)"
proof (induction "stage_LENGTH - i" arbitrary: i u s)
  case 0
  then show ?case by (auto simp: update_loop.simps [of i])
next
  case (Suc k)
  let ?b = "from_usize i"
  have next_ok: "(u1 \<or> np \<longrightarrow> u') \<and> (\<not> np \<longrightarrow> open_drained t)"
    if "open_drained s1" "update_loop (i + 1) u1 s1 = (u', np, j, t)" for u1 s1
    using Suc.hyps(1) [of "i + 1" s1 u1] Suc.hyps(2) that by auto
  obtain o1 s1 where up: "wb_update ?b s = (o1, s1)" by fastforce
  obtain r s2 where s2: "schedule_sentinel ?b s1 = (r, s2)" by fastforce
  have run: "(if ?b = Unconstrained \<or> passed s ?b then update_loop (i + 1) u s
      else if o1 then (if \<not> is_drained (work_buckets s1 ?b) then (True, True, i, s1) else if r then (True, True, i, s2) else update_loop (i + 1) True s2)
      else update_loop (i + 1) u s1) = (u', np, j, t)"
    using Suc.prems(2) Suc.hyps(2) up s2 by (subst (asm) update_loop.simps) (auto simp: passed_def Let_def split: if_splits)
  show ?case
  proof (cases "?b = Unconstrained \<or> passed s ?b")
    case True
    then show ?thesis using run by (intro next_ok [OF Suc.prems(1)]) simp
  next
    case np: False
    show ?thesis
    proof (cases o1)
      case True
      then have s1: "s1 = on_bucket ?b activate s" using up by (auto simp: wb_update_def split: option.splits if_splits)
      show ?thesis
      proof (cases "is_drained (work_buckets s1 ?b) \<and> \<not> r")
        case True
        then have "work_buckets s2 c = work_buckets s1 c" for c using schedule_sentinel_none [of ?b s1 c] s2 by simp
        then have "open_drained s2" using Suc.prems(1) True s1 by (auto simp: open_drained_def is_drained_def split: if_splits)
        moreover have "update_loop (i + 1) True s2 = (u', np, j, t)" using run np True \<open>o1\<close> by simp
        ultimately show ?thesis using next_ok [of s2 True] by blast
      qed (use run np True in \<open>auto split: if_splits\<close>)
    next
      case False
      then have "s1 = s" using up by (auto simp: wb_update_def split: option.splits if_splits)
      then show ?thesis using run np False by (intro next_ok [OF Suc.prems(1)]) simp
    qed
  qed
qed

lemma find_more_work_none:
  assumes "open_drained s" "find_more_work_for_workers s = (False, t)"
  shows "open_drained t" "\<And>b. is_activated (work_buckets s b) \<Longrightarrow> \<not> has_sentinel (work_buckets s b)" "\<not> has_designated_work s"
    "\<exists>s1. t = snd (update_buckets s1) \<and> \<not> fst (update_buckets s1) \<and> work_buckets s1 = work_buckets s \<and> s1 = snd (schedule_sentinels s)"
proof -
  obtain r s1 where s1: "schedule_sentinels s = (r, s1)" by fastforce
  have d: "\<not> has_designated_work s" and r: "\<not> r" and up: "update_buckets s1 = (False, t)"
    using assms(2) s1 by (auto simp: find_more_work_for_workers_def split: if_splits)
  note l = sentinels_loop_none [of stages False s] s1 r
  have same: "work_buckets s1 = work_buckets s" using l by (auto simp: schedule_sentinels_def)
  obtain u np j v where run: "update_loop (Suc (bucket_update_progress s1)) False s1 = (u, np, j, v)" by (metis prod_cases4)
  have "open_drained s1" using assms(1) same by (simp add: open_drained_def)
  from update_loop_drained [OF this run] have "\<not> np" "open_drained v" using up run by (auto simp: update_buckets_def Let_def)
  then show "open_drained t" using up run by (auto simp: update_buckets_def Let_def open_drained_def)
  show "\<And>b. is_activated (work_buckets s b) \<Longrightarrow> \<not> has_sentinel (work_buckets s b)" using l by (simp add: schedule_sentinels_def)
  show "\<not> has_designated_work s" by (rule d)
  show "\<exists>s1. t = snd (update_buckets s1) \<and> \<not> fst (update_buckets s1) \<and> work_buckets s1 = work_buckets s \<and> s1 = snd (schedule_sentinels s)"
    using up same s1 by (intro exI [of _ s1]) simp
qed

lemma deactivate_all_ok: "sched_ok s \<Longrightarrow> sched_ok (deactivate_all s)"
  by (auto simp: sched_ok_def deactivate_all_def passed_def bucket_defs stage_LENGTH_def)

lemma schedule_concurrent_packets_ok:
  assumes "sched_ok s"
  obtains t where "schedule_concurrent_packets q pq s = Some t" "sched_keeps s t"
    "signals t = signals s @ (if q \<noteq> [] \<or> pq \<noteq> [] then [True] else [])"
    "\<And>b. q = [] \<Longrightarrow> pq = [] \<Longrightarrow> work_buckets t b = work_buckets s b"
    "\<And>b. b \<noteq> Unconstrained \<Longrightarrow> work_buckets t b = work_buckets s b" "designated_work t = designated_work s"
proof -
  obtain x where x: "wb_prioritized_queue (work_buckets s Unconstrained) = Some x" using assms by (auto simp: sched_ok_def)
  obtain t where t: "schedule_concurrent_packets q pq s = Some t" and
    f: "signals t = signals s @ (if q \<noteq> [] \<or> pq \<noteq> [] then [True] else [])" "\<And>b. q = [] \<Longrightarrow> pq = [] \<Longrightarrow> work_buckets t b = work_buckets s b"
      "\<And>b. b \<noteq> Unconstrained \<Longrightarrow> work_buckets t b = work_buckets s b" and
    d: "designated_work t = designated_work s" "bucket_update_progress t = bucket_update_progress s"
      "\<And>b. wb_can_open (work_buckets t b) = wb_can_open (work_buckets s b)" "\<And>b. wb_active (work_buckets t b) = wb_active (work_buckets s b)"
      "\<And>b. wb_disable (work_buckets t b) = wb_disable (work_buckets s b)"
      "\<And>b. wb_prioritized_queue (work_buckets t b) = None \<longleftrightarrow> wb_prioritized_queue (work_buckets s b) = None"
    using x by (cases "q = []"; cases "pq = []") (auto simp: schedule_concurrent_packets_def swap_queue_def swap_queue_prioritized_def
        wakeup_all_conc_workers_def notify_work_available_def)
  have "sched_keeps s t" by (rule sched_keeps_simple [OF assms]) (use d in auto)
  with t f d(1) show thesis using that by blast
qed

section \<open>The invariant\<close>

definition is_parked :: "'w phase \<Rightarrow> bool" where
  "is_parked p \<longleftrightarrow> p = Waiting \<or> p = Woken"

text \<open>A worker that polls a bucket before it parks.\<close>

fun will_poll :: "'w phase \<Rightarrow> work_bucket_stage \<Rightarrow> bool" where
  "will_poll (Scan sl r pos) b \<longleftrightarrow> \<not> sl \<or> r \<or> pos \<le> Suc (into_usize b)"
| "will_poll p b \<longleftrightarrow> p \<notin> {Waiting, Woken, Exited, Gone}"

definition parked_set :: "nat \<Rightarrow> (nat \<Rightarrow> 'w phase) \<Rightarrow> nat set" where
  "parked_set n p = {i. i < n \<and> is_parked (p i)}"

definition inv_count :: "nat \<Rightarrow> 'w gc_system \<Rightarrow> bool" where
  "inv_count n s \<longleftrightarrow> sched_ok (sched s) \<and> workers s = n \<and> signals (sched s) = [] \<and> 0 < n \<and> parker_worker_count (parker s) = n \<and>
     parked_workers (parker s) = card (parked_set n (phase s)) \<and> parked s = card (parked_set n (phase s))"

definition inv_goal :: "'w gc_system \<Rightarrow> bool" where
  "inv_goal s \<longleftrightarrow> (gc_start_time s \<longleftrightarrow> current_goal (goals s) = Some Gc) \<and> (has_designated_work (sched s) \<longrightarrow> current_goal (goals s) = Some Gc) \<and>
     (mutators_paused s \<longrightarrow> current_goal (goals s) = Some Gc \<and> is_activated (work_buckets (sched s) FinishConcurrentWork)) \<and>
     (requesting s \<longrightarrow> request_flag s \<and> \<not> requests (goals s) Gc) \<and> (requests (goals s) Gc \<longrightarrow> request_flag s) \<and>
     (current_goal (goals s) = Some Gc \<longrightarrow> \<not> requests (goals s) Gc \<and> \<not> requesting s \<and> (mutators_paused s \<or> request_flag s))"

definition gone_set :: "nat \<Rightarrow> (nat \<Rightarrow> 'w phase) \<Rightarrow> nat set" where
  "gone_set n p = {i. i < n \<and> p i = Gone}"

text \<open>The workers run, exit, or have been surrendered.\<close>

definition running :: "nat \<Rightarrow> 'w gc_system \<Rightarrow> bool" where
  "running n s \<longleftrightarrow> current_goal (goals s) \<noteq> Some StopForFork \<and> (\<forall>i < n. phase s i \<notin> {Exited, Gone}) \<and>
     creation_state s = (if requests (goals s) StopForFork then Surrendered 0 else Spawned)"

definition exiting :: "nat \<Rightarrow> 'w gc_system \<Rightarrow> bool" where
  "exiting n s \<longleftrightarrow> current_goal (goals s) = Some StopForFork \<and> \<not> requests (goals s) StopForFork \<and> (\<forall>i < n. phase s i \<in> {Woken, Exited, Gone}) \<and>
     creation_state s = Surrendered (card (gone_set n (phase s))) \<and> card (gone_set n (phase s)) < n"

definition surrendered :: "nat \<Rightarrow> 'w gc_system \<Rightarrow> bool" where
  "surrendered n s \<longleftrightarrow> current_goal (goals s) = None \<and> \<not> requests (goals s) StopForFork \<and> (\<forall>i < n. phase s i = Gone) \<and>
     creation_state s = Surrendered n"

definition inv_fork :: "nat \<Rightarrow> 'w gc_system \<Rightarrow> bool" where
  "inv_fork n s \<longleftrightarrow> running n s \<or> exiting n s \<or> surrendered n s"

definition busy :: "'w phase \<Rightarrow> bool" where
  "busy p \<longleftrightarrow> (case p of Start \<Rightarrow> True | Local \<Rightarrow> True | Executing w \<Rightarrow> True | _ \<Rightarrow> False)"

definition inv_local :: "nat \<Rightarrow> 'w gc_system \<Rightarrow> bool" where
  "inv_local n s \<longleftrightarrow> (\<forall>i < n. local_work_buffer s i \<noteq> [] \<longrightarrow> busy (phase s i))"

text \<open>A goal or a request has a worker that is not waiting.\<close>

definition inv_wake :: "nat \<Rightarrow> 'w gc_system \<Rightarrow> bool" where
  "inv_wake n s \<longleftrightarrow> (current_goal (goals s) \<noteq> None \<or> requests (goals s) Gc \<or> requests (goals s) StopForFork \<longrightarrow> (\<exists>i < n. phase s i \<noteq> Waiting))"

text \<open>A packet of an open bucket has a worker that will poll the bucket.\<close>

definition open_work :: "'w gc_work_scheduler \<Rightarrow> work_bucket_stage \<Rightarrow> bool" where
  "open_work s b \<longleftrightarrow> is_activated (work_buckets s b) \<and> \<not> wb_is_empty (work_buckets s b)"

definition inv_cover :: "nat \<Rightarrow> 'w gc_system \<Rightarrow> bool" where
  "inv_cover n s \<longleftrightarrow> (\<forall>b. open_work (sched s) b \<longrightarrow>
     (1 < n \<longrightarrow> (\<exists>i < n. will_poll (phase s i) b \<or> phase s i \<in> {Woken, Exited, Gone})) \<and>
     (current_goal (goals s) = Some Gc \<longrightarrow> (\<exists>i < n. will_poll (phase s i) b)))"

definition gc_inv :: "bool \<Rightarrow> nat \<Rightarrow> 'w gc_system \<Rightarrow> bool" where
  "gc_inv quiet n s \<longleftrightarrow> inv_count n s \<and> inv_goal s \<and> inv_fork n s \<and> inv_local n s \<and> inv_wake n s \<and> (quiet \<longrightarrow> inv_cover n s)"

lemma parked_set_finite [simp]: "finite (parked_set n p)" "finite (gone_set n p)"
  by (simp_all add: parked_set_def gone_set_def)

lemma busy_simps [simp]: "busy Start" "busy Local" "busy (Executing w)" "\<not> busy (Scan sl r k)" "\<not> busy Waiting" "\<not> busy Woken" "\<not> busy Exited" "\<not> busy Gone"
  by (simp_all add: busy_def)

section \<open>Notifications\<close>

text \<open>Workers that wake up.\<close>

definition wakes :: "nat \<Rightarrow> (nat \<Rightarrow> 'w phase) \<Rightarrow> (nat \<Rightarrow> 'w phase) \<Rightarrow> bool" where
  "wakes n p p' \<longleftrightarrow> (\<forall>i. p' i = p i \<or> i < n \<and> p i = Waiting \<and> p' i = Woken)"

lemma wakes_refl [simp]: "wakes n p p"
  by (simp add: wakes_def)

lemma wakes_trans: "wakes n p q \<Longrightarrow> wakes n q r \<Longrightarrow> wakes n p r"
  unfolding wakes_def by (metis phase.distinct)

lemma delivered_wakes: "delivered n ss p p' \<Longrightarrow> wakes n p p'"
proof (induction rule: delivered.induct)
  case (delivered_all ss p p')
  show ?case by (rule wakes_trans [OF _ delivered_all.IH]) (simp add: wakes_def)
next
  case (delivered_one i p ss p')
  show ?case by (rule wakes_trans [OF _ delivered_one.IH]) (use delivered_one.hyps in \<open>simp add: wakes_def\<close>)
qed simp_all

lemma wakes_cases: "wakes n p p' \<Longrightarrow> p' i = p i \<or> p i = Waiting \<and> p' i = Woken"
  by (auto simp: wakes_def)

lemma wakes_not_waiting: "wakes n p p' \<Longrightarrow> p i \<noteq> Waiting \<Longrightarrow> p' i = p i"
  by (auto simp: wakes_def)

lemma delivered_all_wake: "delivered n ss p p' \<Longrightarrow> True \<in> set ss \<Longrightarrow> i < n \<Longrightarrow> p' i \<noteq> Waiting"
proof (induction rule: delivered.induct)
  case (delivered_all ss p p')
  then show ?case using wakes_not_waiting [OF delivered_wakes [OF delivered_all.hyps], of i] by (cases "p i = Waiting") auto
qed auto

lemma delivered_wake_one: "delivered n ss p p' \<Longrightarrow> ss \<noteq> [] \<Longrightarrow> 0 < n \<Longrightarrow> \<exists>i < n. p' i \<noteq> Waiting"
proof (induction rule: delivered.induct)
  case (delivered_all ss p p')
  then show ?case using wakes_not_waiting [OF delivered_wakes [OF delivered_all.hyps], of 0] by (cases "p 0 = Waiting") (auto intro: exI [of _ 0])
next
  case (delivered_one i p ss p')
  then show ?case using wakes_not_waiting [OF delivered_wakes [OF delivered_one.hyps(3)], of i] by auto
next
  case (delivered_lost p ss p')
  then show ?case using wakes_not_waiting [OF delivered_wakes [OF delivered_lost.hyps(2)], of 0] by (intro exI [of _ 0]) auto
qed simp

text \<open>Waking up keeps the invariant.\<close>

lemma wakes_sets:
  assumes "wakes n p p'"
  shows "parked_set n p' = parked_set n p" "gone_set n p' = gone_set n p" "busy (p' i) = busy (p i)" "will_poll (p' i) b = will_poll (p i) b"
proof -
  have "is_parked (p' i) = is_parked (p i)" "(p' i = Gone) = (p i = Gone)" for i using wakes_cases [OF assms, of i] by (auto simp: is_parked_def)
  then show "parked_set n p' = parked_set n p" "gone_set n p' = gone_set n p" by (simp_all add: parked_set_def gone_set_def)
  show "busy (p' i) = busy (p i)" "will_poll (p' i) b = will_poll (p i) b" using wakes_cases [OF assms, of i] by auto
qed

lemma settled_fields [simp]:
  "sched (settled p s) = sched s\<lparr>signals := []\<rparr>" "goals (settled p s) = goals s" "parker (settled p s) = parker s" "parked (settled p s) = parked s"
  "phase (settled p s) = p" "local_work_buffer (settled p s) = local_work_buffer s" "gc_start_time (settled p s) = gc_start_time s"
  "request_flag (settled p s) = request_flag s" "requesting (settled p s) = requesting s" "mutators_paused (settled p s) = mutators_paused s"
  "creation_state (settled p s) = creation_state s"
  by (simp_all add: settled_def)

lemma signals_fields [simp]: "worker_count (s\<lparr>signals := x\<rparr>) = worker_count s" "has_designated_work (s\<lparr>signals := x\<rparr>) = has_designated_work s"
  "open_work (s\<lparr>signals := x\<rparr>) b = open_work s b"
  by (simp_all add: worker_count_def has_designated_work_def open_work_def)

lemma inv_fork_wakes:
  assumes "wakes n (phase s) p" "inv_fork n s"
  shows "inv_fork n (settled p s)"
proof -
  note w = wakes_cases [OF assms(1)]
  have "running n s \<Longrightarrow> running n (settled p s)" using w unfolding running_def settled_fields by (metis insert_iff empty_iff phase.distinct)
  moreover have "exiting n s \<Longrightarrow> exiting n (settled p s)" using w unfolding exiting_def settled_fields wakes_sets [OF assms(1)] by (metis insert_iff)
  moreover have "surrendered n s \<Longrightarrow> surrendered n (settled p s)" using w unfolding surrendered_def settled_fields by (metis phase.distinct)
  ultimately show ?thesis using assms(2) by (auto simp: inv_fork_def)
qed

lemma inv_local_wakes: "wakes n (phase s) p \<Longrightarrow> inv_local n s \<Longrightarrow> inv_local n (settled p s)"
  by (simp add: inv_local_def wakes_sets)

lemma inv_wake_wakes: "wakes n (phase s) p \<Longrightarrow> inv_wake n s \<Longrightarrow> inv_wake n (settled p s)"
  unfolding inv_wake_def settled_fields by (metis wakes_not_waiting)

lemma inv_cover_wakes:
  assumes "wakes n (phase s) p" "inv_cover n s"
  shows "inv_cover n (settled p s)"
proof -
  have "phase s i \<in> {Woken, Exited, Gone} \<Longrightarrow> p i \<in> {Woken, Exited, Gone}" for i
    using wakes_not_waiting [OF assms(1), of i] by auto
  then show ?thesis using assms(2) by (simp add: inv_cover_def wakes_sets [OF assms(1)]) blast
qed

section \<open>Steps of a worker outside of the monitor\<close>

definition same_control :: "'w gc_system \<Rightarrow> 'w gc_system \<Rightarrow> bool" where
  "same_control s t \<longleftrightarrow> goals t = goals s \<and> parker t = parker s \<and> parked t = parked s \<and> gc_start_time t = gc_start_time s \<and>
     requesting t = requesting s \<and> creation_state t = creation_state s"

definition same_pause :: "'w gc_system \<Rightarrow> 'w gc_system \<Rightarrow> bool" where
  "same_pause s t \<longleftrightarrow> request_flag t = request_flag s \<and> mutators_paused t = mutators_paused s"

lemma gc_invD:
  assumes "gc_inv quiet n s"
  shows "inv_count n s" "inv_goal s" "inv_fork n s" "inv_local n s" "inv_wake n s" "quiet \<Longrightarrow> inv_cover n s"
  using assms by (simp_all add: gc_inv_def)

lemma running_worker:
  assumes "inv_fork n s" "i < n" "\<not> is_parked (phase s i)" "phase s i \<notin> {Exited, Gone}"
  shows "running n s"
proof -
  have "\<not> exiting n s" "\<not> surrendered n s" using assms(2-4) by (auto simp: exiting_def surrendered_def is_parked_def)
  then show ?thesis using assms(1) by (simp add: inv_fork_def)
qed

definition keeps_polling :: "'w phase \<Rightarrow> 'w phase \<Rightarrow> work_bucket_stage \<Rightarrow> bool" where
  "keeps_polling p q b \<longleftrightarrow> (will_poll p b \<longrightarrow> will_poll q b) \<and> (will_poll q b \<or> q \<in> {Woken, Exited, Gone})"

lemma inv_cover_mono:
  assumes "inv_cover n s" "current_goal (goals t) = Some Gc \<longrightarrow> current_goal (goals s) = Some Gc"
    and "\<And>b. open_work (sched t) b \<Longrightarrow> (\<exists>i < n. will_poll (phase t i) b) \<or> open_work (sched s) b \<and>
      (\<forall>j < n. will_poll (phase s j) b \<or> phase s j \<in> {Woken, Exited, Gone} \<longrightarrow> keeps_polling (phase s j) (phase t j) b)"
  shows "inv_cover n t"
  unfolding inv_cover_def
proof (intro allI impI)
  fix b assume o: "open_work (sched t) b"
  show "(1 < n \<longrightarrow> (\<exists>i < n. will_poll (phase t i) b \<or> phase t i \<in> {Woken, Exited, Gone})) \<and>
      (current_goal (goals t) = Some Gc \<longrightarrow> (\<exists>i < n. will_poll (phase t i) b))"
    using assms(3) [OF o]
  proof
    assume "\<exists>i < n. will_poll (phase t i) b"
    then show ?thesis by blast
  next
    assume k: "open_work (sched s) b \<and> (\<forall>j < n. will_poll (phase s j) b \<or> phase s j \<in> {Woken, Exited, Gone} \<longrightarrow> keeps_polling (phase s j) (phase t j) b)"
    then show ?thesis using assms(1) [unfolded inv_cover_def, rule_format, of b] assms(2) unfolding keeps_polling_def by metis
  qed
qed

lemma gc_inv_move:
  assumes inv: "gc_inv quiet n s" and i: "i < n" "\<not> is_parked (phase s i)" "phase s i \<notin> {Exited, Gone}" "p \<notin> {Waiting, Woken, Exited, Gone}"
    and fr: "same_control s s1" "same_pause s s1" "phase s1 = phase s" "sched_keeps (sched s) (sched s1)" "signals (sched s1) = []"
    and loc: "\<And>j. j < n \<Longrightarrow> local_work_buffer s1 j \<noteq> [] \<Longrightarrow> (j = i \<longrightarrow> busy p) \<and> (j = i \<or> local_work_buffer s j \<noteq> [])"
    and cov: "\<And>b. open_work (sched s1) b \<Longrightarrow> will_poll p b \<or> open_work (sched s) b \<and> \<not> will_poll (phase s i) b"
  shows "gc_inv quiet n (at s1 i p)"
proof -
  note I = gc_invD [OF inv]
  have "parked_set n ((phase s)(i := p)) = parked_set n (phase s)" using i by (auto simp: parked_set_def is_parked_def)
  then have "inv_count n (at s1 i p)" using I(1) fr by (simp add: inv_count_def same_control_def sched_keeps_def)
  moreover have "inv_goal (at s1 i p)" using I(2) fr unfolding inv_goal_def same_control_def same_pause_def sched_keeps_def by auto
  moreover have "running n (at s1 i p)" using running_worker [OF I(3) i(1-3)] fr i(4) by (simp add: running_def same_control_def)
  moreover have "inv_local n (at s1 i p)" using I(4) loc fr(3) by (auto simp: inv_local_def)
  moreover have "inv_wake n (at s1 i p)" unfolding inv_wake_def using i by auto
  moreover have "inv_cover n (at s1 i p)" if q: quiet
  proof (rule inv_cover_mono [OF I(6) [OF q]])
    show "(\<exists>j < n. will_poll (phase (at s1 i p) j) b) \<or> open_work (sched s) b \<and>
        (\<forall>j < n. will_poll (phase s j) b \<or> phase s j \<in> {Woken, Exited, Gone} \<longrightarrow> keeps_polling (phase s j) (phase (at s1 i p) j) b)"
      if "open_work (sched (at s1 i p)) b" for b
    proof (cases "will_poll p b")
      case False
      then show ?thesis using cov [of b] that i(2,3) fr(3) by (auto simp: keeps_polling_def is_parked_def)
    qed (use i(1) in \<open>auto intro!: exI [of _ i]\<close>)
  qed (use fr(1) in \<open>simp add: same_control_def\<close>)
  ultimately show ?thesis by (simp add: gc_inv_def inv_fork_def)
qed

text \<open>What a call of a work packet changes.\<close>

definition exec_frame :: "nat \<Rightarrow> 'w gc_system \<Rightarrow> 'w gc_system \<Rightarrow> bool" where
  "exec_frame i s t \<longleftrightarrow> same_control s t \<and> phase t = phase s \<and> sched_ok (sched t) \<and> workers t = workers s \<and>
    (\<forall>b. is_activated (work_buckets (sched s) b) \<longrightarrow> is_activated (work_buckets (sched t) b)) \<and>
    (has_designated_work (sched t) \<longrightarrow> has_designated_work (sched s) \<or> current_goal (goals s) = Some Gc) \<and>
    (\<forall>j. j \<noteq> i \<longrightarrow> local_work_buffer t j = local_work_buffer s j) \<and>
    (same_pause s t \<or> current_goal (goals s) = Some Gc \<and> mutators_paused t \<and> \<not> request_flag t \<and> is_activated (work_buckets (sched t) FinishConcurrentWork))"

lemma exec_frame_sched: "sched_keeps (sched s) u \<Longrightarrow> exec_frame i s (s\<lparr>sched := u\<rparr>)"
  by (auto simp: exec_frame_def same_control_def same_pause_def sched_keeps_def)

lemma exec_frame_local: "sched_ok (sched s) \<Longrightarrow> exec_frame i s (s\<lparr>local_work_buffer := (local_work_buffer s)(i := q)\<rparr>)"
  by (simp add: exec_frame_def same_control_def same_pause_def)

lemma exec_frame_designate:
  assumes "sched_ok (sched s)" "current_goal (goals s) = Some Gc"
  shows "exec_frame i s (on_sched (designate k w) s)"
  using assms by (simp add: exec_frame_def same_control_def same_pause_def on_sched_def designate_def worker_count_def)

lemma notify_mutators_paused_ok:
  assumes "sched_ok (sched s)" "current_goal (goals s) = Some Gc"
  shows "exec_frame i s ((notify_mutators_paused d s)\<lparr>mutators_paused := True\<rparr>)"
proof -
  let ?t = "on_bucket FinishConcurrentWork activate (sched s)"
  have t: "sched_ok ?t" by (rule sched_ok_first_stw [OF assms(1)])
  have "sched_ok (on_bucket Initial activate ?t)"
  proof (rule sched_ok_mono [OF t])
    fix a b assume "is_activated (work_buckets (on_bucket Initial activate ?t) b)" "\<not> is_activated (work_buckets ?t b)" "0 < into_usize a" "into_usize a < into_usize b"
    then have "b = Initial" by (auto split: if_splits)
    then have "a = FinishConcurrentWork" using \<open>0 < into_usize a\<close> \<open>into_usize a < into_usize b\<close> by (cases a) auto
    then show "passed (on_bucket Initial activate ?t) a" by (simp add: passed_def is_activated_def activate_def)
  qed (use t in \<open>auto simp: passed_def bucket_defs sched_ok_def split: if_splits\<close>)
  then show ?thesis using t assms(2)
    by (auto simp: exec_frame_def same_control_def notify_mutators_paused_def clear_request_def Let_def worker_count_def has_designated_work_def activate_def is_activated_def)
qed

lemma exec_ok:
  assumes "exec i op s = Some t" "sched_ok (sched s)"
  shows "exec_frame i s t"
proof (cases op)
  case (AddWork b w)
  then show ?thesis using assms by (auto simp: add_work_def intro!: exec_frame_local exec_frame_sched wb_add_keeps)
next
  case (AddWorkPrioritized b w)
  then show ?thesis using assms by (auto simp: add_work_prioritized_def intro!: exec_frame_local exec_frame_sched intro: wb_add_prioritized_keeps split: if_splits)
next
  case (SetSentinel b w)
  have "sched_keeps (sched s) (on_bucket b (wb_set_sentinel w) (sched s))"
    by (rule sched_keeps_simple [OF assms(2)]) (auto simp: wb_set_sentinel_def)
  then show ?thesis using assms(1) SetSentinel by (auto simp: on_sched_def intro: exec_frame_sched)
next
  case (SetDisabled b)
  then have "b \<noteq> Unconstrained" using assms(1) by auto
  then have "sched_keeps (sched s) (on_bucket b set_as_disabled (sched s))"
    by (intro sched_keeps_simple [OF assms(2)]) (auto simp: set_as_disabled_def)
  then show ?thesis using assms(1) SetDisabled by (auto simp: on_sched_def intro: exec_frame_sched split: if_splits)
next
  case (Postpone w)
  have "sched_keeps (sched s) (postpone w (sched s))"
    by (rule sched_keeps_simple [OF assms(2)]) (auto simp: postpone_def)
  then show ?thesis using assms(1) Postpone by (auto simp: on_sched_def intro: exec_frame_sched)
next
  case (PostponePrioritized w)
  have "sched_keeps (sched s) (postpone_prioritized w (sched s))"
    by (rule sched_keeps_simple [OF assms(2)]) (auto simp: postpone_prioritized_def)
  then show ?thesis using assms(1) PostponePrioritized by (auto simp: on_sched_def intro: exec_frame_sched)
next
  case (PushDesignated k w)
  then show ?thesis using assms exec_frame_designate by (auto split: if_splits)
next
  case (NotifyMutatorsPaused d)
  then show ?thesis using assms notify_mutators_paused_ok by (auto split: if_splits)
qed (use assms in \<open>auto simp: on_sched_def intro!: exec_frame_sched intro: wb_add_keeps wb_add_prioritized_keeps bulk_add_keeps bulk_add_prioritized_keeps
    set_in_gc_pause_keeps pause_concurrent_keeps process_lazy_keeps\<close>)

lemma gc_inv_exec:
  assumes inv: "gc_inv quiet n s" and i: "i < n" "phase s i = Executing w" and ex: "exec i op s = Some t" and d: "delivered n (signals (sched t)) (phase t) p"
  shows "gc_inv quiet n (settled p t)"
proof -
  note I = gc_invD [OF inv]
  have fr: "exec_frame i s t" using exec_ok [OF ex] I(1) by (simp add: inv_count_def)
  then have w: "wakes n (phase s) p" using delivered_wakes [OF d] by (simp add: exec_frame_def)
  have pi: "p i = Executing w" using wakes_not_waiting [OF w, of i] i(2) by simp
  have "inv_count n (settled p t)" using I(1) fr by (simp add: inv_count_def exec_frame_def same_control_def wakes_sets [OF w])
  moreover have "inv_goal (settled p t)" using I(2) fr unfolding inv_goal_def exec_frame_def same_control_def same_pause_def by auto
  moreover have "running n s" by (rule running_worker [OF I(3) i(1)]) (use i(2) in \<open>auto simp: is_parked_def\<close>)
  then have "running n t" using fr by (simp add: running_def exec_frame_def same_control_def)
  then have "inv_fork n (settled p t)" by (intro inv_fork_wakes) (use w fr in \<open>simp_all add: inv_fork_def exec_frame_def\<close>)
  moreover have "inv_local n t" unfolding inv_local_def
  proof (intro allI impI)
    fix j assume "j < n" "local_work_buffer t j \<noteq> []"
    then show "busy (phase t j)" using I(4) fr i(2) by (cases "j = i") (simp_all add: inv_local_def exec_frame_def)
  qed
  then have "inv_local n (settled p t)" by (intro inv_local_wakes) (use w fr in \<open>simp_all add: exec_frame_def\<close>)
  moreover have "inv_wake n (settled p t)" using pi i(1) by (auto simp: inv_wake_def)
  moreover have "inv_cover n (settled p t)" using pi i(1) by (auto simp: inv_cover_def intro!: exI [of _ i])
  ultimately show ?thesis by (simp add: gc_inv_def)
qed

section \<open>Unparking, forking and mutators\<close>

lemma parked_set_unpark:
  assumes "i < n" "is_parked (p i)" "\<not> is_parked q"
  shows "card (parked_set n (p(i := q))) = card (parked_set n p) - 1"
proof -
  have "parked_set n (p(i := q)) = parked_set n p - {i}" "i \<in> parked_set n p" using assms by (auto simp: parked_set_def)
  then show ?thesis by simp
qed

lemma parked_set_park:
  assumes "i < n" "\<not> is_parked (p i)" "is_parked q"
  shows "card (parked_set n (p(i := q))) = card (parked_set n p) + 1"
proof -
  have "parked_set n (p(i := q)) = insert i (parked_set n p)" "i \<notin> parked_set n p" using assms by (auto simp: parked_set_def)
  then show ?thesis by simp
qed

lemma unpark_cover: "i < n \<Longrightarrow> inv_cover n (unpark i s)"
  by (auto simp: inv_cover_def unpark_def Let_def intro!: exI [of _ i])

lemma gc_inv_unpark:
  assumes inv: "gc_inv False n s" and i: "i < n" "phase s i = Woken"
  shows "gc_inv quiet n (unpark i s)"
proof -
  note I = gc_invD [OF inv]
  have ns: "\<not> surrendered n s" using i by (auto simp: surrendered_def)
  have fields: "sched (unpark i s) = sched s" "goals (unpark i s) = goals s" "creation_state (unpark i s) = creation_state s" "local_work_buffer (unpark i s) = local_work_buffer s"
    "parker (unpark i s) = dec_parked_workers (parker s)" "parked (unpark i s) = parked s - 1"
    "phase (unpark i s) = (phase s)(i := (if current_goal (goals s) = Some StopForFork then Exited else Scan True False 0))"
    by (simp_all add: unpark_def Let_def)
  have "inv_count n (unpark i s)"
    using I(1) i parked_set_unpark [of i n "phase s"] by (simp add: inv_count_def fields is_parked_def dec_parked_workers_def)
  moreover have "inv_goal (unpark i s)" using I(2) by (auto simp: inv_goal_def unpark_def Let_def)
  moreover have "inv_fork n (unpark i s)"
  proof (cases "current_goal (goals s) = Some StopForFork")
    case True
    then have "exiting n s" using I(3) ns by (auto simp: inv_fork_def running_def)
    moreover have "gone_set n ((phase s)(i := Exited)) = gone_set n (phase s)" using i by (auto simp: gone_set_def)
    ultimately have "exiting n (unpark i s)" using True by (simp add: exiting_def fields)
    then show ?thesis by (simp add: inv_fork_def)
  next
    case False
    then have "running n s" using I(3) ns by (auto simp: inv_fork_def exiting_def)
    then have "running n (unpark i s)" using False by (simp add: running_def fields)
    then show ?thesis by (simp add: inv_fork_def)
  qed
  moreover have "inv_local n (unpark i s)" using I(4) i by (auto simp: inv_local_def fields)
  moreover have "inv_wake n (unpark i s)" using i by (auto simp: inv_wake_def fields)
  ultimately show ?thesis using unpark_cover [OF i(1), of s] by (simp add: gc_inv_def)
qed

lemma gc_inv_spurious:
  assumes inv: "gc_inv quiet n s" and i: "i < n" "phase s i = Waiting"
  shows "gc_inv quiet n (at s i Woken)"
proof -
  note I = gc_invD [OF inv]
  have w: "wakes n (phase s) ((phase s)(i := Woken))" using i by (simp add: wakes_def)
  have "sched s\<lparr>signals := []\<rparr> = sched s" using I(1) by (simp add: inv_count_def)
  then have s: "settled ((phase s)(i := Woken)) s = at s i Woken" by (simp add: settled_def)
  have "inv_count n (at s i Woken)" using I(1) wakes_sets(1) [OF w] by (simp add: inv_count_def)
  moreover have "inv_goal (at s i Woken)" using I(2) by (simp add: inv_goal_def)
  ultimately show ?thesis
    using inv_fork_wakes [OF w I(3)] inv_local_wakes [OF w I(4)] inv_wake_wakes [OF w I(5)] inv_cover_wakes [OF w I(6)] by (simp add: gc_inv_def s)
qed

lemma gc_inv_surrender:
  assumes inv: "gc_inv quiet n s" and i: "i < n" "phase s i = Exited" and su: "surrender_gc_worker s = Some t"
  shows "gc_inv quiet n (at t i Gone)"
proof -
  note I = gc_invD [OF inv]
  have ex: "exiting n s" using I(3) i by (auto simp: inv_fork_def running_def surrendered_def)
  let ?g = "gone_set n (phase s)"
  have g: "gone_set n ((phase s)(i := Gone)) = insert i ?g" "i \<notin> ?g" using i by (auto simp: gone_set_def)
  have n: "workers s = n" using I(1) by (simp add: inv_count_def)
  have t: "t = s\<lparr>creation_state := Surrendered (card ?g + 1), goals := (if card ?g + 1 = n then on_current_goal_completed (goals s) else goals s)\<rparr>"
    using su ex n by (auto simp: surrender_gc_worker_def exiting_def on_all_workers_exited_def split: if_splits)
  have "parked_set n ((phase s)(i := Gone)) = parked_set n (phase s)" using i by (auto simp: parked_set_def is_parked_def)
  then have "inv_count n (at t i Gone)" using I(1) by (simp add: inv_count_def t)
  moreover have "inv_goal (at t i Gone)" using I(2) ex by (auto simp: inv_goal_def t exiting_def on_current_goal_completed_def)
  moreover have "inv_fork n (at t i Gone)"
  proof (cases "card ?g + 1 = n")
    case True
    then have "card (insert i ?g) = card {..<n}" using g(2) by simp
    then have "insert i ?g = {..<n}" using i(1) by (intro card_subset_eq) (auto simp: gone_set_def)
    then have "\<forall>j < n. ((phase s)(i := Gone)) j = Gone" using g(1) by (auto simp: gone_set_def)
    then show ?thesis using True ex by (simp add: inv_fork_def surrendered_def exiting_def t on_current_goal_completed_def)
  next
    case False
    then have "exiting n (at t i Gone)" using ex g by (simp add: exiting_def t)
    then show ?thesis by (simp add: inv_fork_def)
  qed
  moreover have "inv_local n (at t i Gone)" using I(4) i by (auto simp: inv_local_def t)
  moreover have "inv_wake n (at t i Gone)" using i by (auto simp: inv_wake_def)
  moreover have "inv_cover n (at t i Gone)" using i ex by (auto simp: inv_cover_def t exiting_def on_current_goal_completed_def intro!: exI [of _ i])
  ultimately show ?thesis by (simp add: gc_inv_def)
qed

lemma gc_inv_respawn:
  assumes inv: "gc_inv quiet n s" and gone: "\<And>i. i < n \<Longrightarrow> phase s i = Gone" and r: "respawn s = Some t"
  shows "gc_inv quiet n t"
proof -
  note I = gc_invD [OF inv]
  have n: "0 < n" using I(1) by (simp add: inv_count_def)
  have "gone_set n (phase s) = {..<n}" using gone by (auto simp: gone_set_def)
  then have su: "surrendered n s" using I(3) gone [OF n] n by (auto simp: inv_fork_def running_def exiting_def)
  then have t: "t = s\<lparr>creation_state := Spawned, phase := (\<lambda>_. Start)\<rparr>" using r by (simp add: respawn_def surrendered_def)
  have e: "parked_set n (phase s) = {}" "parked_set n (\<lambda>_. Start) = {}" using gone by (auto simp: parked_set_def is_parked_def)
  have "inv_count n t" using I(1) e by (simp add: inv_count_def t)
  moreover have "inv_goal t" using I(2) by (simp add: inv_goal_def t)
  moreover have "running n t" using su by (simp add: running_def surrendered_def t)
  ultimately show ?thesis using n by (auto simp: gc_inv_def inv_fork_def inv_local_def inv_wake_def inv_cover_def t)
qed

lemma gc_inv_sched:
  assumes inv: "gc_inv quiet n s" and k: "sched_keeps (sched s) u" and w: "wakes n (phase s) p"
    and c: "\<And>b. quiet \<Longrightarrow> open_work u b \<Longrightarrow> open_work (sched s) b"
  shows "gc_inv quiet n (settled p (s\<lparr>sched := u\<rparr>))"
proof -
  note I = gc_invD [OF inv]
  let ?t = "s\<lparr>sched := u\<rparr>"
  have w': "wakes n (phase ?t) p" using w by simp
  have "inv_count n (settled p ?t)" using I(1) k by (simp add: inv_count_def wakes_sets [OF w] sched_keeps_def)
  moreover have "inv_goal (settled p ?t)" using I(2) k unfolding inv_goal_def sched_keeps_def by auto
  moreover have "inv_fork n ?t" using I(3) by (simp add: inv_fork_def running_def exiting_def surrendered_def)
  moreover have "inv_local n ?t" using I(4) by (simp add: inv_local_def)
  moreover have "inv_wake n ?t" using I(5) by (simp add: inv_wake_def)
  moreover have "inv_cover n ?t" if quiet using I(6) [OF that] c [OF that] by (simp add: inv_cover_def)
  ultimately show ?thesis
    using inv_fork_wakes [OF w'] inv_local_wakes [OF w'] inv_wake_wakes [OF w'] inv_cover_wakes [OF w'] by (simp add: gc_inv_def)
qed

lemma gc_inv_adds:
  assumes inv: "gc_inv quiet n s" and q: "quiet \<longrightarrow> \<not> is_activated (work_buckets (sched s) b)"
    and d: "delivered n (signals (sched (on_sched (bulk_add b ws) s))) (phase s) p"
  shows "gc_inv quiet n (settled p (on_sched (bulk_add b ws) s))"
proof -
  have "sched_ok (sched s)" using gc_invD(1) [OF inv] by (simp add: inv_count_def)
  moreover have "open_work (sched s) c" if "quiet" "open_work (bulk_add b ws (sched s)) c" for c
    using that q by (auto simp: open_work_def bulk_add_def Let_def is_activated_def split: if_splits)
  ultimately show ?thesis unfolding on_sched_def by (intro gc_inv_sched [OF inv] bulk_add_keeps delivered_wakes [OF d])
qed

lemma gc_inv_postpones:
  assumes inv: "gc_inv quiet n s"
  shows "gc_inv quiet n (on_sched (postpone_all ws) s)"
proof -
  have ok: "sched_ok (sched s)" "signals (sched s) = []" using gc_invD(1) [OF inv] by (simp_all add: inv_count_def)
  have "sched_keeps (sched s) (postpone_all ws (sched s))" by (rule sched_keeps_simple [OF ok(1)]) (auto simp: postpone_all_def)
  then have "gc_inv quiet n (settled (phase s) (s\<lparr>sched := postpone_all ws (sched s)\<rparr>))"
    by (rule gc_inv_sched [OF inv]) (simp_all add: postpone_all_def open_work_def)
  moreover have "settled (phase s) (s\<lparr>sched := postpone_all ws (sched s)\<rparr>) = on_sched (postpone_all ws) s"
    using ok(2) by (simp add: settled_def on_sched_def postpone_all_def)
  ultimately show ?thesis by simp
qed

lemma gc_inv_requests:
  assumes inv: "gc_inv quiet n s" and r: "\<not> mutators_paused s" "gc_requester_request s = (True, t)"
  shows "gc_inv quiet n (t\<lparr>requesting := True\<rparr>)"
proof -
  note I = gc_invD [OF inv]
  have t: "t = s\<lparr>request_flag := True\<rparr>" "\<not> request_flag s" using r(2) by (auto simp: gc_requester_request_def split: if_splits)
  have "inv_goal (t\<lparr>requesting := True\<rparr>)" using I(2) r(1) t by (auto simp: inv_goal_def)
  then show ?thesis using I t(1) by (simp add: gc_inv_def inv_count_def inv_fork_def running_def exiting_def surrendered_def inv_local_def inv_wake_def inv_cover_def)
qed

text \<open>A new request leaves a worker that is not waiting.\<close>

lemma gc_inv_make_request:
  assumes inv: "gc_inv quiet n s" and new: "\<not> requests (goals s) g" and d: "delivered n (signals (sched (make_request g s))) (phase s) p"
    and g: "g = Gc \<Longrightarrow> requesting s" "g = StopForFork \<Longrightarrow> running n s"
  shows "gc_inv quiet n ((settled p (make_request g s))\<lparr>requesting := (g \<noteq> Gc \<and> requesting s),
    creation_state := (if g = StopForFork then Surrendered 0 else creation_state s)\<rparr>)" (is "gc_inv _ _ ?t")
proof -
  note I = gc_invD [OF inv]
  have m: "make_request g s = s\<lparr>goals := (goals s)\<lparr>requests := (requests (goals s))(g := True)\<rparr>, sched := notify_work_available False (sched s)\<rparr>"
    using new by (simp add: make_request_def set_request_def Let_def)
  have w: "wakes n (phase s) p" by (rule delivered_wakes [OF d])
  have n: "0 < n" "sched s\<lparr>signals := []\<rparr> = sched s" using I(1) by (simp_all add: inv_count_def)
  then have sg: "sched ?t = sched s" by (simp add: m notify_work_available_def)
  have "inv_count n ?t" using I(1) sg by (simp add: inv_count_def wakes_sets [OF w] m)
  moreover have "inv_goal ?t" using I(2) g new unfolding inv_goal_def sg m by (cases g) (auto simp: has_designated_work_def)
  moreover have "inv_fork n ?t"
  proof (cases g)
    case Gc
    then have "inv_fork n ?t \<longleftrightarrow> inv_fork n (settled p s)" unfolding m by (simp add: inv_fork_def running_def exiting_def surrendered_def)
    then show ?thesis using inv_fork_wakes [OF w I(3)] by simp
  next
    case StopForFork
    have "inv_fork n (settled p s)" by (rule inv_fork_wakes [OF w I(3)])
    moreover have "\<not> exiting n (settled p s)" "\<not> surrendered n (settled p s)"
      using g(2) [OF StopForFork] StopForFork new by (auto simp: running_def exiting_def surrendered_def)
    ultimately show ?thesis unfolding m using StopForFork by (simp add: inv_fork_def running_def)
  qed
  moreover have "inv_local n ?t" using I(4) by (simp add: inv_local_def m wakes_sets [OF w])
  moreover have "inv_wake n ?t" using delivered_wake_one [OF d _ n(1)] by (simp add: inv_wake_def m notify_work_available_def)
  moreover have "inv_cover n ?t" if quiet using inv_cover_wakes [OF w I(6) [OF that]] by (simp add: inv_cover_def m open_work_def)
  ultimately show ?thesis by (simp add: gc_inv_def)
qed

lemma gc_inv_sends:
  assumes inv: "gc_inv quiet n s" and r: "requesting s" and d: "delivered n (signals (sched (make_request Gc s))) (phase (make_request Gc s)) p"
  shows "gc_inv quiet n ((settled p (make_request Gc s))\<lparr>requesting := False\<rparr>)"
proof -
  have new: "\<not> requests (goals s) Gc" using gc_invD(2) [OF inv] r by (simp add: inv_goal_def)
  have f: "phase (make_request Gc s) = phase s" "creation_state (make_request Gc s) = creation_state s" by (simp_all add: make_request_def Let_def case_prod_beta)
  have e: "(settled p (make_request Gc s))\<lparr>requesting := False\<rparr> = (settled p (make_request Gc s))\<lparr>requesting := False, creation_state := creation_state s\<rparr>"
    using f(2) by (simp add: settled_def)
  show ?thesis by (subst e) (use gc_inv_make_request [OF inv new, of p] d f(1) r in simp)
qed

lemma gc_inv_forks:
  assumes inv: "gc_inv quiet n s" and f: "stop_gc_threads_for_forking s = Some t" and d: "delivered n (signals (sched t)) (phase t) p"
  shows "gc_inv quiet n (settled p t)"
proof -
  have sp: "creation_state s = Spawned" and t: "t = make_request StopForFork (s\<lparr>creation_state := Surrendered 0\<rparr>)"
    using f by (auto simp: stop_gc_threads_for_forking_def prepare_surrender_buffer_def bind_eq_Some_conv split: if_splits)
  have r: "running n s" using gc_invD(3) [OF inv] sp by (auto simp: inv_fork_def exiting_def surrendered_def)
  then have new: "\<not> requests (goals s) StopForFork" using sp by (auto simp: running_def split: if_splits)
  have m: "signals (sched t) = signals (sched (make_request StopForFork s))" "phase t = phase s"
    "settled p t = (settled p (make_request StopForFork s))\<lparr>requesting := requesting s, creation_state := Surrendered 0\<rparr>"
    using new by (simp_all add: t make_request_def set_request_def Let_def settled_def)
  show ?thesis using gc_inv_make_request [OF inv new, of p] d r by (simp add: m)
qed

end
