(* ===== verification/WorkerMonitor_Correct.thy ===== *)
theory WorkerMonitor_Correct
  imports WorkerMonitor_Inv
begin

text \<open>
  Parking, which is where a worker may find new work, finish a collection and start the next goal, and the correctness of the
  scheduler: in every state that the workers and mutators reach, no wake-up is lost, parking does not panic, and a collection ends
  only when all its work is done.
\<close>

section \<open>Parking\<close>

text \<open>A worker that has polled every source and another worker or the same one that parks in some way afterwards.\<close>

lemma gc_inv_parked:
  assumes inv: "inv_count n s" "inv_local n s" and i: "i < n" "phase s i = Scan sl r k" and q: "q = Waiting \<or> q = Woken"
    and w: "wakes n (phase s) p"
    and t: "sched_ok (sched t)" "workers t = n" "parker t = snd (inc_parked_workers (parker s))" "parked t = parked s + 1" "local_work_buffer t = local_work_buffer s"
    and g: "inv_goal t" "inv_fork n (at (settled p t) i q)" "inv_wake n (at (settled p t) i q)" "quiet \<Longrightarrow> inv_cover n (at (settled p t) i q)"
  shows "gc_inv quiet n (at (settled p t) i q)"
proof -
  have pi: "p i = phase s i" using wakes_not_waiting [OF w, of i] i(2) by simp
  have "card (parked_set n (p(i := q))) = card (parked_set n (phase s)) + 1"
    using parked_set_park [OF i(1), of p q] i(2) q pi by (auto simp: is_parked_def wakes_sets [OF w])
  then have "inv_count n (at (settled p t) i q)" using inv(1) t by (simp add: inv_count_def inc_parked_workers_def Let_def)
  moreover have "inv_goal (at (settled p t) i q)" using g(1) by (simp add: inv_goal_def)
  moreover have "inv_local n (at (settled p t) i q)" using inv(2) i t(5) by (auto simp: inv_local_def wakes_sets [OF w])
  ultimately show ?thesis using g by (simp add: gc_inv_def)
qed

lemma unpark_at: "unpark i (at s i q) = unpark i s"
  by (simp add: unpark_def Let_def)

text \<open>Between two goals, after the last worker has parked.\<close>

lemma respond_cases:
  assumes "respond_to_requests sc s = Some (r, t)"
  obtains (gc) "current_goal (goals s) = None" "requests (goals s) Gc" "r = WakeSelf" "\<not> gc_start_time s"
      "t = s\<lparr>goals := \<lparr>current_goal = Some Gc, requests = (requests (goals s))(Gc := False)\<rparr>, gc_start_time := True,
        sched := on_bucket Unconstrained (add_boxed_no_notify sc) (sched s)\<rparr>"
    | (fork) "current_goal (goals s) = None" "\<not> requests (goals s) Gc" "requests (goals s) StopForFork" "r = WakeAll"
      "t = s\<lparr>goals := \<lparr>current_goal = Some StopForFork, requests = (requests (goals s))(StopForFork := False)\<rparr>\<rparr>"
    | (idle) "current_goal (goals s) = None" "\<not> requests (goals s) Gc" "\<not> requests (goals s) StopForFork" "r = ParkSelf" "t = s"
  using assms by (auto simp: respond_to_requests_def poll_next_goal_def add_schedule_collection_packet_def Let_def split: if_splits)

lemma gc_inv_respond:
  assumes inv: "inv_count n s" "inv_local n s" and i: "i < n" "phase s i = Scan True False k"
    and others: "\<And>j. j < n \<Longrightarrow> j \<noteq> i \<Longrightarrow> is_parked (phase s j)"
    and t: "sched_ok (sched t)" "workers t = n" "parker t = snd (inc_parked_workers (parker s))" "parked t = parked s + 1"
      "local_work_buffer t = local_work_buffer s" "phase t = phase s" "inv_goal t" "running n t" "current_goal (goals t) = None"
    and cov: "\<And>b. quiet \<Longrightarrow> open_work (sched t) b \<Longrightarrow> 1 < n \<Longrightarrow> True \<in> set (signals (sched t)) \<or> (\<exists>j < n. j \<noteq> i \<and> phase s j = Woken)"
    and res: "respond_to_requests sc t = Some (r, u)"
    and d: "delivered n (signals (sched u) @ (if r = WakeAll then [True] else [])) (phase u) p"
  shows "gc_inv quiet n (if r = ParkSelf then at (settled p u) i Waiting else unpark i (settled p u))"
  using res
proof (cases rule: respond_cases)
  case gc
  have w: "wakes n (phase s) p" using delivered_wakes [OF d] gc t(6) by simp
  have "sched_ok (sched u)" unfolding gc using sched_ok_bucket [OF t(1), of "add_boxed_no_notify sc" Unconstrained] by (simp add: add_boxed_no_notify_def)
  moreover have "workers u = n" using t(2) by (simp add: gc worker_count_def)
  moreover have "inv_goal u" using t(7,9) gc(2) by (auto simp: gc inv_goal_def has_designated_work_def)
  moreover have "running n u" using t(8) by (simp add: running_def gc)
  then have "inv_fork n (at (settled p u) i Woken)"
    using wakes_cases [OF w] t(6) gc by (simp add: inv_fork_def running_def) (metis phase.distinct)
  moreover have "inv_wake n (at (settled p u) i Woken)" using i(1) by (auto simp: inv_wake_def)
  moreover have "parker u = snd (inc_parked_workers (parker s))" "parked u = parked s + 1" "local_work_buffer u = local_work_buffer s" using t(3-5) gc(5) by simp_all
  ultimately have "gc_inv False n (at (settled p u) i Woken)" by (intro gc_inv_parked [OF inv i _ w]) simp_all
  then have "gc_inv quiet n (unpark i (at (settled p u) i Woken))" by (rule gc_inv_unpark) (use i in auto)
  then show ?thesis unfolding unpark_at using gc(3) by simp
next
  case fork
  have w: "wakes n (phase s) p" using delivered_wakes [OF d] fork t(6) by simp
  have all: "\<forall>j < n. (p(i := Woken)) j = Woken"
  proof (intro allI impI)
    fix j assume j: "j < n"
    then have "p j \<noteq> Waiting" using delivered_all_wake [OF d] fork(4) by auto
    then show "(p(i := Woken)) j = Woken" using others [OF j] wakes_cases [OF w, of j] by (auto simp: is_parked_def)
  qed
  then have "gone_set n (p(i := Woken)) = {}" by (auto simp: gone_set_def)
  then have "exiting n (at (settled p u) i Woken)" using all t(8) fork i(1) by (simp add: exiting_def running_def)
  then have "inv_fork n (at (settled p u) i Woken)" by (simp add: inv_fork_def)
  moreover have "inv_goal u" using t(7,9) fork(2) by (auto simp: fork inv_goal_def)
  moreover have "inv_wake n (at (settled p u) i Woken)" using i(1) by (auto simp: inv_wake_def)
  moreover have "sched_ok (sched u)" "workers u = n" "parker u = snd (inc_parked_workers (parker s))" "parked u = parked s + 1"
    "local_work_buffer u = local_work_buffer s" using t(1-5) fork(5) by simp_all
  ultimately have "gc_inv False n (at (settled p u) i Woken)" by (intro gc_inv_parked [OF inv i _ w]) simp_all
  then have "gc_inv quiet n (unpark i (at (settled p u) i Woken))" by (rule gc_inv_unpark) (use i in auto)
  then show ?thesis unfolding unpark_at using fork(4) by simp
next
  case idle
  have w: "wakes n (phase s) p" using delivered_wakes [OF d] idle t(6) by simp
  have "running n (at (settled p u) i Waiting)"
    using t(8) wakes_cases [OF w] t(6) idle by (simp add: running_def) (metis phase.distinct)
  moreover have "inv_wake n (at (settled p u) i Waiting)" using idle t(9) by (auto simp: inv_wake_def)
  moreover have "inv_cover n (at (settled p u) i Waiting)" if q: quiet unfolding inv_cover_def
  proof (intro allI impI conjI)
    fix b assume b: "open_work (sched (at (settled p u) i Waiting)) b" and n: "1 < n"
    have "open_work (sched t) b" using b idle(5) by simp
    from cov [OF q this n] show "\<exists>j < n. will_poll (phase (at (settled p u) i Waiting) j) b \<or> phase (at (settled p u) i Waiting) j \<in> {Woken, Exited, Gone}"
    proof
      assume "True \<in> set (signals (sched t))"
      moreover obtain j where j: "j < n" "j \<noteq> i" using n that [of "if i = 0 then 1 else 0"] by (simp split: if_splits)
      ultimately have "p j \<noteq> Waiting" using delivered_all_wake [OF d _ j(1)] idle by simp
      then have "p j = Woken" using others [OF j] wakes_cases [OF w, of j] by (auto simp: is_parked_def)
      then show ?thesis using j by (auto intro!: exI [of _ j])
    next
      assume "\<exists>j < n. j \<noteq> i \<and> phase s j = Woken"
      then obtain j where "j < n" "j \<noteq> i" "phase s j = Woken" by blast
      then show ?thesis using wakes_not_waiting [OF w, of j] by (auto intro!: exI [of _ j])
    qed
  qed (use idle t(9) in simp)
  ultimately have "gc_inv quiet n (at (settled p u) i Waiting)" using t(1-5,7) idle(5)
    by (intro gc_inv_parked [OF inv i _ w]) (simp_all add: inv_fork_def)
  then show ?thesis using idle(4) by simp
qed

text \<open>The end of a collection.\<close>

lemma on_gc_finished_ok:
  assumes "sched_ok (sched s)" "gc_start_time s"
  obtains t where "on_gc_finished s = Some t" "sched_ok (sched t)" "workers t = workers s" "has_designated_work (sched t) = has_designated_work (sched s)"
    "goals t = goals s" "parker t = parker s" "parked t = parked s" "phase t = phase s" "local_work_buffer t = local_work_buffer s"
    "\<not> gc_start_time t" "\<not> mutators_paused t" "request_flag t = request_flag s" "requesting t = requesting s" "creation_state t = creation_state s"
    "\<And>b. open_work (sched t) b \<Longrightarrow> True \<in> set (signals (sched t)) \<or> open_work (sched s) b"
proof -
  let ?q = "postponed_concurrent_work (deactivate_all (sched s))" and ?pq = "postponed_concurrent_work_prioritized (deactivate_all (sched s))"
  let ?u = "set_in_gc_pause False ((deactivate_all (sched s))\<lparr>postponed_concurrent_work := [], postponed_concurrent_work_prioritized := []\<rparr>)"
  have u: "sched_ok ?u"
    using set_in_gc_pause_keeps [of "(deactivate_all (sched s))\<lparr>postponed_concurrent_work := [], postponed_concurrent_work_prioritized := []\<rparr>" False]
      deactivate_all_ok [OF assms(1)] by (simp add: sched_keeps_def)
  obtain t where t: "schedule_concurrent_packets ?q ?pq ?u = Some t" "sched_keeps ?u t" "signals t = signals ?u @ (if ?q \<noteq> [] \<or> ?pq \<noteq> [] then [True] else [])"
    "\<And>b. ?q = [] \<Longrightarrow> ?pq = [] \<Longrightarrow> work_buckets t b = work_buckets ?u b" "designated_work t = designated_work ?u"
    by (rule schedule_concurrent_packets_ok [OF u]) blast
  let ?s = "s\<lparr>sched := t, gc_start_time := False, mutators_paused := False, events := events s @ [DoClassUnloading, DumpGcStats, OnGcEnd, PlanEndOfGc,
    GcPauseEnd, ResetCollectionTrigger, SetNotInGC, ResumeMutators]\<rparr>"
  have "on_gc_finished s = Some ?s"
    using assms(2) t(1) by (simp add: on_gc_finished_def schedule_postponed_concurrent_packets_def Let_def deactivate_all_def)
  moreover have "sched_ok (sched ?s)" using t(2) by (simp add: sched_keeps_def)
  moreover have "designated_work t = designated_work (sched s)" using t(5) by (simp add: set_in_gc_pause_def deactivate_all_def)
  then have "workers ?s = workers s" "has_designated_work (sched ?s) = has_designated_work (sched s)" by (simp_all add: worker_count_def has_designated_work_def)
  moreover have "True \<in> set (signals (sched ?s)) \<or> open_work (sched s) b" if "open_work (sched ?s) b" for b
  proof (cases "?q = [] \<and> ?pq = []")
    case True
    then have "work_buckets t b = work_buckets ?u b" by (intro t(4)) simp_all
    then show ?thesis using that
      by (simp add: open_work_def set_in_gc_pause_def deactivate_all_def bucket_defs split: if_splits option.splits)
  qed (use t(3) in auto)
  ultimately show thesis by (intro that [of ?s]) simp_all
qed

lemma others_parked:
  assumes "i < n" "\<not> is_parked (p i)" "card (parked_set n p) + 1 = n" "j < n" "j \<noteq> i"
  shows "is_parked (p j)"
proof -
  have "parked_set n p \<subseteq> {..<n} - {i}" using assms(2) by (auto simp: parked_set_def)
  moreover have "card (parked_set n p) = card ({..<n} - {i})" using assms(1,3) by simp
  ultimately have "parked_set n p = {..<n} - {i}" by (intro card_subset_eq) auto
  then have "j \<in> parked_set n p" using assms(4,5) by simp
  then show ?thesis by (simp add: parked_set_def)
qed

lemma other_not_parked:
  assumes "i < n" "\<not> is_parked (p i)" "card (parked_set n p) + 1 \<noteq> n"
  obtains j where "j < n" "j \<noteq> i" "\<not> is_parked (p j)"
proof -
  have "card ({..<n} - {i}) + 1 = n" using assms(1) by simp
  then have "parked_set n p \<noteq> {..<n} - {i}" using assms(3) by metis
  moreover have "parked_set n p \<subseteq> {..<n} - {i}" using assms(2) by (auto simp: parked_set_def)
  ultimately obtain j where "j \<in> {..<n} - {i}" "j \<notin> parked_set n p" by auto
  then show thesis using that [of j] by (simp add: parked_set_def)
qed

lemma gc_inv_park_first:
  assumes inv: "gc_inv quiet n s" and i: "i < n" "phase s i = Scan True False (Suc (stage_LENGTH + n))" and nl: "card (parked_set n (phase s)) + 1 \<noteq> n"
  shows "gc_inv quiet n (at (settled (phase s) (s\<lparr>parker := snd (inc_parked_workers (parker s)), parked := parked s + 1\<rparr>)) i Waiting)" (is "gc_inv _ _ (at (settled _ ?t) _ _)")
proof -
  note I = gc_invD [OF inv]
  have np: "\<not> is_parked (phase s i)" using i(2) by (simp add: is_parked_def)
  obtain j where j: "j < n" "j \<noteq> i" "\<not> is_parked (phase s j)" by (rule other_not_parked [OF i(1) np nl])
  have "running n s" by (rule running_worker [OF I(3) i(1) np]) (use i(2) in simp)
  then have "inv_fork n (at (settled (phase s) ?t) i Waiting)" by (simp add: inv_fork_def running_def)
  moreover have "inv_wake n (at (settled (phase s) ?t) i Waiting)" using j by (auto simp: inv_wake_def is_parked_def intro!: exI [of _ j])
  moreover have "inv_cover n (at (settled (phase s) ?t) i Waiting)" if quiet
  proof (rule inv_cover_mono [OF I(6) [OF that]])
    have "\<not> will_poll (phase s i) b" for b using i(2) less_le_trans [OF stage_index(3) [of b], of "stage_LENGTH + n"] by simp
    then show "(\<exists>j < n. will_poll (phase (at (settled (phase s) ?t) i Waiting) j) b) \<or> open_work (sched s) b \<and>
        (\<forall>j < n. will_poll (phase s j) b \<or> phase s j \<in> {Woken, Exited, Gone} \<longrightarrow> keeps_polling (phase s j) (phase (at (settled (phase s) ?t) i Waiting) j) b)"
      if "open_work (sched (at (settled (phase s) ?t) i Waiting)) b" for b
      using that i(2) by (auto simp: keeps_polling_def)
  qed simp
  moreover have "inv_goal ?t" using I(2) by (simp add: inv_goal_def)
  ultimately show ?thesis using I(1) by (intro gc_inv_parked [OF I(1,4) i]) (simp_all add: inv_count_def)
qed

text \<open>The last worker to park.\<close>

definition last_state :: "'w gc_system \<Rightarrow> 'w gc_system" where
  "last_state s = s\<lparr>parker := snd (inc_parked_workers (parker s)), parked := parked s + 1\<rparr>"

definition after_park :: "nat \<Rightarrow> last_parked_result \<Rightarrow> (nat \<Rightarrow> 'w phase) \<Rightarrow> 'w gc_system \<Rightarrow> 'w gc_system" where
  "after_park i r p u = (if r = ParkSelf then at (settled p u) i Waiting else unpark i (settled p u))"

lemma last_state_fields [simp]:
  "sched (last_state s) = sched s" "goals (last_state s) = goals s" "parker (last_state s) = snd (inc_parked_workers (parker s))" "parked (last_state s) = Suc (parked s)"
  "phase (last_state s) = phase s" "local_work_buffer (last_state s) = local_work_buffer s" "gc_start_time (last_state s) = gc_start_time s"
  "request_flag (last_state s) = request_flag s" "requesting (last_state s) = requesting s" "mutators_paused (last_state s) = mutators_paused s"
  "creation_state (last_state s) = creation_state s"
  by (simp_all add: last_state_def)

lemma last_scan_polled:
  assumes "i < n" "phase s i = Scan True False (Suc (stage_LENGTH + n))" "\<And>j. j < n \<Longrightarrow> j \<noteq> i \<Longrightarrow> is_parked (phase s j)" "j < n"
  shows "\<not> will_poll (phase s j) b"
proof (cases "j = i")
  case True
  then show ?thesis using assms(2) less_le_trans [OF stage_index(3) [of b], of "stage_LENGTH + n"] by simp
next
  case False
  then show ?thesis using assms(3) [of j] assms(4) by (auto simp: is_parked_def)
qed

text \<open>When the last worker parks in a collection, the open buckets are drained.\<close>

lemma last_drained:
  assumes "inv_cover n s" "current_goal (goals s) = Some Gc" "i < n" "phase s i = Scan True False (Suc (stage_LENGTH + n))"
    "\<And>j. j < n \<Longrightarrow> j \<noteq> i \<Longrightarrow> is_parked (phase s j)"
  shows "open_drained (sched s)"
  using assms(1,2) last_scan_polled [OF assms(3-5)] by (auto simp: open_drained_def inv_cover_def open_work_def)

lemma last_cover:
  assumes "inv_cover n s" "open_work (sched s) b" "1 < n" "i < n" "phase s i = Scan True False (Suc (stage_LENGTH + n))"
    "\<And>j. j < n \<Longrightarrow> j \<noteq> i \<Longrightarrow> is_parked (phase s j)"
  shows "\<exists>j < n. j \<noteq> i \<and> phase s j = Woken"
proof -
  obtain j where "j < n" "will_poll (phase s j) b \<or> phase s j \<in> {Woken, Exited, Gone}" using assms(1-3) by (auto simp: inv_cover_def)
  moreover have "\<not> will_poll (phase s j) b" by (rule last_scan_polled [OF assms(4-6) \<open>j < n\<close>])
  ultimately have "j < n" "phase s j \<in> {Woken, Exited, Gone}" "j \<noteq> i" using assms(5) by auto
  then show ?thesis using assms(6) [of j] by (auto simp: is_parked_def)
qed

lemma gc_inv_found:
  assumes inv: "gc_inv quiet n s" and i: "i < n" "phase s i = Scan True False (Suc (stage_LENGTH + n))" and g: "current_goal (goals s) = Some Gc"
    and k: "sched_keeps (sched s) v" and w: "wakes n (phase s) p"
  shows "gc_inv quiet n (unpark i (settled p ((last_state s)\<lparr>sched := v\<rparr>)))"
proof -
  note I = gc_invD [OF inv]
  let ?u = "(last_state s)\<lparr>sched := v\<rparr>"
  have "running n s" by (rule running_worker [OF I(3) i(1)]) (use i(2) in \<open>auto simp: is_parked_def\<close>)
  then have "running n (at (settled p ?u) i Woken)" using wakes_cases [OF w] by (simp add: running_def) (metis phase.distinct)
  then have "inv_fork n (at (settled p ?u) i Woken)" by (simp add: inv_fork_def)
  moreover have "inv_wake n (at (settled p ?u) i Woken)" using i(1) by (auto simp: inv_wake_def)
  moreover have "inv_goal ?u" using I(2) k unfolding inv_goal_def sched_keeps_def by auto
  moreover have "sched_ok (sched ?u)" "workers ?u = n" using k I(1) by (simp_all add: sched_keeps_def inv_count_def)
  ultimately have "gc_inv False n (at (settled p ?u) i Woken)" by (intro gc_inv_parked [OF I(1,4) i _ w]) simp_all
  then have "gc_inv quiet n (unpark i (at (settled p ?u) i Woken))" by (rule gc_inv_unpark) (use i in auto)
  then show ?thesis unfolding unpark_at .
qed

lemma gc_inv_park_last:
  assumes inv: "gc_inv quiet n s" and i: "i < n" "phase s i = Scan True False (Suc (stage_LENGTH + n))"
    and others: "\<And>j. j < n \<Longrightarrow> j \<noteq> i \<Longrightarrow> is_parked (phase s j)"
    and res: "on_last_parked sc (last_state s) = Some (r, u)" and d: "delivered n (signals (sched u) @ (if r = WakeAll then [True] else [])) (phase u) p"
  shows "gc_inv quiet n (after_park i r p u)"
proof -
  note I = gc_invD [OF inv]
  have n: "sched_ok (sched s)" "workers s = n" "signals (sched s) = []" using I(1) by (simp_all add: inv_count_def)
  have run: "running n s" by (rule running_worker [OF I(3) i(1)]) (use i(2) in \<open>auto simp: is_parked_def\<close>)
  then consider (none) "current_goal (goals s) = None" | (gc) "current_goal (goals s) = Some Gc" by (cases "current_goal (goals s)") (auto simp: running_def elim: worker_goal.exhaust)
  then show ?thesis
  proof cases
    case none
    have r: "respond_to_requests sc (last_state s) = Some (r, u)" using res none by (simp add: on_last_parked_def)
    have "inv_goal (last_state s)" "running n (last_state s)" using I(2) run by (simp_all add: inv_goal_def running_def)
    then show ?thesis unfolding after_park_def
      by (intro gc_inv_respond [OF I(1,4) i others _ _ _ _ _ _ _ _ _ _ r d])
        (use n none last_cover [OF I(6) _ _ i others] in auto)
  next
    case gc
    obtain found v where v: "find_more_work_for_workers (sched s) = (found, v)" by fastforce
    note k = find_more_work_keeps [OF n(1) v]
    have nr: "\<not> requests (goals s) Gc" using I(2) gc by (simp add: inv_goal_def)
    show ?thesis
    proof (cases found)
      case True
      then have u: "u = (last_state s)\<lparr>sched := v\<rparr>" "r = WakeAll" using res gc nr v by (auto simp: on_last_parked_def debug_is_requested_def)
      have "wakes n (phase s) p" using delivered_wakes [OF d] by (simp add: u)
      then show ?thesis unfolding after_park_def u(2) unfolding u(1) using gc_inv_found [OF inv i gc k(1)] by simp
    next
      case False
      let ?w = "(last_state s)\<lparr>sched := v\<rparr>"
      have "sched_ok (sched ?w)" "gc_start_time ?w" using k(1) I(2) gc by (simp_all add: sched_keeps_def inv_goal_def)
      then obtain t where t: "on_gc_finished ?w = Some t" "sched_ok (sched t)" "workers t = workers ?w" "has_designated_work (sched t) = has_designated_work (sched ?w)"
        "goals t = goals ?w" "parker t = parker ?w" "parked t = parked ?w" "phase t = phase ?w" "local_work_buffer t = local_work_buffer ?w"
        "\<not> gc_start_time t" "\<not> mutators_paused t" "request_flag t = request_flag ?w" "requesting t = requesting ?w" "creation_state t = creation_state ?w"
        "\<And>b. open_work (sched t) b \<Longrightarrow> True \<in> set (signals (sched t)) \<or> open_work (sched ?w) b"
        by (rule on_gc_finished_ok) blast
      let ?t = "t\<lparr>goals := on_current_goal_completed (goals t)\<rparr>"
      have r: "respond_to_requests sc ?t = Some (r, u)" using res gc nr v False t(1) by (simp add: on_last_parked_def debug_is_requested_def)
      have nd: "\<not> has_designated_work v" by (rule k(3) [OF False])
      have drained: "\<not> open_work v b" if quiet for b
        using find_more_work_none(1) [OF last_drained [OF I(6) [OF that] gc i others]] v False by (auto simp: open_drained_def open_work_def)
      have "inv_goal ?t" using I(2) gc nr nd t(4,5,10-13) by (auto simp: inv_goal_def on_current_goal_completed_def)
      moreover have "running n ?t" using run t(5,8,14) by (simp add: running_def on_current_goal_completed_def)
      moreover have "workers t = n" using t(3) k(1) n(2) by (simp add: sched_keeps_def)
      ultimately show ?thesis unfolding after_park_def
        by (intro gc_inv_respond [OF I(1,4) i others _ _ _ _ _ _ _ _ _ _ r d])
          (use t drained in \<open>auto simp: on_current_goal_completed_def\<close>)
    qed
  qed
qed

lemma park_last:
  assumes I: "inv_count n s" and last: "card (parked_set n (phase s)) + 1 = n" and pk: "park sc s = Some (waits, t)"
  obtains r u where "on_last_parked sc (last_state s) = Some (r, u)" "t = (if r = WakeAll then u\<lparr>sched := notify_work_available True (sched u)\<rparr> else u)"
    "waits \<longleftrightarrow> r = ParkSelf"
proof -
  have e: "park sc s = on_last_parked sc (last_state s) \<bind> (\<lambda>(r, s). Some (case r of ParkSelf \<Rightarrow> (True, s) | WakeSelf \<Rightarrow> (False, s)
      | WakeAll \<Rightarrow> (False, s\<lparr>sched := notify_work_available True (sched s)\<rparr>)))"
    using I last by (simp add: park_def inv_count_def inc_parked_workers_def last_state_def Let_def)
  obtain r u where u: "on_last_parked sc (last_state s) = Some (r, u)"
    and r: "(case r of ParkSelf \<Rightarrow> (True, u) | WakeSelf \<Rightarrow> (False, u) | WakeAll \<Rightarrow> (False, u\<lparr>sched := notify_work_available True (sched u)\<rparr>)) = (waits, t)"
    using pk [unfolded e] by (auto simp: bind_eq_Some_conv)
  show thesis by (rule that [OF u]) (use r in \<open>cases r; simp\<close>)+
qed

lemma gc_inv_parks:
  assumes inv: "gc_inv quiet n s" and i: "i < n" "phase s i = Scan True False (Suc (stage_LENGTH + n))"
    and pk: "park sc s = Some (waits, t)" and d: "delivered n (signals (sched t)) (phase t) p"
  shows "gc_inv quiet n (if waits then at (settled p t) i Waiting else unpark i (settled p t))"
proof (cases "card (parked_set n (phase s)) + 1 = n")
  case False
  have I: "inv_count n s" by (rule gc_invD(1) [OF inv])
  then have t: "t = last_state s" "waits" using pk False by (auto simp: park_def inv_count_def inc_parked_workers_def last_state_def Let_def)
  then have "p = phase s" using d I by (auto simp: inv_count_def elim: delivered.cases)
  then show ?thesis using gc_inv_park_first [OF inv i] False t by (simp add: last_state_def)
next
  case True
  obtain r u where u: "on_last_parked sc (last_state s) = Some (r, u)"
    and t: "t = (if r = WakeAll then u\<lparr>sched := notify_work_available True (sched u)\<rparr> else u)" "waits \<longleftrightarrow> r = ParkSelf"
    by (rule park_last [OF gc_invD(1) [OF inv] True pk])
  have "delivered n (signals (sched u) @ (if r = WakeAll then [True] else [])) (phase u) p" "settled p t = settled p u"
    using d t(1) by (auto simp: notify_work_available_def settled_def)
  moreover have "\<And>j. j < n \<Longrightarrow> j \<noteq> i \<Longrightarrow> is_parked (phase s j)" by (rule others_parked [OF i(1) _ True]) (use i(2) in \<open>auto simp: is_parked_def\<close>)
  ultimately have "gc_inv quiet n (after_park i r p u)" "settled p t = settled p u" using gc_inv_park_last [OF inv i _ u] by blast+
  then show ?thesis using t(2) by (auto simp: after_park_def)
qed

section \<open>Reachable states\<close>

lemma wb_poll_fields:
  assumes "wb_poll batch x = Some (w, ws, b)"
  shows "wb_can_open b = wb_can_open x" "wb_active b = wb_active x" "wb_disable b = wb_disable x" "wb_prioritized_queue b = None \<longleftrightarrow> wb_prioritized_queue x = None"
  using assms by (auto simp: wb_poll_def split: if_splits option.splits)

lemma wb_poll_None: "wb_poll batch x = None \<Longrightarrow> is_activated x \<Longrightarrow> wb_is_empty x"
  by (auto simp: wb_poll_def steal_batch_and_pop_def wb_is_empty_def split: if_splits option.splits list.splits)

lemma gc_step_inv:
  assumes "gc_step sc quiet s t" "gc_inv quiet n s"
  shows "gc_inv quiet n t"
proof -
  note I = gc_invD [OF assms(2)]
  have n: "workers s = n" and ok: "sched_ok (sched s)" and sg: "signals (sched s) = []" using I(1) by (simp_all add: inv_count_def)
  have moves: "gc_inv quiet n (at s i p)"
    if "i < n" "\<not> is_parked (phase s i)" "phase s i \<notin> {Exited, Gone}" "p \<notin> {Waiting, Woken, Exited, Gone}"
      "local_work_buffer s i \<noteq> [] \<Longrightarrow> busy p" "\<And>b. open_work (sched s) b \<Longrightarrow> will_poll (phase s i) b \<Longrightarrow> will_poll p b" for i p
    by (rule gc_inv_move [OF assms(2) that(1-4)]) (use that sched_keeps_refl [OF ok] sg in \<open>auto simp: same_control_def same_pause_def\<close>)
  have not_busy: "local_work_buffer s i = []" if "i < n" "phase s i = Scan sl r k" for i sl r k
    using I(4) that by (auto simp: inv_local_def)
  show ?thesis using assms(1)
  proof (cases rule: gc_step.cases)
    case (start_designated i sl r w ws)
    have "has_designated_work (sched s)"
      using start_designated(2,4) nth_mem [of i "designated_work (sched s)"] by (auto simp: has_designated_work_def worker_count_def)
    then have "sched_keeps (sched s) ((sched s)\<lparr>designated_work := (designated_work (sched s))[i := ws]\<rparr>)"
      using ok by (simp add: sched_keeps_def worker_count_def)
    then show ?thesis unfolding start_designated(1) using start_designated(2,3) n sg
      by (intro gc_inv_move [OF assms(2)]) (auto simp: same_control_def same_pause_def on_sched_def is_parked_def)
  next
    case (start_none i)
    show ?thesis unfolding start_none(1) by (rule moves) (use start_none n in \<open>auto simp: is_parked_def\<close>)
  next
    case (local_pop i w ws)
    then show ?thesis unfolding local_pop(1) using n sg sched_keeps_refl [OF ok]
      by (intro gc_inv_move [OF assms(2)]) (auto simp: same_control_def same_pause_def is_parked_def)
  next
    case (local_none i)
    show ?thesis unfolding local_none(1) by (rule moves) (use local_none n in \<open>auto simp: is_parked_def\<close>)
  next
    case (scan_designated_none i sl r)
    show ?thesis unfolding scan_designated_none(1) by (rule moves) (use scan_designated_none n not_busy [of i] in \<open>auto simp: is_parked_def\<close>)
  next
    case (scan_bucket i sl r k batch w ws b)
    have "sched_keeps (sched s) (on_bucket (from_usize k) (\<lambda>_. b) (sched s))"
      by (rule sched_keeps_simple [OF ok]) (use wb_poll_fields [OF scan_bucket(5)] in auto)
    then show ?thesis unfolding scan_bucket(1) using scan_bucket(2,3) n sg
      by (intro gc_inv_move [OF assms(2)]) (auto simp: same_control_def same_pause_def on_sched_def is_parked_def split: if_splits)
  next
    case (scan_bucket_none i sl r k batch)
    have "will_poll (Scan sl r (Suc (Suc k))) b" if "open_work (sched s) b" "will_poll (phase s i) b" for b
    proof -
      have "b \<noteq> from_usize k" using wb_poll_None [OF scan_bucket_none(5)] that(1) by (auto simp: open_work_def)
      then have "into_usize b \<noteq> k" using scan_bucket_none(4) by auto
      then show ?thesis using that(2) scan_bucket_none(3) by auto
    qed
    note polls = this
    show ?thesis unfolding scan_bucket_none(1) by (rule moves) (use scan_bucket_none n not_busy [of i] polls in \<open>auto simp: is_parked_def\<close>)
  next
    case (scan_steal i sl r j w ws)
    then show ?thesis unfolding scan_steal(1) using n sg sched_keeps_refl [OF ok]
      by (intro gc_inv_move [OF assms(2)]) (auto simp: same_control_def same_pause_def is_parked_def split: if_splits)
  next
    case (scan_steal_none i sl r j)
    have "\<not> Suc (stage_LENGTH + j) \<le> Suc (into_usize b)" for b using less_le_trans [OF stage_index(3) [of b], of "stage_LENGTH + j"] by simp
    note polls = this
    show ?thesis unfolding scan_steal_none(1) by (rule moves) (use scan_steal_none n not_busy [of i] polls in \<open>auto simp: is_parked_def\<close>)
  next
    case (scan_retry i sl r k)
    show ?thesis unfolding scan_retry(1) by (rule moves) (use scan_retry n not_busy [of i] in \<open>auto simp: is_parked_def\<close>)
  next
    case (scan_again i sl)
    show ?thesis unfolding scan_again(1) by (rule moves) (use scan_again n not_busy [of i] in \<open>auto simp: is_parked_def\<close>)
  next
    case (scan_slow i)
    show ?thesis unfolding scan_slow(1) by (rule moves) (use scan_slow n not_busy [of i] in \<open>auto simp: is_parked_def\<close>)
  next
    case (parks i waits s1 p)
    then show ?thesis using gc_inv_parks [OF assms(2), of i sc waits s1 p] n by simp
  next
    case (wakes_spuriously i)
    then show ?thesis using gc_inv_spurious [OF assms(2)] n by simp
  next
    case (unparks i)
    have "gc_inv False n s" using assms(2) by (simp add: gc_inv_def)
    then show ?thesis using gc_inv_unpark unparks n by blast
  next
    case (executes i w op s1 p)
    then show ?thesis using gc_inv_exec [OF assms(2)] n by simp
  next
    case (finishes i w)
    show ?thesis unfolding finishes(1) by (rule moves) (use finishes n in \<open>auto simp: is_parked_def\<close>)
  next
    case (surrenders i s1)
    then show ?thesis using gc_inv_surrender [OF assms(2)] n by simp
  next
    case (mutator_requests s1)
    then show ?thesis using gc_inv_requests [OF assms(2)] by simp
  next
    case (mutator_sends s1 p)
    then show ?thesis using gc_inv_sends [OF assms(2)] n by auto
  next
    case (mutator_adds b ws s1 p)
    then show ?thesis using gc_inv_adds [OF assms(2)] n by (auto simp: on_sched_def)
  next
    case (mutator_postpones ws)
    then show ?thesis using gc_inv_postpones [OF assms(2)] by simp
  next
    case (mutator_forks s1 p)
    then show ?thesis using gc_inv_forks [OF assms(2)] n by simp
  next
    case mutator_respawns
    then show ?thesis using gc_inv_respawn [OF assms(2)] n by simp
  qed
qed

lemma gc_inv_new:
  assumes "gc_system_new n c = Some s"
  shows "gc_inv quiet n s"
proof -
  obtain t where t: "scheduler_new n c = Some t" "s = \<lparr>sched = t, goals = goals_new, parker = parker_new n, parked = 0, phase = (\<lambda>_. Start), local_work_buffer = (\<lambda>_. []),
       gc_start_time = False, request_flag = False, requesting = False, mutators_paused = False, creation_state = Spawned, events = []\<rparr>"
    using assms by (auto simp: gc_system_new_def initial_spawn_def bind_eq_Some_conv)
  have "parked_set n (\<lambda>_. Start) = {}" by (simp add: parked_set_def is_parked_def)
  moreover have "0 < n" using t(1) by (auto simp: scheduler_new_def split: if_splits)
  ultimately show ?thesis using scheduler_new_ok [OF t(1)]
    by (auto simp: t(2) gc_inv_def inv_count_def inv_goal_def inv_fork_def running_def inv_local_def inv_wake_def inv_cover_def parker_new_def goals_new_def
        has_designated_work_def open_work_def open_drained_def)
qed

lemma gc_reachable_inv:
  assumes "gc_reachable sc quiet n s"
  shows "gc_inv quiet n s"
proof -
  obtain c s0 where "gc_system_new n c = Some s0" "(gc_step sc quiet)\<^sup>*\<^sup>* s0 s" using assms by (auto simp: gc_reachable_def)
  from this(2) gc_inv_new [OF this(1), of quiet] show ?thesis
    by (induction rule: rtranclp_induct) (auto intro: gc_step_inv)
qed

lemma wb_poll_empty: "(is_activated x \<Longrightarrow> wb_is_empty x) \<Longrightarrow> wb_poll batch x = None"
  by (auto simp: wb_poll_def)

text \<open>A worker that finds nothing to do goes through every source twice.\<close>

definition no_work :: "'w gc_system \<Rightarrow> bool" where
  "no_work s \<longleftrightarrow> open_drained (sched s) \<and> \<not> has_designated_work (sched s) \<and> (\<forall>j < workers s. local_work_buffer s j = [])"

lemma no_designated_nth: "\<not> has_designated_work t \<Longrightarrow> i < worker_count t \<Longrightarrow> designated_work t ! i = []"
  by (auto simp: has_designated_work_def worker_count_def)

lemma scan_walk:
  assumes "no_work s" "i < workers s" "phase s i = Scan sl False 0" "k \<le> Suc (stage_LENGTH + workers s)"
  shows "(gc_step sc quiet)\<^sup>*\<^sup>* s (at s i (Scan sl False k))"
  using assms(4)
proof (induction k)
  case 0
  have "(phase s)(i := Scan sl False 0) = phase s" using assms(3) by auto
  then show ?case by simp
next
  case (Suc k)
  let ?s = "at s i (Scan sl False k)"
  have i: "i < workers ?s" "phase ?s i = Scan sl False k" using assms(2) by simp_all
  have d: "designated_work (sched ?s) ! i = []" using assms(1,2) no_designated_nth by (auto simp: no_work_def)
  have step: "gc_step sc quiet ?s (at ?s i (Scan sl False (Suc k)))"
  proof (cases k)
    case 0
    then show ?thesis using gc_step.scan_designated_none [of i ?s sl False] i d by simp
  next
    case (Suc m)
    show ?thesis
    proof (cases "m < stage_LENGTH")
      case True
      have "wb_poll 0 (work_buckets (sched ?s) (from_usize m)) = None"
        using assms(1) by (intro wb_poll_empty) (auto simp: no_work_def open_drained_def)
      then show ?thesis using gc_step.scan_bucket_none [of i ?s sl False m 0] i Suc True by simp
    next
      case False
      then obtain j where j: "m = stage_LENGTH + j" "j < workers ?s" using Suc.prems Suc that [of "m - stage_LENGTH"] by simp
      have "j = i \<or> local_work_buffer ?s j = []" using assms(1) j(2) by (simp add: no_work_def)
      then show ?thesis using gc_step.scan_steal_none [of i ?s sl False j] i j Suc by simp
    qed
  qed
  have step': "gc_step sc quiet ?s (at s i (Scan sl False (Suc k)))" using step by simp
  show ?case by (rule rtranclp.rtrancl_into_rtrancl [OF Suc.IH [OF Suc_leD [OF Suc.prems]] step'])
qed

lemma idle_walk:
  assumes "no_work s" "i < workers s" "phase s i = Start"
  shows "(gc_step sc quiet)\<^sup>*\<^sup>* s (at s i (Scan True False (Suc (stage_LENGTH + workers s))))"
proof -
  let ?n = "Suc (stage_LENGTH + workers s)"
  have nw: "no_work (at s i p)" for p using assms(1) by (simp add: no_work_def)
  have d: "designated_work (sched s) ! i = []" "local_work_buffer s i = []" using assms(1,2) no_designated_nth by (auto simp: no_work_def)
  have 1: "gc_step sc quiet s (at s i Local)" by (rule gc_step.start_none [OF assms(2,3) d(1)])
  have 2: "gc_step sc quiet (at s i Local) (at s i (Scan False False 0))" using gc_step.local_none [of i "at s i Local"] assms(2) d(2) by simp
  have 3: "(gc_step sc quiet)\<^sup>*\<^sup>* (at s i (Scan sl False 0)) (at s i (Scan sl False ?n))" for sl
    using scan_walk [OF nw [of "Scan sl False 0"], of i sl ?n] assms(2) by simp
  have 4: "gc_step sc quiet (at s i (Scan False False ?n)) (at s i (Scan True False 0))"
    using gc_step.scan_slow [of i "at s i (Scan False False ?n)"] assms(2) by simp
  show ?thesis
    by (rule converse_rtranclp_into_rtranclp [OF 1 converse_rtranclp_into_rtranclp [OF 2 rtranclp_trans [OF 3 converse_rtranclp_into_rtranclp [OF 4 3]]]])
qed

lemma all_scan:
  assumes "gc_system_new n c = Some s" "k \<le> n"
  shows "(gc_step sc quiet)\<^sup>*\<^sup>* s (s\<lparr>phase := (\<lambda>i. if i < k then Scan True False (Suc (stage_LENGTH + n)) else Start)\<rparr>)"
  using assms(2)
proof (induction k)
  case 0
  have "s\<lparr>phase := (\<lambda>i. Start)\<rparr> = s" using assms(1) by (auto simp: gc_system_new_def initial_spawn_def bind_eq_Some_conv)
  then show ?case by simp
next
  case (Suc k)
  obtain t where t: "scheduler_new n c = Some t" and s: "sched s = t" "local_work_buffer s = (\<lambda>_. [])"
    using assms(1) by (auto simp: gc_system_new_def initial_spawn_def bind_eq_Some_conv)
  let ?s = "s\<lparr>phase := (\<lambda>i. if i < k then Scan True False (Suc (stage_LENGTH + n)) else Start)\<rparr>"
  have n: "workers s = n" and "no_work ?s" using scheduler_new_ok [OF t] s by (auto simp: no_work_def has_designated_work_def)
  then have walk: "(gc_step sc quiet)\<^sup>*\<^sup>* ?s (at ?s k (Scan True False (Suc (stage_LENGTH + workers ?s))))"
    using Suc.prems by (intro idle_walk) simp_all
  have "(phase ?s)(k := Scan True False (Suc (stage_LENGTH + n))) =
      (\<lambda>i. if i < Suc k then Scan True False (Suc (stage_LENGTH + n)) else Start)" by (auto simp: less_Suc_eq)
  then have e: "at ?s k (Scan True False (Suc (stage_LENGTH + workers ?s))) = s\<lparr>phase := (\<lambda>i. if i < Suc k then Scan True False (Suc (stage_LENGTH + n)) else Start)\<rparr>"
    by (simp add: n)
  show ?case by (rule rtranclp_trans [OF Suc.IH [OF Suc_leD [OF Suc.prems]] walk [unfolded e]])
qed

lemma park_idle:
  assumes inv: "gc_inv False n s" and g: "current_goal (goals s) = None" "\<not> requests (goals s) Gc" "\<not> requests (goals s) StopForFork"
    and i: "i < n" "phase s i = Scan True False (Suc (stage_LENGTH + n))"
  shows "gc_step sc quiet s (at (settled (phase s) (last_state s)) i Waiting)"
proof -
  have n: "workers s = n" "signals (sched s) = []" using gc_invD(1) [OF inv] by (simp_all add: inv_count_def)
  have "respond_to_requests sc (last_state s) = Some (ParkSelf, last_state s)"
    using g by (simp add: respond_to_requests_def poll_next_goal_def last_state_def Let_def)
  then have pk: "park sc s = Some (True, last_state s)"
    using g by (auto simp: park_def on_last_parked_def last_state_def Let_def case_prod_beta)
  have d: "delivered n (signals (sched (last_state s))) (phase (last_state s)) (phase s)" using n(2) by (simp add: delivered_none)
  show ?thesis using gc_step.parks [of i s sc True "last_state s" "phase s" quiet] i n(1) pk d by simp
qed

lemma park_all:
  "gc_inv False n s \<Longrightarrow> current_goal (goals s) = None \<Longrightarrow> \<not> requests (goals s) Gc \<Longrightarrow> \<not> requests (goals s) StopForFork \<Longrightarrow>
   (\<And>i. i < n \<Longrightarrow> phase s i = (if i < k then Waiting else Scan True False (Suc (stage_LENGTH + n)))) \<Longrightarrow> k \<le> n \<Longrightarrow>
   \<exists>t. (gc_step sc quiet)\<^sup>*\<^sup>* s t \<and> (\<forall>i < n. phase t i = Waiting) \<and> sched t = sched s"
proof (induction "n - k" arbitrary: k s)
  case 0
  then show ?case by (intro exI [of _ s]) auto
next
  case (Suc m)
  let ?t = "at (settled (phase s) (last_state s)) k Waiting"
  have k: "k < n" "phase s k = Scan True False (Suc (stage_LENGTH + n))" using Suc.hyps(2) Suc.prems(5) [of k] by simp_all
  have st: "gc_step sc q s ?t" for q by (rule park_idle [OF Suc.prems(1-4) k])
  have sc: "sched ?t = sched s" using gc_invD(1) [OF Suc.prems(1)] by (simp add: inv_count_def)
  have "\<exists>u. (gc_step sc quiet)\<^sup>*\<^sup>* ?t u \<and> (\<forall>i < n. phase u i = Waiting) \<and> sched u = sched ?t"
  proof (rule Suc.hyps(1) [of "Suc k"])
    show "gc_inv False n ?t" by (rule gc_step_inv [OF st Suc.prems(1)])
    show "phase ?t i = (if i < Suc k then Waiting else Scan True False (Suc (stage_LENGTH + n)))" if "i < n" for i
      using Suc.prems(5) [OF that] by (cases "i = k") (auto simp: less_Suc_eq)
  qed (use Suc.hyps(2) Suc.prems k in simp_all)
  then obtain u where u: "(gc_step sc quiet)\<^sup>*\<^sup>* ?t u" "\<forall>i < n. phase u i = Waiting" "sched u = sched s" using sc by auto
  then show ?case using converse_rtranclp_into_rtranclp [OF st u(1)] by blast
qed

lemma sentinels_loop_found: "fst (sentinels_loop bs r s) \<Longrightarrow> r \<or> (\<exists>b. has_sentinel (work_buckets s b))"
proof (induction bs r s rule: sentinels_loop.induct)
  case (2 b bs r s)
  show ?case
  proof (cases "is_activated (work_buckets s b)")
    case True
    let ?s = "snd (schedule_sentinel b s)"
    have fs: "fst (schedule_sentinel b s) = has_sentinel (work_buckets s b)" by (simp add: schedule_sentinel_def case_prod_beta)
    have "fst (sentinels_loop bs (r \<or> fst (schedule_sentinel b s)) ?s)" using 2(3) True by (simp add: case_prod_beta)
    then have "(r \<or> fst (schedule_sentinel b s)) \<or> (\<exists>c. has_sentinel (work_buckets ?s c))" by (rule 2(1) [OF True refl prod.collapse])
    moreover have "work_buckets ?s c = work_buckets s c" if "\<not> has_sentinel (work_buckets s b)" for c
      using schedule_sentinel_none [of b s c] fs that by simp
    ultimately show ?thesis using fs by metis
  next
    case False
    then show ?thesis using 2(2) [OF False] 2(3) by simp
  qed
qed simp

text \<open>One worker goes through a collection: it parks and finds a request, executes the packet that starts the collection, and pauses the mutators.\<close>

lemma gc_run_started:
  obtains t s where "scheduler_new 1 1 = Some t" "gc_reachable sc quiet 1 s" "sched s = on_bucket Unconstrained (add_boxed_no_notify sc) t"
    "phase s 0 = Scan True False 0" "local_work_buffer s = (\<lambda>_. [])" "current_goal (goals s) = Some Gc" "mutators_paused s = False" "\<not> requests (goals s) StopForFork"
proof -
  obtain t where t: "scheduler_new 1 1 = Some (t :: 'a gc_work_scheduler)" by (auto simp: scheduler_new_def)
  note T = scheduler_new_ok [OF t]
  define s0 where "s0 = \<lparr>sched = t, goals = goals_new, parker = parker_new 1, parked = 0, phase = (\<lambda>_. Start), local_work_buffer = (\<lambda>_. []),
       gc_start_time = False, request_flag = False, requesting = False, mutators_paused = False, creation_state = Spawned, events = []\<rparr>"
  have new: "gc_system_new 1 1 = Some s0" using t by (simp add: gc_system_new_def initial_spawn_def s0_def)
  have d0: "delivered 1 [False] p p" if "p 0 \<noteq> Waiting" for p :: "nat \<Rightarrow> 'a phase" using that by (intro delivered_lost delivered_none) simp
  define s1 where "s1 = s0\<lparr>request_flag := True, requesting := True\<rparr>"
  have st1: "gc_step sc quiet s0 s1" unfolding s1_def
    using gc_step.mutator_requests [of s0 "s0\<lparr>request_flag := True\<rparr>" sc quiet] by (simp add: gc_requester_request_def s0_def)
  define s2 where "s2 = (settled (phase s1) (make_request Gc s1))\<lparr>requesting := False\<rparr>"
  have st2: "gc_step sc quiet s1 s2" unfolding s2_def
    by (rule gc_step.mutator_sends) (use d0 T in \<open>simp_all add: s1_def s0_def make_request_def set_request_def goals_new_def notify_work_available_def\<close>)
  have s2: "sched s2 = t" "phase s2 = (\<lambda>_. Start)" "local_work_buffer s2 = (\<lambda>_. [])" "goals s2 = \<lparr>current_goal = None, requests = (\<lambda>_. False)(Gc := True)\<rparr>"
    "parker s2 = parker_new 1" "gc_start_time s2 = False" "mutators_paused s2 = False"
    using T by (simp_all add: s2_def s1_def s0_def make_request_def set_request_def goals_new_def notify_work_available_def settled_def)
  define s3 where "s3 = at s2 0 (Scan True False (Suc (stage_LENGTH + 1)))"
  have st3: "(gc_step sc quiet)\<^sup>*\<^sup>* s2 s3" unfolding s3_def
    using idle_walk [of s2 0 sc quiet] T s2 by (simp add: no_work_def has_designated_work_def)
  define u where "u = (last_state s3)\<lparr>goals := \<lparr>current_goal = Some Gc, requests = (\<lambda>_. False)(Gc := True, Gc := False)\<rparr>, gc_start_time := True,
        sched := on_bucket Unconstrained (add_boxed_no_notify sc) t\<rparr>"
  have pk: "park sc s3 = Some (False, u)"
    using s2 by (simp add: park_def s3_def u_def last_state_def inc_parked_workers_def parker_new_def on_last_parked_def respond_to_requests_def poll_next_goal_def
        add_schedule_collection_packet_def Let_def)
  define s4 where "s4 = unpark 0 (settled (phase u) u)"
  have st4: "gc_step sc quiet s3 s4" unfolding s4_def
    using gc_step.parks [of 0 s3 sc False u "phase u" quiet] pk T s2 by (simp add: s3_def u_def delivered_none)
  have s4: "sched s4 = on_bucket Unconstrained (add_boxed_no_notify sc) t" "phase s4 0 = Scan True False 0" "local_work_buffer s4 = (\<lambda>_. [])"
    "current_goal (goals s4) = Some Gc" "mutators_paused s4 = False" "\<not> requests (goals s4) StopForFork"
    using T s2 by (simp_all add: s4_def u_def s3_def unpark_def Let_def on_bucket_def)
  have "(gc_step sc quiet)\<^sup>*\<^sup>* s0 s2" using st1 st2 by (meson converse_rtranclp_into_rtranclp rtranclp.rtrancl_refl)
  then have "(gc_step sc quiet)\<^sup>*\<^sup>* s0 s4" using st3 st4 by (meson rtranclp.rtrancl_into_rtrancl rtranclp_trans)
  then have "gc_reachable sc quiet 1 s4" using new by (auto simp: gc_reachable_def)
  then show thesis using that [OF t] s4 by blast
qed

lemma gc_reachable_step: "gc_reachable sc quiet n s \<Longrightarrow> gc_step sc quiet s t \<Longrightarrow> gc_reachable sc quiet n t"
  unfolding gc_reachable_def by (meson rtranclp.rtrancl_into_rtrancl)

lemma gc_run_paused:
  obtains s where "gc_reachable sc quiet 1 s" "phase s 0 = Start" "mutators_paused s" "no_work s" "\<not> requests (goals s) StopForFork"
    "postponed_concurrent_work (sched s) = [w]" "postponed_concurrent_work_prioritized (sched s) = []"
    "\<And>b. wb_is_empty (work_buckets (sched s) b) \<and> \<not> has_sentinel (work_buckets (sched s) b)"
proof -
  obtain t s4 where t: "scheduler_new 1 1 = Some t" and r4: "gc_reachable sc quiet 1 s4"
    and s4: "sched s4 = on_bucket Unconstrained (add_boxed_no_notify sc) t" "phase s4 0 = Scan True False 0" "local_work_buffer s4 = (\<lambda>_. [])"
      "current_goal (goals s4) = Some Gc" "mutators_paused s4 = False" "\<not> requests (goals s4) StopForFork" by (rule gc_run_started)
  note T = scheduler_new_ok [OF t]
  have post: "postponed_concurrent_work t = []" "postponed_concurrent_work_prioritized t = []" using t by (auto simp: scheduler_new_def Let_def)
  have w1: "worker_count (on_bucket b f t) = 1" "designated_work (on_bucket b f t) ! 0 = []" for b f using T by (simp_all add: worker_count_def)
  define s5 where "s5 = at s4 0 (Scan True False 1)"
  have st5: "gc_step sc quiet s4 s5" unfolding s5_def
    by (rule gc_step.scan_designated_none) (use s4 w1 in simp_all)
  define b where "b = (work_buckets (sched s4) Unconstrained)\<lparr>wb_queue := []\<rparr>"
  have poll: "wb_poll 0 (work_buckets (sched s5) (from_usize 0)) = Some (sc, [], b)"
    using T s4 by (simp add: s5_def b_def wb_poll_def bucket_defs add_boxed_no_notify_def steal_batch_and_pop_def)
  define s6 where "s6 = at ((on_sched (on_bucket Unconstrained (\<lambda>_. b)) s5)\<lparr>local_work_buffer := (local_work_buffer s5)(0 := local_work_buffer s5 0 @ [])\<rparr>) 0 (Executing sc)"
  have st6: "gc_step sc quiet s5 s6" unfolding s6_def
    using gc_step.scan_bucket [of 0 s5 True False 0 0 sc "[]" b sc quiet] poll s4 w1 by (simp add: s5_def stage_LENGTH_def)
  define s7 where "s7 = settled (\<lambda>i. if i < 1 \<and> phase s6 i = Waiting then Woken else phase s6 i) ((notify_mutators_paused False s6)\<lparr>mutators_paused := True\<rparr>)"
  have s6: "sched s6 = on_bucket Unconstrained (\<lambda>_. b) (sched s4)" "phase s6 0 = Executing sc" "local_work_buffer s6 = (\<lambda>_. [])"
    "current_goal (goals s6) = Some Gc" "mutators_paused s6 = False" "\<not> requests (goals s6) StopForFork" using s4 by (auto simp: s6_def s5_def on_sched_def)
  have sg: "signals (sched s6) = []" "worker_count (sched s6) = 1" using T by (simp_all add: s6 s4 worker_count_def)
  have st7: "gc_step sc quiet s6 s7" unfolding s7_def
    by (rule gc_step.executes [where i = 0 and w = sc and op = "NotifyMutatorsPaused False"])
      (use s6 sg in \<open>auto simp: notify_mutators_paused_def clear_request_def notify_work_available_def Let_def intro!: delivered_all delivered_none\<close>)
  have s7: "sched s7 = (on_bucket FinishConcurrentWork activate (sched s6))\<lparr>signals := []\<rparr>" "phase s7 0 = Executing sc" "local_work_buffer s7 = (\<lambda>_. [])" "mutators_paused s7"
    "\<not> requests (goals s7) StopForFork"
    using s6 by (simp_all add: s7_def notify_mutators_paused_def clear_request_def notify_work_available_def Let_def)
  define s8 where "s8 = settled (phase s7) (on_sched (postpone w) s7)"
  have st8: "gc_step sc quiet s7 s8" unfolding s8_def
    by (rule gc_step.executes [where i = 0 and w = sc and op = "Postpone w"])
      (use s7 sg in \<open>simp_all add: worker_count_def on_sched_def postpone_def delivered_none\<close>)
  have s8: "sched s8 = postpone w (sched s7)" "phase s8 0 = Executing sc" "local_work_buffer s8 = (\<lambda>_. [])" "mutators_paused s8" "\<not> requests (goals s8) StopForFork"
    using s7 by (simp_all add: s8_def on_sched_def postpone_def)
  have st9: "gc_step sc quiet s8 (at s8 0 Start)" by (rule gc_step.finishes) (use s7(1) s8 sg in \<open>simp_all add: worker_count_def postpone_def\<close>)
  have e: "wb_is_empty (work_buckets (sched s8) c) \<and> \<not> has_sentinel (work_buckets (sched s8) c)" for c
    using T by (auto simp: s8 postpone_def s7 s6 s4 b_def bucket_defs add_boxed_no_notify_def)
  have "gc_reachable sc quiet 1 (at s8 0 Start)"
    by (rule gc_reachable_step [OF gc_reachable_step [OF gc_reachable_step [OF gc_reachable_step [OF gc_reachable_step [OF r4 st5] st6] st7] st8] st9])
  moreover have "no_work (at s8 0 Start)"
    using T e s8(3) by (simp add: no_work_def open_drained_def has_designated_work_def s8(1) postpone_def s7(1) s6 s4 worker_count_def)
  moreover have "postponed_concurrent_work (sched s8) = [w]" "postponed_concurrent_work_prioritized (sched s8) = []"
    using post by (simp_all add: s8(1) postpone_def s7(1) s6(1) s4(1) on_bucket_def)
  ultimately show thesis using e s8(4,5) by (intro that [of "at s8 0 Start"]) simp_all
qed

lemma respond_total: "current_goal (goals t) = None \<Longrightarrow> \<not> gc_start_time t \<Longrightarrow> \<exists>r u. respond_to_requests sc t = Some (r, u)"
  by (auto simp: respond_to_requests_def poll_next_goal_def Let_def)

lemma delivered_total: "\<exists>q. delivered n ss p q"
proof (induction ss arbitrary: p)
  case Nil
  show ?case by (blast intro: delivered_none)
next
  case (Cons a ss)
  consider (all) a | (one) i where "\<not> a" "i < n" "p i = Waiting" | (lost) "\<not> a" "\<And>i. i < n \<Longrightarrow> p i \<noteq> Waiting" by blast
  then show ?case
  proof cases
    case all
    obtain q where "delivered n ss (\<lambda>i. if i < n \<and> p i = Waiting then Woken else p i) q" using Cons.IH by blast
    then show ?thesis using all delivered_all [of n ss p q] by auto
  next
    case one
    obtain q where "delivered n ss (p(i := Woken)) q" using Cons.IH by blast
    then show ?thesis using one delivered_one [of i n p ss q] by auto
  next
    case lost
    obtain q where "delivered n ss p q" using Cons.IH by blast
    then show ?thesis using lost delivered_lost [of n p ss q] by auto
  qed
qed

lemma park_last_eq:
  assumes "inv_count n s" "card (parked_set n (phase s)) + 1 = n" "on_last_parked sc (last_state s) = Some (r, u)"
  shows "park sc s = Some (r = ParkSelf, if r = WakeAll then u\<lparr>sched := notify_work_available True (sched u)\<rparr> else u)"
proof -
  have "parked_workers (parker s) + 1 = parker_worker_count (parker s)" using assms(1,2) by (simp add: inv_count_def)
  then show ?thesis using assms(3) by (cases r) (simp_all add: park_def inc_parked_workers_def last_state_def Let_def)
qed

lemma gc_reachable_steps: "gc_reachable sc quiet n s \<Longrightarrow> (gc_step sc quiet)\<^sup>*\<^sup>* s t \<Longrightarrow> gc_reachable sc quiet n t"
  unfolding gc_reachable_def by (meson rtranclp_trans)

lemma find_no_work:
  assumes "sched_ok s" "passed s first_stw_stage" "\<not> has_designated_work s" "\<And>b. wb_is_empty (work_buckets s b) \<and> \<not> has_sentinel (work_buckets s b)"
  obtains v where "find_more_work_for_workers s = (False, v)"
proof -
  obtain r s1 where s1: "schedule_sentinels s = (r, s1)" by fastforce
  have r: "\<not> r" using sentinels_loop_found [of stages False s] assms(4) s1 by (auto simp: schedule_sentinels_def)
  have same: "work_buckets s1 c = work_buckets s c" for c using sentinels_loop_none [of stages False s] s1 r by (simp add: schedule_sentinels_def)
  have "sched_ok s1" using sentinels_loop_keeps [OF assms(1), of stages False] s1 by (simp add: schedule_sentinels_def sched_keeps_def)
  then have "update_buckets s1 = (False, (open_range 1 stage_LENGTH s1)\<lparr>bucket_update_progress := 0\<rparr>)"
    by (rule update_buckets_cases) (use assms(2,4) same in \<open>auto simp: passed_def open_drained_def wb_pending_def\<close>)
  then show thesis using assms(3) s1 r
    by (intro that [of "(open_range 1 stage_LENGTH s1)\<lparr>bucket_update_progress := 0\<rparr>"]) (simp add: find_more_work_for_workers_def)
qed

lemma gc_run_ends:
  assumes r: "gc_reachable sc True 1 s"
    and s: "phase s 0 = Start" "mutators_paused s" "no_work s" "\<not> requests (goals s) StopForFork" "\<And>b. wb_is_empty (work_buckets (sched s) b) \<and> \<not> has_sentinel (work_buckets (sched s) b)"
  obtains s' t where "gc_reachable sc True 1 s'" "mutators_paused s'" "gc_step sc True s' t" "\<not> mutators_paused t" "sched s' = sched s" "goals s' = goals s"
proof -
  have n: "workers s = 1" using gc_invD(1) [OF gc_reachable_inv [OF r]] by (simp add: inv_count_def)
  let ?s = "at s 0 (Scan True False (Suc (stage_LENGTH + 1)))"
  have rs: "gc_reachable sc True 1 ?s" using gc_reachable_steps [OF r idle_walk [OF s(3) _ s(1)]] n by simp
  note I = gc_invD [OF gc_reachable_inv [OF rs]]
  have g: "current_goal (goals s) = Some Gc" "\<not> requests (goals s) Gc" "gc_start_time s" "is_activated (work_buckets (sched s) FinishConcurrentWork)" "sched_ok (sched s)"
    using I(1,2) s(2) by (simp_all add: inv_goal_def inv_count_def)
  obtain v where v: "find_more_work_for_workers (sched s) = (False, v)"
    by (rule find_no_work [of "sched s"]) (use g s(3,5) in \<open>simp_all add: passed_def no_work_def\<close>)
  let ?w = "(last_state ?s)\<lparr>sched := v\<rparr>"
  obtain x where x: "on_gc_finished ?w = Some x" "goals x = goals ?w" "\<not> mutators_paused x"
    by (rule on_gc_finished_ok [of ?w]) (use find_more_work_keeps(1) [OF g(5) v(1)] g(3) in \<open>auto simp: sched_keeps_def\<close>)
  let ?x = "x\<lparr>goals := on_current_goal_completed (goals x)\<rparr>"
  have "respond_to_requests sc ?x = Some (ParkSelf, ?x)"
    using x(2) s(4) g(2) by (simp add: respond_to_requests_def poll_next_goal_def on_current_goal_completed_def Let_def)
  then have last: "on_last_parked sc (last_state ?s) = Some (ParkSelf, ?x)" using g v x(1) by (simp add: on_last_parked_def debug_is_requested_def)
  have "parked_set 1 (phase ?s) = {}" by (auto simp: parked_set_def is_parked_def)
  then have pk: "park sc ?s = Some (True, ?x)" using park_last_eq [OF I(1) _ last] by simp
  obtain p where d: "delivered 1 (signals (sched ?x)) (phase ?x) p" using delivered_total by blast
  let ?t = "at (settled p ?x) 0 Waiting"
  have st: "gc_step sc True ?s ?t" using gc_step.parks [of 0 ?s sc True ?x p True] pk d n by simp
  then show thesis using x(3) s(2) by (intro that [of ?s ?t] rs st) simp_all
qed

section \<open>Correctness of the scheduler\<close>

text \<open>
  C3. No wake-up is lost. In every state that the workers and the mutators can reach, if all workers wait, then there is no goal and no request,
  no worker has designated or local work, and, with more than one worker, no open bucket has a packet. Mutators add packets to closed
  buckets only.
\<close>

theorem no_lost_wakeup:
  assumes "gc_reachable sc True n s" "\<And>i. i < n \<Longrightarrow> phase s i = Waiting"
  shows "current_goal (goals s) = None \<and> \<not> requests (goals s) Gc \<and> \<not> requests (goals s) StopForFork \<and> \<not> mutators_paused s \<and>
    \<not> has_designated_work (sched s) \<and> (\<forall>i < n. local_work_buffer s i = []) \<and> (1 < n \<longrightarrow> open_drained (sched s))"
proof -
  note I = gc_invD [OF gc_reachable_inv [OF assms(1)]]
  have g: "current_goal (goals s) = None" "\<not> requests (goals s) Gc" "\<not> requests (goals s) StopForFork" using I(5) assms(2) by (auto simp: inv_wake_def)
  moreover have "\<not> mutators_paused s" "\<not> has_designated_work (sched s)" using I(2) g by (auto simp: inv_goal_def)
  moreover have "\<forall>i < n. local_work_buffer s i = []" using I(4) assms(2) by (auto simp: inv_local_def)
  moreover have "open_drained (sched s)" if "1 < n" using I(6) that assms(2) by (auto simp: inv_cover_def open_drained_def open_work_def)
  ultimately show ?thesis by blast
qed

theorem no_lost_wakeup_witness:
  "\<exists>s. gc_reachable 0 True 2 (s :: nat gc_system) \<and> phase s 0 = Waiting \<and> phase s 1 = Waiting \<and> current_goal (goals s) = None \<and> open_drained (sched s)"
proof -
  obtain s0 :: "nat gc_system" where s0: "gc_system_new 2 2 = Some s0" by (auto simp: gc_system_new_def initial_spawn_def scheduler_new_def)
  let ?s = "s0\<lparr>phase := (\<lambda>i. if i < 2 then Scan True False (Suc (stage_LENGTH + 2)) else Start)\<rparr>"
  have g: "goals s0 = goals_new" using s0 by (auto simp: gc_system_new_def initial_spawn_def bind_eq_Some_conv)
  have st: "(gc_step 0 q)\<^sup>*\<^sup>* s0 ?s" for q by (rule all_scan [OF s0]) simp
  have "gc_inv False 2 ?s" by (rule gc_reachable_inv [of 0]) (use s0 st in \<open>auto simp: gc_reachable_def\<close>)
  then obtain t where t: "(gc_step 0 True)\<^sup>*\<^sup>* ?s t" "\<forall>i < 2. phase t i = Waiting"
    using park_all [of 2 ?s 0 0 True] g by (auto simp: goals_new_def)
  have r: "gc_reachable 0 True 2 t" using s0 rtranclp_trans [OF st t(1)] by (auto simp: gc_reachable_def)
  then show ?thesis using no_lost_wakeup [OF r] t(2) by (intro exI [of _ t]) simp
qed

text \<open>
  C35. Parking does not panic. In every reachable state a worker that has found nothing to do can park: no goal is started while another one
  is current, no collection is requested during a collection, a collection that ends has been started, and no worker parks
  while the workers stop for a fork. This holds whatever packets mutators add.
\<close>

theorem park_no_panic:
  assumes "gc_reachable sc quiet n s" "i < n" "phase s i = Scan True False (Suc (stage_LENGTH + n))"
  shows "\<exists>waits t. park sc s = Some (waits, t)"
proof -
  note I = gc_invD [OF gc_reachable_inv [OF assms(1)]]
  have ok: "sched_ok (sched s)" using I(1) by (simp add: inv_count_def)
  have "running n s" by (rule running_worker [OF I(3) assms(2)]) (use assms(3) in \<open>auto simp: is_parked_def\<close>)
  then consider (none) "current_goal (goals s) = None" | (gc) "current_goal (goals s) = Some Gc"
    by (cases "current_goal (goals s)") (auto simp: running_def elim: worker_goal.exhaust)
  then have "\<exists>r u. on_last_parked sc (last_state s) = Some (r, u)"
  proof cases
    case none
    then show ?thesis using respond_total [of "last_state s" sc] I(2) by (auto simp: on_last_parked_def inv_goal_def)
  next
    case gc
    obtain found v where v: "find_more_work_for_workers (sched s) = (found, v)" by fastforce
    have "sched_ok (sched ((last_state s)\<lparr>sched := v\<rparr>))" "gc_start_time ((last_state s)\<lparr>sched := v\<rparr>)" "\<not> requests (goals s) Gc"
      using find_more_work_keeps(1) [OF ok v] I(2) gc by (simp_all add: sched_keeps_def inv_goal_def)
    moreover from this(1,2) obtain t where "on_gc_finished ((last_state s)\<lparr>sched := v\<rparr>) = Some t" "\<not> gc_start_time t" by (rule on_gc_finished_ok) blast
    ultimately show ?thesis using gc v respond_total [of "t\<lparr>goals := on_current_goal_completed (goals t)\<rparr>" sc]
      by (cases found) (auto simp: on_last_parked_def debug_is_requested_def on_current_goal_completed_def)
  qed
  then show ?thesis by (auto simp: park_def last_state_def Let_def case_prod_beta)
qed

theorem park_no_panic_witness:
  "\<exists>s. gc_reachable 0 False 1 (s :: nat gc_system) \<and> phase s 0 = Scan True False 24 \<and> park 0 s \<noteq> None"
proof -
  obtain s0 :: "nat gc_system" where s0: "gc_system_new 1 1 = Some s0" by (auto simp: gc_system_new_def initial_spawn_def scheduler_new_def)
  let ?s = "s0\<lparr>phase := (\<lambda>i. if i < 1 then Scan True False (Suc (stage_LENGTH + 1)) else Start)\<rparr>"
  have r: "gc_reachable 0 False 1 ?s" using s0 all_scan [OF s0 order_refl, of 0 False] by (auto simp: gc_reachable_def)
  have "\<exists>waits t. park 0 ?s = Some (waits, t)" by (rule park_no_panic [OF r, of 0]) simp_all
  then show ?thesis using r by (intro exI [of _ ?s]) (auto simp: stage_LENGTH_def)
qed

lemma unpaused_by_park:
  assumes "gc_step sc quiet s t" "gc_inv quiet n s" "mutators_paused s" "\<not> mutators_paused t"
  obtains i waits u p where "i < n" "phase s i = Scan True False (Suc (stage_LENGTH + n))" "park sc s = Some (waits, u)"
    "t = (if waits then at (settled p u) i Waiting else unpark i (settled p u))"
  using assms(1)
proof (cases rule: gc_step.cases)
  case (parks i waits s1 p)
  then show thesis using that [of i waits s1 p] gc_invD(1) [OF assms(2)] by (simp add: inv_count_def)
next
  case (executes i w op s1 p)
  have "exec_frame i s s1" using exec_ok [OF executes(4)] gc_invD(1) [OF assms(2)] by (simp add: inv_count_def)
  then show thesis using assms(3,4) executes(1) by (auto simp: exec_frame_def same_pause_def)
qed (use assms(3,4) in \<open>auto simp: on_sched_def unpark_def Let_def surrender_gc_worker_def on_all_workers_exited_def gc_requester_request_def make_request_def
    case_prod_beta stop_gc_threads_for_forking_def prepare_surrender_buffer_def respawn_def bind_eq_Some_conv split: worker_creation_state.splits if_splits\<close>)

lemma finish_events: "on_gc_finished s = Some t \<Longrightarrow> events t = events s @ [DoClassUnloading, DumpGcStats, OnGcEnd, PlanEndOfGc, GcPauseEnd, ResetCollectionTrigger, SetNotInGC, ResumeMutators]"
  by (auto simp: on_gc_finished_def Let_def schedule_postponed_concurrent_packets_def bind_eq_Some_conv split: if_splits)

text \<open>What the last worker has found when it ends a collection.\<close>

lemma last_found_nothing:
  assumes inv: "gc_inv True n s" "mutators_paused s" and i: "i < n" "phase s i = Scan True False (Suc (stage_LENGTH + n))"
    and others: "\<And>j. j < n \<Longrightarrow> j \<noteq> i \<Longrightarrow> is_parked (phase s j)" and f: "find_more_work_for_workers (sched s) = (False, v)"
  shows "\<not> has_designated_work (sched s)" "\<not> disabled (work_buckets (sched s) b) \<Longrightarrow> wb_is_empty (work_buckets (sched s) b) \<and> \<not> has_sentinel (work_buckets (sched s) b)"
proof -
  note I = gc_invD [OF inv(1)]
  have g: "current_goal (goals s) = Some Gc" "is_activated (work_buckets (sched s) FinishConcurrentWork)" using I(2) inv(2) by (simp_all add: inv_goal_def)
  have drained: "open_drained (sched s)" by (rule last_drained [OF I(6) [OF TrueI] g(1) i others])
  note none = find_more_work_none [OF drained f]
  show "\<not> has_designated_work (sched s)" by (rule none(3))
  obtain s1 where s1: "\<not> fst (update_buckets s1)" "work_buckets s1 = work_buckets (sched s)" "s1 = snd (schedule_sentinels (sched s))" using none(4) by blast
  have "sched_ok s1" using sentinels_loop_keeps [of "sched s" stages False] I(1) s1(3) by (simp add: schedule_sentinels_def sched_keeps_def inv_count_def)
  then have "\<not> wb_pending s1 b"
    by (rule update_buckets_cases) (use g(2) s1 drained in \<open>auto simp: passed_def open_drained_def\<close>)
  then show "\<not> disabled (work_buckets (sched s) b) \<Longrightarrow> wb_is_empty (work_buckets (sched s) b) \<and> \<not> has_sentinel (work_buckets (sched s) b)"
    using none(2) [of b] drained by (auto simp: wb_pending_def passed_def s1(2) open_drained_def)
qed

text \<open>The step that lets the mutators go on is the last worker finding no more work, finishing the collection and looking for a request.\<close>

lemma collection_ends:
  assumes step: "gc_step sc quiet s t" and inv: "gc_inv quiet n s" and paused: "mutators_paused s" "\<not> mutators_paused t"
  obtains i v x r w p where "i < n" "phase s i = Scan True False (Suc (stage_LENGTH + n))" "\<And>j. j < n \<Longrightarrow> j \<noteq> i \<Longrightarrow> is_parked (phase s j)"
    "find_more_work_for_workers (sched s) = (False, v)" "on_gc_finished ((last_state s)\<lparr>sched := v\<rparr>) = Some x" "goals x = goals s"
    "respond_to_requests sc (x\<lparr>goals := on_current_goal_completed (goals x)\<rparr>) = Some (r, w)"
    "t = after_park i r p (if r = WakeAll then w\<lparr>sched := notify_work_available True (sched w)\<rparr> else w)"
proof -
  note I = gc_invD [OF inv]
  obtain i waits u p where i: "i < n" "phase s i = Scan True False (Suc (stage_LENGTH + n))" and pk: "park sc s = Some (waits, u)"
    and t: "t = (if waits then at (settled p u) i Waiting else unpark i (settled p u))"
    by (rule unpaused_by_park [OF step inv paused])
  have un: "\<not> mutators_paused u" using paused(2) t by (auto simp: unpark_def Let_def split: if_splits)
  have g: "current_goal (goals s) = Some Gc" "\<not> requests (goals s) Gc" using I(2) paused(1) by (simp_all add: inv_goal_def)
  have last: "card (parked_set n (phase s)) + 1 = n" using pk un paused(1) I(1) by (auto simp: park_def inv_count_def inc_parked_workers_def Let_def split: if_splits)
  have others: "is_parked (phase s j)" if "j < n" "j \<noteq> i" for j by (rule others_parked [OF i(1) _ last that]) (use i(2) in \<open>auto simp: is_parked_def\<close>)
  obtain r w where w: "on_last_parked sc (last_state s) = Some (r, w)" and u: "u = (if r = WakeAll then w\<lparr>sched := notify_work_available True (sched w)\<rparr> else w)"
    and waits: "waits \<longleftrightarrow> r = ParkSelf" by (rule park_last [OF I(1) last pk])
  obtain found v where v: "find_more_work_for_workers (sched s) = (found, v)" by fastforce
  have nf: "\<not> found" using w u un paused(1) g v by (auto simp: on_last_parked_def debug_is_requested_def)
  then obtain x where x: "on_gc_finished ((last_state s)\<lparr>sched := v\<rparr>) = Some x"
    "respond_to_requests sc (x\<lparr>goals := on_current_goal_completed (goals x)\<rparr>) = Some (r, w)"
    using w g v by (auto simp: on_last_parked_def debug_is_requested_def bind_eq_Some_conv)
  have "goals x = goals s" using x(1) by (auto simp: on_gc_finished_def Let_def schedule_postponed_concurrent_packets_def bind_eq_Some_conv split: if_splits)
  then show thesis using that [OF i others _ x(1) _ x(2), of p] v nf t u waits by (simp add: after_park_def)
qed

text \<open>
  C5. A collection ends only when its work is done. If a step lets the mutators go on, then every enabled bucket is empty and
  has no sentinel, no worker has designated or local work, and no worker executes a packet. The step does what has to be done
  at the end of a collection, ending with the mutators being resumed, and leaves a state that is not in a collection. Mutators add
  packets to closed buckets only.
\<close>

theorem gc_ends_complete:
  assumes "gc_reachable sc True n s" "gc_step sc True s t" "mutators_paused s" "\<not> mutators_paused t"
  shows "(\<forall>b. \<not> disabled (work_buckets (sched s) b) \<longrightarrow> wb_is_empty (work_buckets (sched s) b) \<and> \<not> has_sentinel (work_buckets (sched s) b)) \<and>
    \<not> has_designated_work (sched s) \<and> (\<forall>i < n. local_work_buffer s i = [] \<and> \<not> busy (phase s i)) \<and>
    events t = events s @ [DoClassUnloading, DumpGcStats, OnGcEnd, PlanEndOfGc, GcPauseEnd, ResetCollectionTrigger, SetNotInGC, ResumeMutators] \<and>
    current_goal (goals t) \<noteq> Some Gc"
proof -
  have inv: "gc_inv True n s" by (rule gc_reachable_inv [OF assms(1)])
  note I = gc_invD [OF inv]
  obtain i v x r w p where i: "i < n" "phase s i = Scan True False (Suc (stage_LENGTH + n))" and others: "\<And>j. j < n \<Longrightarrow> j \<noteq> i \<Longrightarrow> is_parked (phase s j)"
    and v: "find_more_work_for_workers (sched s) = (False, v)"
    and x: "on_gc_finished ((last_state s)\<lparr>sched := v\<rparr>) = Some x" "respond_to_requests sc (x\<lparr>goals := on_current_goal_completed (goals x)\<rparr>) = Some (r, w)" "goals x = goals s"
    and t: "t = after_park i r p (if r = WakeAll then w\<lparr>sched := notify_work_available True (sched w)\<rparr> else w)"
    by (rule collection_ends [OF assms(2) inv assms(3,4)]) blast
  have g: "\<not> requests (goals s) Gc" using I(2) assms(3) by (simp add: inv_goal_def)
  have "events w = events x" "current_goal (goals w) \<noteq> Some Gc"
    using x(2) by (rule respond_cases; use g x(3) in \<open>simp add: on_current_goal_completed_def\<close>)+
  then have "events t = events x" "current_goal (goals t) \<noteq> Some Gc" unfolding t by (simp_all add: after_park_def settled_def unpark_def Let_def)
  moreover have "local_work_buffer s j = [] \<and> \<not> busy (phase s j)" if "j < n" for j
    using I(4) that i(2) others [OF that] by (cases "j = i") (auto simp: inv_local_def is_parked_def)
  ultimately show ?thesis
    using finish_events [OF x(1)] last_found_nothing [OF inv assms(3) i others v] by (simp add: last_state_def)
qed

theorem gc_ends_complete_witness:
  "\<exists>s t. gc_reachable 0 True 1 (s :: nat gc_system) \<and> gc_step 0 True s t \<and> mutators_paused s \<and> \<not> mutators_paused t \<and> last (events t) = ResumeMutators"
proof -
  obtain s :: "nat gc_system" where r: "gc_reachable 0 True 1 s" and s: "phase s 0 = Start" "mutators_paused s" "no_work s" "\<not> requests (goals s) StopForFork"
    "\<And>b. wb_is_empty (work_buckets (sched s) b) \<and> \<not> has_sentinel (work_buckets (sched s) b)" by (rule gc_run_paused) blast
  obtain s' t where t: "gc_reachable 0 True 1 s'" "mutators_paused s'" "gc_step 0 True s' t" "\<not> mutators_paused t" "sched s' = sched s" "goals s' = goals s"
    by (rule gc_run_ends [OF r s])
  have "last (events t) = ResumeMutators" using gc_ends_complete [OF t(1,3,2,4)] by simp
  then show ?thesis using t by blast
qed

text \<open>
  C36. A mutator that adds a packet to the bucket that is always open can lose its wake-up, whatever the number of workers: when every worker has already
  polled the bucket, nobody waits for the notification, and all workers go on to wait without having seen the packet.
\<close>

theorem mutator_wakeup_lost:
  assumes "0 < n"
  shows "\<exists>s. gc_reachable sc False n s \<and> (\<forall>i < n. phase s i = Waiting) \<and> wb_queue (work_buckets (sched s) Unconstrained) = [w]"
proof -
  obtain t where t: "scheduler_new n n = Some (t :: 'a gc_work_scheduler)" using assms by (auto simp: scheduler_new_def)
  note T = scheduler_new_ok [OF t]
  obtain s0 where s0: "gc_system_new n n = Some s0" "sched s0 = t" "goals s0 = goals_new" using t by (auto simp: gc_system_new_def initial_spawn_def)
  let ?s = "s0\<lparr>phase := (\<lambda>i. if i < n then Scan True False (Suc (stage_LENGTH + n)) else Start)\<rparr>"
  have r: "gc_reachable sc False n ?s" using s0(1) all_scan [OF s0(1) order_refl, of sc False] by (auto simp: gc_reachable_def)
  let ?u = "on_sched (bulk_add Unconstrained [w]) ?s"
  have u: "signals (sched ?u) = [False]" "wb_queue (work_buckets (sched ?u) Unconstrained) = [w]" "phase ?u = phase ?s" "goals ?u = goals_new"
    using T s0 by (simp_all add: on_sched_def bulk_add_def Let_def is_activated_def notify_one_worker_def notify_work_available_def)
  have "delivered n (signals (sched ?u)) (phase ?u) (phase ?s)" unfolding u(1,3) by (intro delivered_lost delivered_none) auto
  then have "gc_step sc False ?s (settled (phase ?s) ?u)" using gc_step.mutator_adds [of False ?s Unconstrained "[w]" ?u] T(2) s0(2) by simp
  then have ru: "gc_reachable sc False n (settled (phase ?s) ?u)" by (rule gc_reachable_step [OF r])
  obtain v where v: "(gc_step sc False)\<^sup>*\<^sup>* (settled (phase ?s) ?u) v" "\<forall>i < n. phase v i = Waiting" "sched v = sched (settled (phase ?s) ?u)"
    using park_all [OF gc_reachable_inv [OF ru], of 0 sc False] u(4) by (auto simp: goals_new_def)
  then show ?thesis using gc_reachable_steps [OF ru v(1)] u(2) by (intro exI [of _ v]) simp
qed

theorem mutator_wakeup_lost_witness:
  "\<exists>s. gc_reachable 0 False 2 (s :: nat gc_system) \<and> phase s 0 = Waiting \<and> phase s 1 = Waiting \<and> wb_queue (work_buckets (sched s) Unconstrained) = [7]"
proof -
  obtain s :: "nat gc_system" where "gc_reachable 0 False 2 s" "\<forall>i < 2. phase s i = Waiting" "wb_queue (work_buckets (sched s) Unconstrained) = [7]"
    using mutator_wakeup_lost [of 2 0 7] by auto
  then show ?thesis by (intro exI [of _ s]) simp
qed

text \<open>Looking for more work leaves the postponed packets alone.\<close>

lemma postponed_update:
  "postponed_concurrent_work (snd (schedule_sentinel b s)) = postponed_concurrent_work s"
  "postponed_concurrent_work_prioritized (snd (schedule_sentinel b s)) = postponed_concurrent_work_prioritized s"
  "postponed_concurrent_work (snd (wb_update b s)) = postponed_concurrent_work s"
  "postponed_concurrent_work_prioritized (snd (wb_update b s)) = postponed_concurrent_work_prioritized s"
  by (auto simp: schedule_sentinel_def wb_update_def on_bucket_def case_prod_beta Let_def split: option.splits)

lemma sentinels_loop_postponed:
  "postponed_concurrent_work (snd (sentinels_loop bs r s)) = postponed_concurrent_work s \<and>
   postponed_concurrent_work_prioritized (snd (sentinels_loop bs r s)) = postponed_concurrent_work_prioritized s"
proof (induction bs r s rule: sentinels_loop.induct)
  case (2 b bs r s)
  then show ?case using 2(1) [OF _ refl prod.collapse] 2(2) by (cases "is_activated (work_buckets s b)") (simp_all add: case_prod_beta postponed_update)
qed simp

lemma update_loop_postponed:
  "update_loop i u s = (u', np, j, t) \<Longrightarrow> postponed_concurrent_work t = postponed_concurrent_work s \<and>
   postponed_concurrent_work_prioritized t = postponed_concurrent_work_prioritized s"
proof (induction "stage_LENGTH - i" arbitrary: i u s)
  case 0
  then show ?case by (auto simp: update_loop.simps [of i])
next
  case (Suc k)
  let ?b = "from_usize i"
  have next_ok: "postponed_concurrent_work t = postponed_concurrent_work s1 \<and> postponed_concurrent_work_prioritized t = postponed_concurrent_work_prioritized s1"
    if "update_loop (i + 1) u1 s1 = (u', np, j, t)" for u1 s1
    using Suc.hyps(1) [of "i + 1" u1 s1] Suc.hyps(2) that by auto
  show ?case
    using Suc.prems Suc.hyps(2) next_ok [of u s] next_ok [of "u \<or> fst (wb_update ?b s)" "snd (wb_update ?b s)"]
      next_ok [of True "snd (schedule_sentinel ?b (snd (wb_update ?b s)))"]
    by (auto simp: update_loop.simps [of i u s] postponed_update case_prod_beta Let_def split: if_splits)
qed

lemma find_more_work_postponed:
  assumes "find_more_work_for_workers s = (r, t)"
  shows "postponed_concurrent_work t = postponed_concurrent_work s" "postponed_concurrent_work_prioritized t = postponed_concurrent_work_prioritized s"
proof -
  obtain r1 s1 where s1: "schedule_sentinels s = (r1, s1)" by fastforce
  obtain u np j v where run: "update_loop (Suc (bucket_update_progress s1)) False s1 = (u, np, j, v)" by (metis prod_cases4)
  show "postponed_concurrent_work t = postponed_concurrent_work s" "postponed_concurrent_work_prioritized t = postponed_concurrent_work_prioritized s"
    using assms s1 run sentinels_loop_postponed [of stages False s] update_loop_postponed [OF run]
    by (auto simp: find_more_work_for_workers_def schedule_sentinels_def update_buckets_def Let_def split: if_splits)
qed

text \<open>
  C37. With one worker the packets that have been postponed to the end of a collection are not executed after it. In whatever way the collection went, if
  there is no request to fork when it ends, then the worker puts the postponed packets into the bucket that is always open, notifies the workers
  that wait, of which there are none, and waits itself.
\<close>

theorem single_worker_packets_wait:
  assumes "gc_reachable sc quiet 1 s" "gc_step sc quiet s t" "mutators_paused s" "\<not> mutators_paused t" "\<not> requests (goals s) StopForFork"
  shows "phase t 0 = Waiting \<and> current_goal (goals t) = None \<and>
    (postponed_concurrent_work (sched s) \<noteq> [] \<longrightarrow> wb_queue (work_buckets (sched t) Unconstrained) = postponed_concurrent_work (sched s)) \<and>
    (postponed_concurrent_work_prioritized (sched s) \<noteq> [] \<longrightarrow>
       wb_prioritized_queue (work_buckets (sched t) Unconstrained) = Some (postponed_concurrent_work_prioritized (sched s)))"
proof -
  have inv: "gc_inv quiet 1 s" by (rule gc_reachable_inv [OF assms(1)])
  obtain i v x r w p where i: "i < 1" and v: "find_more_work_for_workers (sched s) = (False, v)"
    and x: "on_gc_finished ((last_state s)\<lparr>sched := v\<rparr>) = Some x" "respond_to_requests sc (x\<lparr>goals := on_current_goal_completed (goals x)\<rparr>) = Some (r, w)" "goals x = goals s"
    and t: "t = after_park i r p (if r = WakeAll then w\<lparr>sched := notify_work_available True (sched w)\<rparr> else w)"
    by (rule collection_ends [OF assms(2) inv assms(3,4)]) blast
  have g: "\<not> requests (goals s) Gc" using gc_invD(2) [OF inv] assms(3) by (simp add: inv_goal_def)
  have r: "r = ParkSelf" "w = x\<lparr>goals := on_current_goal_completed (goals x)\<rparr>"
    using x(2) by (rule respond_cases; use g x(3) assms(5) in \<open>simp add: on_current_goal_completed_def\<close>)+
  have "phase t 0 = Waiting" "sched t = (sched x)\<lparr>signals := []\<rparr>" "current_goal (goals t) = None"
    using i unfolding t r by (simp_all add: after_park_def settled_def on_current_goal_completed_def)
  moreover have "postponed_concurrent_work v \<noteq> [] \<Longrightarrow> wb_queue (work_buckets (sched x) Unconstrained) = postponed_concurrent_work v"
    "postponed_concurrent_work_prioritized v \<noteq> [] \<Longrightarrow> wb_prioritized_queue (work_buckets (sched x) Unconstrained) = Some (postponed_concurrent_work_prioritized v)"
    using x(1) by (auto simp: on_gc_finished_def Let_def schedule_postponed_concurrent_packets_def schedule_concurrent_packets_def swap_queue_def swap_queue_prioritized_def
        deactivate_all_def set_in_gc_pause_def set_in_concurrent_def wakeup_all_conc_workers_def bind_eq_Some_conv split: if_splits)
  ultimately show ?thesis using find_more_work_postponed [OF v] by simp
qed

text \<open>A run in which the packet of the collection postpones another packet.\<close>

theorem single_worker_packets_wait_witness:
  "\<exists>s. gc_reachable 0 True 1 (s :: nat gc_system) \<and> phase s 0 = Waiting \<and> wb_queue (work_buckets (sched s) Unconstrained) = [7]"
proof -
  obtain s :: "nat gc_system" where r: "gc_reachable 0 True 1 s" and s: "phase s 0 = Start" "mutators_paused s" "no_work s" "\<not> requests (goals s) StopForFork"
    "\<And>b. wb_is_empty (work_buckets (sched s) b) \<and> \<not> has_sentinel (work_buckets (sched s) b)" and post: "postponed_concurrent_work (sched s) = [7]"
    by (rule gc_run_paused [of 0 True 7]) blast
  obtain s' t where t: "gc_reachable 0 True 1 s'" "mutators_paused s'" "gc_step 0 True s' t" "\<not> mutators_paused t" "sched s' = sched s" "goals s' = goals s"
    by (rule gc_run_ends [OF r s])
  then show ?thesis using single_worker_packets_wait [OF t(1,3,2,4)] gc_reachable_step [OF t(1,3)] s(4) post by (intro exI [of _ t]) simp
qed

text \<open>
  C38. The scheduler is well formed in every reachable state: the buckets and their open conditions are those of \<open>sched_ok\<close>, there are as many queues of
  designated work as workers, and the two counters of parked workers are the number of workers that wait or wake up.
\<close>

theorem scheduler_well_formed:
  assumes "gc_reachable sc quiet n s"
  shows "sched_ok (sched s) \<and> workers s = n \<and> parker_worker_count (parker s) = n \<and> parked s = parked_workers (parker s) \<and>
    parked_workers (parker s) = card {i. i < n \<and> (phase s i = Waiting \<or> phase s i = Woken)} \<and> parked_workers (parker s) \<le> n"
proof -
  have I: "inv_count n s" by (rule gc_invD(1) [OF gc_reachable_inv [OF assms]])
  have "parked_set n (phase s) \<subseteq> {..<n}" by (auto simp: parked_set_def)
  then have "card (parked_set n (phase s)) \<le> n" using card_mono [of "{..<n}"] by fastforce
  then show ?thesis using I by (simp add: inv_count_def parked_set_def is_parked_def)
qed

theorem scheduler_well_formed_witness:
  "\<exists>s. gc_reachable 0 True 1 (s :: nat gc_system) \<and> mutators_paused s \<and> sched_ok (sched s) \<and> parked_workers (parker s) \<le> 1"
proof -
  obtain s :: "nat gc_system" where r: "gc_reachable 0 True 1 s" "mutators_paused s" by (rule gc_run_paused) blast
  then show ?thesis using scheduler_well_formed [OF r(1)] by blast
qed

end
