(* ===== verification/Mmapper.thy ===== *)
theory Mmapper
  imports Conversions
begin

text \<open>
  The states of a chunk of address space and their transitions (\<open>util/heap/layout/mmapper.rs\<close>), with the grouping of
  adjacent chunks of \<open>util/rust_util/rev_group.rs\<close>. The functions of \<open>util/memory.rs\<close> that end in a system call are the fields of a
  record, so that the operating system may answer in any way.
\<close>

section \<open>Definitions\<close>

datatype map_state = Unmapped | Quarantined | Mapped | Protected

text \<open>The result \<open>std::io::Result<()>\<close> of a system call: the error number on the left.\<close>

type_synonym io_result = "int + unit"

record memory_calls =
  dzmmap_noreplace :: "address \<Rightarrow> usize \<Rightarrow> io_result"
  dzmmap :: "address \<Rightarrow> usize \<Rightarrow> io_result"
  mmap_noreserve :: "address \<Rightarrow> usize \<Rightarrow> io_result"
  munmap :: "address \<Rightarrow> usize \<Rightarrow> io_result"
  mprotect :: "address \<Rightarrow> usize \<Rightarrow> io_result"
  munprotect :: "address \<Rightarrow> usize \<Rightarrow> io_result"

fun is_ok :: "io_result \<Rightarrow> bool" where
  "is_ok (Inr _) = True"
| "is_ok (Inl _) = False"

definition transition_to_mapped :: "memory_calls \<Rightarrow> address \<Rightarrow> map_state \<Rightarrow> io_result \<times> map_state" where
  "transition_to_mapped os mmap_start state =
     (let res = (case state of
          Unmapped \<Rightarrow> dzmmap_noreplace os mmap_start MMAP_CHUNK_BYTES
        | Protected \<Rightarrow> munprotect os mmap_start MMAP_CHUNK_BYTES
        | Quarantined \<Rightarrow> dzmmap os mmap_start MMAP_CHUNK_BYTES
        | Mapped \<Rightarrow> Inr ())
      in (res, if is_ok res then Mapped else state))"

definition transition_to_unmapped :: "memory_calls \<Rightarrow> address \<Rightarrow> map_state \<Rightarrow> (io_result \<times> map_state) option" where
  "transition_to_unmapped os mmap_start state =
     (case state of
        Mapped \<Rightarrow> (let res = munmap os mmap_start MMAP_CHUNK_BYTES in if is_ok res then Some (res, Unmapped) else None)
      | _ \<Rightarrow> None)"

definition transition_to_quarantined :: "memory_calls \<Rightarrow> address \<Rightarrow> map_state \<Rightarrow> (io_result \<times> map_state) option" where
  "transition_to_quarantined os mmap_start state =
     (case state of
        Unmapped \<Rightarrow> (let res = mmap_noreserve os mmap_start MMAP_CHUNK_BYTES
                     in Some (res, if is_ok res then Quarantined else state))
      | Quarantined \<Rightarrow> Some (Inr (), Quarantined)
      | Mapped \<Rightarrow> Some (Inr (), state)
      | Protected \<Rightarrow> None)"

definition transition_to_protected :: "memory_calls \<Rightarrow> address \<Rightarrow> map_state \<Rightarrow> (io_result \<times> map_state) option" where
  "transition_to_protected os mmap_start state =
     (case state of
        Mapped \<Rightarrow> (if is_ok (mprotect os mmap_start MMAP_CHUNK_BYTES) then Some (Inr (), Protected) else None)
      | Protected \<Rightarrow> Some (Inr (), state)
      | _ \<Rightarrow> None)"

text \<open>
  The iterator over groups of adjacent items with the same key. It finds the whole group first and keeps the item that it
  has peeked for the next group; the group keeps a copy of the underlying iterator from its second item on. The
  function that computes keys is an argument of every step, since the keys are loaded when the iterator advances.
\<close>

record ('t, 'k) revisitable_group_by =
  iter :: "'t list"
  next_group_initial :: "('t \<times> 'k) option"

record ('t, 'k) revisitable_group =
  group_key :: 'k
  group_len :: nat
  group_head :: "'t option"
  group_iter :: "'t list"
  remaining :: nat

definition new_group_by :: "'t list \<Rightarrow> ('t, 'k) revisitable_group_by" where
  "new_group_by items = \<lparr>iter = items, next_group_initial = None\<rparr>"

fun group_loop :: "('t \<Rightarrow> 'k) \<Rightarrow> 'k \<Rightarrow> nat \<Rightarrow> 't list \<Rightarrow> nat \<times> ('t, 'k) revisitable_group_by" where
  "group_loop get_key key group_size [] = (group_size, \<lparr>iter = [], next_group_initial = None\<rparr>)"
| "group_loop get_key key group_size (item # items) =
     (if get_key item = key then group_loop get_key key (group_size + 1) items
      else (group_size, \<lparr>iter = items, next_group_initial = Some (item, get_key item)\<rparr>))"

definition next_group ::
    "('t \<Rightarrow> 'k) \<Rightarrow> ('t, 'k) revisitable_group_by \<Rightarrow> (('t, 'k) revisitable_group \<times> ('t, 'k) revisitable_group_by) option" where
  "next_group get_key self =
     do { (head, key, items) \<leftarrow> (case next_group_initial self of
            Some (head, key) \<Rightarrow> Some (head, key, iter self)
          | None \<Rightarrow> (case iter self of [] \<Rightarrow> None | item # items \<Rightarrow> Some (item, get_key item, items)));
          let (group_size, self') = group_loop get_key key 1 items;
          Some (\<lparr>group_key = key, group_len = group_size, group_head = Some head, group_iter = items, remaining = group_size\<rparr>, self') }"

definition next_item :: "('t, 'k) revisitable_group \<Rightarrow> ('t \<times> ('t, 'k) revisitable_group) option" where
  "next_item g =
     (if remaining g = 0 then None
      else let g = g\<lparr>remaining := remaining g - 1\<rparr>
           in case group_head g of
                Some item \<Rightarrow> Some (item, g\<lparr>group_head := None\<rparr>)
              | None \<Rightarrow> (case group_iter g of [] \<Rightarrow> None | item # items \<Rightarrow> Some (item, g\<lparr>group_iter := items\<rparr>)))"

text \<open>The items of a group, in the order in which a \<open>for\<close> loop gets them.\<close>

function group_items :: "('t, 'k) revisitable_group \<Rightarrow> 't list" where
  "group_items g = (case next_item g of None \<Rightarrow> [] | Some (item, g) \<Rightarrow> item # group_items g)"
  by pat_completeness auto
termination
  by (relation "measure remaining") (auto simp: next_item_def Let_def split: if_splits option.splits list.splits)

declare group_items.simps [simp del]

lemma group_loop_size: "length (iter (snd (group_loop f k n xs))) \<le> length xs"
    "next_group_initial (snd (group_loop f k n xs)) \<noteq> None \<Longrightarrow> length (iter (snd (group_loop f k n xs))) < length xs"
  by (induction f k n xs rule: group_loop.induct) auto

definition items_left :: "('t, 'k) revisitable_group_by \<Rightarrow> nat" where
  "items_left self = length (iter self) + (if next_group_initial self = None then 0 else 1)"

lemma next_group_measure: "next_group f self = Some (g, self') \<Longrightarrow> items_left self' < items_left self"
  using group_loop_size [of f]
  by (auto simp: next_group_def items_left_def Let_def split_def split: option.splits list.splits if_splits
      simp: less_Suc_eq_le Suc_le_eq dest: le_less_trans)

text \<open>
  The loop over the groups of the entries. An item is the index of an entry; its key is the state that the entry has at that time.
\<close>

function quarantine_groups ::
    "memory_calls \<Rightarrow> address \<Rightarrow> (nat, map_state) revisitable_group_by \<Rightarrow> nat \<Rightarrow> map_state list \<Rightarrow>
     (io_result \<times> map_state list) option" where
  "quarantine_groups os mmap_start groups start_index states =
     (case next_group (\<lambda>i. states ! i) groups of
        None \<Rightarrow> Some (Inr (), states)
      | Some (grp, groups) \<Rightarrow>
          (let end_index = start_index + group_len grp;
               start_addr = mmap_start + MMAP_CHUNK_BYTES * of_nat start_index;
               end_addr = mmap_start + MMAP_CHUNK_BYTES * of_nat end_index
           in case group_key grp of
                Unmapped \<Rightarrow>
                  (case mmap_noreserve os start_addr (end_addr - start_addr) of
                     Inl e \<Rightarrow> Some (Inl e, states)
                   | Inr _ \<Rightarrow> quarantine_groups os mmap_start groups end_index
                       (fold (\<lambda>i states. states[i := Quarantined]) (group_items grp) states))
              | Quarantined \<Rightarrow> quarantine_groups os mmap_start groups end_index states
              | Mapped \<Rightarrow> quarantine_groups os mmap_start groups end_index states
              | Protected \<Rightarrow> None))"
  by pat_completeness auto
termination
  by (relation "measure (\<lambda>(_, _, groups, _, _). items_left groups)") (auto dest: next_group_measure)

declare quarantine_groups.simps [simp del]

definition bulk_transition_to_quarantined ::
    "memory_calls \<Rightarrow> address \<Rightarrow> map_state list \<Rightarrow> (io_result \<times> map_state list) option" where
  "bulk_transition_to_quarantined os mmap_start states =
     quarantine_groups os mmap_start (new_group_by [0 ..< length states]) 0 states"

text \<open>The loop that the bulk operation stands for: one chunk after the other, until the first error.\<close>

fun each_to_quarantined ::
    "memory_calls \<Rightarrow> address \<Rightarrow> nat \<Rightarrow> map_state list \<Rightarrow> (io_result \<times> map_state list) option" where
  "each_to_quarantined os mmap_start i [] = Some (Inr (), [])"
| "each_to_quarantined os mmap_start i (state # states) =
     (case transition_to_quarantined os (mmap_start + MMAP_CHUNK_BYTES * of_nat i) state of
        None \<Rightarrow> None
      | Some (Inl e, state') \<Rightarrow> Some (Inl e, state' # states)
      | Some (Inr _, state') \<Rightarrow>
          map_option (\<lambda>(res, states'). (res, state' # states')) (each_to_quarantined os mmap_start (Suc i) states))"

text \<open>The operating system grants the requests that make chunks accessible.\<close>

definition grants_mapping :: "memory_calls \<Rightarrow> bool" where
  "grants_mapping os \<longleftrightarrow> (\<forall>a n. is_ok (dzmmap_noreplace os a n) \<and> is_ok (dzmmap os a n) \<and> is_ok (munprotect os a n))"

text \<open>An operating system that grants every request.\<close>

definition os_grants :: memory_calls where
  "os_grants = \<lparr>dzmmap_noreplace = (\<lambda>_ _. Inr ()), dzmmap = (\<lambda>_ _. Inr ()), mmap_noreserve = (\<lambda>_ _. Inr ()),
     munmap = (\<lambda>_ _. Inr ()), mprotect = (\<lambda>_ _. Inr ()), munprotect = (\<lambda>_ _. Inr ())\<rparr>"

text \<open>All chunks but the fifth of the heap are available: the reservation of the second group fails.\<close>

definition os_partial :: memory_calls where
  "os_partial = os_grants\<lparr>mmap_noreserve := (\<lambda>a n.
     if \<forall>j < unat n div 2 ^ 22. a + MMAP_CHUNK_BYTES * of_nat j \<noteq> 0x20001000000 then Inr () else Inl 17)\<rparr>"

section \<open>The bulk transition\<close>

lemma transition_to_mapped_simps [simp]:
  "is_ok (fst (transition_to_mapped os a s)) \<Longrightarrow> snd (transition_to_mapped os a s) = Mapped"
  "transition_to_mapped os a Mapped = (Inr (), Mapped)"
  by (auto simp: transition_to_mapped_def Let_def)

lemma transition_to_mapped_cases: "snd (transition_to_mapped os a s) = s \<or> snd (transition_to_mapped os a s) = Mapped"
  by (auto simp: transition_to_mapped_def Let_def)

lemma transition_to_mapped_granted: "grants_mapping os \<Longrightarrow> is_ok (fst (transition_to_mapped os a s))"
  by (cases s) (simp_all add: transition_to_mapped_def grants_mapping_def Let_def)

lemma group_items_eq:
  "remaining g = length ys + (if group_head g = None then 0 else 1) \<Longrightarrow> group_iter g = ys @ zs \<Longrightarrow>
    group_items g = (case group_head g of None \<Rightarrow> ys | Some x \<Rightarrow> x # ys)"
proof (induction "remaining g" arbitrary: g ys)
  case 0
  then show ?case by (subst group_items.simps) (auto simp: next_item_def split: if_splits option.splits)
next
  case (Suc n)
  show ?case
  proof (cases "group_head g")
    case (Some x)
    with Suc.hyps(1) [of "g\<lparr>remaining := remaining g - 1, group_head := None\<rparr>" ys] Suc.hyps(2) Suc.prems show ?thesis
      by (subst group_items.simps) (auto simp: next_item_def Let_def)
  next
    case None
    then obtain y ys' where "ys = y # ys'" using Suc.hyps(2) Suc.prems by (cases ys) auto
    with None Suc.hyps(1) [of "g\<lparr>remaining := remaining g - 1, group_iter := ys' @ zs\<rparr>" ys'] Suc.hyps(2) Suc.prems show ?thesis
      by (subst group_items.simps) (auto simp: next_item_def Let_def)
  qed
qed

text \<open>The items that the iterator over groups has still to visit.\<close>

definition pending_items :: "('t, 'k) revisitable_group_by \<Rightarrow> 't list" where
  "pending_items self = (case next_group_initial self of None \<Rightarrow> iter self | Some (item, _) \<Rightarrow> item # iter self)"

definition peeked_ok :: "('t \<Rightarrow> 'k) \<Rightarrow> ('t, 'k) revisitable_group_by \<Rightarrow> bool" where
  "peeked_ok f self \<longleftrightarrow> (\<forall>item key. next_group_initial self = Some (item, key) \<longrightarrow> key = f item)"

lemma group_loop_eq:
  "group_loop f k n xs = (m, self') \<Longrightarrow>
    m = n + length (takeWhile (\<lambda>x. f x = k) xs) \<and> pending_items self' = dropWhile (\<lambda>x. f x = k) xs \<and> peeked_ok f self'"
  by (induction f k n xs rule: group_loop.induct) (auto simp: pending_items_def peeked_ok_def split: if_splits)

lemma next_group_None: "pending_items self = [] \<Longrightarrow> next_group f self = None"
  by (auto simp: next_group_def pending_items_def split: option.splits)

lemma next_group_Some:
  assumes "pending_items self = x # xs" "peeked_ok f self"
  obtains g self' where "next_group f self = Some (g, self')" "group_key g = f x"
    "group_len g = Suc (length (takeWhile (\<lambda>y. f y = f x) xs))" "group_items g = x # takeWhile (\<lambda>y. f y = f x) xs"
    "pending_items self' = dropWhile (\<lambda>y. f y = f x) xs" "peeked_ok f self'"
proof -
  obtain m self' where l: "group_loop f (f x) 1 xs = (m, self')" by fastforce
  define g where "g = \<lparr>group_key = f x, group_len = m, group_head = Some x, group_iter = xs, remaining = m\<rparr>"
  have n: "next_group f self = Some (g, self')"
    using assms l by (auto simp: next_group_def pending_items_def peeked_ok_def g_def split: option.splits)
  have "group_items g = x # takeWhile (\<lambda>y. f y = f x) xs"
    using group_items_eq [of g "takeWhile (\<lambda>y. f y = f x) xs" "dropWhile (\<lambda>y. f y = f x) xs"] group_loop_eq [OF l]
    by (simp add: g_def)
  then show ?thesis using that [OF n] group_loop_eq [OF l] by (simp add: g_def)
qed

text \<open>
  An operating system that reserves a range of chunks exactly when it would reserve each chunk of it, as a mapping at a fixed
  address that must not replace another one does: it fails if any part of the range is taken.
\<close>

definition reserves_by_chunks :: "memory_calls \<Rightarrow> (address \<Rightarrow> bool) \<Rightarrow> int \<Rightarrow> bool" where
  "reserves_by_chunks os available e \<longleftrightarrow>
     (\<forall>a n. 1 \<le> n \<and> n < 2 ^ 42 \<longrightarrow> mmap_noreserve os a (MMAP_CHUNK_BYTES * of_nat n) =
        (if \<forall>j < n. available (a + MMAP_CHUNK_BYTES * of_nat j) then Inr () else Inl e))"

definition same_outcome :: "map_state list \<Rightarrow> (io_result \<times> map_state list) option \<Rightarrow> (io_result \<times> map_state list) option \<Rightarrow> bool" where
  "same_outcome states b c \<longleftrightarrow>
     (case (b, c) of
        (None, None) \<Rightarrow> True
      | (Some (Inr _, s), Some (Inr _, t)) \<Rightarrow> s = t
      | (Some (Inl x, s), Some (Inl y, t)) \<Rightarrow> 
          x = y \<and> length s = length states \<and> length t = length states \<and> (\<forall>i < length states. s ! i = t ! i \<or> s ! i = states ! i)
      | _ \<Rightarrow> False)"

lemma each_length: "each_to_quarantined os s i ks = Some (r, ks') \<Longrightarrow> length ks' = length ks"
  by (induction ks arbitrary: i r ks') (auto split: option.splits sum.splits)

lemma each_skip:
  assumes "k = Quarantined \<or> k = Mapped"
  shows "each_to_quarantined os s i (replicate n k @ ks) = map_option (\<lambda>(r, ks'). (r, replicate n k @ ks')) (each_to_quarantined os s (i + n) ks)"
  using assms
  by (induction n arbitrary: i) (auto simp: transition_to_quarantined_def option.map_comp comp_def split_def option.map_ident)

lemma reserve_chunk:
  assumes "reserves_by_chunks os available e"
  shows "mmap_noreserve os a MMAP_CHUNK_BYTES = (if available a then Inr () else Inl e)"
  using assms [unfolded reserves_by_chunks_def, rule_format, of 1 a] by simp

lemma each_reserve_ok:
  assumes "reserves_by_chunks os available e"
  shows "(\<forall>j < n. available (s + MMAP_CHUNK_BYTES * of_nat (i + j))) \<Longrightarrow>
    each_to_quarantined os s i (replicate n Unmapped @ ks) =
      map_option (\<lambda>(r, ks'). (r, replicate n Quarantined @ ks')) (each_to_quarantined os s (i + n) ks)"
proof (induction n arbitrary: i)
  case 0
  then show ?case by (simp add: option.map_ident split_def)
next
  case (Suc n)
  have "available (s + MMAP_CHUNK_BYTES * of_nat i)" using Suc.prems [rule_format, of 0] by simp
  moreover have "\<forall>j < n. available (s + MMAP_CHUNK_BYTES * of_nat (Suc i + j))" using Suc.prems by (metis Suc_less_eq add_Suc_shift)
  ultimately show ?case using Suc.IH [of "Suc i"]
    by (simp add: transition_to_quarantined_def reserve_chunk [OF assms] option.map_comp comp_def split_def)
qed

lemma each_reserve_fails:
  assumes "reserves_by_chunks os available e"
  shows "\<not> (\<forall>j < n. available (s + MMAP_CHUNK_BYTES * of_nat (i + j))) \<Longrightarrow>
    \<exists>m. m \<le> n \<and> each_to_quarantined os s i (replicate n Unmapped @ ks) =
      Some (Inl e, replicate m Quarantined @ replicate (n - m) Unmapped @ ks)"
proof (induction n arbitrary: i)
  case (Suc n)
  show ?case
  proof (cases "available (s + MMAP_CHUNK_BYTES * of_nat i)")
    case True
    then have "\<not> (\<forall>j < n. available (s + MMAP_CHUNK_BYTES * of_nat (Suc i + j)))"
      using Suc.prems by (metis add.right_neutral add_Suc_shift less_Suc_eq_0_disj)
    from Suc.IH [OF this] obtain m where "m \<le> n"
        "each_to_quarantined os s (Suc i) (replicate n Unmapped @ ks) = Some (Inl e, replicate m Quarantined @ replicate (n - m) Unmapped @ ks)"
      by blast
    then show ?thesis using True
      by (intro exI [of _ "Suc m"]) (simp add: transition_to_quarantined_def reserve_chunk [OF assms])
  next
    case False
    then show ?thesis
      by (intro exI [of _ 0]) (simp add: transition_to_quarantined_def reserve_chunk [OF assms])
  qed
qed simp

lemma upt_step: "[d ..< Suc (d + n)] = d # [Suc d ..< Suc (d + n)]"
  by (simp add: upt_conv_Cons del: upt_Suc)

lemma takeWhile_upt:
  "(\<forall>j < length xs. f (d + j) = xs ! j) \<Longrightarrow>
    takeWhile (\<lambda>j. f j = x) [d ..< d + length xs] = [d ..< d + length (takeWhile (\<lambda>y. y = x) xs)] \<and>
    dropWhile (\<lambda>j. f j = x) [d ..< d + length xs] = [d + length (takeWhile (\<lambda>y. y = x) xs) ..< d + length xs]"
proof (induction xs arbitrary: d)
  case (Cons y xs)
  have "f d = y" using Cons.prems [rule_format, of 0] by simp
  moreover have "\<forall>j < length xs. f (Suc d + j) = xs ! j" using Cons.prems by auto
  ultimately show ?case using Cons.IH [of "Suc d"] by (simp add: upt_step del: upt_Suc)
qed simp

lemma fold_quarantine:
  "fold (\<lambda>i st. st[i := Quarantined]) [length d ..< length d + n] (d @ replicate n k @ rest) = d @ replicate n Quarantined @ rest"
proof (induction n arbitrary: d)
  case (Suc n)
  from Suc.IH [of "d @ [Quarantined]"] show ?case by (simp add: upt_step list_update_append del: upt_Suc)
qed simp

lemma takeWhile_replicate: "takeWhile (\<lambda>y. y = x) xs = replicate (length (takeWhile (\<lambda>y. y = x) xs)) x"
  by (induction xs) auto

text \<open>The next group of the entries from \<open>d\<close> on.\<close>

lemma next_entries:
  assumes "pending_items gs = [length d ..< length d + length (k # ks)]" "peeked_ok ((!) (d @ k # ks)) gs"
  obtains n ks' g gs' where "k # ks = replicate n k @ ks'" "0 < n" "next_group ((!) (d @ k # ks)) gs = Some (g, gs')"
    "group_key g = k" "group_len g = n" "group_items g = [length d ..< length d + n]"
    "pending_items gs' = [length d + n ..< length d + n + length ks']" "peeked_ok ((!) (d @ k # ks)) gs'"
proof -
  let ?f = "(!) (d @ k # ks)" and ?m = "length (takeWhile (\<lambda>y. y = k) ks)"
  have p: "pending_items gs = length d # [Suc (length d) ..< Suc (length d) + length ks]"
    using assms(1) by (simp add: upt_step del: upt_Suc)
  have fd: "?f (length d) = k" by simp
  have "\<forall>j < length ks. ?f (Suc (length d) + j) = ks ! j" by (simp add: nth_append)
  note tw = takeWhile_upt [OF this, of k]
  let ?is = "[Suc (length d) ..< Suc (length d) + length ks]"
  obtain g gs' where "next_group ?f gs = Some (g, gs')" "group_key g = ?f (length d)"
      "group_len g = Suc (length (takeWhile (\<lambda>y. ?f y = ?f (length d)) ?is))"
      "group_items g = length d # takeWhile (\<lambda>y. ?f y = ?f (length d)) ?is"
      "pending_items gs' = dropWhile (\<lambda>y. ?f y = ?f (length d)) ?is" "peeked_ok ?f gs'"
    by (rule next_group_Some [OF p assms(2)])
  note g = this [unfolded fd tw [THEN conjunct1] tw [THEN conjunct2] length_upt add_diff_cancel_left']
  show ?thesis
  proof (rule that [OF _ _ g(1,2)])
    show "k # ks = replicate (Suc ?m) k @ dropWhile (\<lambda>y. y = k) ks"
      using takeWhile_dropWhile_id [of "\<lambda>y. y = k" ks] takeWhile_replicate [of k ks] by simp
    have "length ks = ?m + length (dropWhile (\<lambda>y. y = k) ks)"
      by (metis length_append takeWhile_dropWhile_id)
    then show "pending_items gs' = [length d + Suc ?m ..< length d + Suc ?m + length (dropWhile (\<lambda>y. y = k) ks)]"
      using g(5) by (simp add: add.assoc del: upt_Suc)
  qed (use g in \<open>simp_all add: upt_step del: upt_Suc\<close>)
qed

lemma same_outcome_prefix:
  assumes "same_outcome (p @ rest) b (map_option (\<lambda>(r, ks). (r, p @ ks)) c)" "length q = length p"
    "\<And>r ks. c = Some (r, ks) \<Longrightarrow> length ks = length rest"
  shows "same_outcome (q @ rest) b (map_option (\<lambda>(r, ks). (r, p @ ks)) c)"
proof (cases c)
  case (Some x)
  obtain r ks where x: "x = (r, ks)" by fastforce
  have l: "length ks = length rest" using assms(3) Some x by simp
  show ?thesis
  proof (cases b)
    case b: (Some y)
    obtain r' s where y: "y = (r', s)" by fastforce
    have "s ! i = (p @ ks) ! i \<or> s ! i = (q @ rest) ! i"
      if "\<forall>i < length p + length rest. s ! i = (p @ ks) ! i \<or> s ! i = (p @ rest) ! i" "i < length p + length rest" for i
      using that(1) [rule_format, OF that(2)] assms(2) by (cases "i < length p") (auto simp: nth_append)
    then show ?thesis using assms(1,2) Some x b y l by (auto simp: same_outcome_def split: sum.splits)
  next
    case None
    then show ?thesis using assms(1) Some x by (simp add: same_outcome_def split: sum.splits)
  qed
next
  case None
  then show ?thesis using assms(1) by (auto simp: same_outcome_def split: option.splits sum.splits)
qed

lemma quarantine_groups_each:
  assumes "reserves_by_chunks os available e"
  shows "length d + length ks < 2 ^ 42 \<Longrightarrow> pending_items gs = [length d ..< length d + length ks] \<Longrightarrow> peeked_ok ((!) (d @ ks)) gs \<Longrightarrow>
    same_outcome (d @ ks) (quarantine_groups os s gs (length d) (d @ ks))
      (map_option (\<lambda>(r, ks'). (r, d @ ks')) (each_to_quarantined os s (length d) ks))"
proof (induction "length ks" arbitrary: d ks gs rule: less_induct)
  case less
  show ?case
  proof (cases ks)
    case Nil
    then show ?thesis using less.prems next_group_None [of gs] by (subst quarantine_groups.simps) (simp add: same_outcome_def)
  next
    case (Cons k ks1)
    obtain n ks' g gs' where g: "ks = replicate n k @ ks'" "0 < n" "next_group ((!) (d @ ks)) gs = Some (g, gs')"
        "group_key g = k" "group_len g = n" "group_items g = [length d ..< length d + n]"
        "pending_items gs' = [length d + n ..< length d + n + length ks']" "peeked_ok ((!) (d @ ks)) gs'"
      by (rule next_entries [of gs d k ks1]) (use less.prems Cons in \<open>simp_all\<close>)
    have rec: "same_outcome (d @ replicate n k' @ ks') (quarantine_groups os s gs' (length d + n) (d @ replicate n k' @ ks'))
        (map_option (\<lambda>(r, ks''). (r, d @ replicate n k' @ ks'')) (each_to_quarantined os s (length d + n) ks'))" for k'
    proof -
      have "key = (d @ replicate n k' @ ks') ! item" if "next_group_initial gs' = Some (item, key)" for item key
      proof -
        have "item # iter gs' = [length d + n ..< length d + n + length ks']" using that g(7) by (simp add: pending_items_def)
        then have "item = length d + n" by (metis list.discI list.inject upt_eq_Cons_conv)
        moreover have "key = (d @ replicate n k @ ks') ! item" using g(1,8) that by (simp add: peeked_ok_def)
        ultimately show ?thesis by (simp add: nth_append)
      qed
      then have "peeked_ok ((!) (d @ replicate n k' @ ks')) gs'" by (simp add: peeked_ok_def)
      then show ?thesis using less.hyps [of ks' "d @ replicate n k'" gs'] less.prems(1) g(1,2,7) by simp
    qed
    let ?a = "s + MMAP_CHUNK_BYTES * of_nat (length d)"
    have size: "s + MMAP_CHUNK_BYTES * of_nat (length d + n) - ?a = MMAP_CHUNK_BYTES * of_nat n" by (simp add: algebra_simps)
    have addr: "?a + MMAP_CHUNK_BYTES * of_nat j = s + MMAP_CHUNK_BYTES * of_nat (length d + j)" for j by (simp add: algebra_simps)
    have n: "n < 2 ^ 42" using less.prems(1) g(1) by simp
    have os: "mmap_noreserve os ?a (MMAP_CHUNK_BYTES * of_nat n) =
        (if \<forall>j < n. available (s + MMAP_CHUNK_BYTES * of_nat (length d + j)) then Inr () else Inl e)"
      using assms n g(2) unfolding reserves_by_chunks_def addr [symmetric] by simp
    note unf = quarantine_groups.simps [of os s gs "length d" "d @ ks", unfolded g(3)]
    have skip: ?thesis if k: "k = Quarantined \<or> k = Mapped"
    proof -
      have "quarantine_groups os s gs (length d) (d @ ks) = quarantine_groups os s gs' (length d + n) (d @ ks)"
        using k g(4,5) unfolding unf by (auto simp: Let_def)
      then show ?thesis using rec [of k] each_skip [OF k, of os s "length d" n ks'] g(1)
        by (simp add: option.map_comp comp_def split_def)
    qed
    show ?thesis
    proof (cases k)
      case Unmapped
      show ?thesis
      proof (cases "\<forall>j < n. available (s + MMAP_CHUNK_BYTES * of_nat (length d + j))")
        case True
        have "quarantine_groups os s gs (length d) (d @ ks) = quarantine_groups os s gs' (length d + n) (d @ replicate n Quarantined @ ks')"
          using Unmapped unfolding unf
          by (simp only: g size Let_def prod.case option.case map_state.case os [unfolded if_P [OF True]] sum.case fold_quarantine)
        moreover have "map_option (\<lambda>(r, ks'). (r, d @ ks')) (each_to_quarantined os s (length d) ks) =
            map_option (\<lambda>(r, ks''). (r, (d @ replicate n Quarantined) @ ks'')) (each_to_quarantined os s (length d + n) ks')"
          using each_reserve_ok [OF assms True, of ks'] Unmapped g(1) by (simp add: option.map_comp comp_def split_def)
        moreover have "same_outcome ((d @ replicate n k) @ ks') (quarantine_groups os s gs' (length d + n) (d @ replicate n Quarantined @ ks'))
            (map_option (\<lambda>(r, ks''). (r, (d @ replicate n Quarantined) @ ks'')) (each_to_quarantined os s (length d + n) ks'))"
          by (rule same_outcome_prefix) (use rec [of Quarantined] each_length in \<open>simp_all\<close>)
        ultimately show ?thesis using g(1) by simp
      next
        case False
        have "quarantine_groups os s gs (length d) (d @ ks) = Some (Inl e, d @ ks)"
          using Unmapped unfolding unf
          by (simp only: g size Let_def prod.case option.case map_state.case os [unfolded if_not_P [OF False]] sum.case)
        moreover obtain m where "m \<le> n"
            "each_to_quarantined os s (length d) ks = Some (Inl e, replicate m Quarantined @ replicate (n - m) Unmapped @ ks')"
          using each_reserve_fails [OF assms False, of ks'] Unmapped g(1) by auto
        ultimately show ?thesis using g(1) by (simp add: same_outcome_def)
      qed
    next
      case Protected
      then obtain n' where "n = Suc n'" using g(2) by (cases n) auto
      then have "each_to_quarantined os s (length d) ks = None" using Protected g(1) by (simp add: transition_to_quarantined_def)
      then show ?thesis using Protected g(4) unfolding unf by (simp add: same_outcome_def Let_def)
    qed (use skip in \<open>simp_all\<close>)
  qed
qed

lemma os_grants_simps [simp]:
  "dzmmap_noreplace os_grants a n = Inr ()" "dzmmap os_grants a n = Inr ()" "mmap_noreserve os_grants a n = Inr ()"
  "munmap os_grants a n = Inr ()" "mprotect os_grants a n = Inr ()" "munprotect os_grants a n = Inr ()"
  by (simp_all add: os_grants_def)

lemma os_grants_mapping: "grants_mapping os_grants"
  by (simp add: grants_mapping_def)

text \<open>
  C39. The documentation of \<open>bulk_transition_to_quarantined\<close> says that it is equivalent to \<open>transition_to_quarantined\<close> on each chunk. Let the operating
  system reserve a range exactly when all chunks of the range are available, and let any set of addresses be available. Then the two
  succeed, fail with the same error and panic in the same cases. After success they leave the same states; after an error the
  bulk operation may have left chunks alone that the single steps have quarantined, and no other chunk differs.
\<close>

theorem bulk_quarantine_each:
  assumes "reserves_by_chunks os available e" "length states < 2 ^ 42"
  shows "same_outcome states (bulk_transition_to_quarantined os mmap_start states) (each_to_quarantined os mmap_start 0 states)"
proof -
  have "pending_items (new_group_by [0 ..< length states]) = [0 ..< length states]"
      "peeked_ok f (new_group_by [0 ..< length states])" for f :: "nat \<Rightarrow> map_state"
    by (simp_all add: pending_items_def peeked_ok_def new_group_by_def)
  from quarantine_groups_each [OF assms(1), of "[]" states "new_group_by [0 ..< length states]" mmap_start] this assms(2) show ?thesis
    unfolding bulk_transition_to_quarantined_def by (simp add: option.map_ident split_def)
qed

lemma os_partial_reserves: "reserves_by_chunks os_partial (\<lambda>a. a \<noteq> 0x20001000000) 17"
  unfolding reserves_by_chunks_def
proof (intro allI impI)
  fix a and n :: nat
  assume "1 \<le> n \<and> n < 2 ^ 42"
  then have "unat (MMAP_CHUNK_BYTES * of_nat n) = 2 ^ 22 * n"
    by (simp add: MMAP_CHUNK_BYTES_def push_bit_eq_mult unat_word_ariths unsigned_of_nat take_bit_nat_eq_self)
  then show "mmap_noreserve os_partial a (MMAP_CHUNK_BYTES * of_nat n) =
      (if \<forall>j < n. a + MMAP_CHUNK_BYTES * of_nat j \<noteq> 0x20001000000 then Inr () else Inl 17)"
    by (simp add: os_partial_def)
qed

theorem bulk_quarantine_each_witness:
  "same_outcome [Unmapped, Unmapped, Mapped, Unmapped, Unmapped]
     (bulk_transition_to_quarantined os_partial 0x20000000000 [Unmapped, Unmapped, Mapped, Unmapped, Unmapped])
     (Some (Inl 17, [Quarantined, Quarantined, Mapped, Quarantined, Unmapped]))"
proof -
  have chunk: "MMAP_CHUNK_BYTES = 0x400000" by (simp add: MMAP_CHUNK_BYTES_def)
  have "each_to_quarantined os_partial 0x20000000000 0 [Unmapped, Unmapped, Mapped, Unmapped, Unmapped] =
      Some (Inl 17, [Quarantined, Quarantined, Mapped, Quarantined, Unmapped])"
    by (simp add: transition_to_quarantined_def Let_def chunk reserve_chunk [OF os_partial_reserves, unfolded chunk])
  with bulk_quarantine_each [OF os_partial_reserves, of "[Unmapped, Unmapped, Mapped, Unmapped, Unmapped]" "0x20000000000"]
  show ?thesis by simp
qed

end
