(* ===== verification/FragmentedMapper.thy ===== *)
theory FragmentedMapper
  imports Mmapper
begin

text \<open>
  The mapper of address space of a 64-bit build (\<open>util/heap/layout/fragmented_mapper.rs\<close>): a hash table with linear probing from
  slabs of address space to arrays of the states of their chunks. A reference to a slab is its index in the table.
  The mutex is not reentrant; \<open>held\<close> says that the calling thread holds it, and then an attempt to lock it never returns.
\<close>

section \<open>Definitions\<close>

definition MMAP_NUM_CHUNKS :: nat where "MMAP_NUM_CHUNKS = 2 ^ (33 - LOG_MMAP_CHUNK_BYTES)"
definition LOG_MAPPABLE_BYTES :: nat where "LOG_MAPPABLE_BYTES = 40"
definition LOG_MMAP_CHUNKS_PER_SLAB :: nat where "LOG_MMAP_CHUNKS_PER_SLAB = 8"
definition LOG_MMAP_SLAB_BYTES :: nat where "LOG_MMAP_SLAB_BYTES = LOG_MMAP_CHUNKS_PER_SLAB + LOG_MMAP_CHUNK_BYTES"
definition MMAP_SLAB_EXTENT :: usize where "MMAP_SLAB_EXTENT = push_bit LOG_MMAP_SLAB_BYTES 1"
definition MMAP_SLAB_MASK :: usize where "MMAP_SLAB_MASK = push_bit LOG_MMAP_SLAB_BYTES 1 - 1"
definition LOG_MAX_SLABS :: nat where
  "LOG_MAX_SLABS = LOG_MAPPABLE_BYTES - LOG_MMAP_CHUNK_BYTES - LOG_MMAP_CHUNKS_PER_SLAB"
definition MAX_SLABS :: nat where "MAX_SLABS = 2 ^ LOG_MAX_SLABS"
definition LOG_SLAB_TABLE_SIZE :: nat where "LOG_SLAB_TABLE_SIZE = 1 + LOG_MAX_SLABS"
definition HASH_MASK :: usize where "HASH_MASK = push_bit LOG_SLAB_TABLE_SIZE 1 - 1"
definition SLAB_TABLE_SIZE :: nat where "SLAB_TABLE_SIZE = 2 ^ LOG_SLAB_TABLE_SIZE"
definition SLAB_SENTINEL :: address where "SLAB_SENTINEL = - 1"

lemma mapper_constants [simp]:
  "MMAP_NUM_CHUNKS = 2048" "LOG_MMAP_SLAB_BYTES = 30" "MMAP_SLAB_EXTENT = 2 ^ 30" "MMAP_SLAB_MASK = mask 30"
  "MAX_SLABS = 1024" "LOG_SLAB_TABLE_SIZE = 11" "HASH_MASK = mask 11" "SLAB_TABLE_SIZE = 2048" "LOG_MMAP_CHUNK_BYTES = 22"
  by (simp_all add: MMAP_NUM_CHUNKS_def LOG_MAPPABLE_BYTES_def LOG_MMAP_CHUNKS_PER_SLAB_def LOG_MMAP_SLAB_BYTES_def
      MMAP_SLAB_EXTENT_def MMAP_SLAB_MASK_def LOG_MAX_SLABS_def MAX_SLABS_def LOG_SLAB_TABLE_SIZE_def HASH_MASK_def
      SLAB_TABLE_SIZE_def LOG_MMAP_CHUNK_BYTES_def LOG_BYTES_IN_CHUNK_def mask_eq_exp_minus_1 push_bit_eq_mult)

type_synonym slab = "map_state list"

record fragmented_mapper =
  free_slab_index :: nat
  free_slabs :: "slab option list"
  slab_table :: "slab option list"
  slab_map :: "address list"

definition new_slab :: slab where
  "new_slab = replicate MMAP_NUM_CHUNKS Unmapped"

definition fm_new :: fragmented_mapper where
  "fm_new = \<lparr>free_slab_index = 0, free_slabs = replicate MAX_SLABS (Some new_slab),
     slab_table = replicate SLAB_TABLE_SIZE None, slab_map = replicate SLAB_TABLE_SIZE SLAB_SENTINEL\<rparr>"

definition slab_align_down :: "address \<Rightarrow> address" where
  "slab_align_down addr = addr AND NOT MMAP_SLAB_MASK"

definition slab_limit :: "address \<Rightarrow> address" where
  "slab_limit addr = slab_align_down addr + MMAP_SLAB_EXTENT"

definition fm_chunk_index :: "address \<Rightarrow> address \<Rightarrow> nat" where
  "fm_chunk_index slab addr = unat (drop_bit LOG_MMAP_CHUNK_BYTES (addr - slab))"

definition fm_chunk_index_to_address :: "address \<Rightarrow> nat \<Rightarrow> address" where
  "fm_chunk_index_to_address base chunk = base + push_bit LOG_MMAP_CHUNK_BYTES (of_nat chunk)"

function hash_loop :: "usize \<Rightarrow> usize \<Rightarrow> usize" where
  "hash_loop initial hash =
     (if initial \<noteq> 0 then hash_loop (drop_bit LOG_SLAB_TABLE_SIZE initial) (hash XOR (initial AND HASH_MASK)) else hash)"
  by pat_completeness auto
termination
proof (relation "measure (\<lambda>(initial, _). unat initial)")
  fix initial hash :: usize
  assume "initial \<noteq> 0"
  then have "0 < unat initial" by (simp add: unat_gt_0)
  then have "unat initial div 2 ^ LOG_SLAB_TABLE_SIZE < unat initial"
    by (intro div_less_dividend) auto
  then show "((drop_bit LOG_SLAB_TABLE_SIZE initial, hash XOR (initial AND HASH_MASK)), (initial, hash))
      \<in> measure (\<lambda>(initial, _). unat initial)"
    by (simp add: unat_drop)
qed simp

declare hash_loop.simps [simp del]

definition fm_hash :: "address \<Rightarrow> usize" where
  "fm_hash addr = hash_loop (drop_bit LOG_MMAP_SLAB_BYTES (addr AND NOT MMAP_SLAB_MASK)) 0"

definition vec_get :: "'a list \<Rightarrow> nat \<Rightarrow> 'a option" where
  "vec_get xs i = (if i < length xs then Some (xs ! i) else None)"

definition slab_table_for :: "nat \<Rightarrow> fragmented_mapper \<Rightarrow> nat option option" where
  "slab_table_for index m = map_option (\<lambda>s. if s = None then None else Some index) (vec_get (slab_table m) index)"

partial_function (option) get_slab_loop :: "address \<Rightarrow> nat \<Rightarrow> fragmented_mapper \<Rightarrow> nat option option" where
  "get_slab_loop base index m =
     do { entry \<leftarrow> vec_get (slab_map m) index;
          if base = entry then slab_table_for index m
          else if entry = SLAB_SENTINEL then Some None
          else get_slab_loop base ((index + 1) mod SLAB_TABLE_SIZE) m }"

declare get_slab_loop.simps [code]

definition get_slab_table :: "address \<Rightarrow> fragmented_mapper \<Rightarrow> nat option option" where
  "get_slab_table addr m =
     (if addr = SLAB_SENTINEL then Some None
      else let base = addr AND NOT MMAP_SLAB_MASK in get_slab_loop base (unat (fm_hash base)) m)"

definition commit_free_slab :: "nat \<Rightarrow> fragmented_mapper \<Rightarrow> fragmented_mapper option" where
  "commit_free_slab index m =
     do { rust_assert (free_slab_index m < MAX_SLABS);
          old \<leftarrow> vec_get (slab_table m) index;
          fresh \<leftarrow> vec_get (free_slabs m) (free_slab_index m);
          Some (m\<lparr>slab_table := (slab_table m)[index := fresh],
                  free_slabs := (free_slabs m)[free_slab_index m := old],
                  free_slab_index := free_slab_index m + 1\<rparr>) }"

partial_function (option) get_or_allocate_loop ::
    "bool \<Rightarrow> bool \<Rightarrow> address \<Rightarrow> nat \<Rightarrow> nat \<Rightarrow> fragmented_mapper \<Rightarrow> (nat option \<times> fragmented_mapper) option" where
  "get_or_allocate_loop held allocate base hash index m =
     do { entry \<leftarrow> vec_get (slab_map m) index;
          if base = entry then map_option (\<lambda>i. (i, m)) (slab_table_for index m)
          else do {
            rust_assert (\<not> held);
            if entry = SLAB_SENTINEL then
              (if \<not> allocate then Some (None, m)
               else do { m \<leftarrow> commit_free_slab index m;
                         let m = m\<lparr>slab_map := (slab_map m)[index := base]\<rparr>;
                         map_option (\<lambda>i. (i, m)) (slab_table_for index m) })
            else do { let index = (index + 1) mod SLAB_TABLE_SIZE;
                      rust_assert (index \<noteq> hash);
                      get_or_allocate_loop held allocate base hash index m } } }"

declare get_or_allocate_loop.simps [code]

definition get_or_optionally_allocate_slab_table ::
    "bool \<Rightarrow> address \<Rightarrow> bool \<Rightarrow> fragmented_mapper \<Rightarrow> (nat option \<times> fragmented_mapper) option" where
  "get_or_optionally_allocate_slab_table held addr allocate m =
     (let base = addr AND NOT MMAP_SLAB_MASK; hash = unat (fm_hash base)
      in get_or_allocate_loop held allocate base hash hash m)"

definition get_or_allocate_slab_table :: "bool \<Rightarrow> address \<Rightarrow> fragmented_mapper \<Rightarrow> (nat \<times> fragmented_mapper) option" where
  "get_or_allocate_slab_table held addr m =
     do { (i, m) \<leftarrow> get_or_optionally_allocate_slab_table held addr True m; i \<leftarrow> i; Some (i, m) }"

text \<open>The states of the chunks of a slab, behind the reference to the slab.\<close>

definition slab_at :: "nat \<Rightarrow> fragmented_mapper \<Rightarrow> slab" where
  "slab_at i m = the (slab_table m ! i)"

definition slab_put :: "nat \<Rightarrow> nat \<Rightarrow> map_state \<Rightarrow> fragmented_mapper \<Rightarrow> fragmented_mapper" where
  "slab_put i chunk s m = m\<lparr>slab_table := (slab_table m)[i := Some ((slab_at i m)[chunk := s])]\<rparr>"

text \<open>The part of a slab that the loops of the operations cover in one round: up to the end of the slab or of the range.\<close>

definition slab_high :: "address \<Rightarrow> address \<Rightarrow> address" where
  "slab_high start limit = (if slab_limit start < limit \<and> slab_limit start \<noteq> 0 then slab_limit start else limit)"

lemma slab_align_down_raw: "slab_align_down a = raw_align_down a (2 ^ 30)"
  by (simp add: slab_align_down_def raw_align_down_def mask_eq_exp_minus_1)

lemma uint_slab_align_down: "uint (slab_align_down a) = uint a - uint a mod 2 ^ 30"
  by (simp only: slab_align_down_raw uint_align_down)

lemma uint_slab_limit:
  assumes "slab_limit a \<noteq> 0"
  shows "uint (slab_limit a) = uint a - uint a mod 2 ^ 30 + 2 ^ 30"
proof -
  let ?b = "uint a - uint a mod 2 ^ 30"
  have b: "?b = uint a div 2 ^ 30 * 2 ^ 30" by (simp add: minus_mod_eq_div_mult)
  have q: "uint a div 2 ^ 30 < 2 ^ 34" using uint_lt2p [of a] by simp
  have eq: "uint (slab_limit a) = (?b + 2 ^ 30) mod 2 ^ 64"
    unfolding slab_limit_def by (simp add: uint_word_ariths uint_slab_align_down)
  show ?thesis
  proof (cases "uint a div 2 ^ 30 = 2 ^ 34 - 1")
    case True
    then have "uint (slab_limit a) = 0" unfolding eq b by simp
    then show ?thesis using assms by (simp add: uint_0_iff)
  next
    case False
    moreover have "0 \<le> uint a div 2 ^ 30" by (simp add: pos_imp_zdiv_nonneg_iff)
    ultimately have "?b + 2 ^ 30 < 2 ^ 64" "0 \<le> ?b" using q b by auto
    then show ?thesis unfolding eq by simp
  qed
qed

lemma slab_high_bounds:
  assumes "start < limit"
  shows "start < slab_high start limit" "slab_high start limit \<le> limit"
proof -
  have "slab_limit start \<noteq> 0 \<Longrightarrow> start < slab_limit start"
    using pos_mod_bound [of "2 ^ 30" "uint start"] by (simp add: word_less_alt uint_slab_limit)
  then show "start < slab_high start limit" "slab_high start limit \<le> limit" using assms by (auto simp: slab_high_def)
qed

lemma slab_high_measure: "start < limit \<Longrightarrow> unat limit - unat (slab_high start limit) < unat limit - unat start"
  using slab_high_bounds [of start limit] by (auto simp: word_less_nat_alt)

text \<open>The loop over the slabs of a range, with the body of the operation, which may return early with an error.\<close>

function slab_loop ::
    "bool \<Rightarrow> (address \<Rightarrow> nat \<Rightarrow> nat \<Rightarrow> nat \<Rightarrow> fragmented_mapper \<Rightarrow> (io_result \<times> fragmented_mapper) option) \<Rightarrow>
     address \<Rightarrow> address \<Rightarrow> fragmented_mapper \<Rightarrow> (io_result \<times> fragmented_mapper) option" where
  "slab_loop held body start limit m =
     (if start < limit then
        (let high = slab_high start limit;
             slab = slab_align_down start;
             start_chunk = fm_chunk_index slab start;
             end_chunk = fm_chunk_index slab (mmap_chunk_align_up high)
         in do { (i, m) \<leftarrow> get_or_allocate_slab_table held start m;
                 (r, m) \<leftarrow> body slab start_chunk end_chunk i m;
                 if is_ok r then slab_loop held body high limit m else Some (r, m) })
      else Some (Inr (), m))"
  by pat_completeness auto
termination
  by (relation "measure (\<lambda>(_, _, start, limit, _). unat limit - unat start)")
     (simp_all only: wf_measure in_measure split_conv slab_high_measure)

declare slab_loop.simps [simp del]

text \<open>A \<open>for\<close> loop over the entries of a slab from \<open>start_chunk\<close> to \<open>end_chunk\<close>, as \<open>iter().take(end_chunk).skip(start_chunk)\<close> has them.\<close>

definition slab_chunks :: "nat \<Rightarrow> nat \<Rightarrow> nat list" where
  "slab_chunks start_chunk end_chunk = [start_chunk ..< min end_chunk MMAP_NUM_CHUNKS]"

fun chunk_loop ::
    "(nat \<Rightarrow> fragmented_mapper \<Rightarrow> (io_result \<times> fragmented_mapper) option) \<Rightarrow> nat list \<Rightarrow> fragmented_mapper \<Rightarrow>
     (io_result \<times> fragmented_mapper) option" where
  "chunk_loop f [] m = Some (Inr (), m)"
| "chunk_loop f (chunk # chunks) m = do { (r, m) \<leftarrow> f chunk m; if is_ok r then chunk_loop f chunks m else Some (r, m) }"

definition fm_mark_as_mapped :: "address \<Rightarrow> usize \<Rightarrow> fragmented_mapper \<Rightarrow> fragmented_mapper option" where
  "fm_mark_as_mapped start bytes m =
     map_option snd (slab_loop False
       (\<lambda>_ start_chunk end_chunk i. chunk_loop (\<lambda>chunk m. Some (Inr (), slab_put i chunk Mapped m)) (slab_chunks start_chunk end_chunk))
       start (start + bytes) m)"

definition fm_ensure_mapped ::
    "memory_calls \<Rightarrow> address \<Rightarrow> usize \<Rightarrow> fragmented_mapper \<Rightarrow> (io_result \<times> fragmented_mapper) option" where
  "fm_ensure_mapped os start pages m =
     slab_loop False
       (\<lambda>base start_chunk end_chunk i. chunk_loop
          (\<lambda>chunk m. if slab_at i m ! chunk = Mapped then Some (Inr (), m)
             else (let mmap_start = fm_chunk_index_to_address base chunk;
                       (r, s) = transition_to_mapped os mmap_start (slab_at i m ! chunk)
                   in Some (r, slab_put i chunk s m)))
          (slab_chunks start_chunk end_chunk))
       start (start + pages_to_bytes pages) m"

definition fm_ensure_unmapped ::
    "memory_calls \<Rightarrow> address \<Rightarrow> usize \<Rightarrow> fragmented_mapper \<Rightarrow> (io_result \<times> fragmented_mapper) option" where
  "fm_ensure_unmapped os start pages m =
     slab_loop False
       (\<lambda>base start_chunk end_chunk i. chunk_loop
          (\<lambda>chunk m. do { (r, s) \<leftarrow> transition_to_unmapped os (fm_chunk_index_to_address base chunk) (slab_at i m ! chunk);
                          Some (r, slab_put i chunk s m) })
          (slab_chunks start_chunk end_chunk))
       start (start + pages_to_bytes pages) m"

text \<open>\<open>protect\<close> takes the mutex before its loop and keeps it.\<close>

definition fm_protect :: "memory_calls \<Rightarrow> address \<Rightarrow> usize \<Rightarrow> fragmented_mapper \<Rightarrow> fragmented_mapper option" where
  "fm_protect os start pages m =
     map_option snd (slab_loop True
       (\<lambda>base start_chunk end_chunk i. chunk_loop
          (\<lambda>chunk m. do { (r, s) \<leftarrow> transition_to_protected os (fm_chunk_index_to_address base chunk) (slab_at i m ! chunk);
                          rust_assert (is_ok r);
                          Some (r, slab_put i chunk s m) })
          (slab_chunks start_chunk end_chunk))
       start (start + pages_to_bytes pages) m)"

definition fm_is_mapped_address :: "address \<Rightarrow> fragmented_mapper \<Rightarrow> bool option" where
  "fm_is_mapped_address addr m =
     do { mapped \<leftarrow> get_slab_table addr m;
          case mapped of
            Some i \<Rightarrow> map_option (\<lambda>s. s = Mapped) (vec_get (slab_at i m) (fm_chunk_index (slab_align_down addr) addr))
          | None \<Rightarrow> Some False }"

text \<open>\<open>quarantine_address_range\<close> collects the entries of all slabs of the range first and then changes them in bulk.\<close>

function quarantine_slices ::
    "address \<Rightarrow> address \<Rightarrow> fragmented_mapper \<Rightarrow> ((nat \<times> nat) list \<times> fragmented_mapper) option" where
  "quarantine_slices start limit m =
     (if start < limit then
        (let high = slab_high start limit;
             slab = slab_align_down start;
             start_chunk = fm_chunk_index slab start;
             end_chunk = fm_chunk_index slab (mmap_chunk_align_up high)
         in do { (i, m) \<leftarrow> get_or_allocate_slab_table False start m;
                 rust_assert (start_chunk \<le> end_chunk \<and> end_chunk \<le> length (slab_at i m));
                 (es, m) \<leftarrow> quarantine_slices high limit m;
                 Some (map (Pair i) [start_chunk ..< end_chunk] @ es, m) })
      else Some ([], m))"
  by pat_completeness auto
termination
  by (relation "measure (\<lambda>(start, limit, _). unat limit - unat start)")
     (simp_all only: wf_measure in_measure split_conv slab_high_measure)

declare quarantine_slices.simps [simp del]

definition fm_quarantine_address_range ::
    "memory_calls \<Rightarrow> address \<Rightarrow> usize \<Rightarrow> fragmented_mapper \<Rightarrow> (io_result \<times> fragmented_mapper) option" where
  "fm_quarantine_address_range os start pages m =
     do { let limit = start + pages_to_bytes pages;
          let mmap_start = mmap_chunk_align_down start;
          (es, m) \<leftarrow> quarantine_slices start limit m;
          (r, states) \<leftarrow> bulk_transition_to_quarantined os mmap_start (map (\<lambda>(i, chunk). slab_at i m ! chunk) es);
          Some (r, fold (\<lambda>((i, chunk), s). slab_put i chunk s) (zip es states) m) }"

end
