(* ===== verification/FragmentedMapper_Correct.thy ===== *)
theory FragmentedMapper_Correct
  imports FragmentedMapper
begin

text \<open>
  Correctness of the mapper: the hash table finds the slab of an address, \<open>chunk_state\<close> is the abstract state, a function from
  addresses to the states of their chunks, and the operations change it as they should.
\<close>

section \<open>Invariant and abstraction\<close>

text \<open>The slots in the order in which the loops visit them.\<close>

definition probe :: "address \<Rightarrow> nat \<Rightarrow> nat" where
  "probe b k = (unat (fm_hash b) + k) mod SLAB_TABLE_SIZE"

definition slot_ok :: "fragmented_mapper \<Rightarrow> nat \<Rightarrow> bool" where
  "slot_ok m i \<longleftrightarrow>
     (let b = slab_map m ! i
      in if b = SLAB_SENTINEL then slab_table m ! i = None
         else (\<exists>sl. slab_table m ! i = Some sl \<and> length sl = MMAP_NUM_CHUNKS) \<and> slab_align_down b = b \<and>
           (\<exists>k < SLAB_TABLE_SIZE. i = probe b k \<and> (\<forall>k' < k. slab_map m ! probe b k' \<noteq> SLAB_SENTINEL \<and> slab_map m ! probe b k' \<noteq> b)))"

text \<open>The slabs that have an entry.\<close>

definition slab_bases :: "fragmented_mapper \<Rightarrow> address set" where
  "slab_bases m = set (slab_map m) - {SLAB_SENTINEL}"

definition fm_inv :: "fragmented_mapper \<Rightarrow> bool" where
  "fm_inv m \<longleftrightarrow>
     length (slab_map m) = SLAB_TABLE_SIZE \<and> length (slab_table m) = SLAB_TABLE_SIZE \<and> length (free_slabs m) = MAX_SLABS \<and>
     free_slab_index m \<le> MAX_SLABS \<and> card {i. i < SLAB_TABLE_SIZE \<and> slab_map m ! i \<noteq> SLAB_SENTINEL} = free_slab_index m \<and>
     (\<forall>j. free_slab_index m \<le> j \<and> j < MAX_SLABS \<longrightarrow> free_slabs m ! j = Some new_slab) \<and>
     (\<forall>i < SLAB_TABLE_SIZE. slot_ok m i)"

definition slab_index :: "fragmented_mapper \<Rightarrow> address \<Rightarrow> nat option" where
  "slab_index m b = (case get_slab_loop b (unat (fm_hash b)) m of Some i \<Rightarrow> i | None \<Rightarrow> None)"

text \<open>The state of the chunk of an address.\<close>

definition chunk_state :: "fragmented_mapper \<Rightarrow> address \<Rightarrow> map_state" where
  "chunk_state m a =
     (case slab_index m (slab_align_down a) of
        None \<Rightarrow> Unmapped
      | Some i \<Rightarrow> slab_at i m ! fm_chunk_index (slab_align_down a) a)"

section \<open>Hashing and probing\<close>

lemma hash_loop_bound: "take_bit 11 h = h \<Longrightarrow> take_bit 11 (hash_loop w h) = hash_loop w h"
proof (induction w h rule: hash_loop.induct)
  case (1 w h)
  show ?case
  proof (cases "w = 0")
    case True
    then show ?thesis using 1 by (subst (1 2) hash_loop.simps) simp
  next
    case False
    have "take_bit 11 (h XOR (w AND HASH_MASK)) = h XOR (w AND HASH_MASK)"
      using 1(2) by (simp add: take_bit_xor flip: take_bit_eq_mask)
    from 1(1) [OF False this] show ?thesis
      using False by (subst (1 2) hash_loop.simps) simp
  qed
qed

lemma fm_hash_less: "unat (fm_hash b) < 2048"
proof -
  have "take_bit 11 (fm_hash b) = fm_hash b" unfolding fm_hash_def by (rule hash_loop_bound) simp
  then have "fm_hash b = take_bit 11 (fm_hash b)" by simp
  then have "uint (fm_hash b) < 2 ^ 11" by (rule ssubst) (simp only: uint_take, simp)
  then have "int (unat (fm_hash b)) < int 2048" by simp
  then show ?thesis by (simp only: of_nat_less_iff)
qed

lemma probe_simps [simp]: "probe b k < 2048" "probe b 0 = unat (fm_hash b)" "(probe b k + 1) mod 2048 = probe b (Suc k)"
    "Suc (probe b k) mod 2048 = probe b (Suc k)"
  using fm_hash_less [of b] by (simp_all add: probe_def mod_Suc_eq)

lemma mod_table: "x < 4096 \<Longrightarrow> x mod 2048 = (if x < 2048 then x else x - (2048 :: nat))"
  using le_mod_geq [of 2048 x] by (simp add: not_less)

lemma probe_home: "k < 2048 \<Longrightarrow> probe b k = unat (fm_hash b) \<longleftrightarrow> k = 0"
  using fm_hash_less [of b] by (auto simp: probe_def mod_table split: if_splits)

lemma probe_inj: "k < 2048 \<Longrightarrow> k' < 2048 \<Longrightarrow> probe b k = probe b k' \<longleftrightarrow> k = k'"
  using fm_hash_less [of b] by (auto simp: probe_def mod_table split: if_splits)

lemma probe_surj:
  assumes "i < 2048"
  shows "\<exists>k < 2048. probe b k = i"
proof (cases "unat (fm_hash b) \<le> i")
  case True
  then show ?thesis using assms by (intro exI [of _ "i - unat (fm_hash b)"]) (simp add: probe_def)
next
  case False
  then show ?thesis using assms fm_hash_less [of b]
    by (intro exI [of _ "i + 2048 - unat (fm_hash b)"]) (simp add: probe_def)
qed

text \<open>The slot at which a search for a slab ends.\<close>

definition first_slot :: "fragmented_mapper \<Rightarrow> address \<Rightarrow> nat \<Rightarrow> bool" where
  "first_slot m b k \<longleftrightarrow> k < 2048 \<and> slab_map m ! probe b k \<in> {b, SLAB_SENTINEL} \<and>
     (\<forall>k' < k. slab_map m ! probe b k' \<notin> {b, SLAB_SENTINEL})"

lemma fm_inv_lengths:
  assumes "fm_inv m"
  shows "length (slab_map m) = 2048" "length (slab_table m) = 2048" "length (free_slabs m) = 1024" "free_slab_index m \<le> 1024"
  using assms by (auto simp: fm_inv_def)

lemma fm_inv_slot: "fm_inv m \<Longrightarrow> i < 2048 \<Longrightarrow> slot_ok m i"
  by (simp add: fm_inv_def)

lemma first_slot_exists:
  assumes "fm_inv m"
  obtains k where "first_slot m b k"
proof -
  have "\<exists>i < 2048. slab_map m ! i = SLAB_SENTINEL"
  proof (rule ccontr)
    assume "\<not> ?thesis"
    then have "{i. i < 2048 \<and> slab_map m ! i \<noteq> SLAB_SENTINEL} = {..<2048}" by auto
    then show False using assms by (auto simp: fm_inv_def)
  qed
  then obtain k where k: "k < 2048 \<and> slab_map m ! probe b k \<in> {b, SLAB_SENTINEL}" using probe_surj [of _ b] by auto
  define l where "l = (LEAST k. k < 2048 \<and> slab_map m ! probe b k \<in> {b, SLAB_SENTINEL})"
  have "l < 2048 \<and> slab_map m ! probe b l \<in> {b, SLAB_SENTINEL}"
    unfolding l_def by (rule LeastI) (rule k)
  moreover have "k' < l \<Longrightarrow> slab_map m ! probe b k' \<notin> {b, SLAB_SENTINEL}" for k'
    using not_less_Least [of k' "\<lambda>k. k < 2048 \<and> slab_map m ! probe b k \<in> {b, SLAB_SENTINEL}"] calculation
    unfolding l_def by auto
  ultimately have "first_slot m b l" unfolding first_slot_def by blast
  then show ?thesis by (rule that)
qed

lemma slab_table_for_eq:
  "fm_inv m \<Longrightarrow> i < 2048 \<Longrightarrow> slab_map m ! i \<noteq> SLAB_SENTINEL \<Longrightarrow> slab_table_for i m = Some (Some i)"
  using fm_inv_slot [of m i] fm_inv_lengths(2) [of m] by (auto simp: slab_table_for_def vec_get_def slot_ok_def Let_def)

lemma get_slab_loop_first:
  assumes "fm_inv m" "first_slot m b k" "b \<noteq> SLAB_SENTINEL" "j \<le> k"
  shows "get_slab_loop b (probe b (k - j)) m = Some (if slab_map m ! probe b k = b then Some (probe b k) else None)"
  using assms(4)
proof (induction j)
  case 0
  show ?case
    using assms(2,3) slab_table_for_eq [OF assms(1), of "probe b k"]
    by (subst get_slab_loop.simps) (auto simp: vec_get_def fm_inv_lengths [OF assms(1)] first_slot_def)
next
  case (Suc j)
  have "slab_map m ! probe b (k - Suc j) \<notin> {b, SLAB_SENTINEL}" using assms(2) Suc.prems by (auto simp: first_slot_def)
  moreover have "Suc (k - Suc j) = k - j" using Suc.prems by simp
  ultimately show ?case
    using Suc by (subst get_slab_loop.simps) (auto simp: vec_get_def fm_inv_lengths [OF assms(1)] simp del: probe_simps(2))
qed

lemma get_slab_loop_index:
  assumes "fm_inv m" "b \<noteq> SLAB_SENTINEL"
  shows "get_slab_loop b (unat (fm_hash b)) m = Some (slab_index m b)"
proof -
  obtain k where "first_slot m b k" by (rule first_slot_exists [OF assms(1)])
  from get_slab_loop_first [OF assms(1) this assms(2), of k] show ?thesis by (simp add: slab_index_def)
qed

lemma slab_index_iff:
  assumes "fm_inv m" "b \<noteq> SLAB_SENTINEL"
  shows "slab_index m b = Some i \<longleftrightarrow> i < 2048 \<and> slab_map m ! i = b"
proof -
  obtain k where k: "first_slot m b k" by (rule first_slot_exists [OF assms(1)])
  have eq: "slab_index m b = (if slab_map m ! probe b k = b then Some (probe b k) else None)"
    using get_slab_loop_first [OF assms(1) k assms(2), of k] by (simp add: slab_index_def)
  have "i = probe b k \<and> slab_map m ! probe b k = b" if i: "i < 2048" "slab_map m ! i = b"
  proof -
    obtain k' where k': "i = probe b k'" "\<forall>k'' < k'. slab_map m ! probe b k'' \<notin> {b, SLAB_SENTINEL}"
      using fm_inv_slot [OF assms(1) i(1)] i(2) assms(2) by (auto simp: slot_ok_def Let_def)
    have "k' = k" using k k' i(2) unfolding first_slot_def by (metis insertI1 linorder_neqE_nat)
    then show ?thesis using k'(1) i(2) by simp
  qed
  then show ?thesis unfolding eq by auto
qed

lemma slab_index_bases:
  assumes "fm_inv m" "b \<noteq> SLAB_SENTINEL"
  shows "slab_index m b = None \<longleftrightarrow> b \<notin> slab_bases m"
proof -
  have "b \<in> slab_bases m \<longleftrightarrow> (\<exists>i. i < 2048 \<and> slab_map m ! i = b)"
    using assms(2) fm_inv_lengths(1) [OF assms(1)] by (auto simp: slab_bases_def in_set_conv_nth)
  also have "\<dots> \<longleftrightarrow> (\<exists>i. slab_index m b = Some i)" by (simp only: slab_index_iff [OF assms])
  finally show ?thesis by simp
qed

lemma card_slab_bases:
  assumes "fm_inv m"
  shows "card (slab_bases m) = free_slab_index m"
proof -
  let ?S = "{i. i < 2048 \<and> slab_map m ! i \<noteq> SLAB_SENTINEL}"
  have "slab_bases m = (!) (slab_map m) ` ?S"
    using fm_inv_lengths(1) [OF assms] by (auto simp: slab_bases_def in_set_conv_nth)
  moreover have "inj_on ((!) (slab_map m)) ?S"
  proof (rule inj_onI)
    fix i j
    assume "i \<in> ?S" "j \<in> ?S" "slab_map m ! i = slab_map m ! j"
    then have "slab_index m (slab_map m ! i) = Some i" "slab_index m (slab_map m ! i) = Some j"
      by (simp_all add: slab_index_iff [OF assms])
    then show "i = j" by simp
  qed
  ultimately show ?thesis using assms by (simp add: card_image fm_inv_def)
qed

lemma slab_align_down_idem [simp]: "slab_align_down (slab_align_down a) = slab_align_down a"
  by (simp add: slab_align_down_def and.assoc)

lemma slab_align_down_not_sentinel [simp]: "slab_align_down a \<noteq> SLAB_SENTINEL"
proof
  assume "slab_align_down a = SLAB_SENTINEL"
  then have "bit (slab_align_down a) 0" by (simp add: SLAB_SENTINEL_def)
  then show False by (simp add: slab_align_down_def bit_simps)
qed

lemma unat_slab_align_down: "unat (slab_align_down a) = unat a div 2 ^ 30 * 2 ^ 30"
proof -
  have "int (unat (slab_align_down a)) = int (unat a div 2 ^ 30 * 2 ^ 30)"
    by (simp add: uint_slab_align_down minus_mod_eq_div_mult zdiv_int del: of_nat_mult)
       (simp add: zdiv_int minus_mod_eq_div_mult)
  then show ?thesis by (simp only: of_nat_eq_iff)
qed

lemma div_chunk_slab: "q * 2 ^ 30 \<le> (a :: nat) \<Longrightarrow> (a - q * 2 ^ 30) div 2 ^ 22 = a div 2 ^ 22 - q * 256"
proof -
  assume "q * 2 ^ 30 \<le> a"
  then obtain c where "a = q * 256 * 2 ^ 22 + c" by (auto simp: le_iff_add)
  then show ?thesis by simp
qed

lemma fm_chunk_index_eq:
  assumes "unat (slab_align_down s) \<le> unat a"
  shows "fm_chunk_index (slab_align_down s) a = unat a div 2 ^ 22 - unat s div 2 ^ 30 * 256"
proof -
  have "fm_chunk_index (slab_align_down s) a = (unat a - unat s div 2 ^ 30 * 2 ^ 30) div 2 ^ 22"
    using assms by (simp add: fm_chunk_index_def unat_drop unat_sub word_le_nat_alt unat_slab_align_down)
  also have "\<dots> = unat a div 2 ^ 22 - unat s div 2 ^ 30 * 256"
    using assms by (intro div_chunk_slab) (simp only: unat_slab_align_down)
  finally show ?thesis .
qed

lemma own_chunk_index: "fm_chunk_index (slab_align_down a) a = (unat a div 2 ^ 22) mod 256"
proof -
  have "unat a div 2 ^ 30 = unat a div 2 ^ 22 div 256" by (simp add: div_mult2_eq [symmetric])
  moreover have "x - x div 256 * 256 = x mod 256" for x :: nat by (simp add: minus_div_mult_eq_mod)
  ultimately show ?thesis by (subst fm_chunk_index_eq) (simp_all add: unat_slab_align_down)
qed

lemma own_chunk_less: "fm_chunk_index (slab_align_down a) a < 2048"
  by (rule less_le_trans [of _ 256]) (simp_all add: own_chunk_index)

section \<open>Changes of the table\<close>

lemma fm_new_inv: "fm_inv fm_new"
  by (auto simp: fm_inv_def fm_new_def slot_ok_def)

lemma fm_new_chunk_state: "chunk_state fm_new a = Unmapped"
proof -
  have "slab_index fm_new (slab_align_down a) = None"
    by (simp add: slab_index_bases [OF fm_new_inv]) (simp add: slab_bases_def fm_new_def)
  then show ?thesis by (simp add: chunk_state_def)
qed

text \<open>The table after a new slab got the slot at which the search for it ended.\<close>

definition add_slab :: "address \<Rightarrow> nat \<Rightarrow> fragmented_mapper \<Rightarrow> fragmented_mapper" where
  "add_slab b p m = m\<lparr>slab_table := (slab_table m)[p := Some new_slab], free_slabs := (free_slabs m)[free_slab_index m := None],
     free_slab_index := free_slab_index m + 1, slab_map := (slab_map m)[p := b]\<rparr>"

lemma add_slab_fields:
  "slab_map (add_slab b p m) = (slab_map m)[p := b]" "slab_table (add_slab b p m) = (slab_table m)[p := Some new_slab]"
  by (simp_all add: add_slab_def)

lemma add_slab_slot:
  assumes "fm_inv m" "first_slot m b k" "slab_map m ! probe b k = SLAB_SENTINEL" "slab_align_down b = b" "i < 2048"
  shows "slot_ok (add_slab b (probe b k) m) i"
proof (cases "i = probe b k")
  case True
  have b: "b \<noteq> SLAB_SENTINEL" using slab_align_down_not_sentinel [of b] assms(4) by simp
  have "(slab_map m)[probe b k := b] ! probe b k' \<noteq> SLAB_SENTINEL \<and> (slab_map m)[probe b k := b] ! probe b k' \<noteq> b"
    if "k' < k" for k'
    using assms(2) that by (auto simp: first_slot_def probe_inj)
  then show ?thesis using True b assms(2,4) fm_inv_lengths [OF assms(1)]
    by (auto simp: slot_ok_def Let_def add_slab_def new_slab_def first_slot_def intro!: exI [of _ k])
next
  case False
  let ?b = "slab_map m ! i"
  show ?thesis
  proof (cases "?b = SLAB_SENTINEL")
    case True
    then show ?thesis using False fm_inv_slot [OF assms(1,5)] by (simp add: slot_ok_def Let_def add_slab_def)
  next
    case occ: False
    then obtain k' where k': "k' < 2048" "i = probe ?b k'"
        "\<forall>k'' < k'. slab_map m ! probe ?b k'' \<noteq> SLAB_SENTINEL \<and> slab_map m ! probe ?b k'' \<noteq> ?b"
      using fm_inv_slot [OF assms(1,5)] by (auto simp: slot_ok_def Let_def)
    have "(slab_map m)[probe b k := b] ! probe ?b k'' \<noteq> SLAB_SENTINEL \<and> (slab_map m)[probe b k := b] ! probe ?b k'' \<noteq> ?b"
      if "k'' < k'" for k''
    proof -
      have "probe ?b k'' \<noteq> probe b k" using k'(3) that assms(3) by metis
      then show ?thesis using k'(3) that by simp
    qed
    with k'(1,2) occ False fm_inv_slot [OF assms(1,5)] show ?thesis
      by (auto simp: slot_ok_def Let_def add_slab_def intro!: exI [of _ k'])
  qed
qed

lemma add_slab_inv:
  assumes "fm_inv m" "first_slot m b k" "slab_map m ! probe b k = SLAB_SENTINEL" "slab_align_down b = b"
    and "free_slab_index m < 1024"
  shows "fm_inv (add_slab b (probe b k) m)"
proof -
  let ?p = "probe b k" and ?m = "add_slab b (probe b k) m"
  have b: "b \<noteq> SLAB_SENTINEL" using slab_align_down_not_sentinel [of b] assms(4) by simp
  have "{i. i < 2048 \<and> slab_map ?m ! i \<noteq> SLAB_SENTINEL} = insert ?p {i. i < 2048 \<and> slab_map m ! i \<noteq> SLAB_SENTINEL}"
    using b fm_inv_lengths(1) [OF assms(1)] by (auto simp: add_slab_def nth_list_update)
  moreover have "?p \<notin> {i. i < 2048 \<and> slab_map m ! i \<noteq> SLAB_SENTINEL}" using assms(3) by simp
  ultimately have "card {i. i < 2048 \<and> slab_map ?m ! i \<noteq> SLAB_SENTINEL} = Suc (free_slab_index m)"
    using assms(1) by (simp add: fm_inv_def)
  moreover have "\<forall>i < 2048. slot_ok ?m i" using add_slab_slot [OF assms(1-4)] by blast
  ultimately show ?thesis
    using assms(1,5) by (auto simp: fm_inv_def add_slab_def)
qed

lemma add_slab_index:
  assumes "fm_inv m" "first_slot m b k" "slab_map m ! probe b k = SLAB_SENTINEL" "slab_align_down b = b"
    and "free_slab_index m < 1024" "c \<noteq> SLAB_SENTINEL"
  shows "slab_index (add_slab b (probe b k) m) c = (if c = b then Some (probe b k) else slab_index m c)"
proof -
  have b: "b \<noteq> SLAB_SENTINEL" using slab_align_down_not_sentinel [of b] assms(4) by simp
  note inv = add_slab_inv [OF assms(1-5)]
  have "slab_index (add_slab b (probe b k) m) c = Some i \<longleftrightarrow> (if c = b then Some (probe b k) else slab_index m c) = Some i" for i
  proof (cases "c = b")
    case True
    have "slab_index (add_slab b (probe b k) m) b = Some (probe b k)"
      using fm_inv_lengths(1) [OF assms(1)] by (subst slab_index_iff [OF inv b]) (simp add: add_slab_fields)
    then show ?thesis using True by simp
  next
    case False
    then show ?thesis using assms(3,6) fm_inv_lengths(1) [OF assms(1)]
      by (auto simp: slab_index_iff [OF inv assms(6)] slab_index_iff [OF assms(1,6)] add_slab_fields nth_list_update)
  qed
  then show ?thesis by (metis option.exhaust)
qed

lemma add_slab_chunk_state:
  assumes "fm_inv m" "first_slot m b k" "slab_map m ! probe b k = SLAB_SENTINEL" "slab_align_down b = b"
    and "free_slab_index m < 1024" "b \<notin> slab_bases m"
  shows "chunk_state (add_slab b (probe b k) m) a = chunk_state m a"
proof (cases "slab_align_down a = b")
  case True
  have "slab_index m b = None"
    using slab_index_bases [OF assms(1)] assms(4,6) slab_align_down_not_sentinel [of b] by simp
  moreover have "slab_at (probe b k) (add_slab b (probe b k) m) = new_slab"
    using fm_inv_lengths(2) [OF assms(1)] by (simp add: slab_at_def add_slab_def)
  moreover have "slab_index (add_slab b (probe b k) m) b = Some (probe b k)"
    using add_slab_index [OF assms(1-5), of b] assms(4) slab_align_down_not_sentinel [of b] by simp
  moreover have "new_slab ! fm_chunk_index b a = Unmapped"
    using own_chunk_less [of a] True by (simp add: new_slab_def)
  ultimately show ?thesis using True by (simp add: chunk_state_def)
next
  case False
  have "slab_at i (add_slab b (probe b k) m) = slab_at i m" if "slab_index m (slab_align_down a) = Some i" for i
  proof -
    have "slab_map m ! i = slab_align_down a" using that slab_index_iff [OF assms(1)] by simp
    then have "i \<noteq> probe b k" using assms(3) slab_align_down_not_sentinel [of a] by metis
    then show ?thesis by (simp add: slab_at_def add_slab_def)
  qed
  then show ?thesis
    using False add_slab_index [OF assms(1-5), of "slab_align_down a"] by (auto simp: chunk_state_def split: option.splits)
qed

section \<open>Finding or adding a slab\<close>

lemma commit_free_slab_eq:
  assumes "fm_inv m" "p < 2048" "slab_map m ! p = SLAB_SENTINEL" "free_slab_index m < 1024"
  shows "map_option (\<lambda>m. m\<lparr>slab_map := (slab_map m)[p := b]\<rparr>) (commit_free_slab p m) = Some (add_slab b p m)"
proof -
  have "slab_table m ! p = None" using fm_inv_slot [OF assms(1,2)] assms(3) by (simp add: slot_ok_def Let_def)
  moreover have "free_slabs m ! free_slab_index m = Some new_slab" using assms(1,4) by (simp add: fm_inv_def)
  ultimately show ?thesis
    using assms(2,4) fm_inv_lengths [OF assms(1)] by (simp add: commit_free_slab_def vec_get_def add_slab_def)
qed

lemma get_or_allocate_loop_first:
  assumes "fm_inv m" "first_slot m b k" "j \<le> k"
  shows "get_or_allocate_loop False True b (unat (fm_hash b)) (probe b (k - j)) m =
    get_or_allocate_loop False True b (unat (fm_hash b)) (probe b k) m"
  using assms(3)
proof (induction j)
  case (Suc j)
  have k: "k < 2048" "slab_map m ! probe b (k - Suc j) \<notin> {b, SLAB_SENTINEL}"
    using assms(2) Suc.prems by (auto simp: first_slot_def)
  have next_: "Suc (k - Suc j) = k - j" using Suc.prems by simp
  have "probe b (k - j) \<noteq> unat (fm_hash b)" using probe_home [of "k - j" b] k(1) Suc.prems by simp
  then show ?case
    using Suc k(2) next_
    by (subst get_or_allocate_loop.simps) (auto simp: vec_get_def fm_inv_lengths [OF assms(1)] Let_def simp del: probe_simps(2))
qed simp

lemma get_or_allocate_present:
  assumes "fm_inv m" "slab_align_down a \<in> slab_bases m"
  shows "\<exists>i. get_or_allocate_slab_table False a m = Some (i, m) \<and> slab_index m (slab_align_down a) = Some i"
proof -
  let ?b = "slab_align_down a"
  obtain k where k: "first_slot m ?b k" by (rule first_slot_exists [OF assms(1)])
  have i: "slab_index m ?b = (if slab_map m ! probe ?b k = ?b then Some (probe ?b k) else None)"
    using get_slab_loop_first [OF assms(1) k, of k] by (simp add: slab_index_def)
  then have hit: "slab_map m ! probe ?b k = ?b" using slab_index_bases [OF assms(1), of ?b] assms(2) by (auto split: if_splits)
  have "get_or_allocate_loop False True ?b (unat (fm_hash ?b)) (probe ?b k) m = Some (Some (probe ?b k), m)"
    using hit slab_table_for_eq [OF assms(1), of "probe ?b k"]
    by (subst get_or_allocate_loop.simps) (simp add: vec_get_def fm_inv_lengths [OF assms(1)])
  then show ?thesis
    using get_or_allocate_loop_first [OF assms(1) k, of k] i hit
    by (simp add: get_or_allocate_slab_table_def get_or_optionally_allocate_slab_table_def slab_align_down_def Let_def)
qed

lemma get_or_allocate_absent:
  assumes "fm_inv m" "slab_align_down a \<notin> slab_bases m" "free_slab_index m < 1024"
  shows "\<exists>k. first_slot m (slab_align_down a) k \<and> slab_map m ! probe (slab_align_down a) k = SLAB_SENTINEL \<and>
    get_or_allocate_slab_table False a m =
      Some (probe (slab_align_down a) k, add_slab (slab_align_down a) (probe (slab_align_down a) k) m)"
proof -
  let ?b = "slab_align_down a"
  obtain k where k: "first_slot m ?b k" by (rule first_slot_exists [OF assms(1)])
  have "slab_map m ! probe ?b k \<noteq> ?b"
    using get_slab_loop_first [OF assms(1) k, of k] slab_index_bases [OF assms(1), of ?b] assms(2)
    by (auto simp: slab_index_def split: if_splits)
  then have miss: "slab_map m ! probe ?b k = SLAB_SENTINEL" using k by (auto simp: first_slot_def)
  let ?m = "add_slab ?b (probe ?b k) m"
  have "slab_table_for (probe ?b k) ?m = Some (Some (probe ?b k))"
    using fm_inv_lengths(2) [OF assms(1)] by (simp add: slab_table_for_def vec_get_def add_slab_fields)
  moreover obtain m' where m': "commit_free_slab (probe ?b k) m = Some m'" "m'\<lparr>slab_map := (slab_map m')[probe ?b k := ?b]\<rparr> = ?m"
    using commit_free_slab_eq [OF assms(1) _ miss assms(3), of ?b] by auto
  ultimately have "get_or_allocate_loop False True ?b (unat (fm_hash ?b)) (probe ?b k) m = Some (Some (probe ?b k), ?m)"
    using miss by (subst get_or_allocate_loop.simps) (simp add: vec_get_def fm_inv_lengths [OF assms(1)] Let_def)
  then have "get_or_allocate_slab_table False a m = Some (probe ?b k, ?m)"
    using get_or_allocate_loop_first [OF assms(1) k, of k]
    by (simp add: get_or_allocate_slab_table_def get_or_optionally_allocate_slab_table_def slab_align_down_def Let_def)
  then show ?thesis using k miss by blast
qed

lemma set_update_free:
  assumes "p < length xs" "xs ! p = s" "b \<noteq> s"
  shows "set (xs[p := b]) - {s} = insert b (set xs - {s})"
proof
  show "set (xs[p := b]) - {s} \<subseteq> insert b (set xs - {s})" using set_update_subset_insert [of xs p b] by auto
  show "insert b (set xs - {s}) \<subseteq> set (xs[p := b]) - {s}"
  proof
    fix x
    assume "x \<in> insert b (set xs - {s})"
    then consider "x = b" | j where "j < length xs" "x = xs ! j" "x \<noteq> s" by (auto simp: in_set_conv_nth)
    then show "x \<in> set (xs[p := b]) - {s}"
    proof cases
      case 1
      then show ?thesis using assms by (simp add: set_update_memI)
    next
      case 2
      then have "j \<noteq> p" using assms(2) by auto
      then have "j < length (xs[p := b])" "xs[p := b] ! j = x" using 2 by auto
      then show ?thesis using 2(3) nth_mem by fastforce
    qed
  qed
qed

lemma get_or_allocate_slab:
  assumes "fm_inv m" "slab_align_down a \<in> slab_bases m \<or> free_slab_index m < 1024"
  obtains i m' where "get_or_allocate_slab_table False a m = Some (i, m')" "fm_inv m'" "slab_index m' (slab_align_down a) = Some i"
    "\<And>c. chunk_state m' c = chunk_state m c" "slab_bases m' = insert (slab_align_down a) (slab_bases m)"
proof (cases "slab_align_down a \<in> slab_bases m")
  case True
  then show ?thesis using get_or_allocate_present [OF assms(1) True] assms(1) that by (metis insert_absorb)
next
  case False
  let ?b = "slab_align_down a"
  obtain k where k: "first_slot m ?b k" "slab_map m ! probe ?b k = SLAB_SENTINEL"
    "get_or_allocate_slab_table False a m = Some (probe ?b k, add_slab ?b (probe ?b k) m)"
    using get_or_allocate_absent [OF assms(1) False] assms(2) False by blast
  have free: "free_slab_index m < 1024" using assms(2) False by blast
  have "set ((slab_map m)[probe ?b k := ?b]) - {SLAB_SENTINEL} = insert ?b (set (slab_map m) - {SLAB_SENTINEL})"
    using k(2) fm_inv_lengths(1) [OF assms(1)] by (intro set_update_free) simp_all
  then have bases: "slab_bases (add_slab ?b (probe ?b k) m) = insert ?b (slab_bases m)"
    by (simp add: slab_bases_def add_slab_fields)
  show ?thesis
  proof (rule that [OF k(3)])
    show "fm_inv (add_slab ?b (probe ?b k) m)" by (rule add_slab_inv [OF assms(1) k(1,2) _ free]) simp
    show "slab_index (add_slab ?b (probe ?b k) m) ?b = Some (probe ?b k)"
      using add_slab_index [OF assms(1) k(1,2) _ free, of ?b] by simp
    show "chunk_state (add_slab ?b (probe ?b k) m) c = chunk_state m c" for c
      by (rule add_slab_chunk_state [OF assms(1) k(1,2) _ free False]) simp
  qed (rule bases)
qed

section \<open>Chunks\<close>

lemma slab_put_inv:
  assumes "fm_inv m" "i < 2048" "slab_map m ! i \<noteq> SLAB_SENTINEL"
  shows "fm_inv (slab_put i c s m)"
proof -
  obtain sl where sl: "slab_table m ! i = Some sl" "length sl = 2048"
    using fm_inv_slot [OF assms(1,2)] assms(3) by (auto simp: slot_ok_def Let_def)
  have "slot_ok (slab_put i c s m) j" if "j < 2048" for j
    using fm_inv_slot [OF assms(1) that] sl assms(2,3) fm_inv_lengths(2) [OF assms(1)]
    by (auto simp: slot_ok_def Let_def slab_put_def slab_at_def nth_list_update)
  then show ?thesis using assms(1) by (simp add: fm_inv_def slab_put_def)
qed

lemma slab_put_index:
  assumes "fm_inv m" "i < 2048" "slab_map m ! i \<noteq> SLAB_SENTINEL" "b \<noteq> SLAB_SENTINEL"
  shows "slab_index (slab_put i c s m) b = slab_index m b"
proof -
  have "slab_index (slab_put i c s m) b = Some j \<longleftrightarrow> slab_index m b = Some j" for j
    unfolding slab_index_iff [OF assms(1,4)] slab_index_iff [OF slab_put_inv [OF assms(1-3)] assms(4)] by (simp add: slab_put_def)
  then show ?thesis by (metis option.exhaust)
qed

lemma slab_put_chunk_state:
  assumes "fm_inv m" "slab_index m b = Some i" "b \<noteq> SLAB_SENTINEL" "c < 2048"
  shows "chunk_state (slab_put i c s m) a =
    (if slab_align_down a = b \<and> fm_chunk_index b a = c then s else chunk_state m a)"
proof -
  have i: "i < 2048" "slab_map m ! i = b" using slab_index_iff [OF assms(1,3)] assms(2) by auto
  note idx = slab_put_index [OF assms(1) i(1) _ slab_align_down_not_sentinel, of c s a]
  obtain sl where sl: "slab_table m ! i = Some sl" "length sl = 2048"
    using fm_inv_slot [OF assms(1) i(1)] i(2) assms(3) by (auto simp: slot_ok_def Let_def)
  have at: "slab_at j (slab_put i c s m) = (if j = i then (slab_at i m)[c := s] else slab_at j m)" if "j < 2048" for j
    using that i(1) fm_inv_lengths(2) [OF assms(1)] by (simp add: slab_put_def slab_at_def)
  show ?thesis
  proof (cases "slab_align_down a = b")
    case True
    have "slab_index (slab_put i c s m) b = Some i" using slab_put_index [OF assms(1) i(1) _ assms(3)] i(2) assms(2,3) by simp
    then have "chunk_state (slab_put i c s m) a = (slab_at i m)[c := s] ! fm_chunk_index b a"
      using at [OF i(1)] by (simp add: chunk_state_def True)
    moreover have "chunk_state m a = slab_at i m ! fm_chunk_index b a" using assms(2) by (simp add: chunk_state_def True)
    moreover have "c < length (slab_at i m)" using sl assms(4) by (simp add: slab_at_def)
    then have "(slab_at i m)[c := s] ! fm_chunk_index b a = (if fm_chunk_index b a = c then s else slab_at i m ! fm_chunk_index b a)"
      by (cases "fm_chunk_index b a = c") auto
    ultimately show ?thesis by (simp only: True simp_thms)
  next
    case False
    have "j < 2048 \<and> j \<noteq> i" if "slab_index m (slab_align_down a) = Some j" for j
    proof -
      have "j < 2048" "slab_map m ! j = slab_align_down a"
        using that slab_index_iff [OF assms(1) slab_align_down_not_sentinel, of a j] by simp_all
      then show ?thesis using i(2) False by metis
    qed
    moreover have "slab_index (slab_put i c s m) (slab_align_down a) = slab_index m (slab_align_down a)"
      using idx i(2) assms(3) by simp
    ultimately show ?thesis using False at by (simp add: chunk_state_def split: option.split)
  qed
qed

text \<open>The change from \<open>m\<close> to \<open>m'\<close> only maps chunks, and only chunks of addresses in \<open>A\<close>.\<close>

definition maps_only :: "address set \<Rightarrow> fragmented_mapper \<Rightarrow> fragmented_mapper \<Rightarrow> bool" where
  "maps_only A m m' \<longleftrightarrow> fm_inv m' \<and> (\<forall>a. chunk_state m' a = chunk_state m a \<or> a \<in> A \<and> chunk_state m' a = Mapped)"

lemma maps_only_refl: "fm_inv m \<Longrightarrow> maps_only A m m"
  by (simp add: maps_only_def)

lemma maps_only_trans: "maps_only A m m' \<Longrightarrow> maps_only B m' m'' \<Longrightarrow> maps_only (A \<union> B) m m''"
  unfolding maps_only_def by (metis UnI1 UnI2)

lemma maps_only_keeps: "maps_only A m m' \<Longrightarrow> chunk_state m a = Mapped \<Longrightarrow> chunk_state m' a = Mapped"
  unfolding maps_only_def by metis

text \<open>The body of the loop over chunks: it maps the chunk or leaves it and returns an error; \<open>g\<close> says that there are no errors.\<close>

definition maps_chunk :: "bool \<Rightarrow> nat \<Rightarrow> (nat \<Rightarrow> fragmented_mapper \<Rightarrow> (io_result \<times> fragmented_mapper) option) \<Rightarrow> bool" where
  "maps_chunk g i f \<longleftrightarrow> (\<forall>c m. fm_inv m \<and> i < 2048 \<and> slab_map m ! i \<noteq> SLAB_SENTINEL \<and> c < 2048 \<longrightarrow>
     (\<exists>r s. f c m = Some (r, slab_put i c s m) \<and> (s = slab_at i m ! c \<or> s = Mapped) \<and> (is_ok r \<longrightarrow> s = Mapped) \<and> (g \<longrightarrow> is_ok r)))"

definition chunk_set :: "address \<Rightarrow> nat set \<Rightarrow> address set" where
  "chunk_set b C = {a. slab_align_down a = b \<and> fm_chunk_index b a \<in> C}"

lemma maps_chunk_step:
  assumes "maps_chunk g i f" "fm_inv m" "slab_index m b = Some i" "b \<noteq> SLAB_SENTINEL" "c < 2048"
  obtains r m' where "f c m = Some (r, m')" "maps_only (chunk_set b {c}) m m'" "slab_index m' b = Some i" "slab_bases m' = slab_bases m"
    "is_ok r \<Longrightarrow> \<forall>a \<in> chunk_set b {c}. chunk_state m' a = Mapped" "g \<Longrightarrow> is_ok r"
proof -
  have i: "i < 2048" "slab_map m ! i = b" using slab_index_iff [OF assms(2,4)] assms(3) by auto
  obtain r s where f: "f c m = Some (r, slab_put i c s m)" "s = slab_at i m ! c \<or> s = Mapped" "is_ok r \<longrightarrow> s = Mapped" "g \<longrightarrow> is_ok r"
    using assms(1,2,4,5) i unfolding maps_chunk_def by blast
  note st = slab_put_chunk_state [OF assms(2-5), of s]
  have old: "chunk_state m a = slab_at i m ! c" if "slab_align_down a = b" "fm_chunk_index b a = c" for a
    using that assms(3) by (simp add: chunk_state_def)
  show ?thesis
  proof (rule that [OF f(1)])
    show "maps_only (chunk_set b {c}) m (slab_put i c s m)"
      using f(2) old slab_put_inv [OF assms(2) i(1)] i(2) assms(4) by (auto simp: maps_only_def st chunk_set_def)
    show "slab_index (slab_put i c s m) b = Some i" using slab_put_index [OF assms(2) i(1)] i(2) assms(3,4) by simp
    show "slab_bases (slab_put i c s m) = slab_bases m" by (simp add: slab_bases_def slab_put_def)
    show "\<forall>a \<in> chunk_set b {c}. chunk_state (slab_put i c s m) a = Mapped" if "is_ok r"
      using f(3) that slab_put_chunk_state [OF assms(2-5), of Mapped] by (simp add: chunk_set_def)
    show "is_ok r" if g using f(4) that by simp
  qed
qed

lemma chunk_loop_maps:
  assumes "maps_chunk g i f" "b \<noteq> SLAB_SENTINEL"
  shows "fm_inv m \<Longrightarrow> slab_index m b = Some i \<Longrightarrow> set cs \<subseteq> {..<2048} \<Longrightarrow>
    \<exists>r m'. chunk_loop f cs m = Some (r, m') \<and> maps_only (chunk_set b (set cs)) m m' \<and> slab_bases m' = slab_bases m \<and>
      (is_ok r \<longrightarrow> (\<forall>a \<in> chunk_set b (set cs). chunk_state m' a = Mapped)) \<and> (g \<longrightarrow> is_ok r)"
proof (induction cs arbitrary: m)
  case Nil
  then show ?case by (simp add: maps_only_refl chunk_set_def)
next
  case (Cons c cs)
  obtain r m1 where f: "f c m = Some (r, m1)" "maps_only (chunk_set b {c}) m m1" "slab_index m1 b = Some i"
      "slab_bases m1 = slab_bases m" "is_ok r \<Longrightarrow> \<forall>a \<in> chunk_set b {c}. chunk_state m1 a = Mapped" "g \<Longrightarrow> is_ok r"
    using maps_chunk_step [OF assms(1) Cons.prems(1,2) assms(2), of c] Cons.prems(3) by auto
  have set_eq: "chunk_set b (set (c # cs)) = chunk_set b {c} \<union> chunk_set b (set cs)" by (auto simp: chunk_set_def)
  show ?case
  proof (cases "is_ok r")
    case True
    have "fm_inv m1" using f(2) by (simp add: maps_only_def)
    then obtain r' m' where l: "chunk_loop f cs m1 = Some (r', m')" "maps_only (chunk_set b (set cs)) m1 m'"
        "slab_bases m' = slab_bases m1" "is_ok r' \<longrightarrow> (\<forall>a \<in> chunk_set b (set cs). chunk_state m' a = Mapped)" "g \<longrightarrow> is_ok r'"
      using Cons.IH [of m1] f(3) Cons.prems(3) by auto
    have "maps_only (chunk_set b (set (c # cs))) m m'" unfolding set_eq by (rule maps_only_trans [OF f(2) l(2)])
    moreover have "\<forall>a \<in> chunk_set b (set (c # cs)). chunk_state m' a = Mapped" if "is_ok r'"
      unfolding set_eq using l(4) that f(5) [OF True] maps_only_keeps [OF l(2)] by blast
    ultimately show ?thesis using f(1,4) l(1,3,5) True by auto
  next
    case False
    have "maps_only (chunk_set b (set (c # cs))) m m1" using f(2) unfolding set_eq maps_only_def by blast
    then show ?thesis using f(1,4,6) False by auto
  qed
qed

section \<open>Ranges\<close>

text \<open>The addresses whose chunk overlaps the range from \<open>start\<close> to \<open>limit\<close>, and the slabs of the range.\<close>

definition covered :: "address \<Rightarrow> address \<Rightarrow> address set" where
  "covered start limit = {a. start < limit \<and> unat start div 2 ^ 22 \<le> unat a div 2 ^ 22 \<and>
     unat a div 2 ^ 22 < (unat limit + (2 ^ 22 - 1)) div 2 ^ 22}"

definition range_slabs :: "address \<Rightarrow> address \<Rightarrow> address set" where
  "range_slabs start limit = slab_align_down ` {start ..< limit}"

lemma slab_align_down_eq_iff: "slab_align_down a = slab_align_down b \<longleftrightarrow> unat a div 2 ^ 30 = unat b div 2 ^ 30"
proof -
  have "slab_align_down a = slab_align_down b \<longleftrightarrow> unat (slab_align_down a) = unat (slab_align_down b)"
    by (rule word_unat_eq_iff)
  then show ?thesis by (simp add: unat_slab_align_down)
qed

lemma unat_chunk_align_up:
  assumes "unat h \<le> 2 ^ 63"
  shows "unat (mmap_chunk_align_up h) = (unat h + (2 ^ 22 - 1)) div 2 ^ 22 * 2 ^ 22"
proof -
  have "mmap_chunk_align_up h = raw_align_up h (2 ^ 22)"
    by (simp add: mmap_chunk_align_up_def align_up_def MMAP_CHUNK_BYTES_def push_bit_eq_mult)
  moreover have "int (unat h) \<le> int (2 ^ 63)" using assms by (simp only: of_nat_le_iff)
  then have "uint h \<le> 2 ^ 63" by simp
  ultimately have "uint (mmap_chunk_align_up h) = (uint h + 2 ^ 22 - 1) div 2 ^ 22 * 2 ^ 22"
    using uint_align_up [of 22 h] by simp
  then have "int (unat (mmap_chunk_align_up h)) = int ((unat h + (2 ^ 22 - 1)) div 2 ^ 22 * 2 ^ 22)"
    by (simp add: zdiv_int algebra_simps)
  then show ?thesis by (simp only: of_nat_eq_iff)
qed

lemma unat_slab_high:
  assumes "start < limit"
  shows "slab_high start limit = limit \<and> unat limit \<le> (unat start div 2 ^ 30 + 1) * 2 ^ 30 \<or>
    unat (slab_high start limit) = (unat start div 2 ^ 30 + 1) * 2 ^ 30 \<and> slab_high start limit < limit"
proof (cases "slab_limit start = 0")
  case True
  have "unat start div 2 ^ 30 = 2 ^ 34 - 1"
  proof (rule ccontr)
    assume "unat start div 2 ^ 30 \<noteq> 2 ^ 34 - 1"
    moreover have "unat start div 2 ^ 30 < 2 ^ 34" using unat_less_64 [of start] by (simp add: less_mult_imp_div_less)
    ultimately have "unat (slab_align_down start) + unat (2 ^ 30 :: usize) < 2 ^ 64"
      by (simp add: unat_slab_align_down)
    then have "unat (slab_limit start) = unat (slab_align_down start) + 2 ^ 30" by (simp add: slab_limit_def unat_add_64)
    then show False using True by simp
  qed
  then have "unat limit \<le> (unat start div 2 ^ 30 + 1) * 2 ^ 30" using unat_less_64 [of limit] by simp
  then show ?thesis using True by (simp add: slab_high_def)
next
  case False
  have "int (unat (slab_limit start)) = int ((unat start div 2 ^ 30 + 1) * 2 ^ 30)"
    using uint_slab_limit [OF False] by (simp add: zdiv_int minus_mod_eq_div_mult algebra_simps)
  then have "unat (slab_limit start) = (unat start div 2 ^ 30 + 1) * 2 ^ 30" by (simp only: of_nat_eq_iff)
  then show ?thesis using False by (auto simp: slab_high_def word_less_nat_alt not_less)
qed

lemma slab_chunk_arith:
  fixes x s c :: nat
  assumes "c \<le> (s div 256 + 1) * 256"
  shows "x div 256 = s div 256 \<and> s - s div 256 * 256 \<le> x mod 256 \<and> x mod 256 < c - s div 256 * 256 \<longleftrightarrow> s \<le> x \<and> x < c"
proof -
  have x: "x = x div 256 * 256 + x mod 256" "x mod 256 < 256" by simp_all
  have s: "s = s div 256 * 256 + s mod 256" "s mod 256 < 256" by simp_all
  show ?thesis
  proof
    assume "x div 256 = s div 256 \<and> s - s div 256 * 256 \<le> x mod 256 \<and> x mod 256 < c - s div 256 * 256"
    then show "s \<le> x \<and> x < c" using x s by linarith
  next
    assume a: "s \<le> x \<and> x < c"
    then have "s div 256 \<le> x div 256" by (simp add: div_le_mono)
    moreover have "x div 256 < s div 256 + 1" using a assms by (intro less_mult_imp_div_less) linarith
    ultimately have "x div 256 = s div 256" by simp
    then show "x div 256 = s div 256 \<and> s - s div 256 * 256 \<le> x mod 256 \<and> x mod 256 < c - s div 256 * 256"
      using a x s by linarith
  qed
qed

lemma slab_round:
  assumes "start < limit" "unat limit \<le> 2 ^ 63"
  shows "chunk_set (slab_align_down start) (set (slab_chunks (fm_chunk_index (slab_align_down start) start)
      (fm_chunk_index (slab_align_down start) (mmap_chunk_align_up (slab_high start limit))))) =
    covered start (slab_high start limit)"
proof -
  let ?h = "slab_high start limit" and ?s = "unat start div 2 ^ 22"
  let ?C = "(unat ?h + (2 ^ 22 - 1)) div 2 ^ 22"
  have h: "start < ?h" "unat ?h \<le> 2 ^ 63" "unat ?h \<le> (unat start div 2 ^ 30 + 1) * 2 ^ 30"
    using slab_high_bounds [OF assms(1)] assms(2) unat_slab_high [OF assms(1)] by (auto simp: word_le_nat_alt)
  have S: "unat w div 2 ^ 30 = unat w div 2 ^ 22 div 256" for w :: address by (simp add: div_mult2_eq [symmetric])
  have "?C \<le> ((unat start div 2 ^ 30 + 1) * 256 * 2 ^ 22 + (2 ^ 22 - 1)) div 2 ^ 22" using h(3) by (intro div_le_mono) simp
  then have C: "?C \<le> (?s div 256 + 1) * 256" unfolding S by simp
  have "unat (slab_align_down start) \<le> unat start" by (simp add: unat_slab_align_down)
  from fm_chunk_index_eq [OF this] have start: "fm_chunk_index (slab_align_down start) start = ?s - ?s div 256 * 256"
    by (simp only: S)
  have up: "unat (mmap_chunk_align_up ?h) = ?C * 2 ^ 22" by (rule unat_chunk_align_up [OF h(2)])
  have "unat start < unat ?h" using h(1) by (simp add: word_less_nat_alt)
  then have "unat start \<le> ?C * 2 ^ 22" by simp
  then have "unat (slab_align_down start) \<le> unat (mmap_chunk_align_up ?h)" unfolding up unat_slab_align_down
    using div_times_less_eq_dividend [of "unat start" "2 ^ 30"] by linarith
  then have "fm_chunk_index (slab_align_down start) (mmap_chunk_align_up ?h) = ?C - ?s div 256 * 256"
    by (subst fm_chunk_index_eq) (simp_all only: up S nonzero_mult_div_cancel_right, simp)
  moreover have "?C - ?s div 256 * 256 \<le> 2048" using C by simp
  ultimately have chunks: "set (slab_chunks (fm_chunk_index (slab_align_down start) start)
      (fm_chunk_index (slab_align_down start) (mmap_chunk_align_up ?h))) = {?s - ?s div 256 * 256 ..< ?C - ?s div 256 * 256}"
    by (simp add: slab_chunks_def start)
  have "a \<in> chunk_set (slab_align_down start) {?s - ?s div 256 * 256 ..< ?C - ?s div 256 * 256} \<longleftrightarrow> a \<in> covered start ?h" for a
  proof -
    have "a \<in> chunk_set (slab_align_down start) {?s - ?s div 256 * 256 ..< ?C - ?s div 256 * 256} \<longleftrightarrow>
        slab_align_down a = slab_align_down start \<and> fm_chunk_index (slab_align_down a) a \<in> {?s - ?s div 256 * 256 ..< ?C - ?s div 256 * 256}"
      by (auto simp: chunk_set_def)
    also have "\<dots> \<longleftrightarrow> ?s \<le> unat a div 2 ^ 22 \<and> unat a div 2 ^ 22 < ?C"
      unfolding slab_align_down_eq_iff own_chunk_index atLeastLessThan_iff S by (rule slab_chunk_arith [OF C])
    finally show ?thesis using h(1) by (simp add: covered_def)
  qed
  then show ?thesis unfolding chunks by blast
qed

lemma covered_split:
  assumes "start < limit"
  shows "covered start limit = covered start (slab_high start limit) \<union> covered (slab_high start limit) limit"
proof -
  let ?h = "slab_high start limit"
  consider "?h = limit" | "unat ?h = (unat start div 2 ^ 30 + 1) * 256 * 2 ^ 22" "?h < limit" using unat_slab_high [OF assms] by auto
  then show ?thesis
  proof cases
    case 1
    then show ?thesis by (simp add: covered_def)
  next
    case 2
    have "unat ?h div 2 ^ 22 = (unat ?h + (2 ^ 22 - 1)) div 2 ^ 22" unfolding 2(1) by simp
    moreover have "unat start div 2 ^ 22 \<le> unat ?h div 2 ^ 22" "(unat ?h + (2 ^ 22 - 1)) div 2 ^ 22 \<le> (unat limit + (2 ^ 22 - 1)) div 2 ^ 22"
      using slab_high_bounds [OF assms] by (auto intro!: div_le_mono simp: word_less_nat_alt word_le_nat_alt)
    ultimately show ?thesis using slab_high_bounds [OF assms] 2(2) assms unfolding covered_def by auto
  qed
qed

lemma range_slabs_high:
  assumes "start < limit"
  shows "slab_align_down start \<in> range_slabs start limit" "range_slabs (slab_high start limit) limit \<subseteq> range_slabs start limit"
  using slab_high_bounds [OF assms] assms by (auto simp: range_slabs_def)

lemma card_range_slabs: "card (range_slabs start limit) \<le> Suc (unat limit div 2 ^ 30) - unat start div 2 ^ 30"
proof -
  have "slab_align_down a = of_nat (unat a div 2 ^ 30 * 2 ^ 30)" for a
    by (simp only: unat_slab_align_down [symmetric] of_nat_unat ucast_id)
  then have "range_slabs start limit \<subseteq> (\<lambda>n. of_nat (n * 2 ^ 30)) ` {unat start div 2 ^ 30 .. unat limit div 2 ^ 30}"
    unfolding range_slabs_def by (auto simp: word_le_nat_alt word_less_nat_alt intro!: imageI div_le_mono)
  then have "card (range_slabs start limit) \<le> card {unat start div 2 ^ 30 .. unat limit div 2 ^ 30}"
    by (rule surj_card_le [rotated]) simp
  then show ?thesis by simp
qed

section \<open>Operations\<close>

lemma slab_loop_maps:
  assumes "\<And>b i. maps_chunk g i (f b i)"
  shows "fm_inv m \<Longrightarrow> unat limit \<le> 2 ^ 63 \<Longrightarrow> card (slab_bases m \<union> range_slabs start limit) \<le> 1024 \<Longrightarrow>
    \<exists>r m'. slab_loop False (\<lambda>b sc ec i. chunk_loop (f b i) (slab_chunks sc ec)) start limit m = Some (r, m') \<and>
      maps_only (covered start limit) m m' \<and> (is_ok r \<longrightarrow> (\<forall>a \<in> covered start limit. chunk_state m' a = Mapped)) \<and>
      (g \<longrightarrow> is_ok r)"
proof (induction "unat limit - unat start" arbitrary: start m rule: less_induct)
  case less
  let ?body = "\<lambda>b sc ec i. chunk_loop (f b i) (slab_chunks sc ec)"
  show ?case
  proof (cases "start < limit")
    case False
    then show ?thesis using less.prems(1) by (subst slab_loop.simps) (simp add: maps_only_refl covered_def)
  next
    case True
    let ?b = "slab_align_down start" and ?h = "slab_high start limit"
    let ?cs = "slab_chunks (fm_chunk_index ?b start) (fm_chunk_index ?b (mmap_chunk_align_up ?h))"
    have "card (insert ?b (slab_bases m)) \<le> 1024"
      using range_slabs_high(1) [OF True] by (intro le_trans [OF card_mono less.prems(3)]) auto
    then have "?b \<in> slab_bases m \<or> free_slab_index m < 1024"
      using card_slab_bases [OF less.prems(1)] by (cases "?b \<in> slab_bases m") auto
    then obtain i m1 where m1: "get_or_allocate_slab_table False start m = Some (i, m1)" "fm_inv m1" "slab_index m1 ?b = Some i"
        "\<And>c. chunk_state m1 c = chunk_state m c" "slab_bases m1 = insert ?b (slab_bases m)"
      using get_or_allocate_slab [OF less.prems(1)] by blast
    have "set ?cs \<subseteq> {..<2048}" by (auto simp: slab_chunks_def)
    then obtain r m2 where m2: "chunk_loop (f ?b i) ?cs m1 = Some (r, m2)" "maps_only (covered start ?h) m1 m2"
        "slab_bases m2 = slab_bases m1" "is_ok r \<longrightarrow> (\<forall>a \<in> covered start ?h. chunk_state m2 a = Mapped)" "g \<longrightarrow> is_ok r"
      using chunk_loop_maps [where f = "f ?b i", OF assms _ m1(2,3), of ?cs] unfolding slab_round [OF True less.prems(2)] by auto
    have m: "maps_only (covered start ?h) m m2" using m2(2) m1(4) by (simp add: maps_only_def)
    have loop: "slab_loop False ?body start limit m = (if is_ok r then slab_loop False ?body ?h limit m2 else Some (r, m2))"
      using True m1(1) m2(1) by (subst slab_loop.simps) (simp add: Let_def)
    show ?thesis
    proof (cases "is_ok r")
      case False
      moreover have "maps_only (covered start limit) m m2"
        using m unfolding covered_split [OF True] maps_only_def by blast
      ultimately show ?thesis using loop m2(5) by auto
    next
      case ok: True
      have "card (slab_bases m2 \<union> range_slabs ?h limit) \<le> 1024"
        using range_slabs_high [OF True] m1(5) m2(3) by (intro le_trans [OF card_mono less.prems(3)]) auto
      then obtain r' m' where m': "slab_loop False ?body ?h limit m2 = Some (r', m')" "maps_only (covered ?h limit) m2 m'"
          "is_ok r' \<longrightarrow> (\<forall>a \<in> covered ?h limit. chunk_state m' a = Mapped)" "g \<longrightarrow> is_ok r'"
        using less.hyps [OF slab_high_measure [OF True], of m2] m less.prems(2) by (auto simp: maps_only_def)
      have "maps_only (covered start limit) m m'"
        unfolding covered_split [OF True] by (rule maps_only_trans [OF m m'(2)])
      moreover have "\<forall>a \<in> covered start limit. chunk_state m' a = Mapped" if "is_ok r'"
        unfolding covered_split [OF True] using m'(3) that m2(4) ok maps_only_keeps [OF m'(2)] by blast
      ultimately show ?thesis using loop ok m'(1,4) by simp
    qed
  qed
qed

lemma slab_put_same:
  assumes "fm_inv m" "i < 2048" "slab_map m ! i \<noteq> SLAB_SENTINEL"
  shows "slab_put i c (slab_at i m ! c) m = m"
proof -
  obtain sl where "slab_table m ! i = Some sl" using fm_inv_slot [OF assms(1,2)] assms(3) by (auto simp: slot_ok_def Let_def)
  then show ?thesis using list_update_id [of "slab_table m" i] by (simp add: slab_put_def slab_at_def)
qed

lemma maps_chunk_transition:
  "maps_chunk (grants_mapping os) i (\<lambda>chunk m. if slab_at i m ! chunk = Mapped then Some (Inr (), m)
     else (let mmap_start = fm_chunk_index_to_address base chunk; (r, s) = transition_to_mapped os mmap_start (slab_at i m ! chunk)
           in Some (r, slab_put i chunk s m)))"
  unfolding maps_chunk_def
proof (intro allI impI)
  fix c :: nat and m
  assume m: "fm_inv m \<and> i < 2048 \<and> slab_map m ! i \<noteq> SLAB_SENTINEL \<and> c < 2048"
  let ?t = "transition_to_mapped os (fm_chunk_index_to_address base c) (slab_at i m ! c)"
  show "\<exists>r s. (if slab_at i m ! c = Mapped then Some (Inr (), m)
      else let mmap_start = fm_chunk_index_to_address base c; (r, s) = transition_to_mapped os mmap_start (slab_at i m ! c)
        in Some (r, slab_put i c s m)) = Some (r, slab_put i c s m) \<and> (s = slab_at i m ! c \<or> s = Mapped) \<and> (is_ok r \<longrightarrow> s = Mapped) \<and>
      (grants_mapping os \<longrightarrow> is_ok r)"
  proof (cases "slab_at i m ! c = Mapped")
    case True
    then have "slab_put i c Mapped m = m" using slab_put_same [of m i c] m by simp
    then show ?thesis using True by (intro exI [of _ "Inr ()"] exI [of _ Mapped]) simp
  next
    case False
    then show ?thesis
      using transition_to_mapped_cases [of os "fm_chunk_index_to_address base c" "slab_at i m ! c"]
        transition_to_mapped_granted [of os "fm_chunk_index_to_address base c" "slab_at i m ! c"]
      by (intro exI [of _ "fst ?t"] exI [of _ "snd ?t"]) (auto simp: split_def Let_def)
  qed
qed

lemma maps_chunk_mark: "maps_chunk True i (\<lambda>chunk m. Some (Inr (), slab_put i chunk Mapped m))"
  by (auto simp: maps_chunk_def)

lemma get_slab_table_index:
  "fm_inv m \<Longrightarrow> a \<noteq> SLAB_SENTINEL \<Longrightarrow> get_slab_table a m = Some (slab_index m (slab_align_down a))"
  using get_slab_loop_index [OF _ slab_align_down_not_sentinel, of m a] by (simp add: get_slab_table_def Let_def slab_align_down_def)

lemma fm_is_mapped_address_state:
  assumes "fm_inv m" "a \<noteq> SLAB_SENTINEL"
  shows "fm_is_mapped_address a m = Some (chunk_state m a = Mapped)"
proof (cases "slab_index m (slab_align_down a)")
  case None
  then show ?thesis by (simp add: fm_is_mapped_address_def get_slab_table_index [OF assms] chunk_state_def)
next
  case (Some i)
  then have "i < 2048" "slab_map m ! i \<noteq> SLAB_SENTINEL" using slab_index_iff [OF assms(1), of "slab_align_down a" i] by auto
  then have "length (slab_at i m) = 2048" using fm_inv_slot [OF assms(1), of i] by (auto simp: slot_ok_def Let_def slab_at_def)
  then show ?thesis using Some own_chunk_less [of a]
    by (simp add: fm_is_mapped_address_def get_slab_table_index [OF assms] chunk_state_def vec_get_def)
qed

text \<open>
  C9. \<open>ensure_mapped\<close> of the mapper returns whenever the slabs of the range fit in the table, whatever the operating system answers.
  On success exactly the chunks that overlap the range have become mapped, as \<open>is_mapped_address\<close> reports it; after an error
  some of them may be mapped, and the state of every other chunk is what it was. The hash table stays well formed.
\<close>

theorem fm_ensure_mapped_exact:
  assumes "fm_inv m" "unat (start + pages_to_bytes pages) \<le> 2 ^ 63"
    and "card (slab_bases m \<union> range_slabs start (start + pages_to_bytes pages)) \<le> MAX_SLABS"
  shows "\<exists>r m'. fm_ensure_mapped os start pages m = Some (r, m') \<and> fm_inv m' \<and> (grants_mapping os \<longrightarrow> is_ok r) \<and>
    (is_ok r \<longrightarrow> (\<forall>a. chunk_state m' a = (if a \<in> covered start (start + pages_to_bytes pages) then Mapped else chunk_state m a))) \<and>
    (\<forall>a. a \<notin> covered start (start + pages_to_bytes pages) \<longrightarrow> chunk_state m' a = chunk_state m a) \<and>
    (\<forall>a. chunk_state m a = Mapped \<longrightarrow> chunk_state m' a = Mapped) \<and>
    (\<forall>a. a \<noteq> SLAB_SENTINEL \<longrightarrow> fm_is_mapped_address a m' = Some (chunk_state m' a = Mapped))"
proof -
  let ?A = "covered start (start + pages_to_bytes pages)"
  obtain r m' where m': "fm_ensure_mapped os start pages m = Some (r, m')" "maps_only ?A m m'"
      "is_ok r \<longrightarrow> (\<forall>a \<in> ?A. chunk_state m' a = Mapped)" "grants_mapping os \<longrightarrow> is_ok r"
    using slab_loop_maps [where f = "\<lambda>base i chunk m. if slab_at i m ! chunk = Mapped then Some (Inr (), m)
        else (let mmap_start = fm_chunk_index_to_address base chunk; (r, s) = transition_to_mapped os mmap_start (slab_at i m ! chunk)
              in Some (r, slab_put i chunk s m))", OF maps_chunk_transition assms(1,2), of start] assms(3)
    unfolding fm_ensure_mapped_def by auto
  have "fm_inv m'" using m'(2) by (simp add: maps_only_def)
  moreover have "\<forall>a. a \<notin> ?A \<longrightarrow> chunk_state m' a = chunk_state m a" using m'(2) unfolding maps_only_def by blast
  ultimately show ?thesis using m' maps_only_keeps [OF m'(2)] fm_is_mapped_address_state by auto
qed

theorem fm_ensure_mapped_exact_witness:
  "\<exists>m'. fm_ensure_mapped os_grants 0x20000000000 1 fm_new = Some (Inr (), m') \<and> fm_is_mapped_address 0x20000000123 m' = Some True \<and>
     fm_is_mapped_address 0x20000400000 m' = Some False"
proof -
  let ?l = "0x20000000000 + pages_to_bytes 1"
  have "card (slab_bases fm_new \<union> range_slabs 0x20000000000 ?l) \<le> MAX_SLABS"
    using card_range_slabs [of "0x20000000000" ?l] by (simp add: slab_bases_def fm_new_def pages_to_bytes_def)
  then obtain r m' where m': "fm_ensure_mapped os_grants 0x20000000000 1 fm_new = Some (r, m')" "is_ok r"
      "\<forall>a. chunk_state m' a = (if a \<in> covered 0x20000000000 ?l then Mapped else Unmapped)"
      "\<forall>a. a \<noteq> SLAB_SENTINEL \<longrightarrow> fm_is_mapped_address a m' = Some (chunk_state m' a = Mapped)"
    using fm_ensure_mapped_exact [OF fm_new_inv, of "0x20000000000" 1 os_grants] os_grants_mapping
    by (auto simp: pages_to_bytes_def fm_new_chunk_state)
  have "r = Inr ()" using m'(2) by (cases r) auto
  then show ?thesis using m' by (simp add: SLAB_SENTINEL_def covered_def pages_to_bytes_def)
qed

text \<open>
  C40. \<open>protect\<close> takes the mutex of the mapper and then looks up the slab of the range with a function that takes the same mutex whenever the
  first slot it probes is not the slab. The mutex is not reentrant, so \<open>protect\<close> never returns for a slab that a collision has
  displaced from its home slot, even if all its chunks are mapped.
\<close>

theorem fm_protect_deadlock:
  assumes "start < start + pages_to_bytes pages" "slab_map m ! unat (fm_hash (slab_align_down start)) \<noteq> slab_align_down start"
  shows "fm_protect os start pages m = None"
proof -
  have "get_or_allocate_slab_table True start m = None"
    using assms(2)
    by (simp add: get_or_allocate_slab_table_def get_or_optionally_allocate_slab_table_def slab_align_down_def Let_def)
       (subst get_or_allocate_loop.simps, simp add: vec_get_def)
  then show ?thesis using assms(1) unfolding fm_protect_def by (subst slab_loop.simps) (simp add: Let_def)
qed

text \<open>Mapping the first chunk of a slab that has no entry.\<close>

definition first_chunk :: "address \<Rightarrow> bool" where
  "first_chunk b \<longleftrightarrow> slab_align_down b = b \<and> b < b + pages_to_bytes 1024 \<and>
     slab_high b (b + pages_to_bytes 1024) = b + pages_to_bytes 1024 \<and> fm_chunk_index b b = 0 \<and>
     fm_chunk_index b (mmap_chunk_align_up (b + pages_to_bytes 1024)) = 1"

lemma ensure_first_chunk:
  assumes "fm_inv m" "first_chunk b" "b \<notin> slab_bases m" "free_slab_index m < 1024"
  obtains k where "first_slot m b k" "slab_map m ! probe b k = SLAB_SENTINEL"
    "fm_ensure_mapped os_grants b 1024 m = Some (Inr (), slab_put (probe b k) 0 Mapped (add_slab b (probe b k) m))"
proof -
  have b: "slab_align_down b = b" using assms(2) by (simp add: first_chunk_def)
  obtain k where k: "first_slot m b k" "slab_map m ! probe b k = SLAB_SENTINEL"
      "get_or_allocate_slab_table False b m = Some (probe b k, add_slab b (probe b k) m)"
    using get_or_allocate_absent [OF assms(1), of b] assms(3,4) b by auto
  have "slab_at (probe b k) (add_slab b (probe b k) m) ! 0 = Unmapped"
    using fm_inv_lengths(2) [OF assms(1)] by (simp add: slab_at_def add_slab_fields new_slab_def)
  then have "fm_ensure_mapped os_grants b 1024 m = Some (Inr (), slab_put (probe b k) 0 Mapped (add_slab b (probe b k) m))"
    using assms(2) k(3) unfolding fm_ensure_mapped_def first_chunk_def
    by (subst slab_loop.simps) (simp add: Let_def slab_chunks_def transition_to_mapped_def upt_rec slab_loop.simps [of _ _ "b + _"])
  with k(1,2) show ?thesis by (rule that)
qed

lemma collision:
  "fm_hash 0x200C0000000 = 2" "fm_hash 0x40000000000 = 2" "first_chunk 0x200C0000000" "first_chunk 0x40000000000"
  by code_simp+

lemma first_slot_home: "first_slot m b k \<Longrightarrow> slab_map m ! unat (fm_hash b) = SLAB_SENTINEL \<Longrightarrow> k = 0"
  by (rule ccontr) (auto simp: first_slot_def dest!: spec [of _ 0])

text \<open>A slab of the first space and the first slab of the second space collide.\<close>

theorem fm_protect_deadlock_witness:
  "\<exists>m1 m2. fm_ensure_mapped os_grants 0x200C0000000 1024 fm_new = Some (Inr (), m1) \<and>
     fm_ensure_mapped os_grants 0x40000000000 1024 m1 = Some (Inr (), m2) \<and>
     fm_is_mapped_address 0x40000000000 m2 = Some True \<and> fm_protect os_grants 0x40000000000 1024 m2 = None"
proof -
  let ?a = "0x200C0000000 :: address" and ?b = "0x40000000000 :: address"
  have al: "slab_align_down ?a = ?a" "slab_align_down ?b = ?b" using collision(3,4) by (simp_all add: first_chunk_def)
  obtain k where k: "first_slot fm_new ?a k" "slab_map fm_new ! probe ?a k = SLAB_SENTINEL"
      "fm_ensure_mapped os_grants ?a 1024 fm_new = Some (Inr (), slab_put (probe ?a k) 0 Mapped (add_slab ?a (probe ?a k) fm_new))"
    by (rule ensure_first_chunk [OF fm_new_inv collision(3)]) (auto simp: slab_bases_def fm_new_def)
  have "k = 0" by (rule first_slot_home [OF k(1)]) (simp add: collision fm_new_def)
  then have p: "probe ?a k = 2" by (simp add: collision)
  define m1 where "m1 = slab_put 2 0 Mapped (add_slab ?a 2 fm_new)"
  have map1: "slab_map m1 = (replicate 2048 SLAB_SENTINEL)[2 := ?a]" by (simp add: m1_def slab_put_def add_slab_def fm_new_def)
  have "fm_inv (add_slab ?a 2 fm_new)"
    using add_slab_inv [OF fm_new_inv k(1,2) al(1)] p by (simp add: fm_new_def)
  then have inv1: "fm_inv m1" unfolding m1_def
    by (rule slab_put_inv) (simp_all add: add_slab_fields fm_new_def SLAB_SENTINEL_def)
  have "?b \<notin> slab_bases m1" unfolding slab_bases_def map1 using set_update_subset_insert [of "replicate 2048 SLAB_SENTINEL" 2 ?a]
    by (auto simp: SLAB_SENTINEL_def)
  then obtain j where j: "first_slot m1 ?b j" "slab_map m1 ! probe ?b j = SLAB_SENTINEL"
      "fm_ensure_mapped os_grants ?b 1024 m1 = Some (Inr (), slab_put (probe ?b j) 0 Mapped (add_slab ?b (probe ?b j) m1))"
    by (rule ensure_first_chunk [OF inv1 collision(4)]) (auto simp: m1_def slab_put_def add_slab_def fm_new_def)
  define m2 where "m2 = slab_put (probe ?b j) 0 Mapped (add_slab ?b (probe ?b j) m1)"
  have "probe ?b j \<noteq> 2" using j(2) unfolding map1 by (auto simp: SLAB_SENTINEL_def)
  then have home: "slab_map m2 ! 2 = ?a" unfolding m2_def by (simp add: slab_put_def add_slab_fields map1)
  have inv2: "fm_inv (add_slab ?b (probe ?b j) m1)" "slab_index (add_slab ?b (probe ?b j) m1) ?b = Some (probe ?b j)"
    using add_slab_inv [OF inv1 j(1,2) al(2)] add_slab_index [OF inv1 j(1,2) al(2), of ?b]
    by (auto simp: m1_def slab_put_def add_slab_def fm_new_def SLAB_SENTINEL_def)
  have "chunk_state m2 ?b = Mapped" unfolding m2_def
    using slab_put_chunk_state [OF inv2, of 0 Mapped ?b] al(2) collision(4) by (simp add: first_chunk_def SLAB_SENTINEL_def)
  moreover have "fm_inv m2" unfolding m2_def
    by (rule slab_put_inv [OF inv2(1)]) (use fm_inv_lengths(1) [OF inv1] in \<open>simp_all add: add_slab_fields SLAB_SENTINEL_def\<close>)
  ultimately have "fm_is_mapped_address ?b m2 = Some True" by (simp add: fm_is_mapped_address_state SLAB_SENTINEL_def)
  moreover have "fm_protect os_grants ?b 1024 m2 = None"
    by (rule fm_protect_deadlock) (use al(2) home collision in \<open>simp_all add: first_chunk_def\<close>)
  moreover have "fm_ensure_mapped os_grants ?a 1024 fm_new = Some (Inr (), m1)" using k(3) p by (simp add: m1_def)
  moreover have "fm_ensure_mapped os_grants ?b 1024 m1 = Some (Inr (), m2)" using j(3) by (simp add: m2_def)
  ultimately show ?thesis by blast
qed

end
