(* ===== verification/Spec2Isabelle.thy ===== *)
theory Spec2Isabelle
  imports IntArrayFreeList RawMemoryFreeList SpaceDescriptor HeaderMetadata SideMetadata_Find ObjectForwarding MarkBit
    CycleCollector_Correct WorkerMonitor_Correct FragmentedMapper_Correct
begin

text \<open>
  \<^bold>\<open>A verification library for mmtk-core\<close>

  MMTk is a framework of garbage collectors in Rust. A \<^emph>\<open>plan\<close> (\<open>src/plan\<close>) composes \<^emph>\<open>spaces\<close> (\<open>src/policy\<close>); a space gets
  pages from page resources, which keep them in \<^emph>\<open>free lists\<close> (\<open>src/util\<close>), and keeps what it knows about objects in
  \<^emph>\<open>metadata\<close>, either in the object header or in tables on the side (\<open>src/util/metadata\<close>). A collection is a set of work packets that
  the \<^emph>\<open>workers\<close> of the \<^emph>\<open>scheduler\<close> (\<open>src/scheduler\<close>) execute stage by stage. The plan LXR of this repository counts references
  in side metadata and finds dead cycles by trial deletion. The library models the parts on which the safety of these
  collectors rests: free lists, metadata, marking and forwarding of objects, the memory mapper, reference counts, the large object space, the cycle
  collector and the scheduler.

  \<^bold>\<open>Conventions\<close>

  The model is that of a release build for a 64-bit target with the default features. A \<open>usize\<close> and an address are 64-bit words
  with wrapping arithmetic, an \<open>i32\<close> is an integer wrapped by \<open>i32\<close> (\<open>Mmtk_Prelude\<close>), and assertions of debug builds are left out. A panic,
  an index out of range and a loop that does not end are the value \<open>None\<close>; a theorem that an operation returns says that it is \<open>Some\<close>. Loops
  whose end is not evident are \<open>partial_function (option)\<close>, so that there is no fuel to choose; other loops are functions with
  a termination proof. Memory is a function from addresses to bytes. What a binding of MMTk to a virtual machine implements is
  a parameter: the record \<open>vm_object_model\<close> with the placement of the metadata of objects and the conversions between references and addresses,
  the object graph of the cycle collector, and the answers of the mmap system call. Names are those of the source, with a prefix where
  two files use the same name or where HOL has it (\<open>iafl_\<close>, \<open>rmfl_\<close>, \<open>sm_\<close>, \<open>hdr_\<close>, \<open>los_\<close>, \<open>tm_\<close>, \<open>cs_\<close>, \<open>cc_\<close>, \<open>wb_\<close>, \<open>fm_\<close>). Atomic operations
  that are a load followed by an exchange take the memory at the load and the memory at the exchange as two arguments, so that
  whatever other threads do between the two is covered.

  \<^bold>\<open>Free lists\<close> (\<open>util/freelist.rs\<close>, \<open>util/int_array_freelist.rs\<close>, \<open>util/raw_memory_freelist.rs\<close>)

  \<^item> \<open>FreeList\<close> has the methods of the trait over a record of the four operations that an implementation provides;
    \<open>IntArrayFreeList\<close> and \<open>RawMemoryFreeList\<close> are the two implementations, over a vector shared with a parent and over raw memory
    that grows by blocks.
  \<^item> \<open>FreeList_Fields\<close> and \<open>FreeList_Shape\<close> say what the bits of an entry and the links of a table mean, \<open>FreeList_Refine\<close> has the abstract
    free list (blocks, the order of the free ones, boundaries that may not be joined), and \<open>FreeList_Alloc\<close> shows in the locale \<open>table_store\<close> that
    every method implements its abstract counterpart. The locale is interpreted for both implementations.
  \<^item> The theorems are: held blocks never overlap on any run of a client; allocation and release always return on such runs; first fit,
    best fit, release with coalescing and creation do what the abstract list does; the first growth of a raw list; and that the growth of a
    raw list panics when only a part of the last block fits. A client of an integer-array list allocates by first fit, by best fit or at a given block,
    and releases what it holds; these runs are on a list without a parent.

  \<^bold>\<open>Addresses and spaces\<close> (\<open>util/address.rs\<close>, \<open>util/conversions.rs\<close>, \<open>util/heap/layout/vm_layout.rs\<close>, \<open>util/heap/space_descriptor.rs\<close>)

  \<^item> \<open>Conversions\<close>: alignment gives the nearest aligned address; chunk indices and addresses correspond.
  \<^item> \<open>SpaceDescriptor\<close>: start and extent of a space come back from its descriptor, for both layouts.

  \<^bold>\<open>Memory mapper\<close> (\<open>util/heap/layout/mmapper.rs\<close>, \<open>util/heap/layout/fragmented_mapper.rs\<close>, \<open>util/rust_util/rev_group.rs\<close>)

  \<^item> \<open>Mmapper\<close>: the states of a chunk and their transitions; the iterator over groups of adjacent chunks in the same state; quarantining in bulk by these groups has the outcome of quarantining
    chunk by chunk, if the operating system reserves a range exactly when it would reserve each chunk of it. The functions of \<open>util/memory.rs\<close>
    that end in a system call are the record \<open>memory_calls\<close>.
  \<^item> \<open>FragmentedMapper\<close>: the hash table of slabs with all operations. \<open>FragmentedMapper_Correct\<close>: its invariant \<open>fm_inv\<close>, the abstract state
    \<open>chunk_state\<close>, that \<open>ensure_mapped\<close> maps exactly the chunks of its range, and that \<open>protect\<close> can wait for its own mutex. The mutex is a flag that says
    whether the caller holds it.

  \<^bold>\<open>Metadata\<close> (\<open>util/metadata\<close>)

  \<^item> \<open>MetadataValue\<close>: byte-addressed memory and the number types of metadata. \<open>HeaderMetadata\<close>: every access of a header field.
    \<open>SideMetadata_Layout\<close>, \<open>SideMetadata\<close>, \<open>SideMetadata_Ranges\<close>, \<open>SideMetadata_Bulk\<close>, \<open>SideMetadata_Search\<close>, \<open>SideMetadata_Find\<close>, \<open>SideTables\<close>:
    the tables on the side, with address translation, accesses, bulk updates and searches. \<open>MetadataSpec\<close>: the accesses that dispatch on the
    place of the metadata, with the locale \<open>metadata_access\<close>, which is interpreted for header metadata, for side metadata and for
    a specification of either kind.
  \<^item> The theorems are: what is stored is read back and nothing else changes, compare-and-exchange is atomic under interference, bulk
    updates change exactly the regions of their range, the fast search agrees with the simple one, the tables of the collector
    do not overlap, and the places where the code departs from this.

  \<^bold>\<open>Objects\<close> (\<open>util/metadata/mark_bit.rs\<close>, \<open>policy/immortalspace.rs\<close>, \<open>util/object_forwarding.rs\<close>, \<open>policy/copyspace.rs\<close>, \<open>policy/immix/line.rs\<close>,
    \<open>util/rc.rs\<close>, \<open>policy/largeobjectspace.rs\<close>, \<open>util/treadmill.rs\<close>)

  \<^item> \<open>MarkBit\<close>: a cycle of the immortal space enqueues every reached object once and leaves the reached objects, and new ones, unmarked for the
    next one.
  \<^item> \<open>ObjectForwarding\<close>: the threads that trace an object are a step relation whose steps are the atomic accesses of the code. At most one thread
    copies, all threads return the same object, and they can always return.
  \<^item> \<open>ImmixLine\<close>: marking the lines of an object marks exactly the lines that it touches.
  \<^item> \<open>RefCount\<close>: the count table is a table of saturating counters under any interleaving of operations, with the result of each; straddle marks.
  \<^item> \<open>LargeObjectSpace\<close>: without log bits a full cycle keeps the visited objects and releases the pages of the others, and a nursery cycle does
    so for young objects; with log bits a cycle that drops an object panics.

  \<^bold>\<open>Cycle collector\<close> (\<open>plan/lxr/gc_work.rs\<close>, \<open>plan/lxr/stack.rs\<close>)

  \<^item> \<open>ChunkedStack\<close> implements a stack (locale \<open>lifo_stack\<close>). \<open>CycleCollector\<close> is the work packet, \<open>CycleCollector_Graph\<close> the graph and the trial
    counts, \<open>CycleCollector_Phases\<close> the invariants of marking, scanning and restoring, and \<open>CycleCollector_Correct\<close> the theorem: the packet
    returns, frees exactly the marked objects that nothing outside keeps alive, and leaves the counts of the others right.

  \<^bold>\<open>Scheduler\<close> (\<open>scheduler\<close>, \<open>plan/gc_requester.rs\<close>)

  \<^item> \<open>WorkBucket\<close>: buckets, sentinels and the opening of stages, with the invariant \<open>sched_ok\<close> of the scheduler; \<open>update_buckets\<close> opens exactly the stages up to
    the first one with work.
  \<^item> \<open>WorkerMonitor\<close>: goals, parking, the last parked worker, requests and forking, as a step relation of workers and mutators whose steps are
    the critical sections of the monitor, single polls of queues, and single calls of packets on the scheduler. \<open>WorkerMonitor_Inv\<close> has the invariant
    \<open>gc_inv\<close> and that every step but parking keeps it; \<open>WorkerMonitor_Correct\<close> has parking and the theorems: the scheduler is well formed in every
    reachable state, no wake-up is lost, parking does not panic, and a collection ends only when its work is done. That no wake-up is lost and how a collection
    ends hold when mutators add packets to closed buckets only. Two theorems are on packets that are left behind: there is a run in which a mutator adds to the open bucket and
    all workers wait, and with one worker every collection with postponed packets ends with the worker waiting.

  \<^bold>\<open>Not modelled\<close>

  Plans, barriers and concurrent marking, the immix and mark-sweep spaces beyond what is named above, page resources and the maps of spaces
  (\<open>map32.rs\<close>, \<open>map64.rs\<close>), allocators, reference and finalizer processing, options and statistics. They are compositions through trait objects, rest on system
  calls and locks of the process, or measure. Work packets are opaque to the scheduler: an executing packet makes any sequence of calls on it.
  Memory orderings are taken as sequentially consistent. The 32-bit side tables and the features that the default build leaves out
  are not modelled.
\<close>

end
